(* ===== verification/Prelude.thy ===== *)
theory Prelude
  imports Main "HOL-Library.Word" "HOL-Library.Multiset"
begin

text \<open>
  Shared vocabulary of the development.

  The kernel code is read at the LP64 data model: \<open>unsigned int\<close> is a 32-bit word, \<open>unsigned
  long\<close> and every pointer is a 64-bit word, a C \<open>int\<close> that is only compared, incremented and
  decremented is a HOL \<^typ>\<open>int\<close> inside the range of \<open>int\<close> (the conversions between the two
  are written out).  Kernel error codes are the negative integers of \<open>asm/errno.h\<close>.
\<close>

unbundle bit_operations_syntax

type_synonym u8 = "8 word"
type_synonym u32 = "32 word"
type_synonym u64 = "64 word"

text \<open>Addresses; the null pointer is 0.\<close>
type_synonym ptr = "64 word"

abbreviation NULL :: ptr where
  "NULL \<equiv> 0"

section \<open>Collections of rewrite rules\<close>

named_theorems seq_simps \<open>sequence numbers and ring indices\<close>
named_theorems entry_simps \<open>fields of log entries\<close>
named_theorems heap_simps \<open>reads after writes in a pointer store\<close>
named_theorems inv_intros \<open>preservation of component invariants\<close>

section \<open>Error codes\<close>

abbreviation EIO :: int where "EIO \<equiv> 5"
abbreviation EAGAIN :: int where "EAGAIN \<equiv> 11"
abbreviation ENOMEM :: int where "ENOMEM \<equiv> 12"
abbreviation EFAULT :: int where "EFAULT \<equiv> 14"
abbreviation EINVAL :: int where "EINVAL \<equiv> 22"
abbreviation ENOSPC :: int where "ENOSPC \<equiv> 28"
abbreviation ENODATA :: int where "ENODATA \<equiv> 61"
abbreviation EOVERFLOW :: int where "EOVERFLOW \<equiv> 75"

text \<open>
  What stops a kernel thread: a failed assertion (\<open>BUG_ON\<close>), the use of a pointer that points
  to nothing, or, where a loop that may never end is called from code that is total otherwise,
  a loop that does not return.
\<close>
datatype fault = BUG | BAD_POINTER | HANG

section \<open>Signed readings of words\<close>

text \<open>The value of an \<open>int\<close> expression after wrap-around at 32 bits.\<close>

definition wrap_int :: "int \<Rightarrow> int" where
  "wrap_int x = sint (word_of_int x :: u32)"

lemma wrap_int_id: "- (2 ^ 31) \<le> x \<Longrightarrow> x < 2 ^ 31 \<Longrightarrow> wrap_int x = x"
  by (simp add: wrap_int_def signed_of_int signed_take_bit_int_eq_self)

lemma sint_u32: "sint (x :: u32) = (if uint x < 2 ^ 31 then uint x else uint x - 2 ^ 32)"
proof -
  have b: "uint x < 2 ^ 32" using unsigned_less [of x] by simp
  have e: "sint x = (uint x + 2 ^ 31) mod 2 ^ 32 - 2 ^ 31"
    using int_word_sint [where 'a = 32, of "uint x"] by simp
  show ?thesis
  proof (cases "uint x < 2 ^ 31")
    case True
    then have "(uint x + 2 ^ 31) mod 2 ^ 32 = uint x + 2 ^ 31"
      by (intro mod_pos_pos_trivial) simp_all
    with e True show ?thesis by simp
  next
    case False
    have "(uint x + 2 ^ 31) mod 2 ^ 32 = (uint x + 2 ^ 31 - 2 ^ 32) mod 2 ^ 32"
      by (simp only: minus_mod_self2)
    also have "\<dots> = uint x + 2 ^ 31 - 2 ^ 32"
      using False b by (intro mod_pos_pos_trivial) simp_all
    finally show ?thesis using False e by simp
  qed
qed

lemma uint_minus_u32: "x \<noteq> 0 \<Longrightarrow> uint (- x :: u32) = 2 ^ 32 - uint x"
proof -
  assume "x \<noteq> 0"
  then have "uint x \<noteq> 0" by (simp add: unsigned_eq_0_iff)
  moreover have "uint x mod 2 ^ 32 = uint x"
    using unsigned_less [of x] by (intro mod_pos_pos_trivial) simp_all
  ultimately show ?thesis
    by (simp add: uint_word_ariths zmod_zminus1_eq_if)
qed

lemma ucast_diff_u32: "(ucast (x - y :: u64) :: u32) = word_of_int (uint x - uint y)"
proof (transfer)
  fix x y :: int
  show "take_bit LENGTH(32) (take_bit LENGTH(64) (x - y)) =
     take_bit LENGTH(32) (take_bit LENGTH(64) x - take_bit LENGTH(64) y)"
    by (simp add: take_bit_diff [symmetric, where n = 32, of "take_bit 64 x" "take_bit 64 y"] take_bit_diff)
qed

section \<open>Bit fields in a 64-bit word\<close>

lemma take_bit_id_u64: "v < 2 ^ n \<Longrightarrow> n < 64 \<Longrightarrow> take_bit n (v :: u64) = v"
  by (simp add: take_bit_eq_mod mod_word_less)
lemma push_add_or:
  fixes a v :: u64
  assumes "take_bit n v = v"
  shows "push_bit n a + v = push_bit n a OR v"
proof -
  have "push_bit n a AND take_bit n v = 0"
    by (rule bit_eqI) (auto simp: bit_simps)
  with assms show ?thesis by (simp add: disjunctive_add_eq_or)
qed

section \<open>Positions modulo a ring size\<close>

lemma add_mod_inj_le:
  fixes a i j m :: nat
  assumes "j < m" and "i \<le> j" and "(a + i) mod m = (a + j) mod m"
  shows "i = j"
proof -
  from assms(2,3) have "m dvd (a + j) - (a + i)"
    by (metis mod_eq_dvd_iff_nat nat_add_left_cancel_le)
  then have "m dvd j - i" by simp
  moreover have "j - i < m" using assms(1) by simp
  ultimately have "j - i = 0" by (metis gr0I nat_dvd_not_less)
  with assms(2) show ?thesis by simp
qed

lemma add_mod_inj:
  fixes a i j m :: nat
  assumes "i < m" and "j < m" and "(a + i) mod m = (a + j) mod m"
  shows "i = j"
  using assms add_mod_inj_le [of j m i a] add_mod_inj_le [of i m j a] by (metis nle_le)

section \<open>Options\<close>

lemma option_eqI: "(\<And>v. x = Some v \<longleftrightarrow> y = Some v) \<Longrightarrow> x = y"
  by (cases x; cases y) auto

section \<open>Sequencing of steps that may fault\<close>

definition and_then :: "'e + 'a \<Rightarrow> ('a \<Rightarrow> 'e + 'b) \<Rightarrow> 'e + 'b" where
  "and_then x f = (case x of Inl e \<Rightarrow> Inl e | Inr a \<Rightarrow> f a)"

lemma and_then_simps [simp]:
  "and_then (Inl e) f = Inl e"
  "and_then (Inr a) f = f a"
  by (simp_all add: and_then_def)

lemma and_then_cong [fundef_cong]:
  "x = y \<Longrightarrow> (\<And>a. y = Inr a \<Longrightarrow> f a = g a) \<Longrightarrow> and_then x f = and_then y g"
  by (cases y) simp_all

lemma and_then_Inr: "and_then x f = Inr b \<longleftrightarrow> (\<exists>a. x = Inr a \<and> f a = Inr b)"
  by (cases x) simp_all

lemma and_then_if: "and_then (if P then x else y) f = (if P then and_then x f else and_then y f)"
  by simp

lemma and_then_assoc: "and_then (and_then x f) g = and_then x (\<lambda>a. and_then (f a) g)"
  by (cases x) simp_all

end
