(* ===== verification/Log_Entry.thy ===== *)
theory Log_Entry
  imports Prelude
begin

text \<open>
  The log entry of \<^verbatim>\<open>ada_log.h\<close>: \<open>struct log_entry\<close>, its bit-packed accessors, the order
  \<open>le_cmp\<close> the sorter uses, and the arithmetic of log sequence numbers.

  An entry packs two values into each of two words: \<open>le_pgi\<close> is the page index shifted by 8 with
  the version in the low byte, \<open>le_flags\<close> the flag bits shifted by 16 with the length of the
  valid data in the low 16 bits.  The macro \<open>le_pgi(le)\<close> reads the page index out of the field
  of the same name, so the fields are called \<open>f_ino\<close>, \<open>f_pgi\<close>, \<open>f_flags\<close> and \<open>f_ref\<close> here.
\<close>

section \<open>Sequence numbers and ring indices\<close>

definition LOG_LEN :: u32 where
  "LOG_LEN = 32768"

definition LOG_MASK :: u32 where
  "LOG_MASK = 32767"

definition L_INDEX :: "u32 \<Rightarrow> nat" where
  "L_INDEX p = unat (p AND LOG_MASK)"

definition seq_dist :: "u32 \<Rightarrow> u32 \<Rightarrow> u32" where
  "seq_dist a b = b - a"

definition seq_less :: "u32 \<Rightarrow> u32 \<Rightarrow> bool" where
  "seq_less a b \<longleftrightarrow> sint (a - b) < 0"

definition seq_ng :: "u32 \<Rightarrow> u32 \<Rightarrow> bool" where
  "seq_ng a b \<longleftrightarrow> sint (a - b) \<le> 0"

definition L_NULL :: u32 where
  "L_NULL = NOT 0"

section \<open>Fields of an entry\<close>

record log_entry =
  f_ino :: u64
  f_pgi :: u64
  f_flags :: u64
  f_ref :: ptr

definition LE_INVAL_INO :: u64 where
  "LE_INVAL_INO = NOT 0"

definition LE_PGI_SHIFT :: nat where
  "LE_PGI_SHIFT = 8"

definition LE_PGI_MASK :: u64 where
  "LE_PGI_MASK = 0xFF"

definition PAGE_CACHE_SHIFT :: nat where
  "PAGE_CACHE_SHIFT = 12"

definition PAGE_CACHE_SIZE :: u64 where
  "PAGE_CACHE_SIZE = push_bit PAGE_CACHE_SHIFT 1"

definition LE_FLAGS_SHIFT :: nat where
  "LE_FLAGS_SHIFT = PAGE_CACHE_SHIFT + 4"

definition LE_LEN_SIZE :: u64 where
  "LE_LEN_SIZE = push_bit 4 PAGE_CACHE_SIZE"

definition LE_FLAG_MASK :: u64 where
  "LE_FLAG_MASK = LE_LEN_SIZE - 1"

definition LE_LEN_MASK :: u64 where
  "LE_LEN_MASK = NOT LE_FLAG_MASK"

definition LE_META_SETTER :: u64 where
  "LE_META_SETTER = push_bit LE_FLAGS_SHIFT 1"

definition LE_META_CLEAR :: u64 where
  "LE_META_CLEAR = NOT LE_META_SETTER"

definition LE_COW_SETTER :: u64 where
  "LE_COW_SETTER = push_bit 1 LE_META_SETTER"

definition LE_COW_CLEAR :: u64 where
  "LE_COW_CLEAR = NOT LE_COW_SETTER"

definition le_ino :: "log_entry \<Rightarrow> u64" where
  "le_ino le = f_ino le"

definition le_set_ino :: "log_entry \<Rightarrow> u64 \<Rightarrow> log_entry" where
  "le_set_ino le ino = le\<lparr>f_ino := ino\<rparr>"

definition le_inval :: "log_entry \<Rightarrow> bool" where
  "le_inval le \<longleftrightarrow> le_ino le = LE_INVAL_INO"

definition le_valid :: "log_entry \<Rightarrow> bool" where
  "le_valid le \<longleftrightarrow> \<not> le_inval le"

definition le_set_inval :: "log_entry \<Rightarrow> log_entry" where
  "le_set_inval le = le_set_ino le LE_INVAL_INO"

definition le_pgi :: "log_entry \<Rightarrow> u64" where
  "le_pgi le = drop_bit LE_PGI_SHIFT (f_pgi le)"

definition le_init_pgi :: "log_entry \<Rightarrow> u64 \<Rightarrow> log_entry" where
  "le_init_pgi le pgi = le\<lparr>f_pgi := push_bit LE_PGI_SHIFT pgi + 1\<rparr>"

definition le_ver :: "log_entry \<Rightarrow> u64" where
  "le_ver le = f_pgi le AND LE_PGI_MASK"

definition le_set_ver :: "log_entry \<Rightarrow> u64 \<Rightarrow> log_entry" where
  "le_set_ver le v = le\<lparr>f_pgi := f_pgi le + (v - le_ver le)\<rparr>"

definition le_len :: "log_entry \<Rightarrow> u64" where
  "le_len le = f_flags le AND LE_FLAG_MASK"

definition le_init_len :: "log_entry \<Rightarrow> u64 \<Rightarrow> log_entry" where
  "le_init_len le l = le\<lparr>f_flags := l\<rparr>"

definition le_set_len :: "log_entry \<Rightarrow> u64 \<Rightarrow> log_entry" where
  "le_set_len le l = le\<lparr>f_flags := (f_flags le AND LE_LEN_MASK) + l\<rparr>"

definition le_flags :: "log_entry \<Rightarrow> u64" where
  "le_flags le = drop_bit LE_FLAGS_SHIFT (f_flags le)"

definition le_meta :: "log_entry \<Rightarrow> bool" where
  "le_meta le \<longleftrightarrow> f_flags le AND LE_META_SETTER \<noteq> 0"

definition le_set_meta :: "log_entry \<Rightarrow> log_entry" where
  "le_set_meta le = le\<lparr>f_flags := f_flags le OR LE_META_SETTER\<rparr>"

definition le_set_data :: "log_entry \<Rightarrow> log_entry" where
  "le_set_data le = le\<lparr>f_flags := f_flags le AND LE_META_CLEAR\<rparr>"

definition le_cow :: "log_entry \<Rightarrow> bool" where
  "le_cow le \<longleftrightarrow> f_flags le AND LE_COW_SETTER \<noteq> 0"

definition le_set_cow :: "log_entry \<Rightarrow> log_entry" where
  "le_set_cow le = le\<lparr>f_flags := f_flags le OR LE_COW_SETTER\<rparr>"

definition le_clear_cow :: "log_entry \<Rightarrow> log_entry" where
  "le_clear_cow le = le\<lparr>f_flags := f_flags le AND LE_COW_CLEAR\<rparr>"

definition le_page :: "log_entry \<Rightarrow> ptr" where
  "le_page le = f_ref le"

definition le_set_ref :: "log_entry \<Rightarrow> ptr \<Rightarrow> log_entry" where
  "le_set_ref le r = le\<lparr>f_ref := r\<rparr>"

definition LE_INITIALIZER :: log_entry where
  "LE_INITIALIZER = \<lparr>f_ino = 0, f_pgi = 0, f_flags = 0, f_ref = NULL\<rparr>"

text \<open>
  The comparison returns \<open>a->le_pgi - b->le_pgi\<close>, an \<open>unsigned long\<close>, as an \<open>int\<close>: the low 32
  bits, read in two's complement.
\<close>

definition le_cmp :: "log_entry \<Rightarrow> log_entry \<Rightarrow> int" where
  "le_cmp a b =
     (if le_ino a < le_ino b then -1
      else if le_ino a = le_ino b then sint (ucast (f_pgi a - f_pgi b) :: u32)
      else 1)"

text \<open>
  The order the sorter is meant to produce: by inode number, then by page index and version, which
  share the word \<open>le_pgi\<close>; and the range of \<open>le_pgi\<close> in which the difference of two fits an
  \<open>int\<close> (page indices below $2^{23}$, that is files below 32 GB).
\<close>

definition key_le :: "log_entry \<Rightarrow> log_entry \<Rightarrow> bool" where
  "key_le a b \<longleftrightarrow> f_ino a < f_ino b \<or> f_ino a = f_ino b \<and> f_pgi a \<le> f_pgi b"

definition small_pgi :: "log_entry \<Rightarrow> bool" where
  "small_pgi le \<longleftrightarrow> f_pgi le < 2 ^ 31"

section \<open>Lemmas: sequence numbers\<close>

lemma L_INDEX_mod [seq_simps]: "L_INDEX p = unat p mod 32768"
proof -
  have "p AND LOG_MASK = p mod 32768"
    by (simp add: LOG_MASK_def take_bit_eq_mask mask_eq_exp_minus_1
        flip: take_bit_eq_mod [where n = 15, simplified])
  then show ?thesis
    by (simp add: L_INDEX_def unat_mod_distrib)
qed

lemma L_INDEX_less: "L_INDEX p < unat LOG_LEN"
  by (simp add: L_INDEX_mod LOG_LEN_def)

lemma L_INDEX_add [seq_simps]: "L_INDEX (b + of_nat i) = (unat b + i) mod 32768"
proof -
  have d: "(32768::nat) dvd 2 ^ 32" by simp
  have "unat (b + of_nat i) = (unat b + i) mod 2 ^ 32"
    by (simp add: unat_word_ariths unat_of_nat mod_simps)
  then show ?thesis
    by (simp only: L_INDEX_mod mod_mod_cancel [OF d])
qed

lemma L_INDEX_inj:
  assumes "i < 32768" and "j < 32768" and "L_INDEX (b + of_nat i) = L_INDEX (b + of_nat j)"
  shows "i = j"
  using assms by (auto simp: L_INDEX_add intro: add_mod_inj)

lemma seq_less_dist:
  assumes "uint (seq_dist a b) \<le> 2 ^ 31"
  shows "seq_less a b \<longleftrightarrow> a \<noteq> b"
proof (cases "a = b")
  case False
  then have nz: "b - a \<noteq> 0" by simp
  have "uint (a - b) = 2 ^ 32 - uint (b - a)"
    using uint_minus_u32 [OF nz] by simp
  moreover have "0 < uint (b - a)" using nz by (metis less_le unsigned_eq_0_iff unsigned_greater_eq)
  ultimately show ?thesis
    using False assms by (simp add: seq_less_def seq_dist_def sint_u32)
qed (simp add: seq_less_def)

lemma seq_ng_dist: "uint (seq_dist a b) \<le> 2 ^ 31 \<Longrightarrow> seq_ng a b"
  using seq_less_dist [of a b] by (auto simp: seq_less_def seq_ng_def)

lemma seq_not_less_dist: "uint (seq_dist b a) < 2 ^ 31 \<Longrightarrow> \<not> seq_less a b"
  by (simp add: seq_less_def seq_dist_def sint_u32)

section \<open>Lemmas: packed fields\<close>

text \<open>The packed fields, read bit by bit.\<close>

lemma le_pgi_bits [entry_simps]: "le_pgi le = drop_bit 8 (f_pgi le)"
  by (simp add: le_pgi_def LE_PGI_SHIFT_def)

lemma le_ver_bits [entry_simps]: "le_ver le = take_bit 8 (f_pgi le)"
  by (simp add: le_ver_def LE_PGI_MASK_def take_bit_eq_mask mask_eq_exp_minus_1)

lemma LE_FLAG_MASK_mask: "LE_FLAG_MASK = mask 16"
  by (simp add: LE_FLAG_MASK_def LE_LEN_SIZE_def PAGE_CACHE_SIZE_def PAGE_CACHE_SHIFT_def mask_eq_exp_minus_1)

lemma le_len_bits [entry_simps]: "le_len le = take_bit 16 (f_flags le)"
  by (simp add: le_len_def LE_FLAG_MASK_mask take_bit_eq_mask)

lemma LE_META_SETTER_exp: "LE_META_SETTER = 2 ^ 16"
  by (simp add: LE_META_SETTER_def LE_FLAGS_SHIFT_def PAGE_CACHE_SHIFT_def)

lemma LE_COW_SETTER_exp: "LE_COW_SETTER = 2 ^ 17"
  by (simp add: LE_COW_SETTER_def LE_META_SETTER_exp)

lemma and_exp_nonzero: "(x :: u64) AND 2 ^ n \<noteq> 0 \<longleftrightarrow> bit x n"
  by (simp add: and_exp_eq_0_iff_not_bit)

lemma le_meta_bits [entry_simps]: "le_meta le \<longleftrightarrow> bit (f_flags le) 16"
  by (simp only: le_meta_def LE_META_SETTER_exp and_exp_nonzero)

lemma le_cow_bits [entry_simps]: "le_cow le \<longleftrightarrow> bit (f_flags le) 17"
  by (simp only: le_cow_def LE_COW_SETTER_exp and_exp_nonzero)

lemma f_pgi_le_set_ver: "f_pgi (le_set_ver le v) = push_bit 8 (le_pgi le) + v"
proof -
  have "f_pgi le - take_bit 8 (f_pgi le) = push_bit 8 (drop_bit 8 (f_pgi le))"
    by (metis add_diff_cancel_right' bits_ident)
  then show ?thesis by (simp add: le_set_ver_def entry_simps)
qed

lemma le_set_ver_pgi: "v < 2 ^ 8 \<Longrightarrow> le_pgi (le_set_ver le v) = le_pgi le"
  and le_set_ver_ver: "v < 2 ^ 8 \<Longrightarrow> le_ver (le_set_ver le v) = v"
proof -
  assume v: "v < 2 ^ 8"
  then have t: "take_bit 8 v = v" by (intro take_bit_id_u64) simp_all
  have f: "f_pgi (le_set_ver le v) = push_bit 8 (le_pgi le) OR take_bit 8 v"
    using t by (simp add: f_pgi_le_set_ver push_add_or)
  show "le_pgi (le_set_ver le v) = le_pgi le"
    unfolding le_pgi_bits f by (rule bit_eqI) (auto simp: bit_simps le_pgi_bits dest: bit_imp_le_length)
  have "le_ver (le_set_ver le v) = take_bit 8 v"
    unfolding le_ver_bits f by (rule bit_eqI) (auto simp: bit_simps)
  then show "le_ver (le_set_ver le v) = v" by (simp add: t)
qed

lemma le_set_ver_overflow:
  "le_pgi (le_set_ver le 256) = take_bit 56 (le_pgi le + 1)"
  "le_ver (le_set_ver le 256) = 0"
proof -
  have f: "f_pgi (le_set_ver le 256) = push_bit 8 (le_pgi le + 1)"
    by (simp add: f_pgi_le_set_ver push_bit_add)
  show "le_pgi (le_set_ver le 256) = take_bit 56 (le_pgi le + 1)"
    unfolding le_pgi_bits f by (rule bit_eqI) (auto simp: bit_simps le_pgi_bits)
  show "le_ver (le_set_ver le 256) = 0"
    unfolding le_ver_bits f by (rule bit_eqI) (auto simp: bit_simps)
qed

lemma le_init_pgi_pgi: "pgi < 2 ^ 56 \<Longrightarrow> le_pgi (le_init_pgi le pgi) = pgi"
  and le_init_pgi_ver: "le_ver (le_init_pgi le pgi) = 1"
proof -
  have f: "f_pgi (le_init_pgi le pgi) = push_bit 8 pgi OR take_bit 8 1"
    by (simp add: le_init_pgi_def LE_PGI_SHIFT_def push_add_or)
  show "le_ver (le_init_pgi le pgi) = 1"
    unfolding le_ver_bits f by (rule bit_eqI) (auto simp: bit_simps)
  assume "pgi < 2 ^ 56"
  then have t: "take_bit 56 pgi = pgi" by (intro take_bit_id_u64) simp_all
  have "le_pgi (le_init_pgi le pgi) = take_bit 56 pgi"
    unfolding le_pgi_bits f by (rule bit_eqI) (auto simp: bit_simps)
  then show "le_pgi (le_init_pgi le pgi) = pgi" by (simp add: t)
qed

lemma f_flags_le_set_len:
  assumes "l < 2 ^ 16"
  shows "f_flags (le_set_len le l) = push_bit 16 (drop_bit 16 (f_flags le)) OR take_bit 16 l"
proof -
  have t: "take_bit 16 l = l" using assms by (intro take_bit_id_u64) simp_all
  have "f_flags le AND LE_LEN_MASK = push_bit 16 (drop_bit 16 (f_flags le))"
    unfolding LE_LEN_MASK_def LE_FLAG_MASK_mask by (rule bit_eqI) (auto simp: bit_simps)
  then show ?thesis by (simp add: le_set_len_def push_add_or t)
qed

lemma le_set_len_len: "l < 2 ^ 16 \<Longrightarrow> le_len (le_set_len le l) = l"
  and le_set_len_meta: "l < 2 ^ 16 \<Longrightarrow> le_meta (le_set_len le l) = le_meta le"
  and le_set_len_cow: "l < 2 ^ 16 \<Longrightarrow> le_cow (le_set_len le l) = le_cow le"
proof -
  assume l: "l < 2 ^ 16"
  note f = f_flags_le_set_len [OF l]
  have t: "take_bit 16 l = l" using l by (intro take_bit_id_u64) simp_all
  have "le_len (le_set_len le l) = take_bit 16 l"
    unfolding le_len_bits f by (rule bit_eqI) (auto simp: bit_simps)
  then show "le_len (le_set_len le l) = l" by (simp add: t)
  show "le_meta (le_set_len le l) = le_meta le" and "le_cow (le_set_len le l) = le_cow le"
    unfolding le_meta_bits le_cow_bits f by (auto simp: bit_simps)
qed

section \<open>Lemmas: the order\<close>

lemma le_cmp_same_ino:
  assumes "le_ino a = le_ino b" and "f_pgi a < 2 ^ 31" and "f_pgi b < 2 ^ 31"
  shows "le_cmp a b = uint (f_pgi a) - uint (f_pgi b)"
proof -
  have "uint (f_pgi a) < 2 ^ 31" and "uint (f_pgi b) < 2 ^ 31"
    using assms(2,3) by (simp_all add: word_less_def)
  moreover have "0 \<le> uint (f_pgi a)" and "0 \<le> uint (f_pgi b)" by simp_all
  ultimately have "wrap_int (uint (f_pgi a) - uint (f_pgi b)) = uint (f_pgi a) - uint (f_pgi b)"
    by (intro wrap_int_id) linarith+
  with assms(1) show ?thesis
    by (simp add: le_cmp_def ucast_diff_u32 wrap_int_def)
qed

lemma le_cmp_le:
  assumes "small_pgi a" and "small_pgi b"
  shows "le_cmp a b \<le> 0 \<longleftrightarrow> key_le a b"
proof (cases "le_ino a = le_ino b")
  case True
  with assms show ?thesis
    by (simp add: le_cmp_same_ino small_pgi_def key_le_def le_ino_def word_le_def)
qed (auto simp: le_cmp_def key_le_def le_ino_def)

lemma le_cmp_ge:
  assumes "small_pgi a" and "small_pgi b"
  shows "0 \<le> le_cmp a b \<longleftrightarrow> key_le b a"
proof (cases "le_ino a = le_ino b")
  case True
  with assms show ?thesis
    by (simp add: le_cmp_same_ino small_pgi_def key_le_def le_ino_def word_le_def)
qed (auto simp: le_cmp_def key_le_def le_ino_def)

lemma key_le_refl [simp]: "key_le a a"
  by (simp add: key_le_def)
lemma key_le_trans: "key_le a b \<Longrightarrow> key_le b c \<Longrightarrow> key_le a c"
  by (auto simp: key_le_def)
lemma key_le_linear: "key_le a b \<or> key_le b a"
  by (auto simp: key_le_def)

text \<open>Beyond that range the truncated difference has the wrong sign.\<close>

lemma le_cmp_truncated:
  assumes "le_ino a = le_ino b" and "f_pgi a = 2 ^ 31" and "f_pgi b = 0"
  shows "le_cmp a b < 0"
  using assms by (simp add: le_cmp_def)

end
