(* ===== verification/Log.thy ===== *)
theory Log
  imports Log_Entry
begin

text \<open>
  The circular log of \<^verbatim>\<open>ada_log.h\<close>: \<open>struct tran_stat\<close>, \<open>struct transaction\<close>, \<open>struct
  adafs_log\<close> and the operations on them.  A log holds \<open>LOG_LEN\<close> slots addressed by 32-bit
  sequence numbers that only grow and wrap around; \<open>[l_begin, l_end)\<close> is the live window, the
  entries of \<open>[l_head, l_end)\<close> belong to no sealed transaction yet.  \<open>l_trans\<close> is the list of
  transactions, oldest first, and its last element is the open one.

  The slot array is a function from slot numbers to entries that is only ever applied to the result
  of \<open>L_INDEX\<close>, which is a slot number below \<open>LOG_LEN\<close>.  The transaction list is the list that the
  \<open>list_head\<close> chain represents.  Each operation that takes \<open>l_tlock\<close> is one atomic
  step.  The \<open>kobject\<close>, the locks and the allocation of memory are not represented.
\<close>

section \<open>Data\<close>

record tran_stat =
  merg_size :: u64
  staleness :: u64
  stat_length :: u64

record transaction =
  stat :: tran_stat
  t_begin :: u32
  t_end :: u32

record adafs_log =
  l_entries :: "nat \<Rightarrow> log_entry"
  l_begin :: u32
  l_head :: u32
  l_end :: u32
  l_trans :: "transaction list"

section \<open>Operations\<close>

definition init_stat :: tran_stat where
  "init_stat = \<lparr>merg_size = 0, staleness = 0, stat_length = 0\<rparr>"

definition new_tran :: transaction where
  "new_tran = \<lparr>stat = init_stat, t_begin = 0, t_end = 0\<rparr>"

definition is_tran_open :: "transaction \<Rightarrow> bool" where
  "is_tran_open tran \<longleftrightarrow> t_begin tran = t_end tran"

definition L_ENT :: "adafs_log \<Rightarrow> u32 \<Rightarrow> log_entry" where
  "L_ENT log i = l_entries log (L_INDEX i)"

definition L_ENT_upd :: "adafs_log \<Rightarrow> u32 \<Rightarrow> log_entry \<Rightarrow> adafs_log" where
  "L_ENT_upd log i le = log\<lparr>l_entries := (l_entries log)(L_INDEX i := le)\<rparr>"

definition log_add_tran :: "adafs_log \<Rightarrow> transaction \<Rightarrow> adafs_log" where
  "log_add_tran log tran = log\<lparr>l_trans := l_trans log @ [tran]\<rparr>"

definition log_tail_tran :: "adafs_log \<Rightarrow> transaction" where
  "log_tail_tran log = last (l_trans log)"

text \<open>A write through the pointer \<open>__log_tail_tran(log)\<close>.\<close>

definition log_tail_upd :: "adafs_log \<Rightarrow> (transaction \<Rightarrow> transaction) \<Rightarrow> adafs_log" where
  "log_tail_upd log f = log\<lparr>l_trans := butlast (l_trans log) @ [f (log_tail_tran log)]\<rparr>"

text \<open>\<open>log_init\<close> leaves the slots of the freshly allocated log as they are.\<close>

definition log_init :: "adafs_log \<Rightarrow> adafs_log" where
  "log_init log =
     log_add_tran (log\<lparr>l_begin := 0, l_end := 0, l_head := 0, l_trans := []\<rparr>) new_tran"

definition new_log :: "adafs_log \<Rightarrow> adafs_log" where
  "new_log mem = log_init mem"

definition do_log_seal :: "adafs_log \<Rightarrow> int \<times> adafs_log" where
  "do_log_seal log =
     (if l_head log = l_end log then (- ENODATA, log)
      else
        let log1 = log_tail_upd log (\<lambda>tran. tran\<lparr>t_begin := l_head log, t_end := l_end log\<rparr>)
        in (0, log1\<lparr>l_head := l_end log\<rparr>))"

definition log_seal :: "adafs_log \<Rightarrow> int \<times> adafs_log" where
  "log_seal log =
     (let (err, log1) = do_log_seal log
      in (err, if err = 0 then log_add_tran log1 new_tran else log1))"

text \<open>The second component is the value stored through \<open>le_seq\<close>, if any.\<close>

definition log_append :: "adafs_log \<Rightarrow> log_entry \<Rightarrow> int \<times> u32 option \<times> adafs_log" where
  "log_append log le =
     (if seq_dist (l_begin log) (l_end log) < LOG_LEN
      then
        (0, Some (l_end log), (L_ENT_upd log (l_end log) le)\<lparr>l_end := l_end log + 1\<rparr>)
      else (- EAGAIN, None, log))"

fun stal_sum :: "transaction list \<Rightarrow> u64 \<Rightarrow> u64" where
  "stal_sum [] s = s"
| "stal_sum (tran # ts) s = stal_sum ts (s + staleness (stat tran))"

definition log_stal_sum :: "adafs_log \<Rightarrow> u64" where
  "log_stal_sum log = stal_sum (l_trans log) 0"

text \<open>
  The first half of \<open>log_flush\<close> in \<^verbatim>\<open>ada_log.c\<close>, the section under \<open>l_tlock\<close>: unlink at most
  \<open>nr\<close> sealed transactions from the front of the list.  The result is the window \<open>[begin, end)\<close>
  they cover; \<open>BUG\<close> is the \<open>ADAFS_BUG_ON\<close> of the loop.  A list that runs out of transactions
  would read the list head as a transaction.
\<close>

fun take_trans :: "transaction list \<Rightarrow> nat \<Rightarrow> u32 \<Rightarrow> fault + u32 \<times> transaction list" where
  "take_trans [] nr end = Inl BAD_POINTER"
| "take_trans (tran # ts) 0 end = Inr (end, tran # ts)"
| "take_trans (tran # ts) (Suc nr) end =
     (if is_tran_open tran then Inr (end, tran # ts)
      else if t_begin tran \<noteq> end then Inl BUG
      else take_trans ts nr (t_end tran))"

definition log_take :: "adafs_log \<Rightarrow> nat \<Rightarrow> fault + (u32 \<times> u32) \<times> adafs_log" where
  "log_take log nr =
     (case l_trans log of
        [] \<Rightarrow> Inl BAD_POINTER
      | tran # ts \<Rightarrow>
          (case take_trans (tran # ts) nr (t_begin tran) of
             Inl f \<Rightarrow> Inl f
           | Inr (end, rest) \<Rightarrow> Inr ((t_begin tran, end), log\<lparr>l_trans := rest\<rparr>)))"

section \<open>Invariant and abstraction\<close>

text \<open>
  Positions are measured from the start \<open>b\<close> of the live window.  \<open>sealed b p ts h\<close> says that the
  transactions \<open>ts\<close> tile the window from \<open>p\<close> to \<open>h\<close>, none of them empty.
\<close>

definition off :: "u32 \<Rightarrow> u32 \<Rightarrow> nat" where
  "off b x = unat (x - b)"

fun sealed :: "u32 \<Rightarrow> u32 \<Rightarrow> transaction list \<Rightarrow> u32 \<Rightarrow> bool" where
  "sealed b p [] h \<longleftrightarrow> p = h"
| "sealed b p (t # ts) h \<longleftrightarrow>
     t_begin t = p \<and> off b p < off b (t_end t) \<and> sealed b (t_end t) ts h"

text \<open>The oldest entry not yet taken by a flush.\<close>

definition pend :: "adafs_log \<Rightarrow> u32" where
  "pend log = (case butlast (l_trans log) of [] \<Rightarrow> l_head log | t # _ \<Rightarrow> t_begin t)"

definition log_inv :: "adafs_log \<Rightarrow> bool" where
  "log_inv log \<longleftrightarrow>
     l_trans log \<noteq> [] \<and> is_tran_open (log_tail_tran log) \<and>
     sealed (l_begin log) (pend log) (butlast (l_trans log)) (l_head log) \<and>
     off (l_begin log) (l_head log) \<le> off (l_begin log) (l_end log) \<and>
     off (l_begin log) (l_end log) \<le> 32768"

text \<open>The live entries in order: what the ring buffer represents.\<close>

definition window :: "adafs_log \<Rightarrow> u32 \<Rightarrow> nat \<Rightarrow> log_entry list" where
  "window log b n = map (\<lambda>i. L_ENT log (b + of_nat i)) [0..<n]"

definition log_list :: "adafs_log \<Rightarrow> log_entry list" where
  "log_list log = window log (l_begin log) (off (l_begin log) (l_end log))"

text \<open>
  What the rest of \<open>log_flush\<close> does to the window: \<open>__merge_flush\<close> moves \<open>l_begin\<close> forward, never
  past the entries that have been taken.
\<close>

definition log_advance :: "adafs_log \<Rightarrow> nat \<Rightarrow> adafs_log" where
  "log_advance log n = log\<lparr>l_begin := l_begin log + of_nat n\<rparr>"

section \<open>Lemmas: offsets\<close>

lemma off_self [simp]: "off b b = 0"
  by (simp add: off_def)

lemma add_off [simp]: "b + of_nat (off b x) = x"
  by (simp add: off_def)

lemma off_inject [simp]: "off b x = off b y \<longleftrightarrow> x = y"
  by (metis add_off)

lemma off_less: "off b x < 2 ^ 32"
  using unsigned_less [of "x - b"] by (simp add: off_def)

lemma off_add: "n < 2 ^ 32 \<Longrightarrow> off b (b + of_nat n) = n"
  by (simp add: off_def unat_of_nat)

lemma off_Suc:
  assumes "off b x < 2 ^ 32 - 1"
  shows "off b (x + 1) = Suc (off b x)"
proof -
  have "x + 1 = b + of_nat (Suc (off b x))"
    by (simp add: off_def)
  then have "off b (x + 1) = off b (b + of_nat (Suc (off b x)))" by (rule arg_cong)
  also have "\<dots> = Suc (off b x)" using assms by (intro off_add) simp
  finally show ?thesis .
qed

lemma off_shift:
  assumes "n \<le> off b x"
  shows "off (b + of_nat n) x = off b x - n"
proof -
  have "x = (b + of_nat n) + of_nat (off b x - n)"
    using assms by (simp add: off_def)
  then show ?thesis
    using off_add [of "off b x - n" "b + of_nat n"] off_less [of b x] by simp
qed

lemma seq_dist_off: "seq_dist b x < LOG_LEN \<longleftrightarrow> off b x < 32768"
  by (simp add: seq_dist_def off_def LOG_LEN_def word_less_nat_alt)

section \<open>Lemmas: slots\<close>

lemma L_ENT_upd_same [entry_simps]: "L_ENT (L_ENT_upd log i le) i = le"
  by (simp add: L_ENT_def L_ENT_upd_def)

lemma L_ENT_upd_other [entry_simps]:
  "i < 32768 \<Longrightarrow> j < 32768 \<Longrightarrow> i \<noteq> j \<Longrightarrow>
   L_ENT (L_ENT_upd log (b + of_nat i) le) (b + of_nat j) = L_ENT log (b + of_nat j)"
  using L_INDEX_inj [of i j b] by (auto simp: L_ENT_def L_ENT_upd_def)

lemma L_ENT_upd_fields [simp]:
  "l_begin (L_ENT_upd log i le) = l_begin log" "l_head (L_ENT_upd log i le) = l_head log"
  "l_end (L_ENT_upd log i le) = l_end log" "l_trans (L_ENT_upd log i le) = l_trans log"
  by (simp_all add: L_ENT_upd_def)

lemma L_ENT_frame [simp]:
  "L_ENT (log\<lparr>l_end := e\<rparr>) i = L_ENT log i" "L_ENT (log\<lparr>l_begin := e\<rparr>) i = L_ENT log i"
  "L_ENT (log\<lparr>l_trans := ts\<rparr>) i = L_ENT log i" "L_ENT (log\<lparr>l_head := e\<rparr>) i = L_ENT log i"
  by (simp_all add: L_ENT_def)

lemma length_window [simp]: "length (window log b n) = n"
  by (simp add: window_def)

lemma nth_window [simp]: "i < n \<Longrightarrow> window log b n ! i = L_ENT log (b + of_nat i)"
  by (simp add: window_def)

lemma window_upd:
  assumes "i < n" and "n \<le> 32768"
  shows "window (L_ENT_upd log (b + of_nat i) le) b n = (window log b n)[i := le]"
proof (rule nth_equalityI)
  fix j assume "j < length (window (L_ENT_upd log (b + of_nat i) le) b n)"
  then have j: "j < n" by simp
  with assms show "window (L_ENT_upd log (b + of_nat i) le) b n ! j = (window log b n)[i := le] ! j"
    by (cases "i = j") (simp_all add: entry_simps)
qed simp

lemma window_Suc: "window log b (Suc n) = window log b n @ [L_ENT log (b + of_nat n)]"
  by (simp add: window_def)

lemma window_drop: "k \<le> n \<Longrightarrow> drop k (window log b n) = window log (b + of_nat k) (n - k)"
  by (rule nth_equalityI) (simp_all add: add.assoc)

lemma log_list_length: "length (log_list log) = off (l_begin log) (l_end log)"
  by (simp add: log_list_def)

section \<open>Lemmas: sealed transactions\<close>

lemma sealed_mono: "sealed b p ts h \<Longrightarrow> off b p \<le> off b h"
  by (induction ts arbitrary: p) (auto, metis less_imp_le order.strict_trans2)

lemma sealed_append: "sealed b p (ts @ us) h \<longleftrightarrow> (\<exists>q. sealed b p ts q \<and> sealed b q us h)"
  by (induction ts arbitrary: p) auto

lemma sealed_shift: "n \<le> off b p \<Longrightarrow> sealed b p ts h \<Longrightarrow> sealed (b + of_nat n) p ts h"
  by (induction ts arbitrary: p) (auto simp: off_shift)

lemma sealed_open: "sealed b p ts h \<Longrightarrow> t \<in> set ts \<Longrightarrow> \<not> is_tran_open t"
  by (induction ts arbitrary: p) (auto simp: is_tran_open_def)

lemma pend_unique: "sealed b p (butlast (l_trans log)) (l_head log) \<Longrightarrow> pend log = p"
  by (cases "butlast (l_trans log)") (auto simp: pend_def)

lemma take_trans_sealed:
  assumes "sealed b e ts h" and "is_tran_open t"
  shows "\<exists>e' ts1 ts2. take_trans (ts @ [t]) nr e = Inr (e', ts2 @ [t]) \<and> ts = ts1 @ ts2 \<and>
           sealed b e ts1 e' \<and> sealed b e' ts2 h \<and> length ts1 = min nr (length ts)"
  using assms
proof (induction ts arbitrary: e nr)
  case Nil
  then show ?case by (cases nr) simp_all
next
  case (Cons u ts)
  show ?case
  proof (cases nr)
    case 0
    with Cons.prems show ?thesis by (auto intro!: exI [of _ "[]"])
  next
    case (Suc n)
    from Cons.prems have u: "\<not> is_tran_open u" "t_begin u = e" "off b e < off b (t_end u)"
      and ts: "sealed b (t_end u) ts h"
      by (auto simp: is_tran_open_def)
    from Cons.IH [OF ts Cons.prems(2), of n] obtain e' ts1 ts2 where
      "take_trans (ts @ [t]) n (t_end u) = Inr (e', ts2 @ [t])" "ts = ts1 @ ts2"
      "sealed b (t_end u) ts1 e'" "sealed b e' ts2 h" "length ts1 = min n (length ts)"
      by blast
    with Suc u show ?thesis
      by (intro exI [of _ e'] exI [of _ "u # ts1"] exI [of _ ts2]) simp
  qed
qed

section \<open>Lemmas: every operation keeps the invariant\<close>

lemma log_invD:
  assumes "log_inv log"
  obtains ts t where "l_trans log = ts @ [t]" "is_tran_open t"
    "sealed (l_begin log) (pend log) ts (l_head log)" "log_tail_tran log = t"
  using assms by (cases "l_trans log" rule: rev_cases) (auto simp: log_inv_def log_tail_tran_def)

lemma log_invI:
  assumes "l_trans log = ts @ [t]" "is_tran_open t" "sealed (l_begin log) p ts (l_head log)"
    "off (l_begin log) (l_head log) \<le> off (l_begin log) (l_end log)"
    "off (l_begin log) (l_end log) \<le> 32768"
  shows "log_inv log"
  using assms pend_unique [of "l_begin log" p log] by (simp add: log_inv_def log_tail_tran_def)

lemma log_inv_pend:
  assumes "log_inv log"
  shows "off (l_begin log) (pend log) \<le> off (l_begin log) (l_head log)"
    and "off (l_begin log) (l_head log) \<le> off (l_begin log) (l_end log)"
    and "off (l_begin log) (l_end log) \<le> 32768"
  using assms by (auto simp: log_inv_def intro: sealed_mono)

lemma log_init_inv [inv_intros]: "log_inv (log_init mem)"
  by (rule log_invI [where ts = "[]" and t = new_tran and p = 0])
    (simp_all add: log_init_def log_add_tran_def new_tran_def is_tran_open_def)

lemma log_append_inv [inv_intros]:
  assumes "log_inv log" and "log_append log le = (err, s, log')"
  shows "log_inv log'"
proof (cases "off (l_begin log) (l_end log) < 32768")
  case True
  with assms(2) have log': "log' = (L_ENT_upd log (l_end log) le)\<lparr>l_end := l_end log + 1\<rparr>"
    by (simp add: log_append_def seq_dist_off)
  from assms(1) obtain ts t where "l_trans log = ts @ [t]" "is_tran_open t"
    "sealed (l_begin log) (pend log) ts (l_head log)" by (rule log_invD)
  with True log_inv_pend [OF assms(1)] show ?thesis
    by (intro log_invI [where ts = ts and t = t and p = "pend log"]) (simp_all add: log' off_Suc)
next
  case False
  with assms show ?thesis by (simp add: log_append_def seq_dist_off)
qed

lemma log_seal_inv [inv_intros]:
  assumes "log_inv log" and "log_seal log = (err, log')"
  shows "log_inv log'"
proof (cases "l_head log = l_end log")
  case True
  with assms show ?thesis by (simp add: log_seal_def do_log_seal_def)
next
  case False
  from assms(1) obtain ts t where ts: "l_trans log = ts @ [t]" "is_tran_open t"
    "sealed (l_begin log) (pend log) ts (l_head log)" "log_tail_tran log = t" by (rule log_invD)
  let ?t = "t\<lparr>t_begin := l_head log, t_end := l_end log\<rparr>"
  have log': "log' = log\<lparr>l_trans := (ts @ [?t]) @ [new_tran], l_head := l_end log\<rparr>"
    using assms(2) ts False
    by (auto simp: log_seal_def do_log_seal_def log_tail_upd_def log_add_tran_def)
  have "off (l_begin log) (l_head log) \<noteq> off (l_begin log) (l_end log)"
    using False by simp
  then have "off (l_begin log) (l_head log) < off (l_begin log) (l_end log)"
    using log_inv_pend(2) [OF assms(1)] by linarith
  then have "sealed (l_begin log) (pend log) (ts @ [?t]) (l_end log)"
    using ts(3) by (auto simp: sealed_append)
  then show ?thesis
    using log_inv_pend [OF assms(1)]
    by (intro log_invI [where ts = "ts @ [?t]" and t = new_tran and p = "pend log"])
      (simp_all add: log' new_tran_def is_tran_open_def)
qed

lemma log_take_spec:
  assumes "log_inv log"
  shows "\<exists>b e log' ts1 ts2 t. log_take log nr = Inr ((b, e), log') \<and>
     l_trans log = ts1 @ ts2 @ [t] \<and> log' = log\<lparr>l_trans := ts2 @ [t]\<rparr> \<and>
     is_tran_open t \<and> length ts1 = min nr (length ts1 + length ts2) \<and>
     (if ts1 = [] then b = e else b = pend log) \<and>
     (ts1 \<noteq> [] \<longrightarrow> sealed (l_begin log) b ts1 e \<and> sealed (l_begin log) e ts2 (l_head log)) \<and>
     (ts1 = [] \<longrightarrow> log' = log)"
proof -
  from assms obtain ts t where ts: "l_trans log = ts @ [t]" "is_tran_open t"
    "sealed (l_begin log) (pend log) ts (l_head log)" by (rule log_invD)
  show ?thesis
  proof (cases ts)
    case Nil
    with ts show ?thesis
      by (cases nr) (auto simp: log_take_def is_tran_open_def)
  next
    case (Cons u us)
    then have u: "t_begin u = pend log" using ts(3) by simp
    from take_trans_sealed [OF ts(3,2), of nr] obtain e ts1 ts2 where
      e: "take_trans (ts @ [t]) nr (pend log) = Inr (e, ts2 @ [t])" "ts = ts1 @ ts2"
        "sealed (l_begin log) (pend log) ts1 e" "sealed (l_begin log) e ts2 (l_head log)"
        "length ts1 = min nr (length ts)" by blast
    have "log_take log nr = Inr ((pend log, e), log\<lparr>l_trans := ts2 @ [t]\<rparr>)"
      using ts(1) e(1) Cons u by (simp add: log_take_def)
    with ts e show ?thesis
      by (intro exI [of _ "pend log"] exI [of _ e] exI [of _ "log\<lparr>l_trans := ts2 @ [t]\<rparr>"]
          exI [of _ ts1] exI [of _ ts2] exI [of _ t]) auto
  qed
qed

lemma log_take_inv [inv_intros]:
  assumes "log_inv log" and "log_take log nr = Inr ((b, e), log')"
  shows "log_inv log'"
proof -
  from log_take_spec [OF assms(1), of nr] assms(2) obtain ts1 ts2 t where
    l: "l_trans log = ts1 @ ts2 @ [t]" "log' = log\<lparr>l_trans := ts2 @ [t]\<rparr>" "is_tran_open t"
      "ts1 \<noteq> [] \<longrightarrow> sealed (l_begin log) b ts1 e \<and> sealed (l_begin log) e ts2 (l_head log)"
      "ts1 = [] \<longrightarrow> log' = log" by auto
  show ?thesis
  proof (cases "ts1 = []")
    case True
    with l assms(1) show ?thesis by simp
  next
    case False
    with l log_inv_pend [OF assms(1)] show ?thesis
      by (intro log_invI [where ts = ts2 and t = t and p = e]) simp_all
  qed
qed

lemma log_advance_inv [inv_intros]:
  assumes "log_inv log" and "n \<le> off (l_begin log) (pend log)"
  shows "log_inv (log_advance log n)"
proof -
  from assms(1) obtain ts t where ts: "l_trans log = ts @ [t]" "is_tran_open t"
    "sealed (l_begin log) (pend log) ts (l_head log)" by (rule log_invD)
  have "n \<le> off (l_begin log) (l_head log)" "n \<le> off (l_begin log) (l_end log)"
    using assms(2) log_inv_pend [OF assms(1)] by linarith+
  with ts assms(2) log_inv_pend [OF assms(1)] show ?thesis
    by (intro log_invI [where ts = ts and t = t and p = "pend log"])
      (simp_all add: log_advance_def sealed_shift off_shift)
qed

lemma log_stat_inv [inv_intros]:
  assumes "log_inv log"
  shows "log_inv (log_tail_upd log (\<lambda>t. t\<lparr>stat := f (stat t)\<rparr>))"
proof -
  from assms obtain ts t where ts: "l_trans log = ts @ [t]" "is_tran_open t"
    "sealed (l_begin log) (pend log) ts (l_head log)" "log_tail_tran log = t" by (rule log_invD)
  with log_inv_pend [OF assms] show ?thesis
    by (intro log_invI [where ts = ts and t = "t\<lparr>stat := f (stat t)\<rparr>" and p = "pend log"])
      (simp_all add: log_tail_upd_def is_tran_open_def)
qed

lemma log_entry_inv [inv_intros]: "log_inv log \<Longrightarrow> log_inv (L_ENT_upd log i le)"
  by (cases "butlast (l_trans log)") (simp_all add: log_inv_def log_tail_tran_def pend_def)

section \<open>Lemmas: the ring buffer represents a queue\<close>

lemma log_append_list:
  assumes "off (l_begin log) (l_end log) < 32768"
  shows "log_list ((L_ENT_upd log (l_end log) le)\<lparr>l_end := l_end log + 1\<rparr>) = log_list log @ [le]"
    (is "log_list ?log = _")
proof -
  let ?b = "l_begin log" and ?n = "off (l_begin log) (l_end log)"
  have "L_ENT ?log (?b + of_nat i) = L_ENT log (?b + of_nat i)" if "i < ?n" for i
    using L_ENT_upd_other [of ?n i log ?b le] that assms by simp
  then have "window ?log ?b ?n = window log ?b ?n"
    by (simp add: window_def)
  moreover have "off ?b (l_end log + 1) = Suc ?n"
    using assms by (simp add: off_Suc)
  ultimately show ?thesis
    by (simp add: log_list_def window_Suc L_ENT_upd_same)
qed

lemma log_advance_list:
  assumes "n \<le> off (l_begin log) (l_end log)"
  shows "log_list (log_advance log n) = drop n (log_list log)"
proof -
  have "log_list (log_advance log n) =
      window log (l_begin log + of_nat n) (off (l_begin log) (l_end log) - n)"
    using assms by (simp add: log_list_def log_advance_def off_shift window_def)
  with assms show ?thesis by (simp add: log_list_def window_drop)
qed

text \<open>
  The contract of a bounded first-in first-out buffer whose oldest elements can be retired in
  blocks, once the buffer says so.
\<close>

fun put_all :: "('q \<Rightarrow> 'a \<Rightarrow> 'q option) \<Rightarrow> 'q \<Rightarrow> 'a list \<Rightarrow> 'q option" where
  "put_all put q [] = Some q"
| "put_all put q (x # xs) = (case put q x of None \<Rightarrow> None | Some q' \<Rightarrow> put_all put q' xs)"

locale bounded_fifo =
  fixes inv :: "'q \<Rightarrow> bool"
    and content :: "'q \<Rightarrow> 'a list"
    and cap :: nat
    and put :: "'q \<Rightarrow> 'a \<Rightarrow> 'q option"
    and retire :: "'q \<Rightarrow> nat \<Rightarrow> 'q"
    and ready :: "'q \<Rightarrow> nat"
  assumes bounded: "inv q \<Longrightarrow> length (content q) \<le> cap"
    and put_full: "inv q \<Longrightarrow> put q x = None \<longleftrightarrow> length (content q) = cap"
    and put_content: "inv q \<Longrightarrow> put q x = Some q' \<Longrightarrow> content q' = content q @ [x]"
    and put_inv: "inv q \<Longrightarrow> put q x = Some q' \<Longrightarrow> inv q'"
    and ready_le: "inv q \<Longrightarrow> ready q \<le> length (content q)"
    and retire_content: "inv q \<Longrightarrow> n \<le> ready q \<Longrightarrow> content (retire q n) = drop n (content q)"
    and retire_inv: "inv q \<Longrightarrow> n \<le> ready q \<Longrightarrow> inv (retire q n)"
begin

lemma put_all_content:
  "inv q \<Longrightarrow> put_all put q xs = Some q' \<Longrightarrow> inv q' \<and> content q' = content q @ xs"
proof (induction xs arbitrary: q)
  case (Cons x xs)
  then obtain q1 where q1: "put q x = Some q1" "put_all put q1 xs = Some q'"
    by (auto split: option.splits)
  with Cons.prems have "inv q1" "content q1 = content q @ [x]"
    by (auto intro: put_inv put_content)
  with Cons.IH q1(2) show ?case by simp
qed simp

lemma put_all_fits:
  "inv q \<Longrightarrow> put_all put q xs \<noteq> None \<longleftrightarrow> length (content q) + length xs \<le> cap"
proof (induction xs arbitrary: q)
  case Nil
  then show ?case using bounded by simp
next
  case (Cons x xs)
  show ?case
  proof (cases "put q x")
    case None
    with put_full [OF Cons.prems, of x] show ?thesis by simp
  next
    case (Some q')
    with Cons.prems have "inv q'" "content q' = content q @ [x]"
      by (auto intro: put_inv put_content)
    with Cons.IH [of q'] Some show ?thesis by simp
  qed
qed

text \<open>Retiring makes exactly that much room.\<close>

lemma retire_then_put:
  assumes "inv q" and "n \<le> ready q"
  shows "put_all put (retire q n) xs \<noteq> None \<longleftrightarrow> length (content q) - n + length xs \<le> cap"
  using put_all_fits [OF retire_inv [OF assms]] retire_content [OF assms] by simp

end

definition log_put :: "adafs_log \<Rightarrow> log_entry \<Rightarrow> adafs_log option" where
  "log_put log le =
     (case log_append log le of (err, _, log') \<Rightarrow> if err = 0 then Some log' else None)"

definition log_ready :: "adafs_log \<Rightarrow> nat" where
  "log_ready log = off (l_begin log) (pend log)"

interpretation ring: bounded_fifo log_inv log_list 32768 log_put log_advance log_ready
proof unfold_locales
  fix q x q' n
  assume q: "log_inv q"
  note b = log_inv_pend [OF q]
  show "length (log_list q) \<le> 32768" and "log_ready q \<le> length (log_list q)"
    using b by (simp_all add: log_list_length log_ready_def)
  show "log_put q x = None \<longleftrightarrow> length (log_list q) = 32768"
    using b by (auto simp: log_put_def log_append_def seq_dist_off log_list_length)
  {
    assume "log_put q x = Some q'"
    then show "log_list q' = log_list q @ [x]" and "log_inv q'"
      using log_append_list [of q x] log_append_inv [OF q]
      by (auto simp: log_put_def log_append_def seq_dist_off split: if_splits prod.splits)
  }
  {
    assume "n \<le> log_ready q"
    then show "log_list (log_advance q n) = drop n (log_list q)" and "log_inv (log_advance q n)"
      using b log_advance_inv [OF q] by (simp_all add: log_ready_def log_advance_list)
  }
qed

section \<open>Interleavings\<close>

text \<open>
  The steps other threads can take between two operations: each critical section of the code, the
  retirement of flushed entries, and rewrites of entries in place by the sorter and the hooks.
\<close>

inductive log_step :: "adafs_log \<Rightarrow> adafs_log \<Rightarrow> bool" where
  append: "log_append log le = (err, s, log') \<Longrightarrow> log_step log log'"
| seal: "log_seal log = (err, log') \<Longrightarrow> log_step log log'"
| take: "log_take log nr = Inr (w, log') \<Longrightarrow> log_step log log'"
| advance: "n \<le> log_ready log \<Longrightarrow> log_step log (log_advance log n)"
| account: "log_step log (log_tail_upd log (\<lambda>t. t\<lparr>stat := f (stat t)\<rparr>))"
| rewrite: "log_step log (L_ENT_upd log i le)"

inductive log_reachable :: "adafs_log \<Rightarrow> bool" where
  init: "log_reachable (new_log mem)"
| step: "log_reachable log \<Longrightarrow> log_step log log' \<Longrightarrow> log_reachable log'"

lemma log_step_inv: "log_step log log' \<Longrightarrow> log_inv log \<Longrightarrow> log_inv log'"
  by (induction rule: log_step.induct)
    (auto intro: inv_intros simp: log_ready_def elim: log_append_inv log_seal_inv)

lemma log_reachable_inv: "log_reachable log \<Longrightarrow> log_inv log"
  by (induction rule: log_reachable.induct) (auto simp: new_log_def intro: inv_intros log_step_inv)

text \<open>
  C2.  In every state that the log's critical sections can reach in any order, the log invariant
  holds: the open transaction is last, the sealed ones tile the window up to \<open>l_head\<close> without gaps
  or overlaps, and at most \<open>LOG_LEN\<close> entries are live.  In particular \<open>log_flush\<close> never hits its
  \<open>ADAFS_BUG_ON\<close> and never runs off the transaction list.
\<close>

theorem log_invariant_reachable:
  assumes "log_reachable log"
  shows "log_inv log \<and> (\<exists>b e log'. log_take log nr = Inr ((b, e), log'))"
  using log_reachable_inv [OF assms] log_take_spec [OF log_reachable_inv [OF assms], of nr] by blast

text \<open>
  C4.  Appending to the log is an enqueue of a bounded queue of capacity \<open>LOG_LEN\<close>: with room, the
  entry goes to slot \<open>l_end\<close>, its sequence number is reported and the live entries are otherwise
  unchanged and in order; without room the log is untouched and the result is \<open>-EAGAIN\<close>.
\<close>

theorem log_append_queue:
  assumes "log_inv log"
  shows "if length (log_list log) < 32768
         then (\<exists>log'. log_append log le = (0, Some (l_end log), log') \<and> log_inv log' \<and>
                 log_list log' = log_list log @ [le] \<and> L_ENT log' (l_end log) = le)
         else log_append log le = (- EAGAIN, None, log)"
  using log_append_list [of log le] log_append_inv [OF assms]
  by (auto simp: log_append_def seq_dist_off log_list_length L_ENT_upd_same)

text \<open>
  A run of appends succeeds exactly when the entries fit, and then the log represents the old
  entries followed by the new ones; retiring \<open>n\<close> flushed entries makes room for \<open>n\<close> more.
\<close>

theorem log_fill_after_retire:
  assumes "log_inv log" and "n \<le> log_ready log"
  shows "(put_all log_put (log_advance log n) les \<noteq> None \<longleftrightarrow>
            length (log_list log) - n + length les \<le> 32768) \<and>
         (\<forall>log'. put_all log_put (log_advance log n) les = Some log' \<longrightarrow>
            log_list log' = drop n (log_list log) @ les)"
  using ring.retire_then_put [OF assms] ring.put_all_content [OF ring.retire_inv [OF assms], of les]
    ring.retire_content [OF assms] by auto

text \<open>
  C10.  Sealing closes the open transaction over exactly the entries appended since the last seal
  and starts a new open one; with no such entries it reports \<open>-ENODATA\<close> and changes nothing.
\<close>

theorem log_seal_correct:
  assumes "log_inv log"
  shows "if l_head log = l_end log then log_seal log = (- ENODATA, log)
         else (\<exists>log'. log_seal log = (0, log') \<and> log_inv log' \<and> log_list log' = log_list log \<and>
                 l_head log' = l_end log \<and> log_tail_tran log' = new_tran \<and>
                 l_trans log' = butlast (l_trans log) @
                   [(log_tail_tran log)\<lparr>t_begin := l_head log, t_end := l_end log\<rparr>, new_tran])"
  using log_seal_inv [OF assms]
  by (auto simp: log_seal_def do_log_seal_def log_tail_upd_def log_add_tran_def log_tail_tran_def
      log_list_def window_def)

text \<open>
  C17.  Taking transactions for a flush unlinks the \<open>min nr\<close> oldest sealed transactions; the window
  handed to the flusher starts at the oldest untaken entry and covers exactly those transactions,
  and the live entries are not touched.
\<close>

theorem log_take_correct:
  assumes "log_inv log"
  shows "\<exists>b e log' ts1 ts2. log_take log nr = Inr ((b, e), log') \<and> log_inv log' \<and>
           log_list log' = log_list log \<and>
           l_trans log = ts1 @ ts2 @ [log_tail_tran log] \<and> l_trans log' = ts2 @ [log_tail_tran log] \<and>
           length ts1 = min nr (length ts1 + length ts2) \<and>
           (b = e \<longleftrightarrow> ts1 = []) \<and>
           (ts1 \<noteq> [] \<longrightarrow> b = pend log \<and> e = pend log' \<and> sealed (l_begin log) b ts1 e)"
proof -
  from log_take_spec [OF assms, of nr] obtain b e log' ts1 ts2 t where
    l: "log_take log nr = Inr ((b, e), log')" "l_trans log = ts1 @ ts2 @ [t]"
      "log' = log\<lparr>l_trans := ts2 @ [t]\<rparr>" "is_tran_open t"
      "length ts1 = min nr (length ts1 + length ts2)" "if ts1 = [] then b = e else b = pend log"
      "ts1 \<noteq> [] \<longrightarrow> sealed (l_begin log) b ts1 e \<and> sealed (l_begin log) e ts2 (l_head log)"
    by blast
  have "log_inv log'" using assms l(1) by (rule log_take_inv)
  moreover have "log_list log' = log_list log"
    by (simp add: l(3) log_list_def window_def)
  moreover have "b = e \<longleftrightarrow> ts1 = []"
  proof
    assume "b = e"
    then show "ts1 = []" using l(7) sealed_mono by (cases ts1) fastforce+
  qed (use l(6) in simp)
  moreover have "ts1 \<noteq> [] \<longrightarrow> e = pend log'"
    using l(7) pend_unique [of "l_begin log" e log'] l(3) by auto
  ultimately show ?thesis
    using l by (intro exI [of _ b] exI [of _ e] exI [of _ log'] exI [of _ ts1] exI [of _ ts2])
      (auto simp: log_tail_tran_def)
qed

section \<open>Concrete logs\<close>

text \<open>A log with one sealed and one open entry, and the same log after a flush took the first.\<close>

definition ex_log :: adafs_log where
  "ex_log = \<lparr>l_entries = (\<lambda>_. LE_INITIALIZER)(0 := LE_INITIALIZER\<lparr>f_ino := 7\<rparr>),
     l_begin = 0, l_head = 1, l_end = 2,
     l_trans = [\<lparr>stat = init_stat, t_begin = 0, t_end = 1\<rparr>, new_tran]\<rparr>"

definition ex_log_taken :: adafs_log where
  "ex_log_taken = ex_log\<lparr>l_trans := [new_tran]\<rparr>"

lemma ex_log_inv: "log_inv ex_log"
  by (simp add: ex_log_def log_inv_def log_tail_tran_def is_tran_open_def new_tran_def pend_def
      off_def)

lemma ex_log_taken_inv: "log_inv ex_log_taken"
  by (simp add: ex_log_taken_def ex_log_def log_inv_def log_tail_tran_def is_tran_open_def
      new_tran_def pend_def off_def)

lemma ex_log_taken_ready: "1 \<le> log_ready ex_log_taken"
  by (simp add: ex_log_taken_def ex_log_def log_ready_def pend_def off_def)

theorem log_invariant_reachable_witness:
  "log_reachable (new_log ex_log) \<and> log_inv (new_log ex_log) \<and>
   (\<exists>b e log'. log_take (new_log ex_log) 3 = Inr ((b, e), log'))"
  using log_invariant_reachable [OF log_reachable.init [of ex_log], of 3]
    log_reachable.init [of ex_log] by simp

theorem log_append_queue_witness:
  "log_inv ex_log \<and>
   (\<exists>log'. log_append ex_log LE_INITIALIZER = (0, Some 2, log') \<and> log_inv log' \<and>
      log_list log' = log_list ex_log @ [LE_INITIALIZER] \<and> L_ENT log' 2 = LE_INITIALIZER)"
proof -
  have "length (log_list ex_log) < 32768" and "l_end ex_log = 2"
    by (simp_all add: log_list_length ex_log_def off_def)
  then show ?thesis
    using log_append_queue [OF ex_log_inv, of LE_INITIALIZER] ex_log_inv by simp
qed

theorem log_fill_after_retire_witness:
  "log_inv ex_log_taken \<and> 1 \<le> log_ready ex_log_taken \<and>
   (put_all log_put (log_advance ex_log_taken 1) [LE_INITIALIZER] \<noteq> None \<longleftrightarrow>
      length (log_list ex_log_taken) - 1 + length [LE_INITIALIZER] \<le> 32768)"
  using log_fill_after_retire [OF ex_log_taken_inv ex_log_taken_ready, of "[LE_INITIALIZER]"]
    ex_log_taken_inv ex_log_taken_ready by blast

theorem log_seal_correct_witness:
  "log_inv ex_log \<and>
   (\<exists>log'. log_seal ex_log = (0, log') \<and> log_inv log' \<and> log_list log' = log_list ex_log \<and>
      l_head log' = 2 \<and> log_tail_tran log' = new_tran)"
proof -
  have "l_head ex_log \<noteq> l_end ex_log" and "l_end ex_log = 2"
    by (simp_all add: ex_log_def)
  then show ?thesis
    using log_seal_correct [OF ex_log_inv] ex_log_inv by auto
qed

theorem log_take_correct_witness:
  "log_inv ex_log \<and>
   (\<exists>b e log'. log_take ex_log 5 = Inr ((b, e), log') \<and> log_inv log' \<and>
      log_list log' = log_list ex_log)"
  using log_take_correct [OF ex_log_inv, of 5] ex_log_inv by blast

end
