(* ===== verification/Log_Sort.thy ===== *)
theory Log_Sort
  imports Log
begin

text \<open>
  The in-place sorter of \<^verbatim>\<open>ada_log.c\<close>: quicksort with an explicit stack, a middle pivot and a
  selection sort for short ranges, over the ring of log slots.

  Positions are C \<open>int\<close>s and may be negative (the caller shifts a window that wraps around the
  32-bit sequence space); a slot is a position masked with \<open>LOG_MASK\<close>.  The stack is a static array
  of the source that survives a call, so it is an argument and a result here: a list with the top
  first, whose length is \<open>stack_top\<close>.
\<close>

section \<open>The code\<close>

definition CUT_OFF :: u32 where
  "CUT_OFF = 4"

definition STACK_SIZE :: u32 where
  "STACK_SIZE = 32"

type_synonym slots = "nat \<Rightarrow> log_entry"
type_synonym stack = "(u32 \<times> u32) list"

definition slot :: "int \<Rightarrow> nat" where
  "slot i = nat (i AND uint LOG_MASK)"

definition entry :: "slots \<Rightarrow> int \<Rightarrow> log_entry" where
  "entry es i = es (slot i)"

definition entry_upd :: "slots \<Rightarrow> int \<Rightarrow> log_entry \<Rightarrow> slots" where
  "entry_upd es i le = es(slot i := le)"

definition SWAP_ENTRY :: "slots \<Rightarrow> int \<Rightarrow> int \<Rightarrow> slots" where
  "SWAP_ENTRY es i j =
     (let tmp = entry es i; es1 = entry_upd es i (entry es j) in entry_upd es1 j tmp)"

definition elem_len :: "u32 \<times> u32 \<Rightarrow> u32" where
  "elem_len elem = snd elem - fst elem + 1"

definition stack_avail :: "stack \<Rightarrow> u32 \<Rightarrow> bool" where
  "stack_avail stk nr \<longleftrightarrow> STACK_SIZE - of_nat (length stk) \<ge> nr"

text \<open>The inner loop of \<open>short_sort\<close>: the position of the maximum.\<close>

function max_pos :: "slots \<Rightarrow> int \<Rightarrow> int \<Rightarrow> int \<Rightarrow> int" where
  "max_pos es i pos mx =
     (if i < pos
      then max_pos es (i + 1) pos (if le_cmp (entry es i) (entry es mx) > 0 then i else mx)
      else mx)"
  by pat_completeness auto
termination
  by (relation "measure (\<lambda>(es, i, pos, mx). nat (pos - i))") auto

function short_sort_loop :: "slots \<Rightarrow> int \<Rightarrow> int \<Rightarrow> slots" where
  "short_sort_loop es l pos =
     (if pos > l
      then short_sort_loop (SWAP_ENTRY es (max_pos es l pos pos) pos) l (pos - 1)
      else es)"
  by pat_completeness auto
termination
  by (relation "measure (\<lambda>(es, l, pos). nat (pos - l))") auto

definition short_sort :: "slots \<Rightarrow> int \<Rightarrow> int \<Rightarrow> slots" where
  "short_sort es l r = (if l \<ge> r then es else short_sort_loop es l r)"

text \<open>The two inner loops of \<open>partition\<close>.\<close>

function scan_down :: "slots \<Rightarrow> log_entry \<Rightarrow> int \<Rightarrow> int \<Rightarrow> int" where
  "scan_down es m l r =
     (if l < r \<and> le_cmp (entry es r) m \<ge> 0 then scan_down es m l (r - 1) else r)"
  by pat_completeness auto
termination
  by (relation "measure (\<lambda>(es, m, l, r). nat (r - l))") auto

function scan_up :: "slots \<Rightarrow> log_entry \<Rightarrow> int \<Rightarrow> int \<Rightarrow> int" where
  "scan_up es m l r =
     (if l < r \<and> le_cmp (entry es l) m \<le> 0 then scan_up es m (l + 1) r else l)"
  by pat_completeness auto
termination
  by (relation "measure (\<lambda>(es, m, l, r). nat (r - l))") auto

declare max_pos.simps [simp del] short_sort_loop.simps [simp del]
declare scan_down.simps [simp del] scan_up.simps [simp del]

lemma scan_down_bounds: "l \<le> r \<Longrightarrow> l \<le> scan_down es m l r \<and> scan_down es m l r \<le> r"
proof (induction es m l r rule: scan_down.induct)
  case (1 es m l r)
  then show ?case by (auto simp: scan_down.simps [of es m l r])
qed

lemma scan_down_stop: "l < scan_down es m l r \<Longrightarrow> le_cmp (entry es (scan_down es m l r)) m < 0"
proof (induction es m l r rule: scan_down.induct)
  case (1 es m l r)
  then show ?case
    by (cases "l < r \<and> le_cmp (entry es r) m \<ge> 0") (auto simp: scan_down.simps [of es m l r])
qed

lemma scan_up_bounds: "l \<le> r \<Longrightarrow> l \<le> scan_up es m l r \<and> scan_up es m l r \<le> r"
proof (induction es m l r rule: scan_up.induct)
  case (1 es m l r)
  then show ?case by (auto simp: scan_up.simps [of es m l r])
qed

text \<open>
  One round of the outer loop of \<open>partition\<close>: the hole moves from \<open>l\<close> to the right end and back.
\<close>

definition partition_round :: "slots \<Rightarrow> log_entry \<Rightarrow> int \<Rightarrow> int \<Rightarrow> slots \<times> int \<times> int" where
  "partition_round es m l r =
     (let r1 = scan_down es m l r;
          es1 = entry_upd es l (entry es r1);
          l1 = scan_up es1 m l r1;
          es2 = entry_upd es1 r1 (entry es1 l1)
      in (es2, l1, r1))"

lemma partition_round_shrinks:
  assumes "l < r" and "partition_round es m l r = (es2, l1, r1)"
  shows "l \<le> l1 \<and> l1 \<le> r1 \<and> r1 \<le> r \<and> r1 - l1 < r - l"
proof -
  let ?es1 = "entry_upd es l (entry es r1)"
  from assms(2) have r1: "r1 = scan_down es m l r" and l1: "l1 = scan_up ?es1 m l r1"
    by (auto simp: partition_round_def Let_def)
  from assms(1) have b: "l \<le> r1" "r1 \<le> r"
    using scan_down_bounds [of l r es m] by (auto simp: r1)
  have c: "l \<le> l1" "l1 \<le> r1"
    using scan_up_bounds [OF b(1), of ?es1 m] by (auto simp: l1)
  show ?thesis
  proof (cases "l < r1")
    case True
    then have "le_cmp (entry es r1) m < 0"
      using scan_down_stop [of l es m r] by (simp add: r1)
    then have "le_cmp (entry ?es1 l) m \<le> 0"
      by (simp add: entry_def entry_upd_def)
    with True have "l1 = scan_up ?es1 m (l + 1) r1"
      by (simp add: l1 scan_up.simps [of ?es1 m l r1])
    then have "l + 1 \<le> l1"
      using scan_up_bounds [of "l + 1" r1 ?es1 m] True by simp
    with b c show ?thesis by simp
  next
    case False
    with b c assms(1) show ?thesis by simp
  qed
qed

function partition_loop :: "slots \<Rightarrow> log_entry \<Rightarrow> int \<Rightarrow> int \<Rightarrow> slots \<times> int" where
  "partition_loop es m l r =
     (if l < r
      then (case partition_round es m l r of (es2, l1, r1) \<Rightarrow> partition_loop es2 m l1 r1)
      else (es, l))"
  by pat_completeness auto
termination
proof (relation "measure (\<lambda>(es, m, l, r). nat (r - l))", goal_cases)
  case (2 es m l r es2 y l1 r1)
  then have "partition_round es m l r = (es2, l1, r1)" by simp
  with 2(1) have "r1 - l1 < r - l" by (blast dest: partition_round_shrinks)
  with 2(1) show ?case by simp
qed simp

declare partition_loop.simps [simp del]

definition partition_ent :: "slots \<Rightarrow> int \<Rightarrow> int \<Rightarrow> slots \<times> int" where
  "partition_ent es l r =
     (let mi = drop_bit 1 (wrap_int (l + r));
          m = entry es mi;
          es1 = entry_upd es mi (entry es l);
          es2 = entry_upd es1 l m;
          (es3, p) = partition_loop es2 m l r
      in (entry_upd es3 p m, p))"

text \<open>
  The main loop.  \<open>stack_avail\<close> is tested after the partition, and the overflow return leaves the
  remaining ranges on the static stack.
\<close>

lemma partition_loop_bounds:
  "partition_loop es m l r = (es', p) \<Longrightarrow> (l \<le> r \<longrightarrow> l \<le> p \<and> p \<le> r) \<and> (r \<le> l \<longrightarrow> p = l)"
proof (induction es m l r arbitrary: es' p rule: partition_loop.induct)
  case (1 es m l r)
  show ?case
  proof (cases "l < r")
    case True
    obtain es2 l1 r1 where pr: "partition_round es m l r = (es2, l1, r1)" by (cases "partition_round es m l r")
    with True "1.prems" have "partition_loop es2 m l1 r1 = (es', p)"
      by (simp add: partition_loop.simps [of es m l r])
    with "1.IH" [OF True pr [symmetric] refl] partition_round_shrinks [OF True pr] True
    show ?thesis by auto
  next
    case False
    with "1.prems" show ?thesis by (auto simp: partition_loop.simps [of es m l r])
  qed
qed

lemma partition_ent_bounds:
  "partition_ent es l r = (es', p) \<Longrightarrow> (l \<le> r \<longrightarrow> l \<le> p \<and> p \<le> r) \<and> (r \<le> l \<longrightarrow> p = l)"
  by (auto simp: partition_ent_def Let_def split: prod.splits dest: partition_loop_bounds)

lemma unat_word_of_int: "0 \<le> x \<Longrightarrow> x < 2 ^ 32 \<Longrightarrow> int (unat (word_of_int x :: u32)) = x"
  by (simp add: uint_word_of_int)

lemma elem_len_sint: "elem_len (left, right) = word_of_int (sint right - sint left + 1)"
  by (simp add: elem_len_def)

lemma elem_len_split:
  assumes "elem_len (left, right) \<noteq> 0" and "partition_ent es (sint left) (sint right) = (es', p)"
  shows "unat (elem_len (word_of_int (p + 1), right)) + unat (elem_len (left, word_of_int (p - 1))) + 1
           = unat (elem_len (left, right))"
proof -
  let ?L = "sint left" and ?R = "sint right"
  note b = partition_ent_bounds [OF assms(2)]
  have e: "elem_len (word_of_int (p + 1), right) = word_of_int (?R - p)"
    "elem_len (left, word_of_int (p - 1)) = word_of_int (p - ?L)"
    by (simp_all add: elem_len_def)
  have rng: "- (2 ^ 31) \<le> ?L" "?R < 2 ^ 31" 
    using sint_greater_eq [of left] sint_less [of right] by simp_all
  show ?thesis
  proof (cases "?L \<le> ?R")
    case True
    have "?R - ?L + 1 \<noteq> 2 ^ 32"
    proof
      assume "?R - ?L + 1 = 2 ^ 32"
      then have "elem_len (left, right) = word_of_int (2 ^ 32)" unfolding elem_len_sint by (rule arg_cong)
      with assms(1) show False by simp
    qed
    with rng True have lt: "?R - ?L + 1 < 2 ^ 32" by simp
    have "int (unat (elem_len (word_of_int (p + 1), right))) = ?R - p"
      unfolding e(1) by (rule unat_word_of_int) (use b True lt in linarith)+
    moreover have "int (unat (elem_len (left, word_of_int (p - 1)))) = p - ?L"
      unfolding e(2) by (rule unat_word_of_int) (use b True lt in linarith)+
    moreover have "int (unat (elem_len (left, right))) = ?R - ?L + 1"
      unfolding elem_len_sint by (rule unat_word_of_int) (use True lt in linarith)+
    ultimately show ?thesis by linarith
  next
    case False
    then have "p = ?L" using b by simp
    then have "elem_len (left, word_of_int (p - 1)) = 0"
      and "elem_len (word_of_int (p + 1), right) = elem_len (left, right) - 1"
      by (simp_all add: elem_len_def)
    with assms(1) show ?thesis by (simp add: unat_minus_one unat_gt_0 Suc_leI)
  qed
qed

function sort_loop :: "slots \<Rightarrow> stack \<Rightarrow> int \<times> slots \<times> stack" where
  "sort_loop es [] = (0, es, [])"
| "sort_loop es (elem # stk) =
     (if elem_len elem > CUT_OFF
      then
        (case partition_ent es (sint (fst elem)) (sint (snd elem)) of
           (es1, p) \<Rightarrow>
             if \<not> stack_avail stk 2 then (- EOVERFLOW, es1, stk)
             else sort_loop es1 ((word_of_int (p + 1), snd elem) # (fst elem, word_of_int (p - 1)) # stk))
      else sort_loop (short_sort es (sint (fst elem)) (sint (snd elem))) stk)"
  by pat_completeness auto
termination
proof (relation "measure (\<lambda>(es, stk). \<Sum>elem\<leftarrow>stk. 2 * unat (elem_len elem) + 1)", goal_cases)
  case (2 es elem stk es1 p)
  then have "elem_len (fst elem, snd elem) \<noteq> 0" by (auto simp: CUT_OFF_def)
  then show ?case
    using elem_len_split [of "fst elem" "snd elem" es es1 p] 2 by simp
qed simp_all

declare sort_loop.simps(2) [simp del]

definition log_sort :: "slots \<Rightarrow> stack \<Rightarrow> u32 \<Rightarrow> u32 \<Rightarrow> int \<times> slots \<times> stack" where
  "log_sort es stk begin end =
     (let (begin1, end1) = (if begin > end then (begin - LOG_LEN, end - LOG_LEN) else (begin, end))
      in sort_loop es ((begin1, end1 - 1) # stk))"

section \<open>Lemmas: slots of a window\<close>

lemma slot_mod: "slot i = nat (i mod 32768)"
proof -
  have "i AND 32767 = take_bit 15 i"
    by (simp add: take_bit_eq_mask mask_eq_exp_minus_1)
  then show ?thesis by (simp add: slot_def LOG_MASK_def take_bit_eq_mod)
qed

lemma slot_inj: "\<bar>i - j\<bar> < 32768 \<Longrightarrow> slot i = slot j \<Longrightarrow> i = j"
proof -
  assume d: "\<bar>i - j\<bar> < 32768" and "slot i = slot j"
  then have "i mod 32768 = j mod 32768"
    by (simp add: slot_mod eq_nat_nat_iff)
  then have "32768 dvd i - j" by (simp add: mod_eq_dvd_iff)
  with d show "i = j" using zdvd_imp_le [of 32768 "\<bar>i - j\<bar>"] by (cases "i = j") auto
qed

lemma entry_upd_apply:
  "\<bar>i - j\<bar> < 32768 \<Longrightarrow> entry (entry_upd es i le) j = (if i = j then le else entry es j)"
  using slot_inj [of i j] by (auto simp: entry_def entry_upd_def)

lemma entry_upd_same [simp]: "entry (entry_upd es i le) i = le"
  by (simp add: entry_def entry_upd_def)

text \<open>The entries at the positions from \<open>l\<close> to \<open>r\<close>.\<close>

definition view :: "slots \<Rightarrow> int \<Rightarrow> int \<Rightarrow> log_entry list" where
  "view es l r = map (entry es) [l..r]"

lemma view_upd:
  assumes "r - l < 32768" and "l \<le> i" and "i \<le> r"
  shows "view (entry_upd es i le) l r = (view es l r)[nat (i - l) := le]"
proof (rule nth_equalityI)
  fix k assume "k < length (view (entry_upd es i le) l r)"
  then have k: "int k \<le> r - l" by (simp add: view_def)
  then have "entry (entry_upd es i le) (l + int k) = (if i = l + int k then le else entry es (l + int k))"
    using assms by (intro entry_upd_apply) auto
  with k assms show "view (entry_upd es i le) l r ! k = (view es l r)[nat (i - l) := le] ! k"
    by (auto simp: view_def nth_list_update)
qed (simp add: view_def)

lemma mset_view_upd:
  assumes "r - l < 32768" and "l \<le> i" and "i \<le> r"
  shows "add_mset (entry es i) (mset (view (entry_upd es i le) l r)) = add_mset le (mset (view es l r))"
proof -
  have "nat (i - l) < length (view es l r)" and "view es l r ! nat (i - l) = entry es i"
    using assms by (simp_all add: view_def)
  moreover from this have "entry es i \<in># mset (view es l r)"
    by (metis nth_mem set_mset_mset)
  ultimately show ?thesis
    using assms by (simp add: view_upd mset_update insert_DiffM)
qed

lemma entry_upd_frame: "j \<noteq> slot i \<Longrightarrow> entry_upd es i le j = es j"
  by (simp add: entry_upd_def)

text \<open>Two states of the slots that differ only by a permutation of the positions \<open>l..r\<close>.\<close>

definition permuted :: "int \<Rightarrow> int \<Rightarrow> slots \<Rightarrow> slots \<Rightarrow> bool" where
  "permuted l r es es' \<longleftrightarrow>
     mset (view es' l r) = mset (view es l r) \<and> (\<forall>j. j \<notin> slot ` {l..r} \<longrightarrow> es' j = es j)"

lemma permuted_refl [simp]: "permuted l r es es"
  by (simp add: permuted_def)

lemma permuted_trans: "permuted l r es es1 \<Longrightarrow> permuted l r es1 es2 \<Longrightarrow> permuted l r es es2"
  by (simp add: permuted_def)

lemma permuted_outside:
  assumes "permuted l r es es'" and "i \<notin> {l..r}" and "\<forall>j\<in>{l..r}. \<bar>i - j\<bar> < 32768"
  shows "entry es' i = entry es i"
proof -
  have "slot i \<notin> slot ` {l..r}"
    using assms(2,3) slot_inj by blast
  with assms(1) show ?thesis by (simp add: permuted_def entry_def)
qed

lemma permuted_inside:
  assumes "permuted l r es es'" and "i \<in> {l..r}"
  shows "\<exists>j\<in>{l..r}. entry es' i = entry es j"
proof -
  have "set (view es' l r) = set (view es l r)"
    using assms(1) unfolding permuted_def by (metis set_mset_mset)
  moreover have "entry es' i \<in> set (view es' l r)"
    using assms(2) by (simp add: view_def)
  ultimately show ?thesis by (auto simp: view_def)
qed

lemma view_split:
  assumes "l \<le> l'" and "l' \<le> r'" and "r' \<le> r"
  shows "view es l r = view es l (l' - 1) @ view es l' r' @ view es (r' + 1) r"
proof -
  have "[l..r] = [l..l' - 1] @ [l'..r]"
    using assms by (intro upto_split1) auto
  also have "[l'..r] = [l'..r'] @ [r' + 1..r]"
    using assms by (intro upto_split2) auto
  finally show ?thesis by (simp add: view_def)
qed

lemma permuted_mono:
  assumes p: "permuted l' r' es es'" and b: "l \<le> l'" "r' \<le> r" "r - l < 32768"
  shows "permuted l r es es'"
proof (cases "l' \<le> r'")
  case True
  have out: "entry es' i = entry es i" if "i \<in> {l..r}" "i \<notin> {l'..r'}" for i
    using p that(2)
  proof (rule permuted_outside)
    show "\<forall>j\<in>{l'..r'}. \<bar>i - j\<bar> < 32768" using that b by auto
  qed
  have "view es' l (l' - 1) = view es l (l' - 1)" and "view es' (r' + 1) r = view es (r' + 1) r"
    using b True by (auto simp: view_def intro!: out)
  then have "mset (view es' l r) = mset (view es l r)"
    using p True b by (simp add: view_split [of l l' r' r] permuted_def)
  moreover have "\<forall>j. j \<notin> slot ` {l..r} \<longrightarrow> es' j = es j"
  proof -
    have "slot ` {l'..r'} \<subseteq> slot ` {l..r}" using b by (intro image_mono) auto
    then show ?thesis using p unfolding permuted_def by blast
  qed
  ultimately show ?thesis by (simp add: permuted_def)
next
  case False
  then have "es' = es" using p by (auto simp: permuted_def)
  then show ?thesis by simp
qed

lemma SWAP_permuted:
  assumes "r - l < 32768" and "i \<in> {l..r}" and "j \<in> {l..r}"
  shows "permuted l r es (SWAP_ENTRY es i j)"
proof -
  let ?es1 = "entry_upd es i (entry es j)"
  have "add_mset (entry es i) (mset (view ?es1 l r)) = add_mset (entry es j) (mset (view es l r))"
    using assms by (intro mset_view_upd) auto
  moreover have "add_mset (entry ?es1 j) (mset (view (entry_upd ?es1 j (entry es i)) l r)) =
      add_mset (entry es i) (mset (view ?es1 l r))"
    using assms by (intro mset_view_upd) auto
  moreover have "entry ?es1 j = entry es j"
    by (simp add: entry_def entry_upd_def)
  ultimately have "mset (view (SWAP_ENTRY es i j) l r) = mset (view es l r)"
    by (simp add: SWAP_ENTRY_def Let_def)
  moreover have "\<forall>k. k \<notin> slot ` {l..r} \<longrightarrow> SWAP_ENTRY es i j k = es k"
    using assms by (auto simp: SWAP_ENTRY_def Let_def entry_upd_def)
  ultimately show ?thesis by (simp add: permuted_def)
qed

section \<open>Lemmas: the selection sort\<close>

text \<open>All entries of a range are in the domain where \<open>le_cmp\<close> is a total order.\<close>

definition small :: "slots \<Rightarrow> int \<Rightarrow> int \<Rightarrow> bool" where
  "small es l r \<longleftrightarrow> (\<forall>i\<in>{l..r}. small_pgi (entry es i))"

definition ordered :: "slots \<Rightarrow> int \<Rightarrow> int \<Rightarrow> bool" where
  "ordered es l r \<longleftrightarrow> (\<forall>i\<in>{l..r}. \<forall>j\<in>{l..r}. i < j \<longrightarrow> key_le (entry es i) (entry es j))"

lemma small_permuted: "permuted l r es es' \<Longrightarrow> small es l r \<Longrightarrow> small es' l r"
  unfolding small_def using permuted_inside by metis

lemma small_sub: "small es l r \<Longrightarrow> l \<le> l' \<Longrightarrow> r' \<le> r \<Longrightarrow> small es l' r'"
  by (auto simp: small_def)

lemma smallD: "small es l r \<Longrightarrow> i \<in> {l..r} \<Longrightarrow> small_pgi (entry es i)"
  by (simp add: small_def)

lemma max_pos_correct:
  assumes "small es l pos" and "l \<le> i" and "i \<le> pos" and "mx \<in> {l..pos}"
    and "\<forall>k\<in>{l..<i} \<union> {pos}. key_le (entry es k) (entry es mx)"
  shows "max_pos es i pos mx \<in> {l..pos} \<and>
    (\<forall>k\<in>{l..pos}. key_le (entry es k) (entry es (max_pos es i pos mx)))"
  using assms
proof (induction es i pos mx rule: max_pos.induct)
  case (1 es i pos mx)
  show ?case
  proof (cases "i < pos")
    case False
    then have "max_pos es i pos mx = mx" by (simp add: max_pos.simps [of es i pos mx])
    moreover have "{l..pos} = {l..<i} \<union> {pos}" using "1.prems" False by auto
    ultimately show ?thesis using "1.prems"(4,5) by simp
  next
    case True
    let ?mx = "if le_cmp (entry es i) (entry es mx) > 0 then i else mx"
    have sm: "small_pgi (entry es i)" "small_pgi (entry es mx)"
      using "1.prems" True by (auto intro: smallD)
    have mx: "key_le (entry es mx) (entry es ?mx) \<and> key_le (entry es i) (entry es ?mx)"
      using le_cmp_ge [OF sm] le_cmp_le [OF sm] by auto
    have "\<forall>k\<in>{l..<i + 1} \<union> {pos}. key_le (entry es k) (entry es ?mx)"
    proof
      fix k assume k: "k \<in> {l..<i + 1} \<union> {pos}"
      show "key_le (entry es k) (entry es ?mx)"
      proof (cases "k = i")
        case True
        with mx show ?thesis by simp
      next
        case False
        with k have "k \<in> {l..<i} \<union> {pos}" by auto
        then have "key_le (entry es k) (entry es mx)" using "1.prems"(5) by blast
        with mx show ?thesis by (blast intro: key_le_trans)
      qed
    qed
    then show ?thesis
      using "1.IH" [OF True] "1.prems" True by (simp add: max_pos.simps [of es i pos mx])
  qed
qed

lemma SWAP_entry:
  assumes "\<bar>i - k\<bar> < 32768" and "\<bar>j - k\<bar> < 32768" and "\<bar>i - j\<bar> < 32768"
  shows "entry (SWAP_ENTRY es i j) k =
    (if k = j then entry es i else if k = i then entry es j else entry es k)"
  using assms by (auto simp: SWAP_ENTRY_def Let_def entry_upd_apply)

lemma short_sort_loop_correct:
  assumes "r - l < 32768" and "pos \<le> r" and "small es l r"
    and "\<forall>i\<in>{l..r}. \<forall>j\<in>{pos<..r}. i < j \<longrightarrow> key_le (entry es i) (entry es j)"
  shows "permuted l r es (short_sort_loop es l pos) \<and> ordered (short_sort_loop es l pos) l r"
  using assms
proof (induction es l pos rule: short_sort_loop.induct)
  case (1 es l pos)
  show ?case
  proof (cases "pos > l")
    case False
    with "1.prems" show ?thesis
      by (auto simp: short_sort_loop.simps [of es l pos] ordered_def)
  next
    case True
    let ?m = "max_pos es l pos pos"
    let ?es = "SWAP_ENTRY es ?m pos"
    have m: "?m \<in> {l..pos}" "\<forall>k\<in>{l..pos}. key_le (entry es k) (entry es ?m)"
      using max_pos_correct [of es l pos l pos] True "1.prems" small_sub [of es l r l pos] by auto
    have p: "permuted l r es ?es"
      using "1.prems" m(1) True by (intro SWAP_permuted) auto
    have e: "entry ?es k = (if k = pos then entry es ?m else if k = ?m then entry es pos else entry es k)"
      if "k \<in> {l..r}" for k
      using that "1.prems" m(1) True by (intro SWAP_entry) auto
    have "\<forall>i\<in>{l..r}. \<forall>j\<in>{pos - 1<..r}. i < j \<longrightarrow> key_le (entry ?es i) (entry ?es j)"
    proof (intro ballI impI)
      fix i j assume i: "i \<in> {l..r}" and j: "j \<in> {pos - 1<..r}" and ij: "i < j"
      have jr: "j \<in> {l..r}" using j True by auto
      show "key_le (entry ?es i) (entry ?es j)"
      proof (cases "j = pos")
        case True
        have "\<exists>k\<in>{l..pos}. entry ?es i = entry es k"
          using e [OF i] m(1) i ij True by (cases "i = ?m") auto
        with m(2) e [OF jr] True show ?thesis by auto
      next
        case False
        then have jp: "pos < j" using j by auto
        then have ej: "entry ?es j = entry es j" using e [OF jr] m(1) by auto
        have "\<exists>k\<in>{l..r}. k < j \<and> entry ?es i = entry es k"
          using e [OF i] m(1) i ij jp "1.prems"(2) True
          by (intro bexI [of _ "if i = pos then ?m else if i = ?m then pos else i"]) auto
        with "1.prems"(4) jp j ej show ?thesis by auto
      qed
    qed
    then have "permuted l r ?es (short_sort_loop ?es l (pos - 1)) \<and> ordered (short_sort_loop ?es l (pos - 1)) l r"
      using "1.IH" [OF True] "1.prems" small_permuted [OF p] by auto
    with p True show ?thesis
      by (auto simp: short_sort_loop.simps [of es l pos] intro: permuted_trans)
  qed
qed

lemma short_sort_correct:
  assumes "r - l < 32768" and "small es l r"
  shows "permuted l r es (short_sort es l r) \<and> ordered (short_sort es l r) l r"
  using assms short_sort_loop_correct [of r l r es]
  by (auto simp: short_sort_def ordered_def)

lemma max_pos_range:
  "i \<le> pos \<Longrightarrow> l \<le> i \<Longrightarrow> mx \<in> {l..pos} \<Longrightarrow> max_pos es i pos mx \<in> {l..pos}"
proof (induction es i pos mx rule: max_pos.induct)
  case (1 es i pos mx)
  then show ?case by (auto simp: max_pos.simps [of es i pos mx])
qed


lemma short_sort_loop_permuted:
  "r - l < 32768 \<Longrightarrow> pos \<le> r \<Longrightarrow> permuted l r es (short_sort_loop es l pos)"
proof (induction es l pos rule: short_sort_loop.induct)
  case (1 es l pos)
  show ?case
  proof (cases "pos > l")
    case True
    let ?es = "SWAP_ENTRY es (max_pos es l pos pos) pos"
    have "permuted l r es ?es"
      using "1.prems" True max_pos_range [of l pos l pos es] by (intro SWAP_permuted) auto
    with "1.IH" [OF True] "1.prems" True show ?thesis
      by (auto simp: short_sort_loop.simps [of es l pos] intro: permuted_trans)
  qed (simp add: short_sort_loop.simps [of es l pos])
qed

lemma short_sort_permuted: "r - l < 32768 \<Longrightarrow> permuted l r es (short_sort es l r)"
  by (simp add: short_sort_def short_sort_loop_permuted)

section \<open>Lemmas: the partition\<close>

lemma scan_down_passed: "\<forall>i\<in>{scan_down es m l r<..r}. 0 \<le> le_cmp (entry es i) m"
proof (induction es m l r rule: scan_down.induct)
  case (1 es m l r)
  show ?case
  proof (cases "l < r \<and> le_cmp (entry es r) m \<ge> 0")
    case True
    then have "scan_down es m l r = scan_down es m l (r - 1)"
      by (simp add: scan_down.simps [of es m l r])
    moreover have "i \<in> {x<..r - 1} \<or> i = r" if "i \<in> {x<..r}" for i x :: int using that by auto
    ultimately show ?thesis using "1.IH" [OF True] True by fastforce
  next
    case False
    then have "scan_down es m l r = r" by (auto simp: scan_down.simps [of es m l r])
    then show ?thesis by simp
  qed
qed

lemma scan_up_passed: "\<forall>i\<in>{l..<scan_up es m l r}. le_cmp (entry es i) m \<le> 0"
proof (induction es m l r rule: scan_up.induct)
  case (1 es m l r)
  show ?case
  proof (cases "l < r \<and> le_cmp (entry es l) m \<le> 0")
    case True
    then have "scan_up es m l r = scan_up es m (l + 1) r"
      by (simp add: scan_up.simps [of es m l r])
    moreover have "i \<in> {l + 1..<x} \<or> i = l" if "i \<in> {l..<x}" for i x :: int using that by auto
    ultimately show ?thesis using "1.IH" [OF True] True by fastforce
  next
    case False
    then have "scan_up es m l r = l" by (auto simp: scan_up.simps [of es m l r])
    then show ?thesis by simp
  qed
qed

text \<open>
  The loop invariant of \<open>partition\<close> on the range \<open>a..b\<close>: \<open>l\<close> is the hole, filling it with the pivot
  gives back the entries of the range, what lies left of \<open>l\<close> is at most the pivot and what lies
  right of \<open>r\<close> at least.
\<close>

definition part_inv :: "int \<Rightarrow> int \<Rightarrow> slots \<Rightarrow> log_entry \<Rightarrow> slots \<Rightarrow> int \<Rightarrow> int \<Rightarrow> bool" where
  "part_inv a b es0 m es l r \<longleftrightarrow>
     a \<le> l \<and> l \<le> r \<and> r \<le> b \<and> permuted a b es0 (entry_upd es l m) \<and>
     (\<forall>i\<in>{a..<l}. le_cmp (entry es i) m \<le> 0) \<and> (\<forall>i\<in>{r<..b}. 0 \<le> le_cmp (entry es i) m)"

lemma mset_exchange:
  assumes "add_mset x F = add_mset m V" and "add_mset x V1 = add_mset y V"
    and "add_mset y V2 = add_mset z V1" and "add_mset z G = add_mset m V2"
  shows "G = F"
proof (rule multiset_eqI)
  fix a
  from assms have "count (add_mset x F) a = count (add_mset m V) a"
    "count (add_mset x V1) a = count (add_mset y V) a"
    "count (add_mset y V2) a = count (add_mset z V1) a"
    "count (add_mset z G) a = count (add_mset m V2) a" by simp_all
  then show "count G a = count F a" by (simp split: if_splits)
qed

lemma part_round_mset:
  assumes w: "b - a < 32768" and lr: "l \<in> {a..b}" "r1 \<in> {a..b}" "l1 \<in> {a..b}"
    and es1: "es1 = entry_upd es l (entry es r1)" and es2: "es2 = entry_upd es1 r1 (entry es1 l1)"
  shows "mset (view (entry_upd es2 l1 m) a b) = mset (view (entry_upd es l m) a b)"
proof -
  have e1: "entry es1 r1 = entry es r1" and e2: "entry es2 l1 = entry es1 l1"
    by (simp_all add: es1 es2 entry_def entry_upd_def)
  have "add_mset (entry es l) (mset (view (entry_upd es l m) a b)) = add_mset m (mset (view es a b))"
    "add_mset (entry es l) (mset (view es1 a b)) = add_mset (entry es r1) (mset (view es a b))"
    "add_mset (entry es1 r1) (mset (view es2 a b)) = add_mset (entry es1 l1) (mset (view es1 a b))"
    "add_mset (entry es2 l1) (mset (view (entry_upd es2 l1 m) a b)) = add_mset m (mset (view es2 a b))"
    unfolding es1 es2 by (rule mset_view_upd; use w lr in auto)+
  then show ?thesis unfolding e1 e2 by (rule mset_exchange)
qed

lemma part_inv_round:
  assumes w: "b - a < 32768" and inv: "part_inv a b es0 m es l r" and "l < r"
    and pr: "partition_round es m l r = (es2, l1, r1)"
  shows "part_inv a b es0 m es2 l1 r1"
proof -
  let ?es1 = "entry_upd es l (entry es r1)"
  from pr have r1: "r1 = scan_down es m l r" and l1: "l1 = scan_up ?es1 m l r1"
    and es2: "es2 = entry_upd ?es1 r1 (entry ?es1 l1)"
    by (auto simp: partition_round_def Let_def)
  from inv have b: "a \<le> l" "r \<le> b" and p: "permuted a b es0 (entry_upd es l m)"
    and lo: "\<forall>i\<in>{a..<l}. le_cmp (entry es i) m \<le> 0"
    and hi: "\<forall>i\<in>{r<..b}. 0 \<le> le_cmp (entry es i) m"
    by (simp_all add: part_inv_def)
  note s = partition_round_shrinks [OF \<open>l < r\<close> pr]
  have rng: "l \<in> {a..b}" "r1 \<in> {a..b}" "l1 \<in> {a..b}" using b s \<open>l < r\<close> by auto
  have "mset (view (entry_upd es2 l1 m) a b) = mset (view (entry_upd es l m) a b)"
    using part_round_mset [OF w rng refl refl] by (simp add: es2)
  moreover have "\<forall>j. j \<notin> slot ` {a..b} \<longrightarrow> entry_upd es2 l1 m j = entry_upd es l m j"
    using rng by (auto simp: es2 entry_upd_def)
  ultimately have "permuted a b es0 (entry_upd es2 l1 m)"
    using p by (simp add: permuted_def)
  moreover have "\<forall>i\<in>{a..<l1}. le_cmp (entry es2 i) m \<le> 0"
  proof
    fix i assume i: "i \<in> {a..<l1}"
    then have "entry es2 i = entry ?es1 i"
      unfolding es2 using s w b by (subst entry_upd_apply) auto
    moreover have "entry ?es1 i = entry es i" if "i < l"
      using that i w b s by (subst entry_upd_apply) auto
    ultimately show "le_cmp (entry es2 i) m \<le> 0"
      using scan_up_passed [of l ?es1 m r1] lo i by (cases "i < l") (auto simp: l1)
  qed
  moreover have "\<forall>i\<in>{r1<..b}. 0 \<le> le_cmp (entry es2 i) m"
  proof
    fix i assume i: "i \<in> {r1<..b}"
    then have "entry es2 i = entry ?es1 i"
      unfolding es2 using s w b by (subst entry_upd_apply) auto
    also have "\<dots> = entry es i"
      using i w b s by (subst entry_upd_apply) auto
    finally show "0 \<le> le_cmp (entry es2 i) m"
      using scan_down_passed [of es m l r] hi i by (cases "r < i") (auto simp: r1)
  qed
  ultimately show ?thesis using b s by (simp add: part_inv_def)
qed

lemma partition_loop_inv:
  assumes "b - a < 32768" and "part_inv a b es0 m es l r" and "partition_loop es m l r = (es', p)"
  shows "part_inv a b es0 m es' p p"
  using assms
proof (induction es m l r arbitrary: es' p rule: partition_loop.induct)
  case (1 es m l r)
  show ?case
  proof (cases "l < r")
    case True
    obtain es2 l1 r1 where pr: "partition_round es m l r = (es2, l1, r1)"
      by (cases "partition_round es m l r")
    have "partition_loop es2 m l1 r1 = (es', p)"
      using "1.prems"(3) True pr by (simp add: partition_loop.simps [of es m l r])
    with "1.IH" [OF True pr [symmetric] refl "1.prems"(1)]
      part_inv_round [OF "1.prems"(1,2) True pr] show ?thesis by blast
  next
    case False
    with "1.prems"(2) have "l = r" by (simp add: part_inv_def)
    moreover have "es' = es" and "p = l"
      using "1.prems"(3) False by (simp_all add: partition_loop.simps [of es m l r])
    ultimately show ?thesis using "1.prems"(2) by simp
  qed
qed

lemma slot_mid: "slot (drop_bit (Suc 0) (wrap_int x)) = slot (x div 2)"
proof -
  obtain k where k: "wrap_int x = x + k * 2 ^ 32"
  proof -
    have "wrap_int x = (x + 2 ^ 31) mod 2 ^ 32 - 2 ^ 31"
      by (simp add: wrap_int_def int_word_sint)
    also have "\<dots> = x + - ((x + 2 ^ 31) div 2 ^ 32) * 2 ^ 32"
      by (simp add: minus_div_mult_eq_mod [symmetric])
    finally show thesis by (rule that)
  qed
  have "drop_bit (Suc 0) (wrap_int x) = x div 2 + (k * 65536) * 32768"
    by (simp add: k drop_bit_eq_div)
  then show ?thesis by (simp only: slot_mod mod_mult_self1)
qed

lemma partition_ent_correct:
  assumes w: "b - a < 32768" and "a \<le> b" and pe: "partition_ent es a b = (es', p)"
  shows "permuted a b es es' \<and> p \<in> {a..b} \<and>
    (\<forall>i\<in>{a..<p}. le_cmp (entry es' i) (entry es' p) \<le> 0) \<and>
    (\<forall>i\<in>{p<..b}. 0 \<le> le_cmp (entry es' i) (entry es' p))"
proof -
  let ?mi = "drop_bit 1 (wrap_int (a + b))" and ?c = "(a + b) div 2"
  let ?m = "entry es ?mi"
  let ?es1 = "SWAP_ENTRY es a ?c"
  have mid: "entry_upd f ?mi = entry_upd f ?c" "entry f ?mi = entry f ?c" for f
    by (rule ext) (simp_all add: entry_upd_def entry_def slot_mid)
  have sw: "entry_upd (entry_upd es ?mi (entry es a)) a ?m = ?es1"
  proof -
    have "SWAP_ENTRY es a ?c = entry_upd (entry_upd es ?c (entry es a)) a (entry es ?c)"
      by (auto simp: SWAP_ENTRY_def Let_def entry_upd_def entry_def fun_eq_iff)
    then show ?thesis by (simp only: mid)
  qed
  obtain es3 where es3: "partition_loop ?es1 ?m a b = (es3, p)" "es' = entry_upd es3 p ?m"
    using pe unfolding partition_ent_def Let_def sw by (auto split: prod.splits)
  have "?c \<in> {a..b}" using \<open>a \<le> b\<close> by auto
  then have "permuted a b es ?es1"
    using w \<open>a \<le> b\<close> by (intro SWAP_permuted) auto
  moreover have "entry_upd ?es1 a ?m = ?es1"
    by (simp add: sw [symmetric] entry_upd_def fun_eq_iff)
  ultimately have "part_inv a b es ?m ?es1 a b"
    using \<open>a \<le> b\<close> by (simp add: part_inv_def)
  from partition_loop_inv [OF w this es3(1)] have inv: "part_inv a b es ?m es3 p p" .
  then have p: "p \<in> {a..b}" by (simp add: part_inv_def)
  have "entry es' i = entry es3 i" if "i \<in> {a..b}" "i \<noteq> p" for i
    using that p w unfolding es3(2) by (subst entry_upd_apply) auto
  with inv p show ?thesis by (simp add: part_inv_def es3(2))
qed
section \<open>Lemmas: the main loop\<close>

text \<open>
  The ranges on the stack lie in the window \<open>L..R\<close>, topmost rightmost, with at least the pivot
  between two of them.
\<close>

definition stk_ok :: "int \<Rightarrow> int \<Rightarrow> stack \<Rightarrow> bool" where
  "stk_ok L R stk \<longleftrightarrow>
     (\<forall>(l, r)\<in>set stk. L \<le> sint l \<and> sint l \<le> sint r + 1 \<and> sint r \<le> R) \<and>
     sorted_wrt (\<lambda>(l1, r1) (l2, r2). sint r2 + 1 < sint l1) stk"

text \<open>Two positions in no common range are in order.\<close>

definition stk_split :: "int \<Rightarrow> int \<Rightarrow> slots \<Rightarrow> stack \<Rightarrow> bool" where
  "stk_split L R es stk \<longleftrightarrow>
     (\<forall>i\<in>{L..R}. \<forall>j\<in>{L..R}. i < j \<longrightarrow>
        (\<exists>(l, r)\<in>set stk. sint l \<le> i \<and> j \<le> sint r) \<or> key_le (entry es i) (entry es j))"

definition sort_window :: "int \<Rightarrow> int \<Rightarrow> bool" where
  "sort_window L R \<longleftrightarrow> R - L < 32768 \<and> - (2 ^ 31) < L \<and> R + 1 < 2 ^ 31"

lemma stk_ok_tail: "stk_ok L R (e # stk) \<Longrightarrow> stk_ok L R stk"
  by (simp add: stk_ok_def)

lemma stk_depth: "stk_ok L R ((l, r) # stk) \<Longrightarrow> int (length stk) \<le> sint l - L"
proof (induction stk arbitrary: l r)
  case Nil
  then show ?case by (simp add: stk_ok_def)
next
  case (Cons e stk)
  obtain l2 r2 where e: "e = (l2, r2)" by (cases e)
  have "int (length stk) \<le> sint l2 - L"
    using Cons.IH [of l2 r2] stk_ok_tail [OF Cons.prems] by (simp add: e)
  moreover have "sint l2 \<le> sint r2 + 1" "sint r2 + 1 < sint l"
    using Cons.prems by (auto simp: stk_ok_def e)
  ultimately show ?case by simp
qed

lemma elem_len_long:
  assumes "sort_window L R" and "stk_ok L R ((l, r) # stk)"
  shows "elem_len (l, r) > CUT_OFF \<longleftrightarrow> sint r - sint l + 1 > 4"
proof -
  have b: "0 \<le> sint r - sint l + 1" "sint r - sint l + 1 \<le> 32768"
    using assms by (auto simp: sort_window_def stk_ok_def)
  have "int (unat (word_of_int (sint r - sint l + 1) :: u32)) = sint r - sint l + 1"
    by (rule unat_word_of_int) (use b in simp_all)
  then have "uint (elem_len (l, r)) = sint r - sint l + 1" by (simp add: elem_len_def)
  then show ?thesis by (simp add: CUT_OFF_def word_less_def)
qed

lemma stk_split_step:
  assumes w: "sort_window L R" and ok: "stk_ok L R ((l, r) # stk)" and sp: "stk_split L R es ((l, r) # stk)"
    and p: "permuted (sint l) (sint r) es es'"
    and new: "\<forall>i\<in>{sint l..sint r}. \<forall>j\<in>{sint l..sint r}. i < j \<longrightarrow>
        (\<exists>(l, r)\<in>set new. sint l \<le> i \<and> j \<le> sint r) \<or> key_le (entry es' i) (entry es' j)"
  shows "stk_split L R es' (new @ stk)"
  unfolding stk_split_def
proof (intro ballI impI)
  fix i j assume i: "i \<in> {L..R}" and j: "j \<in> {L..R}" and ij: "i < j"
  let ?I = "{sint l..sint r}"
  have sub: "?I \<subseteq> {L..R}" using ok by (auto simp: stk_ok_def)
  have dis: "sint r2 + 1 < sint l" if "(l2, r2) \<in> set stk" for l2 r2
    using ok that by (auto simp: stk_ok_def)
  have out: "entry es' k = entry es k" if "k \<in> {L..R}" "k \<notin> ?I" for k
  proof (rule permuted_outside [OF p that(2)])
    show "\<forall>j\<in>?I. \<bar>k - j\<bar> < 32768" using that(1) sub w by (auto simp: sort_window_def)
  qed
  have src: "\<exists>k'\<in>{L..R}. entry es' k = entry es k' \<and> (k' \<in> ?I \<longleftrightarrow> k \<in> ?I) \<and> (k \<notin> ?I \<longrightarrow> k' = k)"
    if "k \<in> {L..R}" for k
    using that out permuted_inside [OF p, of k] sub by (cases "k \<in> ?I") blast+
  show "(\<exists>(l, r)\<in>set (new @ stk). sint l \<le> i \<and> j \<le> sint r) \<or> key_le (entry es' i) (entry es' j)"
  proof (cases "i \<in> ?I \<and> j \<in> ?I")
    case True
    then have "(\<exists>(l, r)\<in>set new. sint l \<le> i \<and> j \<le> sint r) \<or> key_le (entry es' i) (entry es' j)"
      using new ij by blast
    then show ?thesis by auto
  next
    case False
    obtain i' j' where i': "i' \<in> {L..R}" "entry es' i = entry es i'" "i' \<in> ?I \<longleftrightarrow> i \<in> ?I" "i \<notin> ?I \<longrightarrow> i' = i"
      and j': "j' \<in> {L..R}" "entry es' j = entry es j'" "j' \<in> ?I \<longleftrightarrow> j \<in> ?I" "j \<notin> ?I \<longrightarrow> j' = j"
      using src [OF i] src [OF j] by blast
    have lt: "i' < j'" using False i' j' ij by auto
    then have "(\<exists>(l, r)\<in>set ((l, r) # stk). sint l \<le> i' \<and> j' \<le> sint r) \<or> key_le (entry es i') (entry es j')"
      using sp i'(1) j'(1) by (simp add: stk_split_def)
    then consider "key_le (entry es i') (entry es j')" | "sint l \<le> i' \<and> j' \<le> sint r"
      | l2 r2 where "(l2, r2) \<in> set stk" "sint l2 \<le> i'" "j' \<le> sint r2"
      by auto
    then show ?thesis
    proof cases
      case 1
      then show ?thesis by (simp add: i' j')
    next
      case 2
      with lt False i'(3) j'(3) show ?thesis by auto
    next
      case 3
      then have "i' < sint l" "j' < sint l" using dis [OF 3(1)] lt by auto
      then have "i' = i" "j' = j" using i' j' by auto
      with 3 show ?thesis by auto
    qed
  qed
qed

lemma sint_word_of_int_u32: "- (2 ^ 31) \<le> x \<Longrightarrow> x < 2 ^ 31 \<Longrightarrow> sint (word_of_int x :: u32) = x"
  using wrap_int_id [of x] by (simp add: wrap_int_def)

lemma stk_ok_push:
  assumes w: "sort_window L R" and ok: "stk_ok L R ((l, r) # stk)" and p: "p \<in> {sint l..sint r}"
  shows "stk_ok L R ((word_of_int (p + 1), r) # (l, word_of_int (p - 1)) # stk)"
    and "sint (word_of_int p + 1 :: u32) = p + 1" and "sint (word_of_int p - 1 :: u32) = p - 1"
proof -
  have b: "L \<le> sint l" "sint r \<le> R" using ok by (auto simp: stk_ok_def)
  show s: "sint (word_of_int p + 1 :: u32) = p + 1" "sint (word_of_int p - 1 :: u32) = p - 1"
    using w b p sint_word_of_int_u32 [of "p + 1"] sint_word_of_int_u32 [of "p - 1"]
    by (simp_all add: sort_window_def)
  show "stk_ok L R ((word_of_int (p + 1), r) # (l, word_of_int (p - 1)) # stk)"
    using ok p unfolding stk_ok_def by (auto simp: s)
qed

lemma partition_split:
  assumes w: "sort_window L R" and ok: "stk_ok L R ((l, r) # stk)" and sm: "small es L R"
    and sp: "stk_split L R es ((l, r) # stk)" and lr: "sint l \<le> sint r"
    and pe: "partition_ent es (sint l) (sint r) = (es', p)"
  shows "stk_split L R es' ((word_of_int (p + 1), r) # (l, word_of_int (p - 1)) # stk)"
proof -
  have wd: "sint r - sint l < 32768" using w ok by (auto simp: sort_window_def stk_ok_def)
  note pc = partition_ent_correct [OF wd lr pe]
  have s: "sint (word_of_int p + 1 :: u32) = p + 1" "sint (word_of_int p - 1 :: u32) = p - 1"
    using stk_ok_push [OF w ok] pc by blast+
  have sm': "small es' (sint l) (sint r)"
    using pc small_permuted small_sub [OF sm] ok by (auto simp: stk_ok_def)
  have lo: "key_le (entry es' i) (entry es' p)" if "i \<in> {sint l..<p}" for i
    using that pc le_cmp_le [of "entry es' i" "entry es' p"] smallD [OF sm'] by auto
  have hi: "key_le (entry es' p) (entry es' i)" if "i \<in> {p<..sint r}" for i
    using that pc le_cmp_ge [of "entry es' i" "entry es' p"] smallD [OF sm'] by auto
  have "stk_split L R es' ([(word_of_int (p + 1), r), (l, word_of_int (p - 1))] @ stk)"
  proof (rule stk_split_step [OF w ok sp])
    show "permuted (sint l) (sint r) es es'" using pc by blast
    show "\<forall>i\<in>{sint l..sint r}. \<forall>j\<in>{sint l..sint r}. i < j \<longrightarrow>
        (\<exists>(l, r)\<in>set [(word_of_int (p + 1), r), (l, word_of_int (p - 1))]. sint l \<le> i \<and> j \<le> sint r) \<or>
        key_le (entry es' i) (entry es' j)"
    proof (intro ballI impI)
      fix i j assume i: "i \<in> {sint l..sint r}" and j: "j \<in> {sint l..sint r}" and "i < j"
      then consider "j < p" | "p < i" | "i \<le> p" "p \<le> j" by linarith
      then show "(\<exists>(l, r)\<in>set [(word_of_int (p + 1), r), (l, word_of_int (p - 1))]. sint l \<le> i \<and> j \<le> sint r) \<or>
          key_le (entry es' i) (entry es' j)"
      proof cases
        case 1
        with i show ?thesis by (simp add: s)
      next
        case 2
        with j show ?thesis by (simp add: s)
      next
        case 3
        have "key_le (entry es' i) (entry es' p)" using lo [of i] 3 i by (cases "i = p") auto
        moreover have "key_le (entry es' p) (entry es' j)" using hi [of j] 3 j by (cases "j = p") auto
        ultimately show ?thesis by (blast intro: key_le_trans)
      qed
    qed
  qed
  then show ?thesis by simp
qed

lemma short_split:
  assumes w: "sort_window L R" and ok: "stk_ok L R ((l, r) # stk)" and sm: "small es L R"
    and sp: "stk_split L R es ((l, r) # stk)"
  shows "stk_split L R (short_sort es (sint l) (sint r)) stk"
proof -
  have wd: "sint r - sint l < 32768" using w ok by (auto simp: sort_window_def stk_ok_def)
  have sc: "permuted (sint l) (sint r) es (short_sort es (sint l) (sint r))"
    "ordered (short_sort es (sint l) (sint r)) (sint l) (sint r)"
    using short_sort_correct [OF wd, of es] small_sub [OF sm] ok by (auto simp: stk_ok_def)
  have "stk_split L R (short_sort es (sint l) (sint r)) ([] @ stk)"
    using sc(2) by (intro stk_split_step [OF w ok sp sc(1)]) (simp add: ordered_def)
  then show ?thesis by simp
qed

lemma sort_loop_main:
  assumes "sort_window L R" and "stk_ok L R stk" and "length stk \<le> 32" and "sort_loop es stk = (err, es', stk')"
  shows "permuted L R es es' \<and> (err = 0 \<and> stk' = [] \<or> err = - EOVERFLOW \<and> length stk' = 31) \<and>
    (R - L \<le> 34 \<longrightarrow> err = 0) \<and>
    (small es L R \<longrightarrow> stk_split L R es stk \<longrightarrow> err = 0 \<longrightarrow> ordered es' L R)"
  using assms
proof (induction es stk arbitrary: err es' stk' rule: sort_loop.induct)
  case (1 es)
  then show ?case by (auto simp: stk_split_def ordered_def)
next
  case (2 es elem stk)
  obtain l r where elem: "elem = (l, r)" by (cases elem)
  note w = "2.prems"(1) and ok = "2.prems"(2) [unfolded elem]
  have wd: "sint r - sint l < 32768" and b: "L \<le> sint l" "sint r \<le> R" "R - L < 32768"
    using w ok by (auto simp: sort_window_def stk_ok_def)
  have len: "length stk \<le> 31" using "2.prems"(3) by simp
  show ?case
  proof (cases "elem_len elem > CUT_OFF")
    case True
    then have long: "sint r - sint l + 1 > 4"
      using elem_len_long [OF w ok] by (simp add: elem)
    obtain es1 p where pe: "partition_ent es (sint l) (sint r) = (es1, p)"
      by (cases "partition_ent es (sint l) (sint r)")
    note pc = partition_ent_correct [OF wd _ pe]
    have perm: "permuted L R es es1"
      using pc long permuted_mono [of "sint l" "sint r" es es1 L R] b by auto
    let ?stk = "(word_of_int (p + 1), r) # (l, word_of_int (p - 1)) # stk"
    have av: "stack_avail stk 2 \<longleftrightarrow> length stk \<le> 30"
    proof -
      have "STACK_SIZE - of_nat (length stk) = of_nat (32 - length stk)"
        using len by (simp add: STACK_SIZE_def)
      moreover have "unat (of_nat (32 - length stk) :: u32) = 32 - length stk"
        by (subst unat_of_nat) simp
      ultimately have "unat (STACK_SIZE - of_nat (length stk)) = 32 - length stk" by (simp only:)
      then show ?thesis using len by (auto simp: stack_avail_def word_le_nat_alt)
    qed
    show ?thesis
    proof (cases "stack_avail stk 2")
      case False
      then have "err = - EOVERFLOW" "es' = es1" "stk' = stk" "length stk = 31"
        using "2.prems"(4) True len av by (auto simp: elem pe sort_loop.simps(2) [of es "(l, r)" stk])
      moreover have "R - L > 34"
        using stk_depth [OF ok] long b \<open>length stk = 31\<close> by simp
      ultimately show ?thesis using perm by simp
    next
      case avail: True
      have pr: "p \<in> {sint l..sint r}" using pc long by auto
      have loop: "sort_loop es1 ?stk = (err, es', stk')"
        using "2.prems"(4) True avail by (simp add: elem pe sort_loop.simps(2) [of es "(l, r)" stk])
      have "length ?stk \<le> 32" using av avail by simp
      then have IH: "permuted L R es1 es' \<and> (err = 0 \<and> stk' = [] \<or> err = - EOVERFLOW \<and> length stk' = 31) \<and>
          (R - L \<le> 34 \<longrightarrow> err = 0) \<and>
          (small es1 L R \<longrightarrow> stk_split L R es1 ?stk \<longrightarrow> err = 0 \<longrightarrow> ordered es' L R)"
        using True avail w stk_ok_push(1) [OF w ok pr] loop pe
        by (intro "2.IH"(1) [of es1 p, unfolded elem fst_conv snd_conv]) (simp_all only: elem not_not)
      have "stk_split L R es1 ?stk" if "small es L R" "stk_split L R es ((l, r) # stk)"
        using partition_split [OF w ok that _ pe] long by simp
      with IH show ?thesis
        using permuted_trans [OF perm, of es'] small_permuted [OF perm] unfolding elem by blast
    qed
  next
    case False
    let ?es = "short_sort es (sint l) (sint r)"
    have perm: "permuted L R es ?es"
      by (rule permuted_mono [OF short_sort_permuted [OF wd]]) (use b in auto)
    have loop: "sort_loop ?es stk = (err, es', stk')"
      using "2.prems"(4) False by (simp add: elem sort_loop.simps(2) [of es "(l, r)" stk])
    have "permuted L R ?es es' \<and> (err = 0 \<and> stk' = [] \<or> err = - EOVERFLOW \<and> length stk' = 31) \<and>
        (R - L \<le> 34 \<longrightarrow> err = 0) \<and>
        (small ?es L R \<longrightarrow> stk_split L R ?es stk \<longrightarrow> err = 0 \<longrightarrow> ordered es' L R)"
      using False w stk_ok_tail [OF ok] len loop
      by (intro "2.IH"(2) [unfolded elem fst_conv snd_conv]) (simp_all add: elem)
    then show ?thesis
      using permuted_trans [OF perm, of es'] small_permuted [OF perm] short_split [OF w ok]
      unfolding elem by blast
  qed
qed

section \<open>Lemmas: windows of sequence numbers\<close>

text \<open>
  The windows that keep clear of the sign change of \<open>int\<close>: those below $2^{31}$ and those above,
  including the ones that wrap around $2^{32}$.
\<close>

definition span_ok :: "u32 \<Rightarrow> nat \<Rightarrow> bool" where
  "span_ok b n \<longleftrightarrow> unat b + n < 2 ^ 31 \<or> 2 ^ 31 < unat b"

definition sort_ends :: "u32 \<Rightarrow> u32 \<Rightarrow> u32 \<times> u32" where
  "sort_ends b e = (if b > e then (b - LOG_LEN, e - LOG_LEN) else (b, e))"

lemma sint_high: "2 ^ 31 \<le> unat (x :: u32) \<Longrightarrow> sint x = int (unat x) - 2 ^ 32"
  unfolding sint_u32 uint_nat by (simp del: of_nat_unat)

lemma sint_low: "unat (x :: u32) < 2 ^ 31 \<Longrightarrow> sint x = int (unat x)"
  unfolding sint_u32 uint_nat by (simp del: of_nat_unat)

lemma sint_mod: "sint (x :: u32) mod 32768 = int (unat x) mod 32768"
proof (cases "unat x < 2 ^ 31")
  case False
  then have "sint x = int (unat x) + (- 131072) * 32768" by (simp add: sint_high)
  then show ?thesis by (simp only: mod_mult_self1)
qed (simp add: sint_low)

lemma sint_add_nat:
  assumes "sint (b :: u32) + int k < 2 ^ 31"
  shows "sint (b + of_nat k) = sint b + int k"
proof -
  have "b + of_nat k = word_of_int (sint b + int k)" by simp
  moreover have "- (2 ^ 31) \<le> sint b" using sint_greater_eq [of b] by simp
  ultimately show ?thesis
    using assms sint_word_of_int_u32 [of "sint b + int k"] by simp
qed

lemma sort_ends_start:
  assumes n: "0 < n" "n \<le> 32768" and ok: "span_ok b n" and se: "sort_ends b (b + of_nat n) = (b1, e1)"
  shows "e1 = b1 + of_nat n" and "- (2 ^ 31) < sint b1" and "sint b1 + int n < 2 ^ 31"
    and "sint b1 mod 32768 = int (unat b) mod 32768"
proof -
  show e1: "e1 = b1 + of_nat n" using se by (auto simp: sort_ends_def split: if_splits)
  have un: "unat (of_nat n :: u32) = n" using n by (subst unat_of_nat) simp
  consider (low) "b1 = b" "unat b + n < 2 ^ 31" | (high) "b1 = b" "2 ^ 31 < unat b"
    | (wrap) "b1 = b - LOG_LEN" "2 ^ 32 - 32768 \<le> unat b"
  proof (cases "b > b + of_nat n")
    case True
    then have "unat (b + of_nat n) < unat b" by (simp add: word_less_nat_alt)
    then have "2 ^ 32 \<le> unat b + n"
      using un by (simp add: unat_plus_if' split: if_splits)
    with True se n that(3) show thesis by (simp add: sort_ends_def)
  next
    case False
    with se ok that(1,2) show thesis by (auto simp: sort_ends_def span_ok_def)
  qed
  then have "- (2 ^ 31) < sint b1 \<and> sint b1 + int n < 2 ^ 31 \<and>
    sint b1 mod 32768 = int (unat b) mod 32768"
  proof cases
    case low
    then have "sint b1 = int (unat b)" by (simp only: sint_low)
    with low(2) show ?thesis by (simp del: of_nat_unat)
  next
    case high
    have "unat b < 2 ^ 32" using unsigned_less [of b] by simp
    moreover have "sint b1 = int (unat b) - 2 ^ 32" using high by (simp only: sint_high less_imp_le)
    ultimately have "- (2 ^ 31) < sint b1" and "sint b1 + int n < 2 ^ 31"
      using high(2) n by (simp_all del: of_nat_unat)
    then show ?thesis by (simp only: sint_mod high(1))
  next
    case wrap
    have "LOG_LEN \<le> b" using wrap(2) by (simp add: LOG_LEN_def word_le_nat_alt)
    then have u: "unat b1 = unat b - 32768" by (simp add: wrap(1) unat_sub LOG_LEN_def)
    have "unat b < 2 ^ 32" using unsigned_less [of b] by simp
    moreover have "int (unat b1) = int (unat b) + (- 1) * 32768" using u wrap(2) by simp
    then have "sint b1 mod 32768 = int (unat b) mod 32768"
      by (simp only: sint_mod mod_mult_self1)
    moreover have "sint b1 = int (unat b) - 32768 - 2 ^ 32"
      using u wrap(2) sint_high [of b1] by (simp del: of_nat_unat)
    ultimately show ?thesis using wrap(2) n by (simp del: of_nat_unat)
  qed
  then show "- (2 ^ 31) < sint b1" and "sint b1 + int n < 2 ^ 31"
    and "sint b1 mod 32768 = int (unat b) mod 32768" by auto
qed

lemma sort_ends_window:
  assumes n: "0 < n" "n \<le> 32768" and ok: "span_ok b n" and se: "sort_ends b (b + of_nat n) = (b1, e1)"
  shows "sort_window (sint b1) (sint (e1 - 1))" and "sint (e1 - 1) = sint b1 + int n - 1"
    and "map slot [sint b1..sint (e1 - 1)] = map (\<lambda>i. L_INDEX (b + of_nat i)) [0..<n]"
proof -
  note s = sort_ends_start [OF assms]
  have "e1 - 1 = b1 + of_nat (n - 1)" using s(1) n(1) by simp
  then have "sint (e1 - 1) = sint (b1 + of_nat (n - 1))" by (rule arg_cong)
  also have "\<dots> = sint b1 + int (n - 1)" using s(3) n(1) by (intro sint_add_nat) simp
  finally show r: "sint (e1 - 1) = sint b1 + int n - 1" using n(1) by simp
  then show "sort_window (sint b1) (sint (e1 - 1))"
    using s n by (simp add: sort_window_def)
  have "slot (sint b1 + int i) = L_INDEX (b + of_nat i)" for i
  proof -
    have "(sint b1 + int i) mod 32768 = (int (unat b) + int i) mod 32768"
      by (rule mod_add_cong [OF s(4) refl])
    then have "slot (sint b1 + int i) = nat (int (unat b + i) mod 32768)" by (simp add: slot_mod)
    also have "int (unat b + i) mod 32768 = int ((unat b + i) mod 32768)"
      by (simp only: of_nat_mod of_nat_numeral)
    finally show ?thesis by (simp add: L_INDEX_add)
  qed
  then show "map slot [sint b1..sint (e1 - 1)] = map (\<lambda>i. L_INDEX (b + of_nat i)) [0..<n]"
    by (intro nth_equalityI) (simp_all add: r)
qed

lemma view_slots: "view es l r = map es (map slot [l..r])"
  by (simp add: view_def entry_def)

lemma log_sort_ends: "log_sort es stk b e = (let (b1, e1) = sort_ends b e in sort_loop es ((b1, e1 - 1) # stk))"
  by (simp add: log_sort_def sort_ends_def)

lemma log_sort_main:
  assumes n: "0 < n" "n \<le> 32768" and ok: "span_ok b n"
    and ls: "log_sort es [] b (b + of_nat n) = (err, es', stk)"
  obtains L R where "permuted L R es es'"
    "map slot [L..R] = map (\<lambda>i. L_INDEX (b + of_nat i)) [0..<n]"
    "err = 0 \<and> stk = [] \<or> err = - EOVERFLOW \<and> length stk = 31" "n \<le> 35 \<longrightarrow> err = 0"
    "small es L R \<longrightarrow> err = 0 \<longrightarrow> ordered es' L R"
proof -
  obtain b1 e1 where se: "sort_ends b (b + of_nat n) = (b1, e1)"
    by (cases "sort_ends b (b + of_nat n)")
  note w = sort_ends_window [OF n ok se]
  let ?L = "sint b1" and ?R = "sint (e1 - 1)"
  have loop: "sort_loop es [(b1, e1 - 1)] = (err, es', stk)"
    using ls by (simp add: log_sort_ends se)
  have "stk_ok ?L ?R [(b1, e1 - 1)]"
    using w(2) n(1) by (simp add: stk_ok_def)
  from sort_loop_main [OF w(1) this _ loop] have
    m: "permuted ?L ?R es es'" "err = 0 \<and> stk = [] \<or> err = - EOVERFLOW \<and> length stk = 31"
      "?R - ?L \<le> 34 \<longrightarrow> err = 0"
      "small es ?L ?R \<longrightarrow> stk_split ?L ?R es [(b1, e1 - 1)] \<longrightarrow> err = 0 \<longrightarrow> ordered es' ?L ?R"
    by simp_all
  show thesis
  proof (rule that [of ?L ?R])
    show "n \<le> 35 \<longrightarrow> err = 0" using m(3) w(2) by auto
    show "small es ?L ?R \<longrightarrow> err = 0 \<longrightarrow> ordered es' ?L ?R"
      using m(4) by (auto simp: stk_split_def)
  qed (use m w in auto)
qed

lemma ordered_view: "ordered es l r \<Longrightarrow> sorted_wrt key_le (view es l r)"
  by (auto simp: ordered_def view_def sorted_wrt_iff_nth_less)

lemma small_view: "(\<forall>le\<in>set (view es l r). small_pgi le) \<Longrightarrow> small es l r"
  by (auto simp: small_def view_def)

lemma log_sort_window:
  assumes "0 < n" and "n \<le> 32768" and "span_ok b n"
    and "log_sort (l_entries log) [] b (b + of_nat n) = (err, es', stk)"
  shows "mset (window (log\<lparr>l_entries := es'\<rparr>) b n) = mset (window log b n) \<and>
    (\<forall>j. j \<notin> (\<lambda>i. L_INDEX (b + of_nat i)) ` {0..<n} \<longrightarrow> es' j = l_entries log j) \<and>
    (err = 0 \<and> stk = [] \<or> err = - EOVERFLOW) \<and> (n \<le> 35 \<longrightarrow> err = 0) \<and>
    (err = 0 \<longrightarrow> (\<forall>le\<in>set (window log b n). small_pgi le) \<longrightarrow>
       sorted_wrt key_le (window (log\<lparr>l_entries := es'\<rparr>) b n))"
proof -
  from log_sort_main [OF assms] obtain L R where
    m: "permuted L R (l_entries log) es'"
      "map slot [L..R] = map (\<lambda>i. L_INDEX (b + of_nat i)) [0..<n]"
      "err = 0 \<and> stk = [] \<or> err = - EOVERFLOW \<and> length stk = 31" "n \<le> 35 \<longrightarrow> err = 0"
      "small (l_entries log) L R \<longrightarrow> err = 0 \<longrightarrow> ordered es' L R" by blast
  have v: "window log b n = view (l_entries log) L R"
    "window (log\<lparr>l_entries := es'\<rparr>) b n = view es' L R"
    by (simp_all add: view_slots m(2) window_def L_ENT_def)
  have "slot ` {L..R} = (\<lambda>i. L_INDEX (b + of_nat i)) ` {0..<n}"
    using arg_cong [OF m(2), of set] by simp
  with m show ?thesis
    unfolding v using ordered_view small_view unfolding permuted_def by auto
qed

text \<open>
  C5.  Sorting a window of one to \<open>LOG_LEN\<close> entries that does not straddle the sign change of
  \<open>int\<close>, with the static stack empty, always returns (\<^const>\<open>log_sort\<close> is total).  It permutes the
  entries of the window and touches no other slot, whatever the result.  The result is 0, and then
  the stack is empty again, or \<open>-EOVERFLOW\<close>; with at most 35 entries it is 0.  If it is 0 and the page
  fields of the window are below $2^{31}$, the window is in order by inode, page and version.  The
  conditions are needed: \<open>log_sort_sign_change\<close> shows a straddling window left unsorted with result 0,
  and a stack left behind by an overflow makes the next call continue with stale ranges.
\<close>

theorem log_sort_correct:
  assumes "0 < n" and "n \<le> 32768" and "span_ok b n"
    and "log_sort (l_entries log) [] b (b + of_nat n) = (err, es', stk)"
  shows "mset (window (log\<lparr>l_entries := es'\<rparr>) b n) = mset (window log b n) \<and>
    (\<forall>j. j \<notin> (\<lambda>i. L_INDEX (b + of_nat i)) ` {0..<n} \<longrightarrow> es' j = l_entries log j) \<and>
    (err = 0 \<and> stk = [] \<or> err = - EOVERFLOW) \<and> (n \<le> 35 \<longrightarrow> err = 0) \<and>
    (err = 0 \<longrightarrow> (\<forall>le\<in>set (window log b n). small_pgi le) \<longrightarrow>
       sorted_wrt key_le (window (log\<lparr>l_entries := es'\<rparr>) b n))"
  using log_sort_window [OF assms] .

definition ex_unsorted :: adafs_log where
  "ex_unsorted = ex_log\<lparr>l_entries := (\<lambda>_. LE_INITIALIZER\<lparr>f_ino := 7\<rparr>)(0 := LE_INITIALIZER\<lparr>f_ino := 9\<rparr>)\<rparr>"

lemma ex_unsorted_small: "\<forall>le\<in>set (window ex_unsorted b n). small_pgi le"
  by (auto simp: window_def ex_unsorted_def small_pgi_def LE_INITIALIZER_def L_ENT_def)

theorem log_sort_correct_witness:
  "sorted_wrt key_le (window (ex_unsorted\<lparr>l_entries :=
     fst (snd (log_sort (l_entries ex_unsorted) [] 0 (0 + of_nat 2)))\<rparr>) 0 2)"
  using log_sort_correct [of 2 0 ex_unsorted "fst (log_sort (l_entries ex_unsorted) [] 0 (0 + of_nat 2))"
      "fst (snd (log_sort (l_entries ex_unsorted) [] 0 (0 + of_nat 2)))"
      "snd (snd (log_sort (l_entries ex_unsorted) [] 0 (0 + of_nat 2)))"]
  by (simp add: span_ok_def ex_unsorted_small)

section \<open>Lemmas: equal keys\<close>

definition equal_keys :: "slots \<Rightarrow> int \<Rightarrow> int \<Rightarrow> u64 \<Rightarrow> u64 \<Rightarrow> bool" where
  "equal_keys es l r ino pgi \<longleftrightarrow> (\<forall>i\<in>{l..r}. f_ino (entry es i) = ino \<and> f_pgi (entry es i) = pgi)"

lemma equal_keys_permuted:
  "permuted l r es es' \<Longrightarrow> equal_keys es l r ino pgi \<Longrightarrow> equal_keys es' l r ino pgi"
  unfolding equal_keys_def using permuted_inside by metis

lemma le_cmp_equal: "f_ino a = f_ino b \<Longrightarrow> f_pgi a = f_pgi b \<Longrightarrow> le_cmp a b = 0"
  by (simp add: le_cmp_def le_ino_def)

lemma scan_down_equal:
  assumes "a \<le> b" and "\<forall>i\<in>{a..b}. le_cmp (entry es i) m = 0"
  shows "scan_down es m a b = a"
proof (rule ccontr)
  assume "scan_down es m a b \<noteq> a"
  with scan_down_bounds [OF assms(1), of es m] have "a < scan_down es m a b" "scan_down es m a b \<in> {a..b}"
    by auto
  with scan_down_stop [of a es m b] assms(2) show False by auto
qed

lemma partition_equal:
  assumes w: "b - a < 32768" and ab: "a \<le> b" and eq: "equal_keys es a b ino pgi"
    and pe: "partition_ent es a b = (es', p)"
  shows "p = a"
proof (cases "a < b")
  case True
  let ?c = "drop_bit 1 (wrap_int (a + b))"
  let ?m = "entry es ?c"
  let ?es1 = "entry_upd (entry_upd es ?c (entry es a)) a ?m"
  have mid: "slot ?c = slot ((a + b) div 2)" by (simp add: slot_mid)
  have c: "(a + b) div 2 \<in> {a..b}" using ab by auto
  have m: "f_ino ?m = ino" "f_pgi ?m = pgi"
    using eq c unfolding equal_keys_def entry_def mid by blast+
  have "f_ino (entry ?es1 i) = ino \<and> f_pgi (entry ?es1 i) = pgi" if "i \<in> {a..b}" for i
    using eq that m ab by (auto simp: equal_keys_def entry_def entry_upd_def)
  then have z: "\<forall>i\<in>{a..b}. le_cmp (entry ?es1 i) ?m = 0"
    using m by (auto intro: le_cmp_equal)
  have "scan_down ?es1 ?m a b = a"
    using scan_down_equal [OF ab z] .
  then have "\<exists>es2. partition_round ?es1 ?m a b = (es2, a, a)"
    by (simp add: partition_round_def Let_def scan_up.simps)
  then obtain es2 where "partition_round ?es1 ?m a b = (es2, a, a)" by blast
  with True have "partition_loop ?es1 ?m a b = (es2, a)"
    by (simp only: partition_loop.simps [of ?es1 ?m a b] partition_loop.simps [of es2 ?m a a]
      if_True if_False split_conv less_irrefl)
  with pe show ?thesis by (simp add: partition_ent_def Let_def)
next
  case False
  with ab partition_ent_bounds [OF pe] show ?thesis by simp
qed

lemma sort_loop_overflow:
  assumes "sort_window L R" and "stk_ok L R ((l, r) # stk)" and "length stk \<le> 31"
    and "equal_keys es (sint l) (sint r) ino pgi" and "36 \<le> sint r - sint l + 1 + int (length stk)"
  shows "fst (sort_loop es ((l, r) # stk)) = - EOVERFLOW"
  using assms
proof (induction "31 - length stk" arbitrary: es l r stk)
  case (0 stk es l r)
  then have len: "length stk = 31" by simp
  have "elem_len (l, r) > CUT_OFF"
    using elem_len_long [OF 0(2,3)] 0(6) len by simp
  moreover have "\<not> stack_avail stk 2"
    by (simp add: stack_avail_def STACK_SIZE_def len word_le_nat_alt)
  ultimately show ?case
    by (simp add: sort_loop.simps(2) [of es "(l, r)" stk] split: prod.splits)
next
  case (Suc x stk es l r)
  have wd: "sint r - sint l < 32768" using Suc(3,4) by (auto simp: sort_window_def stk_ok_def)
  have long: "elem_len (l, r) > CUT_OFF" and lr: "sint l \<le> sint r"
    using elem_len_long [OF Suc(3,4)] Suc(7) Suc(2) by simp_all
  have av: "stack_avail stk 2"
  proof -
    have "unat (of_nat (32 - length stk) :: u32) = 32 - length stk"
      by (subst unat_of_nat) simp
    moreover have "STACK_SIZE - of_nat (length stk) = of_nat (32 - length stk)"
      using Suc(2) by (simp add: STACK_SIZE_def)
    ultimately have "unat (STACK_SIZE - of_nat (length stk)) = 32 - length stk" by (simp only:)
    then show ?thesis using Suc(2) by (auto simp: stack_avail_def word_le_nat_alt)
  qed
  obtain es1 p where pe: "partition_ent es (sint l) (sint r) = (es1, p)"
    by (cases "partition_ent es (sint l) (sint r)")
  note pc = partition_ent_correct [OF wd lr pe]
  have p: "p = sint l" by (rule partition_equal [OF wd lr Suc(6) pe])
  let ?stk = "(l, word_of_int (p - 1)) # stk"
  have ok: "stk_ok L R ((word_of_int (p + 1), r) # ?stk)" and s: "sint (word_of_int p + 1 :: u32) = p + 1"
    using stk_ok_push [OF Suc(3,4)] pc by blast+
  have "equal_keys es1 (sint (word_of_int (p + 1) :: u32)) (sint r) ino pgi"
    using equal_keys_permuted [OF _ Suc(6)] pc s p by (auto simp: equal_keys_def)
  with Suc(2,3,7) ok s p have "fst (sort_loop es1 ((word_of_int (p + 1), r) # ?stk)) = - EOVERFLOW"
    by (intro Suc.hyps(1)) auto
  with long av pe show ?case
    by (simp add: sort_loop.simps(2) [of es "(l, r)" stk])
qed

text \<open>
  A window with 36 or more entries of equal key (the invalidated first pages of deleted files,
  for instance) overflows the sorter's stack: the call fails with \<open>-EOVERFLOW\<close> and leaves 31 ranges
  on the static stack for the next call to find.
\<close>

theorem log_sort_overflow:
  assumes "36 \<le> n" and "n \<le> 32768" and "span_ok b n"
    and "\<forall>le\<in>set (window log b n). f_ino le = ino \<and> f_pgi le = pgi"
  shows "\<exists>es' stk. log_sort (l_entries log) [] b (b + of_nat n) = (- EOVERFLOW, es', stk) \<and> length stk = 31"
proof -
  let ?es = "l_entries log"
  obtain err es' stk where ls: "log_sort ?es [] b (b + of_nat n) = (err, es', stk)"
    by (cases "log_sort ?es [] b (b + of_nat n)")
  obtain b1 e1 where se: "sort_ends b (b + of_nat n) = (b1, e1)"
    by (cases "sort_ends b (b + of_nat n)")
  have n0: "0 < n" using assms(1) by simp
  note w = sort_ends_window [OF n0 assms(2,3) se]
  have "equal_keys ?es (sint b1) (sint (e1 - 1)) ino pgi"
  proof -
    have "view ?es (sint b1) (sint (e1 - 1)) = window log b n"
      by (simp add: view_slots w(3) window_def L_ENT_def)
    then have "set (window log b n) = entry ?es ` {sint b1..sint (e1 - 1)}"
      by (metis view_def set_map set_upto)
    with assms(4) show ?thesis by (auto simp: equal_keys_def)
  qed
  moreover have "stk_ok (sint b1) (sint (e1 - 1)) [(b1, e1 - 1)]"
    using w(2) assms(1) by (simp add: stk_ok_def)
  ultimately have "fst (sort_loop ?es [(b1, e1 - 1)]) = - EOVERFLOW"
    using w(1,2) assms(1) by (intro sort_loop_overflow) auto
  then have "err = - EOVERFLOW" using ls by (simp add: log_sort_ends se)
  with log_sort_main [OF n0 assms(2,3) ls] ls show ?thesis by auto
qed

theorem log_sort_overflow_witness:
  "\<exists>es' stk. log_sort (\<lambda>_. LE_INITIALIZER) [] 5 (5 + of_nat 40) = (- EOVERFLOW, es', stk) \<and> length stk = 31"
  using log_sort_overflow [of 40 5 "ex_log\<lparr>l_entries := \<lambda>_. LE_INITIALIZER\<rparr>" "f_ino LE_INITIALIZER" "f_pgi LE_INITIALIZER"]
  by (simp add: span_ok_def window_def L_ENT_def)

text \<open>
  A short window that straddles sequence number $2^{31}$ is not sorted at all: the signed ends
  are in the wrong order, \<open>short_sort\<close> returns at once, and the call reports success.
\<close>

theorem log_sort_sign_change:
  assumes "unat b < 2 ^ 31" and "2 ^ 31 < unat b + n" and "n \<le> 4"
  shows "log_sort es [] b (b + of_nat n) = (0, es, [])"
proof -
  have un: "unat (of_nat n :: u32) = n" using assms(3) by (subst unat_of_nat) simp
  have ub: "unat (b + of_nat n) = unat b + n"
    using assms un by (simp add: unat_plus_if')
  have "\<not> b > b + of_nat n" using ub by (simp add: word_less_nat_alt)
  moreover have "sint b \<ge> sint (b + of_nat n - 1)"
  proof -
    have "b + of_nat n \<noteq> 0" using ub assms(2) by auto
    then have "unat (b + of_nat n - 1) = unat b + n - 1" using ub by (simp add: unat_minus_one)
    then have "sint (b + of_nat n - 1) = int (unat b + n - 1) - 2 ^ 32"
      using sint_high [of "b + of_nat n - 1"] assms(2) by simp
    moreover have "int (unat b + n - 1) < 2 ^ 32" using assms by (simp del: of_nat_unat)
    ultimately have "sint (b + of_nat n - 1) < 0" by simp
    moreover have "0 \<le> sint b" using sint_low [OF assms(1)] by simp
    ultimately show ?thesis by linarith
  qed
  moreover have "\<not> elem_len (b, b + of_nat n - 1) > CUT_OFF"
    using assms(3) un by (simp add: elem_len_def CUT_OFF_def word_less_nat_alt)
  ultimately show ?thesis
    by (simp add: log_sort_def short_sort_def sort_loop.simps(2))
qed

theorem log_sort_sign_change_witness:
  "log_sort (l_entries ex_unsorted) [] 2147483647 (2147483647 + of_nat 2) = (0, l_entries ex_unsorted, [])"
  using log_sort_sign_change [of 2147483647 2 "l_entries ex_unsorted"] by simp

end
