(* ===== verification/Policy.thy ===== *)
theory Policy
  imports Log
begin

text \<open>
  The two policies that decide when the open transaction of a log is sealed and when the flusher
  is woken: \<^verbatim>\<open>ada_policy.h\<close>, which seals at a fixed transaction size, and
  \<^verbatim>\<open>ada_policy_stal_limit.h\<close>, which seals at the administrator's limit.  Their macros have the same
  names; the ones of the second carry the prefix \<open>sl_\<close>.  Each returns the log and whether
  \<open>wake_up_process(adafs_flusher)\<close> was called.  The statistics are 64-bit counters, the limit in
  blocks is the 32-bit \<open>stal_limit_blocks\<close>.
\<close>

section \<open>The policy of fixed transactions\<close>

definition ADAFS_TRAN_LIMIT :: u64 where
  "ADAFS_TRAN_LIMIT = 16777216"

definition stat_upd :: "adafs_log \<Rightarrow> (tran_stat \<Rightarrow> tran_stat) \<Rightarrow> adafs_log" where
  "stat_upd log f = log_tail_upd log (\<lambda>tran. tran\<lparr>stat := f (stat tran)\<rparr>)"

text \<open>The end of both write macros: seal when the sum is large, then decide on the wake-up.\<close>

definition seal_at :: "u64 \<Rightarrow> (adafs_log \<Rightarrow> bool) \<Rightarrow> adafs_log \<Rightarrow> bool \<times> adafs_log" where
  "seal_at limit wake log =
     (if limit \<le> staleness (stat (log_tail_tran log))
      then let log1 = snd (log_seal log) in (wake log1, log1)
      else (False, log))"

definition on_write_old_page :: "u32 \<Rightarrow> adafs_log \<Rightarrow> u64 \<Rightarrow> bool \<times> adafs_log" where
  "on_write_old_page stal_limit_blocks log sz =
     seal_at ADAFS_TRAN_LIMIT (\<lambda>log1. stal_limit_blocks \<le> seq_dist (l_begin log1) (l_end log1))
       (stat_upd log (\<lambda>sp. sp\<lparr>merg_size := merg_size sp + sz, staleness := staleness sp + sz\<rparr>))"

definition on_write_new_page :: "u32 \<Rightarrow> adafs_log \<Rightarrow> u64 \<Rightarrow> bool \<times> adafs_log" where
  "on_write_new_page stal_limit_blocks log sz =
     seal_at ADAFS_TRAN_LIMIT (\<lambda>log1. stal_limit_blocks \<le> seq_dist (l_begin log1) (l_end log1))
       (stat_upd log (\<lambda>sp. sp\<lparr>staleness := staleness sp + sz, stat_length := stat_length sp + 1\<rparr>))"

definition on_evict_page :: "adafs_log \<Rightarrow> u64 \<Rightarrow> adafs_log" where
  "on_evict_page log sz =
     stat_upd log (\<lambda>sp. sp\<lparr>staleness := staleness sp + 1, merg_size := merg_size sp + sz,
       stat_length := stat_length sp - 1\<rparr>)"

section \<open>The policy of a staleness limit\<close>

text \<open>The shift is one of \<open>unsigned int\<close>; the comparison widens its result.\<close>

definition sl_limit :: "u32 \<Rightarrow> u64" where
  "sl_limit stal_limit_blocks = ucast (push_bit PAGE_CACHE_SHIFT stal_limit_blocks :: u32)"

definition sl_on_write_old_page :: "u32 \<Rightarrow> adafs_log \<Rightarrow> u64 \<Rightarrow> bool \<times> adafs_log" where
  "sl_on_write_old_page stal_limit_blocks log sz =
     seal_at (sl_limit stal_limit_blocks) (\<lambda>log1. True)
       (stat_upd log (\<lambda>sp. sp\<lparr>merg_size := merg_size sp + sz, staleness := staleness sp + sz\<rparr>))"

definition sl_on_write_new_page :: "u32 \<Rightarrow> adafs_log \<Rightarrow> u64 \<Rightarrow> bool \<times> adafs_log" where
  "sl_on_write_new_page stal_limit_blocks log sz =
     seal_at (sl_limit stal_limit_blocks) (\<lambda>log1. True)
       (stat_upd log (\<lambda>sp. sp\<lparr>staleness := staleness sp + sz, stat_length := stat_length sp + 1\<rparr>))"

definition sl_on_evict_page :: "adafs_log \<Rightarrow> u64 \<Rightarrow> adafs_log" where
  "sl_on_evict_page log sz =
     stat_upd log (\<lambda>sp. sp\<lparr>staleness := staleness sp + 1, merg_size := merg_size sp + sz,
       stat_length := stat_length sp - 1\<rparr>)"

section \<open>Lemmas: the counters\<close>

abbreviation open_stal :: "adafs_log \<Rightarrow> u64" where
  "open_stal log \<equiv> staleness (stat (log_tail_tran log))"

lemma stat_upd_fields [simp]:
  "l_entries (stat_upd log f) = l_entries log" "l_begin (stat_upd log f) = l_begin log"
  "l_head (stat_upd log f) = l_head log" "l_end (stat_upd log f) = l_end log"
  "log_tail_tran (stat_upd log f) = (log_tail_tran log)\<lparr>stat := f (stat (log_tail_tran log))\<rparr>"
  by (simp_all add: stat_upd_def log_tail_upd_def log_tail_tran_def)

lemma stat_upd_inv [inv_intros]: "log_inv log \<Longrightarrow> log_inv (stat_upd log f)"
  unfolding stat_upd_def by (rule log_stat_inv)

lemma stat_upd_list [simp]: "log_list (stat_upd log f) = log_list log"
  by (simp add: log_list_def window_def L_ENT_def)

lemma stal_sum_acc: "stal_sum ts s = s + (\<Sum>t\<leftarrow>ts. staleness (stat t))"
  by (induction ts arbitrary: s) (simp_all add: add.assoc)

lemma log_stal_sum_tail:
  assumes "l_trans log \<noteq> []"
  shows "log_stal_sum log =
    (\<Sum>t\<leftarrow>butlast (l_trans log). staleness (stat t)) + open_stal log"
  using assms by (cases "l_trans log" rule: rev_cases)
    (simp_all add: log_stal_sum_def stal_sum_acc log_tail_tran_def)

lemma stat_upd_butlast [simp]: "butlast (l_trans (stat_upd log f)) = butlast (l_trans log)"
  by (simp add: stat_upd_def log_tail_upd_def)

lemma stat_upd_trans [simp]: "l_trans (stat_upd log f) \<noteq> []"
  by (simp add: stat_upd_def log_tail_upd_def)

lemma log_seal_sum: "l_trans log \<noteq> [] \<Longrightarrow> log_stal_sum (snd (log_seal log)) = log_stal_sum log"
  by (cases "l_trans log" rule: rev_cases)
    (auto simp: log_seal_def do_log_seal_def log_tail_upd_def log_add_tran_def log_tail_tran_def
      log_stal_sum_def stal_sum_acc new_tran_def init_stat_def)

lemma log_seal_fields [simp]:
  "l_entries (snd (log_seal log)) = l_entries log" "l_begin (snd (log_seal log)) = l_begin log"
  "l_end (snd (log_seal log)) = l_end log"
  "l_head (snd (log_seal log)) = l_end log"
  by (auto simp: log_seal_def do_log_seal_def log_tail_upd_def log_add_tran_def)

lemma log_seal_list [simp]: "log_list (snd (log_seal log)) = log_list log"
  by (simp add: log_list_def window_def L_ENT_def)

lemma log_seal_snd_inv [inv_intros]: "log_inv log \<Longrightarrow> log_inv (snd (log_seal log))"
  by (rule log_seal_inv [of log "fst (log_seal log)"]) simp_all

lemma log_seal_open: "l_head log \<noteq> l_end log \<Longrightarrow> open_stal (snd (log_seal log)) = 0"
  by (simp add: log_seal_def do_log_seal_def log_add_tran_def log_tail_tran_def new_tran_def init_stat_def)

lemma seal_at_cases [case_names seal keep]:
  obtains "limit \<le> open_stal log" "seal_at limit wake log = (wake (snd (log_seal log)), snd (log_seal log))"
  | "open_stal log < limit" "seal_at limit wake log = (False, log)"
  by (cases "limit \<le> open_stal log") (auto simp: seal_at_def Let_def not_le)

lemma seal_at_inv [inv_intros]: "log_inv log \<Longrightarrow> log_inv (snd (seal_at limit wake log))"
  by (cases rule: seal_at_cases [of limit log wake]) (simp_all add: log_seal_snd_inv)

lemma seal_at_fields [simp]:
  "l_entries (snd (seal_at limit wake log)) = l_entries log"
  "l_begin (snd (seal_at limit wake log)) = l_begin log" "l_end (snd (seal_at limit wake log)) = l_end log"
  by (cases rule: seal_at_cases [of limit log wake]; simp)+

lemma seal_at_list [simp]: "log_list (snd (seal_at limit wake log)) = log_list log"
  by (cases rule: seal_at_cases [of limit log wake]) simp_all

lemma seal_at_sum: "l_trans log \<noteq> [] \<Longrightarrow> log_stal_sum (snd (seal_at limit wake log)) = log_stal_sum log"
  by (cases rule: seal_at_cases [of limit log wake]) (simp_all add: log_seal_sum)

lemma seal_at_bound:
  "l_head log \<noteq> l_end log \<Longrightarrow> 0 < limit \<Longrightarrow> open_stal (snd (seal_at limit wake log)) < limit"
  by (cases rule: seal_at_cases [of limit log wake]) (simp_all add: log_seal_open)

lemma stat_upd_sum:
  assumes "l_trans log \<noteq> []" and "staleness (f (stat (log_tail_tran log))) = open_stal log + d"
  shows "log_stal_sum (stat_upd log f) = log_stal_sum log + d"
  using assms by (simp add: log_stal_sum_tail add.assoc)

section \<open>Interface: a policy\<close>

text \<open>
  What the write path relies on: the policy's reaction to a page write seals or not, and otherwise
  only counts.
\<close>

locale policy =
  fixes limit :: u64 and wake :: "adafs_log \<Rightarrow> bool" and count :: "u64 \<Rightarrow> tran_stat \<Rightarrow> tran_stat"
    and react :: "adafs_log \<Rightarrow> u64 \<Rightarrow> bool \<times> adafs_log"
  assumes react: "react log sz = seal_at limit wake (stat_upd log (count sz))"
    and counts: "staleness (count sz sp) = staleness sp + sz"
begin

lemma react_inv: "log_inv log \<Longrightarrow> log_inv (snd (react log sz))"
  unfolding react by (intro seal_at_inv stat_upd_inv)

lemma react_fields:
  "l_entries (snd (react log sz)) = l_entries log" "l_begin (snd (react log sz)) = l_begin log"
  "l_end (snd (react log sz)) = l_end log"
  by (simp_all add: react)

lemma react_list: "log_list (snd (react log sz)) = log_list log"
  by (simp add: react)

lemma react_sum: "log_inv log \<Longrightarrow> log_stal_sum (snd (react log sz)) = log_stal_sum log + sz"
  unfolding react using stat_upd_sum [of log "count sz" sz]
  by (simp add: seal_at_sum counts log_inv_def)

lemma react_seals:
  "l_head (snd (react log sz)) = (if limit \<le> open_stal log + sz then l_end log else l_head log)"
  unfolding react by (cases rule: seal_at_cases [of limit "stat_upd log (count sz)" wake])
    (auto simp: counts)

lemma react_bound:
  "l_head log \<noteq> l_end log \<Longrightarrow> 0 < limit \<Longrightarrow> open_stal (snd (react log sz)) < limit"
  unfolding react by (rule seal_at_bound) simp_all

lemma react_wakes: "fst (react log sz) \<Longrightarrow> limit \<le> open_stal log + sz"
  unfolding react by (cases rule: seal_at_cases [of limit "stat_upd log (count sz)" wake])
    (auto simp: counts)

lemma react_accounting:
  assumes "log_inv log" and "0 < limit" and "react log sz = (w, log')"
  shows "log_inv log' \<and> log_list log' = log_list log \<and> log_stal_sum log' = log_stal_sum log + sz \<and>
    l_head log' = (if limit \<le> open_stal log + sz then l_end log else l_head log) \<and>
    (w \<longrightarrow> limit \<le> open_stal log + sz) \<and> (l_head log \<noteq> l_end log \<longrightarrow> open_stal log' < limit)"
  using react_inv [OF assms(1), of sz] react_list [of log sz] react_sum [OF assms(1), of sz]
    react_seals [of log sz] react_wakes [of log sz] react_bound [OF _ assms(2), of log sz]
  unfolding assms(3) fst_conv snd_conv by blast

end

interpretation old_page: policy ADAFS_TRAN_LIMIT
  "\<lambda>log. n \<le> seq_dist (l_begin log) (l_end log)"
  "\<lambda>sz sp. sp\<lparr>merg_size := merg_size sp + sz, staleness := staleness sp + sz\<rparr>"
  "on_write_old_page n" for n
  by unfold_locales (simp_all add: on_write_old_page_def)

interpretation new_page: policy ADAFS_TRAN_LIMIT
  "\<lambda>log. n \<le> seq_dist (l_begin log) (l_end log)"
  "\<lambda>sz sp. sp\<lparr>staleness := staleness sp + sz, stat_length := stat_length sp + 1\<rparr>"
  "on_write_new_page n" for n
  by unfold_locales (simp_all add: on_write_new_page_def)

interpretation sl_old_page: policy "sl_limit n" "\<lambda>log. True"
  "\<lambda>sz sp. sp\<lparr>merg_size := merg_size sp + sz, staleness := staleness sp + sz\<rparr>"
  "sl_on_write_old_page n" for n
  by unfold_locales (simp_all add: sl_on_write_old_page_def)

interpretation sl_new_page: policy "sl_limit n" "\<lambda>log. True"
  "\<lambda>sz sp. sp\<lparr>staleness := staleness sp + sz, stat_length := stat_length sp + 1\<rparr>"
  "sl_on_write_new_page n" for n
  by unfold_locales (simp_all add: sl_on_write_new_page_def)

lemma on_evict_page_inv [inv_intros]: "log_inv log \<Longrightarrow> log_inv (on_evict_page log sz)"
  unfolding on_evict_page_def by (rule stat_upd_inv)

lemma on_evict_page_fields [simp]:
  "l_entries (on_evict_page log sz) = l_entries log" "l_begin (on_evict_page log sz) = l_begin log"
  "l_head (on_evict_page log sz) = l_head log" "l_end (on_evict_page log sz) = l_end log"
  by (simp_all add: on_evict_page_def)

section \<open>Properties\<close>

text \<open>
  C20.  Accounting of page writes.  Recording a write of \<open>sz\<close> bytes, to a page the open transaction
  already has or to a new one, keeps the log invariant and the logged entries, adds exactly \<open>sz\<close>
  to the staleness of the log, seals the open transaction if and only if its own staleness reaches
  \<open>ADAFS_TRAN_LIMIT\<close>, and never wakes the flusher otherwise; on a log with unsealed entries the
  open transaction is below the limit afterwards.
\<close>

theorem policy_accounting:
  assumes "log_inv log" and "react = on_write_old_page n \<or> react = on_write_new_page n"
    and "react log sz = (wake, log')"
  shows "log_inv log' \<and> log_list log' = log_list log \<and> log_stal_sum log' = log_stal_sum log + sz \<and>
    l_head log' = (if ADAFS_TRAN_LIMIT \<le> open_stal log + sz then l_end log else l_head log) \<and>
    (wake \<longrightarrow> ADAFS_TRAN_LIMIT \<le> open_stal log + sz) \<and>
    (l_head log \<noteq> l_end log \<longrightarrow> open_stal log' < ADAFS_TRAN_LIMIT)"
proof -
  have "0 < ADAFS_TRAN_LIMIT" by (simp add: ADAFS_TRAN_LIMIT_def)
  with assms(1) old_page.react_accounting [of log n sz wake log']
    new_page.react_accounting [of log n sz wake log'] assms(2,3) show ?thesis by blast
qed

theorem policy_accounting_witness:
  "log_inv ex_log \<and> (\<exists>wake log'. on_write_new_page 4096 ex_log 16777216 = (wake, log') \<and>
     log_stal_sum log' = 16777216 \<and> l_head log' = 2 \<and> open_stal log' < ADAFS_TRAN_LIMIT)"
proof -
  obtain wake log' where r: "on_write_new_page 4096 ex_log 16777216 = (wake, log')" by fastforce
  from policy_accounting [OF ex_log_inv disjI2 [OF refl] r] ex_log_inv r show ?thesis
    by (auto simp: ex_log_def log_stal_sum_def log_tail_tran_def new_tran_def init_stat_def
        ADAFS_TRAN_LIMIT_def)
qed

text \<open>
  The staleness limit in bytes is computed in 32 bits: for a limit below \<open>2 ^ 20\<close> blocks it is
  the limit times the page size, and for larger ones it is that number modulo \<open>2 ^ 32\<close>.  With a limit of
  \<open>2 ^ 20\<close> blocks (4 GiB) it is 0, and every page write seals the log and wakes the flusher.
\<close>

theorem sl_limit_wraps:
  "unat (sl_limit n) = 4096 * unat n mod 2 ^ 32 \<and>
   (unat n < 2 ^ 20 \<longrightarrow> unat (sl_limit n) = 4096 * unat n) \<and>
   sl_on_write_old_page (2 ^ 20) log sz =
     (True, snd (log_seal (stat_upd log
        (\<lambda>sp. sp\<lparr>merg_size := merg_size sp + sz, staleness := staleness sp + sz\<rparr>))))"
proof -
  have "take_bit 64 (unat n * 4096 mod 4294967296) = unat n * 4096 mod 4294967296"
    by (rule take_bit_nat_eq_self) (rule order.strict_trans [of _ 4294967296], simp_all)
  then have "unat (sl_limit n) = 4096 * unat n mod 2 ^ 32"
    by (simp add: sl_limit_def PAGE_CACHE_SHIFT_def unsigned_ucast_eq push_bit_eq_mult
        unat_word_ariths mult.commute)
  moreover have "sl_limit (2 ^ 20) = 0"
    by (simp add: sl_limit_def PAGE_CACHE_SHIFT_def push_bit_eq_mult)
  ultimately show ?thesis
    by (simp add: sl_on_write_old_page_def seal_at_def Let_def)
qed

theorem sl_limit_wraps_witness:
  "unat (5 :: u32) < 2 ^ 20 \<and> unat (sl_limit 5) = 4096 * 5"
  using sl_limit_wraps [of 5] by simp

text \<open>Evicting a page of an older transaction takes one off the length of the open one.\<close>

lemma evict_underflows:
  assumes "l_trans log \<noteq> []" and "stat_length (stat (log_tail_tran log)) = 0"
  shows "stat_length (stat (log_tail_tran (on_evict_page log sz))) = - 1"
  using assms by (simp add: on_evict_page_def stat_upd_def log_tail_upd_def log_tail_tran_def)

end
