(* ===== verification/Shashtable.thy ===== *)
theory Shashtable
  imports Prelude
begin

text \<open>
  The hash table of \<^verbatim>\<open>shashtable.h\<close>: an array of $2^{bits}$ chains (\<open>struct sht_list\<close>), each
  under a lock of its own.  A chain is the list of the objects whose \<open>hlist_node\<close>s it links, head
  first; the objects live in a heap that is passed in as the map from an object to its key member,
  so that following a link to freed memory is the fault \<open>BAD_POINTER\<close>.  The kernel's \<open>hash_32\<close> is a
  parameter of every operation.  The chain locks make every macro one atomic step.
\<close>

section \<open>Data and operations\<close>

type_synonym hash_fun = "u32 \<Rightarrow> u32 \<Rightarrow> u32"

record shashtable =
  lists :: "nat \<Rightarrow> ptr list"
  bits :: u32

definition SHASHTABLE_UNINIT :: "u32 \<Rightarrow> shashtable" where
  "SHASHTABLE_UNINIT b = \<lparr>lists = (\<lambda>_. []), bits = b\<rparr>"

definition sht_possible_hlist :: "hash_fun \<Rightarrow> shashtable \<Rightarrow> ptr \<Rightarrow> nat" where
  "sht_possible_hlist hash_32 sht key = unat (hash_32 (ucast key) (bits sht))"

definition sht_add_entry :: "hash_fun \<Rightarrow> shashtable \<Rightarrow> ptr \<Rightarrow> ptr \<Rightarrow> shashtable" where
  "sht_add_entry hash_32 sht obj key =
     (let hl = sht_possible_hlist hash_32 sht key
      in sht\<lparr>lists := (lists sht)(hl := obj # lists sht hl)\<rparr>)"

fun hlist_find :: "(ptr \<rightharpoonup> ptr) \<Rightarrow> ptr \<Rightarrow> ptr list \<Rightarrow> fault + ptr option" where
  "hlist_find key_member key [] = Inr None"
| "hlist_find key_member key (pos # hl) =
     (case key_member pos of
        None \<Rightarrow> Inl BAD_POINTER
      | Some k \<Rightarrow> if k = key then Inr (Some pos) else hlist_find key_member key hl)"

definition sht_find_entry :: "hash_fun \<Rightarrow> (ptr \<rightharpoonup> ptr) \<Rightarrow> shashtable \<Rightarrow> ptr \<Rightarrow> fault + ptr option" where
  "sht_find_entry hash_32 key_member sht key =
     hlist_find key_member key (lists sht (sht_possible_hlist hash_32 sht key))"

text \<open>
  \<open>hlist_del\<close> unlinks an object from the chain that it is on; no chain is named.  \<open>sht_walk\<close> is
  the order in which \<open>for_each_hlist_safe\<close> visits the objects, from the last chain to the first.
\<close>

definition sht_del :: "shashtable \<Rightarrow> ptr \<Rightarrow> shashtable" where
  "sht_del sht obj = sht\<lparr>lists := (\<lambda>i. remove1 obj (lists sht i))\<rparr>"

definition sht_walk :: "shashtable \<Rightarrow> ptr list" where
  "sht_walk sht = concat (map (lists sht) (rev [0..<2 ^ unat (bits sht)]))"

section \<open>Invariant\<close>

text \<open>
  What the kernel documents of \<open>hash_32(val, bits)\<close>: the result has at most \<open>bits\<close> bits.
\<close>

definition hash_ok :: "hash_fun \<Rightarrow> u32 \<Rightarrow> bool" where
  "hash_ok hash_32 b \<longleftrightarrow> (\<forall>val. unat (hash_32 val b) < 2 ^ unat b)"

text \<open>
  The chains hold exactly the objects of the heap, each once and in the chain of its key, and no two
  objects have the same key.
\<close>

definition sht_inv :: "hash_fun \<Rightarrow> (ptr \<rightharpoonup> ptr) \<Rightarrow> shashtable \<Rightarrow> bool" where
  "sht_inv hash_32 km sht \<longleftrightarrow>
     hash_ok hash_32 (bits sht) \<and>
     (\<forall>i. distinct (lists sht i)) \<and>
     (\<forall>i obj. obj \<in> set (lists sht i) \<longleftrightarrow>
        (\<exists>key. km obj = Some key \<and> sht_possible_hlist hash_32 sht key = i)) \<and>
     (\<forall>o1 o2 key. km o1 = Some key \<longrightarrow> km o2 = Some key \<longrightarrow> o1 = o2)"

section \<open>Lemmas\<close>

lemma sht_possible_hlist_bits [heap_simps]:
  "sht_possible_hlist h (sht\<lparr>lists := f\<rparr>) = sht_possible_hlist h sht"
  by (simp add: sht_possible_hlist_def fun_eq_iff)

lemma hlist_find_found:
  assumes "set hl \<subseteq> dom km" and "pos \<in> set hl" and "km pos = Some key"
    and "\<And>obj. obj \<in> set hl \<Longrightarrow> km obj = Some key \<Longrightarrow> obj = pos"
  shows "hlist_find km key hl = Inr (Some pos)"
  using assms
proof (induction hl)
  case (Cons obj hl)
  from Cons.prems(1) obtain k where k: "km obj = Some k" by auto
  have "k \<noteq> key" if "obj \<noteq> pos"
    using Cons.prems(4) [of obj] k that by auto
  moreover have "hlist_find km key hl = Inr (Some pos)" if "obj \<noteq> pos"
    using Cons.prems(1,2,3) that by (intro Cons.IH Cons.prems(4)) simp_all
  ultimately show ?case using k Cons.prems(3) by (cases "obj = pos") simp_all
qed simp

lemma hlist_find_none:
  "\<forall>obj\<in>set hl. km obj \<noteq> None \<and> km obj \<noteq> Some key \<Longrightarrow> hlist_find km key hl = Inr None"
  by (induction hl) auto

lemma sht_inv_mem:
  "sht_inv h km sht \<Longrightarrow>
    obj \<in> set (lists sht i) \<longleftrightarrow> (\<exists>key. km obj = Some key \<and> sht_possible_hlist h sht key = i)"
  unfolding sht_inv_def by blast

lemma sht_inv_unique: "sht_inv h km sht \<Longrightarrow> km o1 = Some key \<Longrightarrow> km o2 = Some key \<Longrightarrow> o1 = o2"
  unfolding sht_inv_def by blast

lemma sht_find_some:
  assumes "sht_inv h km sht" and "km pos = Some key"
  shows "sht_find_entry h km sht key = Inr (Some pos)"
  unfolding sht_find_entry_def
proof (rule hlist_find_found)
  show "set (lists sht (sht_possible_hlist h sht key)) \<subseteq> dom km"
    and "pos \<in> set (lists sht (sht_possible_hlist h sht key))"
    using sht_inv_mem [OF assms(1)] assms(2) by auto
qed (use assms sht_inv_unique [OF assms(1)] in auto)

lemma sht_find_none:
  assumes "sht_inv h km sht" and "\<forall>pos. km pos \<noteq> Some key"
  shows "sht_find_entry h km sht key = Inr None"
  unfolding sht_find_entry_def
  using assms(2) sht_inv_mem [OF assms(1)] by (intro hlist_find_none) auto

text \<open>So a lookup never faults, and finds the object with the key exactly if there is one.\<close>

lemma sht_find_cases [consumes 1, case_names none some]:
  assumes "sht_inv h km sht"
  obtains "sht_find_entry h km sht key = Inr None" "\<forall>pos. km pos \<noteq> Some key"
    | pos where "sht_find_entry h km sht key = Inr (Some pos)" "km pos = Some key"
  using sht_find_some [OF assms] sht_find_none [OF assms] by metis

lemma sht_add_inv:
  assumes "sht_inv h km sht" and "km obj = None" and "\<forall>pos. km pos \<noteq> Some key"
  shows "sht_inv h (km(obj \<mapsto> key)) (sht_add_entry h sht obj key)"
proof -
  have "obj \<notin> set (lists sht i)" for i using assms(1,2) by (auto simp: sht_inv_def)
  with assms show ?thesis
    by (auto simp: sht_inv_def sht_add_entry_def Let_def heap_simps)
qed

lemma sht_del_inv:
  assumes "sht_inv h km sht"
  shows "sht_inv h (km(obj := None)) (sht_del sht obj)"
  using assms by (auto simp: sht_inv_def sht_del_def heap_simps)

lemma sht_uninit_inv: "hash_ok h b \<Longrightarrow> sht_inv h (\<lambda>_. None) (SHASHTABLE_UNINIT b)"
  by (simp add: sht_inv_def SHASHTABLE_UNINIT_def)

lemma sht_walk_all:
  assumes "sht_inv h km sht"
  shows "set (sht_walk sht) = dom km" and "distinct (sht_walk sht)"
proof -
  have r: "sht_possible_hlist h sht key < 2 ^ unat (bits sht)" for key
    using assms by (simp add: sht_inv_def hash_ok_def sht_possible_hlist_def)
  have m: "obj \<in> set (lists sht i) \<longleftrightarrow> (\<exists>key. km obj = Some key \<and> sht_possible_hlist h sht key = i)"
    for obj i using assms unfolding sht_inv_def by blast
  show "set (sht_walk sht) = dom km"
  proof (intro equalityI subsetI)
    fix obj assume "obj \<in> dom km"
    then obtain key where "km obj = Some key" by blast
    with m r [of key] show "obj \<in> set (sht_walk sht)" by (auto simp: sht_walk_def)
  qed (auto simp: sht_walk_def m)
  have "distinct (concat (map (lists sht) is))" if "distinct is" for "is"
    using that assms by (induction "is") (auto simp: m sht_inv_def)
  then show "distinct (sht_walk sht)" by (simp add: sht_walk_def)
qed

end
