(* ===== verification/Rlog.thy ===== *)
theory Rlog
  imports Shashtable Log_Entry
begin

text \<open>
  The reverse map of \<^verbatim>\<open>ada_rlog.h\<close>: one \<open>struct rlog\<close> per logged page, found by page in the
  hash table \<open>page_rlog\<close>, that says which log entry describes the page.  The state holds the heap of
  rlogs, the table and the pages.  Of \<open>struct page\<close> it keeps what AdaFS reads or writes: the
  mapping, the index, the flags, the reference count and the data.  The addresses that the slab and
  page allocators return are arguments of the operations that allocate, \<open>NULL\<close> for a failure.
\<close>

section \<open>Data and operations\<close>

record page =
  p_mapping :: ptr
  p_index :: u64
  p_flags :: u64
  p_count :: nat
  p_data :: "u8 list"

record rlog =
  rl_page :: ptr
  rl_enti :: u32

record rstate =
  r_rlogs :: "ptr \<rightharpoonup> rlog"
  r_table :: shashtable
  r_pages :: "ptr \<rightharpoonup> page"

text \<open>The key member of the rlogs in the heap, as the table's macros read it.\<close>

definition rl_key :: "rstate \<Rightarrow> ptr \<rightharpoonup> ptr" where
  "rl_key rs = (\<lambda>rl. map_option rl_page (r_rlogs rs rl))"

text \<open>The page reference counts: a count that drops to 0 frees the page.\<close>

definition get_page :: "rstate \<Rightarrow> ptr \<Rightarrow> fault + rstate" where
  "get_page rs page =
     (case r_pages rs page of
        None \<Rightarrow> Inl BAD_POINTER
      | Some p \<Rightarrow> Inr (rs\<lparr>r_pages := (r_pages rs)(page \<mapsto> p\<lparr>p_count := p_count p + 1\<rparr>)\<rparr>))"

definition put_page :: "rstate \<Rightarrow> ptr \<Rightarrow> fault + rstate" where
  "put_page rs page =
     (case r_pages rs page of
        None \<Rightarrow> Inl BAD_POINTER
      | Some p \<Rightarrow> Inr (rs\<lparr>r_pages := (r_pages rs)(page :=
          (if p_count p \<le> 1 then None else Some (p\<lparr>p_count := p_count p - 1\<rparr>)))\<rparr>))"

definition find_rlog :: "hash_fun \<Rightarrow> rstate \<Rightarrow> ptr \<Rightarrow> fault + ptr option" where
  "find_rlog h rs page = sht_find_entry h (rl_key rs) (r_table rs) page"

text \<open>
  \<open>assoc_rlog\<close> on an rlog that the allocator has just returned.
\<close>

definition assoc_rlog :: "hash_fun \<Rightarrow> rstate \<Rightarrow> ptr \<Rightarrow> ptr \<Rightarrow> u32 \<Rightarrow> fault + rstate" where
  "assoc_rlog h rs rl page enti =
     (case get_page rs page of
        Inl f \<Rightarrow> Inl f
      | Inr rs1 \<Rightarrow>
          if rl = NULL then Inl BAD_POINTER
          else Inr (rs1\<lparr>r_rlogs := (r_rlogs rs1)(rl \<mapsto> \<lparr>rl_page = page, rl_enti = enti\<rparr>),
                 r_table := sht_add_entry h (r_table rs1) rl page\<rparr>))"

definition rl_set_enti :: "rstate \<Rightarrow> ptr \<Rightarrow> u32 \<Rightarrow> fault + rstate" where
  "rl_set_enti rs rl enti =
     (case r_rlogs rs rl of
        None \<Rightarrow> Inl BAD_POINTER
      | Some r \<Rightarrow> Inr (rs\<lparr>r_rlogs := (r_rlogs rs)(rl \<mapsto> r\<lparr>rl_enti := enti\<rparr>)\<rparr>))"

definition evict_rlog :: "rstate \<Rightarrow> ptr \<Rightarrow> fault + rstate" where
  "evict_rlog rs rl =
     (case r_rlogs rs rl of
        None \<Rightarrow> Inl BAD_POINTER
      | Some r \<Rightarrow>
          (case put_page (rs\<lparr>r_table := sht_del (r_table rs) rl\<rparr>) (rl_page r) of
             Inl f \<Rightarrow> Inl f
           | Inr rs1 \<Rightarrow> Inr (rs1\<lparr>r_rlogs := (r_rlogs rs1)(rl := None)\<rparr>)))"

definition evict_entry :: "hash_fun \<Rightarrow> rstate \<Rightarrow> log_entry \<Rightarrow> fault + rstate" where
  "evict_entry h rs le =
     (case find_rlog h rs (le_page le) of
        Inl f \<Rightarrow> Inl f
      | Inr None \<Rightarrow> Inr rs
      | Inr (Some rl) \<Rightarrow> evict_rlog rs rl)"

section \<open>Invariant and abstraction\<close>

text \<open>
  The table indexes exactly the rlogs of the heap by page, and every page that has an rlog is
  allocated and referenced.  The abstraction maps a page to the log entry it is known by.
\<close>

definition rl_inv :: "hash_fun \<Rightarrow> rstate \<Rightarrow> bool" where
  "rl_inv h rs \<longleftrightarrow>
     sht_inv h (rl_key rs) (r_table rs) \<and>
     (\<forall>rl r. r_rlogs rs rl = Some r \<longrightarrow> (\<exists>p. r_pages rs (rl_page r) = Some p \<and> 0 < p_count p))"

definition rl_look :: "hash_fun \<Rightarrow> rstate \<Rightarrow> ptr \<Rightarrow> u32 option" where
  "rl_look h rs page =
     (case find_rlog h rs page of
        Inr (Some rl) \<Rightarrow> map_option rl_enti (r_rlogs rs rl)
      | _ \<Rightarrow> None)"

definition rl_del :: "hash_fun \<Rightarrow> rstate \<Rightarrow> ptr \<Rightarrow> rstate" where
  "rl_del h rs page =
     (case find_rlog h rs page of
        Inr (Some rl) \<Rightarrow> (case evict_rlog rs rl of Inr rs1 \<Rightarrow> rs1 | Inl _ \<Rightarrow> rs)
      | _ \<Rightarrow> rs)"

definition rl_add :: "hash_fun \<Rightarrow> rstate \<Rightarrow> ptr \<Rightarrow> ptr \<Rightarrow> u32 \<Rightarrow> rstate" where
  "rl_add h rs rl page enti = (case assoc_rlog h rs rl page enti of Inr rs1 \<Rightarrow> rs1 | Inl _ \<Rightarrow> rs)"

definition rl_room :: "rstate \<Rightarrow> ptr \<Rightarrow> ptr \<Rightarrow> bool" where
  "rl_room rs rl page \<longleftrightarrow> r_rlogs rs rl = None \<and> rl \<noteq> NULL \<and> r_pages rs page \<noteq> None"

section \<open>Interface: an index by key\<close>

text \<open>
  What the flusher and the hooks rely on: a lookup that a deletion changes at its own key only, and
  an insertion at a fresh address likewise.
\<close>

locale keyed_index =
  fixes inv :: "'s \<Rightarrow> bool" and look :: "'s \<Rightarrow> 'k \<Rightarrow> 'v option" and del :: "'s \<Rightarrow> 'k \<Rightarrow> 's"
  assumes inv_del: "inv s \<Longrightarrow> inv (del s k)"
    and look_del: "inv s \<Longrightarrow> look (del s k) k' = (if k' = k then None else look s k')"
begin

lemma inv_dels: "inv s \<Longrightarrow> inv (foldl del s ks)"
  by (induction ks arbitrary: s) (auto intro: inv_del)

lemma look_dels: "inv s \<Longrightarrow> look (foldl del s ks) k = (if k \<in> set ks then None else look s k)"
  by (induction ks arbitrary: s) (auto simp: inv_del look_del)

lemma dels_cong: "inv s \<Longrightarrow> set ks = set ks' \<Longrightarrow> look (foldl del s ks) = look (foldl del s ks')"
  by (auto simp: fun_eq_iff look_dels)

end

locale growing_index = keyed_index inv look del
  for inv :: "'s \<Rightarrow> bool" and look :: "'s \<Rightarrow> 'k \<Rightarrow> 'v option" and del :: "'s \<Rightarrow> 'k \<Rightarrow> 's" +
  fixes room :: "'s \<Rightarrow> 'a \<Rightarrow> 'k \<Rightarrow> bool" and add :: "'s \<Rightarrow> 'a \<Rightarrow> 'k \<Rightarrow> 'v \<Rightarrow> 's"
  assumes inv_add: "inv s \<Longrightarrow> look s k = None \<Longrightarrow> room s a k \<Longrightarrow> inv (add s a k v)"
    and look_add: "inv s \<Longrightarrow> look s k = None \<Longrightarrow> room s a k \<Longrightarrow>
      look (add s a k v) k' = (if k' = k then Some v else look s k')"
begin

lemma add_del:
  "inv s \<Longrightarrow> look s k = None \<Longrightarrow> room s a k \<Longrightarrow> look (del (add s a k v) k) = look s"
  by (auto simp: fun_eq_iff inv_add look_add look_del)

end

section \<open>Lemmas\<close>

lemma rl_look_iff:
  assumes "rl_inv h rs"
  shows "rl_look h rs page = Some e \<longleftrightarrow>
    (\<exists>rl. r_rlogs rs rl = Some \<lparr>rl_page = page, rl_enti = e\<rparr>)"
proof -
  have i: "sht_inv h (rl_key rs) (r_table rs)" using assms by (simp add: rl_inv_def)
  from i show ?thesis
  proof (cases rule: sht_find_cases [where key = page])
    case none
    then have "r_rlogs rs rl \<noteq> Some \<lparr>rl_page = page, rl_enti = e\<rparr>" for rl
      by (force simp: rl_key_def)
    with none show ?thesis by (simp add: rl_look_def find_rlog_def)
  next
    case (some pos)
    have "rl = pos" if "r_rlogs rs rl = Some \<lparr>rl_page = page, rl_enti = e\<rparr>" for rl
      by (rule sht_inv_unique [OF i _ some(2)]) (simp add: rl_key_def that)
    moreover from some obtain r where "r_rlogs rs pos = Some r" "rl_page r = page"
      by (auto simp: rl_key_def)
    ultimately show ?thesis using some by (cases r) (auto simp: rl_look_def find_rlog_def)
  qed
qed

lemma rl_find_cases [consumes 1, case_names none some]:
  assumes "rl_inv h rs"
  obtains "find_rlog h rs page = Inr None" "rl_look h rs page = None"
  | rl r where "find_rlog h rs page = Inr (Some rl)" "r_rlogs rs rl = Some r" "rl_page r = page"
      "rl_look h rs page = Some (rl_enti r)"
proof -
  have "sht_inv h (rl_key rs) (r_table rs)" using assms by (simp add: rl_inv_def)
  then show thesis
    by (cases rule: sht_find_cases [where key = page])
      (auto simp: rl_look_def find_rlog_def rl_key_def intro: that)
qed

lemma rl_look_eqI:
  assumes "rl_inv h rs" and "rl_inv h rs'"
    and "\<And>e. (\<exists>rl. r_rlogs rs rl = Some \<lparr>rl_page = page, rl_enti = e\<rparr>) \<longleftrightarrow>
      (\<exists>rl. r_rlogs rs' rl = Some \<lparr>rl_page = page, rl_enti = e\<rparr>)"
  shows "rl_look h rs page = rl_look h rs' page"
  using assms(3) by (intro option_eqI) (simp add: rl_look_iff [OF assms(1)] rl_look_iff [OF assms(2)])

lemma rl_inv_unique:
  assumes "rl_inv h rs" and "r_rlogs rs r1 = Some x" and "r_rlogs rs r2 = Some y"
    and "rl_page x = rl_page y"
  shows "r1 = r2"
  using assms sht_inv_unique [of h "rl_key rs" "r_table rs" r1 "rl_page x" r2]
  by (simp add: rl_inv_def rl_key_def)

lemma evict_rlog_ok:
  assumes i: "rl_inv h rs" and r: "r_rlogs rs rl = Some r"
  shows "\<exists>rs'. evict_rlog rs rl = Inr rs' \<and> rl_inv h rs' \<and> r_rlogs rs' = (r_rlogs rs)(rl := None) \<and>
    (\<forall>page. page \<noteq> rl_page r \<longrightarrow> r_pages rs' page = r_pages rs page) \<and>
    (\<exists>p. r_pages rs (rl_page r) = Some p \<and> r_pages rs' (rl_page r) =
      (if p_count p \<le> 1 then None else Some (p\<lparr>p_count := p_count p - 1\<rparr>)))"
proof -
  obtain p where p: "r_pages rs (rl_page r) = Some p" "0 < p_count p"
    using i r unfolding rl_inv_def by blast
  let ?pages = "(r_pages rs)(rl_page r :=
    (if p_count p \<le> 1 then None else Some (p\<lparr>p_count := p_count p - 1\<rparr>)))"
  let ?rs = "rs\<lparr>r_table := sht_del (r_table rs) rl, r_pages := ?pages,
      r_rlogs := (r_rlogs rs)(rl := None)\<rparr>"
  have e: "evict_rlog rs rl = Inr ?rs"
    using r p by (simp add: evict_rlog_def put_page_def)
  have "rl_key ?rs = (rl_key rs)(rl := None)" by (auto simp: rl_key_def)
  then have "sht_inv h (rl_key ?rs) (r_table ?rs)"
    using i sht_del_inv [of h "rl_key rs" "r_table rs" rl] by (simp add: rl_inv_def)
  moreover have "\<exists>q. r_pages ?rs (rl_page s) = Some q \<and> 0 < p_count q"
    if s: "r_rlogs ?rs x = Some s" for x s
  proof -
    have that: "x \<noteq> rl" "r_rlogs rs x = Some s" using s by (simp_all split: if_splits)
    have "rl_page s \<noteq> rl_page r" using rl_inv_unique [OF i that(2) r] that(1) by blast
    moreover have "\<exists>q. r_pages rs (rl_page s) = Some q \<and> 0 < p_count q"
      using i that(2) unfolding rl_inv_def by blast
    ultimately show ?thesis by simp
  qed
  ultimately have "rl_inv h ?rs" unfolding rl_inv_def by blast
  with e p show ?thesis by simp
qed

lemma evict_entry_del: "rl_inv h rs \<Longrightarrow> evict_entry h rs le = Inr (rl_del h rs (le_page le))"
  by (cases rule: rl_find_cases [where page = "le_page le"])
    (auto simp: evict_entry_def rl_del_def dest: evict_rlog_ok)

lemma rl_del_inv:
  assumes "rl_inv h rs"
  shows "rl_inv h (rl_del h rs page)"
  using assms
proof (cases rule: rl_find_cases [where page = page])
  case (some rl r)
  with evict_rlog_ok [OF assms] show ?thesis by (fastforce simp: rl_del_def)
qed (use assms in \<open>simp add: rl_del_def\<close>)

lemma rl_look_del:
  assumes "rl_inv h rs"
  shows "rl_look h (rl_del h rs page) q = (if q = page then None else rl_look h rs q)"
  using assms
proof (cases rule: rl_find_cases [where page = page])
  case (some rl r)
  from evict_rlog_ok [OF assms some(2)] obtain rs' where
    e: "evict_rlog rs rl = Inr rs'" "rl_inv h rs'" "r_rlogs rs' = (r_rlogs rs)(rl := None)" by blast
  have d: "rl_del h rs page = rs'" using some e by (simp add: rl_del_def)
  have "rl_look h rs' page = None"
  proof (rule ccontr)
    assume "rl_look h rs' page \<noteq> None"
    then obtain x v where "r_rlogs rs' x = Some \<lparr>rl_page = page, rl_enti = v\<rparr>"
      using rl_look_iff [OF e(2)] by blast
    then have x: "x \<noteq> rl" "r_rlogs rs x = Some \<lparr>rl_page = page, rl_enti = v\<rparr>"
      using e(3) by (simp_all split: if_splits)
    then show False using rl_inv_unique [OF assms x(2) some(2)] some(3) by simp
  qed
  moreover have "rl_look h rs' q = rl_look h rs q" if "q \<noteq> page"
  proof (rule rl_look_eqI [OF e(2) assms])
    fix v
    have "r_rlogs rs rl \<noteq> Some \<lparr>rl_page = q, rl_enti = v\<rparr>" using some(2,3) that by auto
    then show "(\<exists>x. r_rlogs rs' x = Some \<lparr>rl_page = q, rl_enti = v\<rparr>) \<longleftrightarrow>
        (\<exists>x. r_rlogs rs x = Some \<lparr>rl_page = q, rl_enti = v\<rparr>)"
      unfolding e(3) by (metis fun_upd_apply option.distinct(1))
  qed
  ultimately show ?thesis by (simp add: d)
qed (simp add: rl_del_def)

lemma assoc_rlog_ok:
  assumes i: "rl_inv h rs" and f: "rl_look h rs page = None" "r_rlogs rs rl = None" "rl \<noteq> NULL"
    and p: "r_pages rs page = Some p"
  shows "\<exists>rs'. assoc_rlog h rs rl page enti = Inr rs' \<and> rl_inv h rs' \<and>
    r_rlogs rs' = (r_rlogs rs)(rl \<mapsto> \<lparr>rl_page = page, rl_enti = enti\<rparr>) \<and>
    r_pages rs' = (r_pages rs)(page \<mapsto> p\<lparr>p_count := p_count p + 1\<rparr>)"
proof -
  let ?rs = "rs\<lparr>r_pages := (r_pages rs)(page \<mapsto> p\<lparr>p_count := p_count p + 1\<rparr>),
    r_rlogs := (r_rlogs rs)(rl \<mapsto> \<lparr>rl_page = page, rl_enti = enti\<rparr>),
    r_table := sht_add_entry h (r_table rs) rl page\<rparr>"
  have "assoc_rlog h rs rl page enti = Inr ?rs"
    using f(3) p by (simp add: assoc_rlog_def get_page_def)
  moreover have "rl_inv h ?rs"
  proof -
    have n: "\<forall>x. rl_key rs x \<noteq> Some page"
    proof
      fix x
      have "rl_key rs x = Some page \<Longrightarrow> \<exists>v. r_rlogs rs x = Some \<lparr>rl_page = page, rl_enti = v\<rparr>"
        by (auto simp: rl_key_def) (metis rlog.surjective old.unit.exhaust)
      then show "rl_key rs x \<noteq> Some page"
        using rl_look_iff [OF i, of page] f(1) by auto
    qed
    have "rl_key ?rs = (rl_key rs)(rl \<mapsto> page)" by (auto simp: rl_key_def)
    then have "sht_inv h (rl_key ?rs) (r_table ?rs)"
      using i n f(2) sht_add_inv [of h "rl_key rs" "r_table rs" rl page]
      by (simp add: rl_inv_def rl_key_def)
    moreover have "\<exists>q. r_pages ?rs (rl_page s) = Some q \<and> 0 < p_count q"
      if "r_rlogs ?rs x = Some s" for x s
      using that i unfolding rl_inv_def by (auto split: if_splits)
    ultimately show ?thesis unfolding rl_inv_def by blast
  qed
  ultimately show ?thesis by simp
qed

lemma rl_add_inv:
  assumes "rl_inv h rs" "rl_look h rs page = None" "rl_room rs rl page"
  shows "rl_inv h (rl_add h rs rl page enti)"
  using assoc_rlog_ok [of h rs page rl _ enti] assms by (fastforce simp: rl_add_def rl_room_def)

lemma rl_look_add:
  assumes "rl_inv h rs" "rl_look h rs page = None" "rl_room rs rl page"
  shows "rl_look h (rl_add h rs rl page enti) q = (if q = page then Some enti else rl_look h rs q)"
proof -
  from assms(3) obtain p where "r_rlogs rs rl = None" "rl \<noteq> NULL" "r_pages rs page = Some p"
    by (auto simp: rl_room_def)
  with assoc_rlog_ok [OF assms(1,2), of rl p enti] obtain rs' where
    a: "rl_add h rs rl page enti = rs'" "rl_inv h rs'" "r_rlogs rs rl = None"
      "r_rlogs rs' = (r_rlogs rs)(rl \<mapsto> \<lparr>rl_page = page, rl_enti = enti\<rparr>)"
    by (auto simp: rl_add_def)
  have "rl_look h rs' page = Some enti" by (auto simp: rl_look_iff [OF a(2)] a(4))
  moreover have "rl_look h rs' q = rl_look h rs q" if "q \<noteq> page"
  proof (rule rl_look_eqI [OF a(2) assms(1)])
    fix v
    show "(\<exists>x. r_rlogs rs' x = Some \<lparr>rl_page = q, rl_enti = v\<rparr>) \<longleftrightarrow>
        (\<exists>x. r_rlogs rs x = Some \<lparr>rl_page = q, rl_enti = v\<rparr>)"
      using that a(3) unfolding a(4)
      by (metis fun_upd_apply option.distinct(1) option.inject rlog.select_convs(1))
  qed
  ultimately show ?thesis by (simp add: a(1))
qed

interpretation rindex: growing_index "rl_inv h" "rl_look h" "rl_del h" rl_room "rl_add h" for h
  by unfold_locales (auto simp: rl_del_inv rl_look_del rl_add_inv rl_look_add)

end
