(* ===== verification/Log_Flush.thy ===== *)
theory Log_Flush
  imports Log_Sort Rlog
begin

text \<open>
  The flusher of \<^verbatim>\<open>ada_log.c\<close>: \<open>__merge_flush\<close> and \<open>log_flush\<close>, with the wrappers around the
  table \<open>flush_ops\<close> that the disk file system installs.  An operation that is not installed is
  \<open>None\<close>.  The disk file system, the journal and the page flags that the block layer sets are a
  device state of an arbitrary type, which the installed operations and the kernel functions of
  the record \<open>kernel\<close> read and change.  Using a page that is not allocated is \<open>BAD_POINTER\<close>.  A flush is one
  step: hooks that change entries of the window while the flusher works on it are not represented.
\<close>

section \<open>The environment\<close>

record 'd flush_operations =
  trans_begin :: "(ptr \<Rightarrow> int \<Rightarrow> 'd \<Rightarrow> fault + ptr \<times> 'd) option"
  entry_flush :: "(ptr \<Rightarrow> log_entry \<Rightarrow> 'd \<Rightarrow> fault + int \<times> 'd) option"
  trans_end :: "(ptr \<Rightarrow> 'd \<Rightarrow> fault + int \<times> 'd) option"
  wait_sync :: "(ptr \<Rightarrow> u32 \<Rightarrow> 'd \<Rightarrow> fault + int \<times> 'd) option"

record 'd kernel =
  hash_32 :: hash_fun
  mapping_host :: "ptr \<Rightarrow> ptr"
  IS_ERR :: "ptr \<Rightarrow> bool"
  handle_tid :: "ptr \<Rightarrow> 'd \<Rightarrow> u32"
  lock_page :: "ptr \<Rightarrow> 'd \<Rightarrow> 'd"
  PageWriteback :: "ptr \<Rightarrow> 'd \<Rightarrow> bool"
  wait_on_page_writeback :: "ptr \<Rightarrow> 'd \<Rightarrow> 'd"

text \<open>The state a flush works on: the log, the sorter's static stack, the rlogs and the device.\<close>

record 'd fstate =
  s_log :: adafs_log
  s_stack :: stack
  s_rs :: rstate
  s_dev :: 'd

definition fops_null :: "'d flush_operations" where
  "fops_null = \<lparr>trans_begin = None, entry_flush = None, trans_end = None, wait_sync = None\<rparr>"

section \<open>Wrappers\<close>

definition do_trans_begin :: "'d flush_operations \<Rightarrow> ptr \<Rightarrow> int \<Rightarrow> 'd \<Rightarrow> fault + ptr \<times> 'd" where
  "do_trans_begin ops inode nles d =
     (if nles > 0
      then (case trans_begin ops of Some f \<Rightarrow> f inode nles d | None \<Rightarrow> Inr (NULL, d))
      else Inr (NULL, d))"

definition do_le_flush ::
  "'d kernel \<Rightarrow> 'd flush_operations \<Rightarrow> ptr \<Rightarrow> log_entry \<Rightarrow> rstate \<Rightarrow> 'd \<Rightarrow> fault + int \<times> 'd" where
  "do_le_flush K ops handle le rs d =
     (case entry_flush ops of
        Some f \<Rightarrow>
          if handle \<noteq> NULL then
            let page = le_page le in
            if r_pages rs page = None then Inl BAD_POINTER
            else let d1 = lock_page K page d in
              if PageWriteback K page d1 then Inl BUG else f handle le d1
          else Inr (0, d)
      | None \<Rightarrow> Inr (0, d))"

definition do_wait_sync :: "'d flush_operations \<Rightarrow> ptr \<Rightarrow> u32 \<Rightarrow> 'd \<Rightarrow> fault + int \<times> 'd" where
  "do_wait_sync ops inode tid d =
     (case wait_sync ops of Some f \<Rightarrow> f inode tid d | None \<Rightarrow> Inr (0, d))"

definition do_trans_end :: "'d flush_operations \<Rightarrow> ptr \<Rightarrow> 'd \<Rightarrow> fault + int \<times> 'd" where
  "do_trans_end ops handle d =
     (case trans_end ops of
        Some f \<Rightarrow> if handle \<noteq> NULL then f handle d else Inr (0, d)
      | None \<Rightarrow> Inr (0, d))"

section \<open>Merging and flushing\<close>

text \<open>The slot macro \<open>entry(i)\<close> on the unsigned indices of this function.\<close>

definition ent :: "slots \<Rightarrow> u32 \<Rightarrow> log_entry" where
  "ent es i = es (L_INDEX i)"

definition ent_upd :: "slots \<Rightarrow> u32 \<Rightarrow> log_entry \<Rightarrow> slots" where
  "ent_upd es i le = es(L_INDEX i := le)"

lemma seq_less_Suc:
  assumes "seq_less i end"
  shows "unat (end - (i + 1)) < unat (end - i)"
proof -
  have "end - i \<noteq> 0" using assms by (auto simp: seq_less_def)
  then have "unat (end - i - 1) < unat (end - i)"
    by (simp add: unat_minus_one unat_gt_0)
  then show ?thesis by (simp add: algebra_simps)
qed

text \<open>
  The first inner loop: from \<open>i\<close> on, the entries of the same inode; an entry whose successor has the
  same page index is invalidated and evicted, and the successor inherits the larger length.
\<close>

function merge_scan ::
  "hash_fun \<Rightarrow> u64 \<Rightarrow> u32 \<Rightarrow> slots \<Rightarrow> rstate \<Rightarrow> u32 \<Rightarrow> u32 \<Rightarrow> fault + slots \<times> rstate \<times> u32 \<times> u32" where
  "merge_scan h ino end es rs i nles =
     (if seq_less i end then
        if le_ino (ent es i) \<noteq> ino then Inr (es, rs, i, nles)
        else if le_pgi (ent es (i - 1)) = le_pgi (ent es i) then
          let es1 = ent_upd es (i - 1) (le_set_inval (ent es (i - 1))) in
          and_then (evict_entry h rs (ent es1 (i - 1))) (\<lambda>rs1.
            let es2 =
              (if le_len (ent es1 i) < le_len (ent es1 (i - 1))
               then ent_upd es1 i (le_set_len (ent es1 i) (le_len (ent es1 (i - 1))))
               else es1)
            in merge_scan h ino end es2 rs1 (i + 1) nles)
        else merge_scan h ino end es rs (i + 1) (nles + 1)
      else Inr (es, rs, i, nles))"
  by pat_completeness auto
termination
  by (relation "measure (\<lambda>(h, ino, end, es, rs, i, nles). unat (end - i))")
    (auto simp: seq_less_Suc)

declare merge_scan.simps [simp del]

text \<open>The second inner loop: hand every valid entry of the group to \<open>entry_flush\<close>.\<close>

function flush_entries ::
  "'d kernel \<Rightarrow> 'd flush_operations \<Rightarrow> ptr \<Rightarrow> u32 \<Rightarrow> slots \<Rightarrow> rstate \<Rightarrow> 'd \<Rightarrow> u32 \<Rightarrow>
     fault + slots \<times> rstate \<times> 'd" where
  "flush_entries K ops handle e es rs d i =
     (if seq_less i e then
        if le_inval (ent es i) then flush_entries K ops handle e es rs d (i + 1)
        else and_then (do_le_flush K ops handle (ent es i) rs d) (\<lambda>(err, d1).
          if err \<noteq> 0 then
            let es1 = ent_upd es i (le_set_inval (ent es i)) in
            and_then (evict_entry (hash_32 K) rs (ent es1 i)) (\<lambda>rs1.
              flush_entries K ops handle e es1 rs1 d1 (i + 1))
          else flush_entries K ops handle e es rs d1 (i + 1))
      else Inr (es, rs, d))"
  by pat_completeness auto
termination
  by (relation "measure (\<lambda>(K, ops, handle, e, es, rs, d, i). unat (e - i))")
    (auto simp: seq_less_Suc)

declare flush_entries.simps [simp del]

text \<open>The third inner loop: wait for the write-back of every valid entry and evict its rlog.\<close>

function wait_entries ::
  "'d kernel \<Rightarrow> u32 \<Rightarrow> slots \<Rightarrow> rstate \<Rightarrow> 'd \<Rightarrow> u32 \<Rightarrow> fault + rstate \<times> 'd" where
  "wait_entries K e es rs d i =
     (if seq_less i e then
        if le_inval (ent es i) then wait_entries K e es rs d (i + 1)
        else if r_pages rs (le_page (ent es i)) = None then Inl BAD_POINTER
        else let d1 = wait_on_page_writeback K (le_page (ent es i)) d in
          and_then (evict_entry (hash_32 K) rs (ent es i)) (\<lambda>rs1.
            wait_entries K e es rs1 d1 (i + 1))
      else Inr (rs, d))"
  by pat_completeness auto
termination
  by (relation "measure (\<lambda>(K, e, es, rs, d, i). unat (e - i))") (auto simp: seq_less_Suc)

declare wait_entries.simps [simp del]

text \<open>
  One round of the outer loop on a data entry: the group of its inode from \<open>b\<close> on.  The transaction
  number is read through the handle, so a null handle is a bad pointer; what a handle that is neither
  null nor an error points to is left to \<open>handle_tid\<close>.
\<close>

definition flush_group ::
  "'d kernel \<Rightarrow> 'd flush_operations \<Rightarrow> 'd fstate \<Rightarrow> u32 \<Rightarrow> u32 \<Rightarrow> fault + int \<times> u32 \<times> 'd fstate" where
  "flush_group K ops st b end =
     (let log = s_log st; le = ent (l_entries log) b in
      case r_pages (s_rs st) (le_page le) of
        None \<Rightarrow> Inl BAD_POINTER
      | Some p \<Rightarrow>
          if p_mapping p = NULL then Inl BAD_POINTER
          else
            let inode = mapping_host K (p_mapping p) in
            and_then (merge_scan (hash_32 K) (le_ino le) end (l_entries log) (s_rs st) (b + 1) 1)
              (\<lambda>(es1, rs1, e, nles).
            and_then (do_trans_begin ops inode (sint nles) (s_dev st)) (\<lambda>(handle, d1).
            if IS_ERR K handle then Inl BUG
            else if handle = NULL then Inl BAD_POINTER
            else
              let commit_tid = handle_tid K handle d1 in
              and_then (flush_entries K ops handle e es1 rs1 d1 b) (\<lambda>(es2, rs2, d2).
              and_then (do_trans_end ops handle d2) (\<lambda>(err, d3).
              and_then (wait_entries K e es2 rs2 d3 b) (\<lambda>(rs3, d4).
              and_then (do_wait_sync ops inode commit_tid d4) (\<lambda>(_, d5).
                Inr (err, e, st\<lparr>s_log := log\<lparr>l_entries := es2, l_begin := e\<rparr>,
                  s_rs := rs3, s_dev := d5\<rparr>))))))))"

lemma merge_scan_le:
  "merge_scan h ino end es rs i nles = Inr (es', rs', e, nles') \<Longrightarrow> unat (end - e) \<le> unat (end - i)"
proof (induction "unat (end - i)" arbitrary: es rs i nles rule: less_induct)
  case less
  have "unat (end - e) \<le> unat (end - i)"
    if "seq_less i end" "merge_scan h ino end es1 rs1 (i + 1) n = Inr (es', rs', e, nles')" for es1 rs1 n
    using less(1) [OF seq_less_Suc [OF that(1)] that(2)] seq_less_Suc [OF that(1)] by simp
  with less(2) show ?case
    unfolding merge_scan.simps [of h ino "end" es rs i nles]
    by (auto simp: Let_def and_then_Inr split: if_splits)
qed

lemma flush_group_le:
  "flush_group K ops st b end = Inr (err, e, st') \<Longrightarrow> unat (end - e) \<le> unat (end - (b + 1))"
  unfolding flush_group_def
  by (auto simp: Let_def and_then_Inr split: option.splits if_splits prod.splits dest: merge_scan_le)

function merge_flush ::
  "'d kernel \<Rightarrow> 'd flush_operations \<Rightarrow> u32 \<Rightarrow> 'd fstate \<Rightarrow> u32 \<Rightarrow> int \<Rightarrow> fault + int \<times> 'd fstate" where
  "merge_flush K ops end st b err =
     (if seq_less b end then
        let le = ent (l_entries (s_log st)) b in
        if le_inval le then Inr (err, st)
        else if le_meta le then merge_flush K ops end st (b + 1) err
        else and_then (flush_group K ops st b end) (\<lambda>(err1, e, st1).
          merge_flush K ops end st1 e err1)
      else Inr (err, st))"
  by pat_completeness auto
termination
proof (relation "measure (\<lambda>(K, ops, end, st, b, err). unat (end - b))", goal_cases)
  case (3 K ops "end" st b err le x err1 y e st1)
  then show ?case
    using flush_group_le [of K ops st b "end" err1 e st1] seq_less_Suc [of b "end"] by simp
qed (simp_all add: seq_less_Suc)

declare merge_flush.simps [simp del]

text \<open>\<open>log_flush\<close> ignores the result of the sorter.\<close>

definition log_flush ::
  "'d kernel \<Rightarrow> 'd flush_operations \<Rightarrow> 'd fstate \<Rightarrow> nat \<Rightarrow> fault + int \<times> 'd fstate" where
  "log_flush K ops st nr =
     and_then (log_take (s_log st) nr) (\<lambda>((begin, end), log1).
       if begin = end then Inr (- ENODATA, st\<lparr>s_log := log1\<rparr>)
       else
         (case log_sort (l_entries log1) (s_stack st) begin end of
            (_, es, stk) \<Rightarrow>
              merge_flush K ops end
                (st\<lparr>s_log := log1\<lparr>l_entries := es\<rparr>, s_stack := stk\<rparr>) begin 0))"

end
