(* ===== verification/Hooks.thy ===== *)
theory Hooks
  imports Policy Log_Flush
begin

text \<open>
  The hooks of \<^verbatim>\<open>ada_fs.h\<close> that the host file system calls: on the creation of an inode, before and
  after a page is written, on truncation, eviction and rename, and the cuts that keep the kernel's own
  write-back away from regular files.

  The state \<open>system\<close> holds the globals of \<^verbatim>\<open>ada_file.c\<close> (the array \<open>adafs_logs\<close>, the
  table \<open>page_rlog\<close> with rlogs and pages, the flusher and its completion, \<open>flush_ops\<close>,
  \<open>stal_limit_blocks\<close>), the static stack of the sorter, and the device.  An inode
  carries the number of its log in \<open>i_private\<close>.  What the slab and page allocators return and what
  happens while a thread sleeps on \<open>flush_cmpl\<close> are functions of the environment record
  \<open>env\<close>: a null address is a failed allocation, a negative result an interrupted wait.  A wait
  need not make room in the log, so the loops around \<open>log_append\<close> are partial functions whose
  value \<open>None\<close> is a loop that does not end.  The debugging output is not represented.
\<close>

section \<open>State and environment\<close>

definition MAX_LOG_NUM :: nat where
  "MAX_LOG_NUM = 16"

record inode =
  i_ino :: u64
  i_private :: u64
  i_mode :: u32

record 'd system =
  adafs_logs :: "nat \<rightharpoonup> adafs_log"
  num_logs :: int
  sys_stack :: stack
  page_rlog :: rstate
  sys_dev :: 'd
  flush_ops :: "'d flush_operations"
  stal_limit_blocks :: u32
  flusher_woken :: bool
  flush_cmpl :: bool

record 'd env =
  kern :: "'d kernel"
  rlog_malloc :: "'d system \<Rightarrow> ptr"
  page_cache_alloc_cold :: "'d system \<Rightarrow> ptr"
  wait_for_completion_interruptible :: "'d system \<Rightarrow> fault + int \<times> 'd system"

abbreviation hash_of :: "'d env \<Rightarrow> hash_fun" where
  "hash_of E \<equiv> hash_32 (kern E)"

definition S_ISREG :: "u32 \<Rightarrow> bool" where
  "S_ISREG m \<longleftrightarrow> m AND 0xF000 = 0x8000"

text \<open>A use of the pointer \<open>adafs_logs[i]\<close>, and a write through it.\<close>

definition log_at :: "'d system \<Rightarrow> nat \<Rightarrow> fault + adafs_log" where
  "log_at S i =
     (if i < MAX_LOG_NUM
      then case adafs_logs S i of Some log \<Rightarrow> Inr log | None \<Rightarrow> Inl BAD_POINTER
      else Inl BAD_POINTER)"

definition log_put_at :: "'d system \<Rightarrow> nat \<Rightarrow> adafs_log \<Rightarrow> 'd system" where
  "log_put_at S i log = S\<lparr>adafs_logs := (adafs_logs S)(i \<mapsto> log)\<rparr>"

definition wake_up_flusher :: "'d system \<Rightarrow> 'd system" where
  "wake_up_flusher S = S\<lparr>flusher_woken := True\<rparr>"

text \<open>The reaction of the policy, with its wake-up.\<close>

definition apply_policy ::
  "'d system \<Rightarrow> nat \<Rightarrow> (u32 \<Rightarrow> adafs_log \<Rightarrow> u64 \<Rightarrow> bool \<times> adafs_log) \<Rightarrow> u64 \<Rightarrow> fault + 'd system" where
  "apply_policy S li on_write sz =
     and_then (log_at S li) (\<lambda>log.
       case on_write (stal_limit_blocks S) log sz of (wake, log1) \<Rightarrow>
         let S1 = log_put_at S li log1 in Inr (if wake then wake_up_flusher S1 else S1))"

section \<open>Appending, with waiting for room\<close>

text \<open>
  The loop \<open>while (log_append(log, &le, &ei) == -EAGAIN)\<close>: without room, seal, wake the flusher and
  wait; an interrupted wait leaves the loop.  The result is \<open>ei\<close> and the state.
\<close>

partial_function (option) append_wait ::
  "'d env \<Rightarrow> nat \<Rightarrow> log_entry \<Rightarrow> u32 \<Rightarrow> 'd system \<Rightarrow> (fault + u32 \<times> 'd system) option" where
  "append_wait E li le ei S =
     (case log_at S li of
        Inl f \<Rightarrow> Some (Inl f)
      | Inr log \<Rightarrow>
          (case log_append log le of (err, seq, log1) \<Rightarrow>
             if err = - EAGAIN then
               (case wait_for_completion_interruptible E
                       (wake_up_flusher (log_put_at S li (snd (log_seal log1)))) of
                  Inl f \<Rightarrow> Some (Inl f)
                | Inr (ret, S1) \<Rightarrow>
                    if ret < 0 then Some (Inr (ei, S1)) else append_wait E li le ei S1)
             else Some (Inr (case seq of Some s \<Rightarrow> s | None \<Rightarrow> ei, log_put_at S li log1))))"

section \<open>Hooks\<close>

definition adafs_new_inode_hook ::
  "'d env \<Rightarrow> inode option \<Rightarrow> inode \<Rightarrow> u32 \<Rightarrow> 'd system \<Rightarrow> (fault + inode \<times> 'd system) option" where
  "adafs_new_inode_hook E dir new_inode mode S =
     (let inode1 = (case dir of Some d \<Rightarrow> new_inode\<lparr>i_private := i_private d\<rparr> | None \<Rightarrow> new_inode) in
      if S_ISREG mode then
        let le = le_set_meta (le_set_ino LE_INITIALIZER (i_ino inode1)) in
        map_option (\<lambda>r. and_then r (\<lambda>(ei, S1). Inr (inode1, S1)))
          (append_wait E (unat (i_private inode1)) le L_NULL S)
      else Some (Inr (inode1, S)))"

text \<open>
  The copy-on-write branch of \<open>adafs_try_assoc_rlog\<close>: the copy takes over the old entry with a new
  rlog, and the page keeps its own rlog.
\<close>

definition cow_page ::
  "'d env \<Rightarrow> 'd system \<Rightarrow> nat \<Rightarrow> adafs_log \<Rightarrow> ptr \<Rightarrow> u32 \<Rightarrow> fault + 'd system" where
  "cow_page E S li log page enti =
     (let cpage = page_cache_alloc_cold E S; rs = page_rlog S in
      case r_pages rs page of
        None \<Rightarrow> Inl BAD_POINTER
      | Some p \<Rightarrow>
          if cpage = NULL then Inl BAD_POINTER
          else
            let rs1 = rs\<lparr>r_pages := (r_pages rs)(cpage \<mapsto> p\<lparr>p_count := 1\<rparr>)\<rparr>;
                nrl = rlog_malloc E (S\<lparr>page_rlog := rs1\<rparr>) in
            and_then (assoc_rlog (hash_of E) rs1 nrl cpage enti) (\<lambda>rs2.
              let le = le_set_cow (le_set_ref (L_ENT log enti) cpage) in
              Inr (log_put_at (S\<lparr>page_rlog := rs2\<rparr>) li (L_ENT_upd log enti le))))"

text \<open>The bound check comes after the read of \<open>adafs_logs[li]\<close>, which it does not protect.\<close>

definition adafs_try_assoc_rlog ::
  "'d env \<Rightarrow> inode \<Rightarrow> ptr \<Rightarrow> 'd system \<Rightarrow> fault + ptr \<times> 'd system" where
  "adafs_try_assoc_rlog E host page S =
     (let li = unat (ucast (i_private host) :: u32); rs = page_rlog S in
      if MAX_LOG_NUM < li then Inl BUG
      else and_then (find_rlog (hash_of E) rs page) (\<lambda>found.
        case found of
          None \<Rightarrow>
            let rl = rlog_malloc E S in
            and_then (assoc_rlog (hash_of E) rs rl page L_NULL) (\<lambda>rs1.
              Inr (rl, S\<lparr>page_rlog := rs1\<rparr>))
        | Some rl \<Rightarrow>
            (case r_rlogs rs rl of
               None \<Rightarrow> Inl BAD_POINTER
             | Some r \<Rightarrow>
                 and_then (log_at S li) (\<lambda>log.
                   if seq_less (rl_enti r) (l_head log)
                   then and_then (cow_page E S li log page (rl_enti r)) (\<lambda>S1. Inr (rl, S1))
                   else Inr (rl, S)))))"

text \<open>The entry that describes the written page; after a copy it is the next version.\<close>

definition page_entry :: "inode \<Rightarrow> rlog \<Rightarrow> page \<Rightarrow> adafs_log \<Rightarrow> u64 \<Rightarrow> log_entry" where
  "page_entry host r p log len =
     (let le = le_set_ref (le_init_len (le_init_pgi
                 (le_set_ino LE_INITIALIZER (i_ino host)) (p_index p)) len) (rl_page r) in
      if rl_enti r \<noteq> L_NULL
      then let pgv = ucast (le_ver (L_ENT log (rl_enti r))) :: u32 in le_set_ver le (ucast (pgv + 1))
      else le)"

definition adafs_try_append_log ::
  "'d env \<Rightarrow> inode \<Rightarrow> ptr \<Rightarrow> u64 \<Rightarrow> u64 \<Rightarrow> 'd system \<Rightarrow> (fault + int \<times> 'd system) option" where
  "adafs_try_append_log E host rl offset copied S =
     (let li = unat (ucast (i_private host) :: u32); rs = page_rlog S in
      if MAX_LOG_NUM < li then Some (Inl BUG)
      else
        (case r_rlogs rs rl of
           None \<Rightarrow> Some (Inl BAD_POINTER)
         | Some r \<Rightarrow>
             (case log_at S li of
                Inl f \<Rightarrow> Some (Inl f)
              | Inr log \<Rightarrow>
                  if rl_enti r \<noteq> L_NULL \<and> seq_ng (l_head log) (rl_enti r) then
                    let le = le_set_len (L_ENT log (rl_enti r)) (offset + copied) in
                    Some (and_then
                      (apply_policy (log_put_at S li (L_ENT_upd log (rl_enti r) le)) li
                         on_write_old_page copied)
                      (\<lambda>S1. Inr (0, S1)))
                  else
                    (case r_pages rs (rl_page r) of
                       None \<Rightarrow> Some (Inl BAD_POINTER)
                     | Some p \<Rightarrow>
                         map_option (\<lambda>res. and_then res (\<lambda>(ei, S1).
                             and_then (rl_set_enti (page_rlog S1) rl ei) (\<lambda>rs2.
                               and_then (apply_policy (S1\<lparr>page_rlog := rs2\<rparr>) li on_write_new_page copied)
                                 (\<lambda>S2. Inr (0, S2)))))
                           (append_wait E li (page_entry host r p log (offset + copied)) L_NULL S)))))"

text \<open>
  The loop of \<open>adafs_truncate_hook\<close> from the end of the log backwards, up to the entry that records
  the creation of the inode.
\<close>

lemma truncate_step:
  assumes "seq_ng b i"
  shows "unat (i - b) < unat (i - b + 1 :: u32)"
proof -
  have "i - b + 1 \<noteq> 0"
  proof
    assume "i - b + 1 = 0"
    then have "b - i = 1" by (simp add: algebra_simps)
    with assms show False by (simp add: seq_ng_def)
  qed
  then have "unat (i - b + 1 - 1) = unat (i - b + 1) - 1" "0 < unat (i - b + 1)"
    by (simp_all only: unat_minus_one unat_gt_0 simp_thms)
  then show ?thesis by simp
qed

function truncate_loop ::
  "hash_fun \<Rightarrow> u64 \<Rightarrow> u64 \<Rightarrow> u64 \<Rightarrow> adafs_log \<Rightarrow> rstate \<Rightarrow> u32 \<Rightarrow> fault + adafs_log \<times> rstate" where
  "truncate_loop h ino start end log rs i =
     (if seq_ng (l_begin log) i then
        let le = L_ENT log i in
        if le_inval le \<or> le_ino le \<noteq> ino then truncate_loop h ino start end log rs (i - 1)
        else if le_meta le then Inr (L_ENT_upd log i (le_set_inval le), rs)
        else if start \<le> le_pgi le \<and> le_pgi le \<le> end then
          let log1 = L_ENT_upd log i (le_set_inval le) in
          and_then (evict_entry h rs (L_ENT log1 i)) (\<lambda>rs1.
            truncate_loop h ino start end (on_evict_page log1 (le_len (L_ENT log1 i))) rs1 (i - 1))
        else truncate_loop h ino start end log rs (i - 1)
      else Inr (log, rs))"
  by pat_completeness auto
termination
  by (relation "measure (\<lambda>(h, ino, start, end, log, rs, i). unat (i - l_begin log + 1))")
    (auto simp: truncate_step)

declare truncate_loop.simps [simp del]

text \<open>
  \<open>lstart\<close> and \<open>lend\<close> are 64-bit; adding the unsigned page size makes the first shift a logical one,
  the second is arithmetic.
\<close>

definition adafs_truncate_hook ::
  "'d env \<Rightarrow> inode \<Rightarrow> u64 \<Rightarrow> u64 \<Rightarrow> 'd system \<Rightarrow> fault + 'd system" where
  "adafs_truncate_hook E inode lstart lend S =
     (let start = drop_bit PAGE_CACHE_SHIFT (lstart + PAGE_CACHE_SIZE - 1);
          end = signed_drop_bit PAGE_CACHE_SHIFT lend;
          li = unat (i_private inode) in
      and_then (log_at S li) (\<lambda>log.
        and_then (truncate_loop (hash_of E) (i_ino inode) start end log (page_rlog S) (l_end log - 1))
          (\<lambda>(log1, rs1). Inr (log_put_at (S\<lparr>page_rlog := rs1\<rparr>) li log1))))"

definition adafs_evict_inode_hook :: "'d env \<Rightarrow> inode \<Rightarrow> 'd system \<Rightarrow> fault + 'd system" where
  "adafs_evict_inode_hook E inode S = adafs_truncate_hook E inode 0 (- 1) S"

definition adafs_rename_hook :: "inode \<Rightarrow> inode \<Rightarrow> inode" where
  "adafs_rename_hook new_dir old_inode = old_inode\<lparr>i_private := i_private new_dir\<rparr>"

section \<open>Cuts\<close>

text \<open>
  Redirtying and unlocking a page change the device state only, through the kernel's own functions.
\<close>

definition adafs_writepage_cut ::
  "(ptr \<Rightarrow> 'd \<Rightarrow> 'd) \<Rightarrow> (ptr \<Rightarrow> 'd \<Rightarrow> 'd) \<Rightarrow> inode \<Rightarrow> ptr \<Rightarrow> 'd \<Rightarrow> int \<times> 'd" where
  "adafs_writepage_cut redirty_page_for_writepage unlock_page inode page d =
     (if S_ISREG (i_mode inode)
      then (1, unlock_page page (redirty_page_for_writepage page d))
      else (0, d))"

definition adafs_writepages_cut :: "inode \<Rightarrow> bool" where
  "adafs_writepages_cut inode = S_ISREG (i_mode inode)"

definition adafs_sync_file_cut :: "inode \<Rightarrow> int" where
  "adafs_sync_file_cut inode = (if S_ISREG (i_mode inode) then 1 else 0)"

end
