(* ===== verification/Ada_File.thy ===== *)
theory Ada_File
  imports Hooks
begin

text \<open>
  \<^verbatim>\<open>ada_file.c\<close>: the flusher thread, the set-up and tear-down of the module, the hook on unmount, and
  the write path that replaces the kernel's \<open>generic_file_aio_write\<close>.

  The loops that wait for another thread, or that the kernel may keep going, are partial functions
  with value \<open>None\<close> for a loop that does not end.  The kernel's page-cache and user-copy functions
  that the write path calls are the record \<open>wkernel\<close>; they act on the system state and on the
  iterator over the user's buffers, which is of an arbitrary type.  Cache flushing, page-fault
  toggling, plugging and locking have no effect on this state.
\<close>

section \<open>The flusher\<close>

definition flush_state :: "'d system \<Rightarrow> adafs_log \<Rightarrow> 'd fstate" where
  "flush_state S log =
     \<lparr>s_log = log, s_stack = sys_stack S, s_rs = page_rlog S, s_dev = sys_dev S\<rparr>"

definition put_flush_state :: "'d system \<Rightarrow> nat \<Rightarrow> 'd fstate \<Rightarrow> 'd system" where
  "put_flush_state S i st =
     log_put_at (S\<lparr>sys_stack := s_stack st, page_rlog := s_rs st, sys_dev := s_dev st\<rparr>) i (s_log st)"

definition UINT_MAX :: nat where
  "UINT_MAX = 4294967295"

text \<open>The inner loop: flush everything that is sealed, then seal what is left and flush that.\<close>

partial_function (option) flush_log ::
  "'d env \<Rightarrow> nat \<Rightarrow> 'd system \<Rightarrow> (fault + 'd system) option" where
  "flush_log E i S =
     (case log_at S i of
        Inl f \<Rightarrow> Some (Inl f)
      | Inr log \<Rightarrow>
          (case log_flush (kern E) (flush_ops S) (flush_state S log) UINT_MAX of
             Inl f \<Rightarrow> Some (Inl f)
           | Inr (err, st) \<Rightarrow>
               if err = - ENODATA \<and> l_head (s_log st) \<noteq> l_end (s_log st)
               then flush_log E i
                 (put_flush_state S i (st\<lparr>s_log := snd (log_seal (s_log st))\<rparr>))
               else Some (Inr (put_flush_state S i st))))"

partial_function (option) flush_logs ::
  "'d env \<Rightarrow> nat \<Rightarrow> 'd system \<Rightarrow> (fault + 'd system) option" where
  "flush_logs E i S =
     (if int i < num_logs S then
        (case flush_log E i S of
           None \<Rightarrow> None
         | Some (Inl f) \<Rightarrow> Some (Inl f)
         | Some (Inr S1) \<Rightarrow> flush_logs E (Suc i) S1)
      else Some (Inr S))"

text \<open>One round of the thread: \<open>INIT_COMPLETION\<close>, all logs, \<open>complete_all\<close>.\<close>

definition flush_round :: "'d env \<Rightarrow> 'd system \<Rightarrow> (fault + 'd system) option" where
  "flush_round E S =
     map_option (\<lambda>r. and_then r (\<lambda>S1. Inr (S1\<lparr>flush_cmpl := True\<rparr>)))
       (flush_logs E 0 (S\<lparr>flush_cmpl := False\<rparr>))"

text \<open>
  \<open>stop\<close> is \<open>kthread_should_stop\<close>, \<open>sleep\<close> what the other threads do until the scheduler runs this one
  again.
\<close>

partial_function (option) adafs_flush ::
  "'d env \<Rightarrow> ('d system \<Rightarrow> bool) \<Rightarrow> ('d system \<Rightarrow> 'd system) \<Rightarrow> 'd system \<Rightarrow> (fault + int \<times> 'd system) option" where
  "adafs_flush E stop sleep S =
     (if stop S then Some (Inr (0, S))
      else
        (case flush_round E S of
           None \<Rightarrow> None
         | Some (Inl f) \<Rightarrow> Some (Inl f)
         | Some (Inr S1) \<Rightarrow> adafs_flush E stop sleep (sleep (S1\<lparr>flusher_woken := False\<rparr>))))"

section \<open>Set-up and tear-down\<close>

text \<open>
  The results of the allocations and of \<open>kthread_run\<close> are arguments: two slab caches, the memory of
  the log (none on failure) and the error code of the thread.  \<open>sht_init\<close> initialises locks only.
\<close>

definition adafs_init_hook ::
  "ptr \<Rightarrow> ptr \<Rightarrow> adafs_log option \<Rightarrow> int \<Rightarrow> 'd flush_operations option \<Rightarrow> 'd system \<Rightarrow>
     fault + int \<times> 'd system" where
  "adafs_init_hook rlog_cachep tran_cachep mem thread fops S =
     (if rlog_cachep = NULL \<or> tran_cachep = NULL then Inr (- ENOMEM, S)
      else
        (case mem of
           None \<Rightarrow> Inl BAD_POINTER
         | Some log \<Rightarrow>
             let S1 = log_put_at (S\<lparr>num_logs := 1\<rparr>) 0 (new_log log);
                 S2 = (case fops of Some ops \<Rightarrow> S1\<lparr>flush_ops := ops\<rparr> | None \<Rightarrow> S1);
                 S3 = S2\<lparr>flush_cmpl := False\<rparr>
             in Inr (if thread < 0 then thread else 0, S3)))"

text \<open>\<open>hlist_for_each_entry_safe\<close> over the chains of the table, evicting every rlog.\<close>

fun evict_all :: "rstate \<Rightarrow> ptr list \<Rightarrow> fault + rstate" where
  "evict_all rs [] = Inr rs"
| "evict_all rs (rl # rls) = and_then (evict_rlog rs rl) (\<lambda>rs1. evict_all rs1 rls)"

text \<open>\<open>log_destroy\<close> frees the transactions of the list; the log itself is freed by the caller.\<close>

definition log_destroy :: "adafs_log \<Rightarrow> adafs_log" where
  "log_destroy log = log\<lparr>l_trans := []\<rparr>"

fun destroy_logs :: "nat \<Rightarrow> nat \<Rightarrow> 'd system \<Rightarrow> fault + 'd system" where
  "destroy_logs 0 i S = Inr S"
| "destroy_logs (Suc n) i S =
     and_then (log_at S i) (\<lambda>log.
       let S1 = log_put_at S i (log_destroy log)
       in destroy_logs n (Suc i) (S1\<lparr>adafs_logs := (adafs_logs S1)(i := None)\<rparr>))"

definition adafs_exit_hook :: "'d system \<Rightarrow> fault + 'd system" where
  "adafs_exit_hook S =
     and_then (evict_all (page_rlog S) (sht_walk (r_table (page_rlog S)))) (\<lambda>rs1.
       destroy_logs (nat (num_logs S)) 0 (S\<lparr>page_rlog := rs1\<rparr>))"

text \<open>
  The hook on unmount, as built with \<open>ADA_RELEASE\<close>: \<open>done\<close> is set to 1 before the loop only.
\<close>

fun scan_logs :: "nat \<Rightarrow> nat \<Rightarrow> 'd system \<Rightarrow> bool \<Rightarrow> fault + bool" where
  "scan_logs 0 i S finished = Inr finished"
| "scan_logs (Suc n) i S finished =
     and_then (log_at S i) (\<lambda>log.
       scan_logs n (Suc i) S (if l_begin log \<noteq> l_end log then False else finished))"

partial_function (option) put_super_loop ::
  "'d env \<Rightarrow> bool \<Rightarrow> 'd system \<Rightarrow> (fault + 'd system) option" where
  "put_super_loop E finished S =
     (case wait_for_completion_interruptible E (wake_up_flusher S) of
        Inl f \<Rightarrow> Some (Inl f)
      | Inr (ret, S1) \<Rightarrow>
          if ret < 0 then Some (Inr S1)
          else
            (case scan_logs (nat (num_logs S1)) 0 S1 finished of
               Inl f \<Rightarrow> Some (Inl f)
             | Inr finished1 \<Rightarrow>
                 if finished1 then Some (Inr S1) else put_super_loop E finished1 S1))"

definition adafs_put_super_hook :: "'d env \<Rightarrow> 'd system \<Rightarrow> (fault + 'd system) option" where
  "adafs_put_super_hook E S = put_super_loop E True S"

section \<open>The write path\<close>

record ('i, 'd) wkernel =
  iov_iter_count :: "'i \<Rightarrow> u64"
  iov_iter_single_seg_count :: "'i \<Rightarrow> u64"
  iov_iter_advance :: "'i \<Rightarrow> u64 \<Rightarrow> 'i"
  iov_iter_fault_in_readable :: "'i \<Rightarrow> u64 \<Rightarrow> bool"
  write_begin :: "u64 \<Rightarrow> u64 \<Rightarrow> u32 \<Rightarrow> 'd system \<Rightarrow> int \<times> ptr \<times> 'd system"
  iov_iter_copy_from_user_atomic :: "ptr \<Rightarrow> 'i \<Rightarrow> u64 \<Rightarrow> u64 \<Rightarrow> 'd system \<Rightarrow> u64 \<times> 'd system"
  write_end :: "u64 \<Rightarrow> u64 \<Rightarrow> u64 \<Rightarrow> ptr \<Rightarrow> 'd system \<Rightarrow> int \<times> 'd system"

definition AOP_FLAG_UNINTERRUPTIBLE :: u32 where
  "AOP_FLAG_UNINTERRUPTIBLE = 1"

text \<open>How one page ends: the loop is left with a status, or some bytes were copied.\<close>

datatype 'i page_end = Break int | Copied u64 ptr 'i

text \<open>The part from the label \<open>again\<close> on; \<open>rl\<close> is the rlog of an earlier attempt, if any.\<close>

partial_function (option) write_page ::
  "'d env \<Rightarrow> ('i, 'd) wkernel \<Rightarrow> inode \<Rightarrow> u32 \<Rightarrow> u64 \<Rightarrow> u64 \<Rightarrow> u64 \<Rightarrow> ptr option \<Rightarrow> 'i \<Rightarrow> 'd system \<Rightarrow>
     (fault + 'i page_end \<times> 'd system) option" where
  "write_page E W host flags pos offset bytes rl i S =
     (if iov_iter_fault_in_readable W i bytes then Some (Inr (Break (- EFAULT), S))
      else
        (case write_begin W pos bytes flags S of (status, page, S1) \<Rightarrow>
           if status \<noteq> 0 then Some (Inr (Break status, S1))
           else
             (case (case rl of Some r \<Rightarrow> Inr (r, S1) | None \<Rightarrow> adafs_try_assoc_rlog E host page S1) of
                Inl f \<Rightarrow> Some (Inl f)
              | Inr (rl1, S2) \<Rightarrow>
                  (case iov_iter_copy_from_user_atomic W page i offset bytes S2 of (copied, S3) \<Rightarrow>
                     (case write_end W pos bytes copied page S3 of (status1, S4) \<Rightarrow>
                        if status1 < 0 then Some (Inr (Break status1, S4))
                        else
                          let copied1 = word_of_int status1;
                              i1 = iov_iter_advance W i copied1 in
                          if copied1 = 0 then
                            write_page E W host flags pos offset
                              (min (PAGE_CACHE_SIZE - offset) (iov_iter_single_seg_count W i1))
                              (Some rl1) i1 S4
                          else Some (Inr (Copied copied1 rl1 i1, S4)))))))"

partial_function (option) write_pages ::
  "'d env \<Rightarrow> ('i, 'd) wkernel \<Rightarrow> inode \<Rightarrow> u32 \<Rightarrow> u64 \<Rightarrow> u64 \<Rightarrow> 'i \<Rightarrow> 'd system \<Rightarrow>
     (fault + int \<times> 'd system) option" where
  "write_pages E W host flags pos written i S =
     (let offset = pos AND (PAGE_CACHE_SIZE - 1);
          bytes = min (PAGE_CACHE_SIZE - offset) (iov_iter_count W i) in
      case write_page E W host flags pos offset bytes None i S of
        None \<Rightarrow> None
      | Some (Inl f) \<Rightarrow> Some (Inl f)
      | Some (Inr (Break status, S1)) \<Rightarrow>
          Some (Inr (if written \<noteq> 0 then sint written else status, S1))
      | Some (Inr (Copied copied rl i1, S1)) \<Rightarrow>
          (case adafs_try_append_log E host rl offset copied S1 of
             None \<Rightarrow> None
           | Some (Inl f) \<Rightarrow> Some (Inl f)
           | Some (Inr (_, S2)) \<Rightarrow>
               if iov_iter_count W i1 \<noteq> 0
               then write_pages E W host flags (pos + copied) (written + copied) i1 S2
               else Some (Inr (if written + copied \<noteq> 0 then sint (written + copied) else sint copied, S2))))"

definition adafs_perform_write ::
  "'d env \<Rightarrow> ('i, 'd) wkernel \<Rightarrow> inode \<Rightarrow> bool \<Rightarrow> 'i \<Rightarrow> u64 \<Rightarrow> 'd system \<Rightarrow> (fault + int \<times> 'd system) option" where
  "adafs_perform_write E W host kernel_ds i pos S =
     write_pages E W host (if kernel_ds then AOP_FLAG_UNINTERRUPTIBLE else 0) pos 0 i S"

text \<open>The result carries the new value of \<open>*ppos\<close>.\<close>

definition adafs_file_buffered_write ::
  "'d env \<Rightarrow> ('i, 'd) wkernel \<Rightarrow> inode \<Rightarrow> bool \<Rightarrow> 'i \<Rightarrow> u64 \<Rightarrow> u64 \<Rightarrow> int \<Rightarrow> 'd system \<Rightarrow>
     (fault + int \<times> u64 \<times> 'd system) option" where
  "adafs_file_buffered_write E W host kernel_ds i pos ppos written S =
     map_option (\<lambda>r. and_then r (\<lambda>(status, S1).
         let written1 = (if 0 \<le> status then written + status else written);
             ppos1 = (if 0 \<le> status then pos + word_of_int status else ppos)
         in Inr (if written1 \<noteq> 0 then written1 else status, ppos1, S1)))
       (adafs_perform_write E W host kernel_ds i pos S)"

text \<open>
  The checks of \<open>__generic_file_aio_write\<close> are results of kernel functions: the checked segments, the
  limits on position and count, the removal of the set-user-id bit.
\<close>

record 'i checks =
  generic_segment_checks :: "int \<times> u64"
  generic_write_checks :: "u64 \<Rightarrow> u64 \<Rightarrow> int \<times> u64 \<times> u64"
  file_remove_suid :: int
  iov_iter_init :: "u64 \<Rightarrow> 'i"

definition do_adafs_file_aio_write ::
  "'d env \<Rightarrow> ('i, 'd) wkernel \<Rightarrow> 'i checks \<Rightarrow> inode \<Rightarrow> bool \<Rightarrow> u64 \<Rightarrow> 'd system \<Rightarrow>
     (fault + int \<times> u64 \<times> 'd system) option" where
  "do_adafs_file_aio_write E W C host kernel_ds ppos S =
     (case generic_segment_checks C of (err, ocount) \<Rightarrow>
        if err \<noteq> 0 then Some (Inr (err, ppos, S))
        else
          (case generic_write_checks C ppos ocount of (err1, pos, cnt) \<Rightarrow>
             if err1 \<noteq> 0 then Some (Inr (err1, ppos, S))
             else if cnt = 0 then Some (Inr (err1, ppos, S))
             else if file_remove_suid C \<noteq> 0 then Some (Inr (file_remove_suid C, ppos, S))
             else
               map_option (\<lambda>r. and_then r (\<lambda>(written, ppos1, S1).
                   Inr (if written \<noteq> 0 then written else file_remove_suid C, ppos1, S1)))
                 (adafs_file_buffered_write E W host kernel_ds (iov_iter_init C cnt) pos ppos 0 S)))"

definition adafs_file_aio_write ::
  "'d env \<Rightarrow> ('i, 'd) wkernel \<Rightarrow> 'i checks \<Rightarrow> inode \<Rightarrow> bool \<Rightarrow> u64 \<Rightarrow> u64 \<Rightarrow> 'd system \<Rightarrow>
     (fault + int \<times> u64 \<times> 'd system) option" where
  "adafs_file_aio_write E W C host kernel_ds ki_pos pos S =
     (if ki_pos \<noteq> pos then Some (Inl BUG)
      else do_adafs_file_aio_write E W C host kernel_ds ki_pos S)"

end
