(* ===== verification/Flush_Refine.thy ===== *)
theory Flush_Refine
  imports Log_Flush
begin

text \<open>
  The flush of a window of the ring buffer refines a flush of the list of entries that the window
  holds.  \<open>run\<close> reads a window, \<open>put\<close> writes a list back into the slots; \<open>coalesce\<close>,
  \<open>flush_list\<close>, \<open>wait_list\<close>, \<open>group_run\<close> and \<open>merge_list\<close> are the loops of
  \<^verbatim>\<open>__merge_flush\<close> without sequence numbers, wrap-around and slot arithmetic.
\<close>

section \<open>The flush on lists\<close>

definition run :: "slots \<Rightarrow> u32 \<Rightarrow> nat \<Rightarrow> log_entry list" where
  "run es b n = map (\<lambda>i. ent es (b + of_nat i)) [0..<n]"

fun put :: "slots \<Rightarrow> u32 \<Rightarrow> log_entry list \<Rightarrow> slots" where
  "put es b [] = es"
| "put es b (x # xs) = put (ent_upd es b x) (b + 1) xs"

definition grow :: "log_entry \<Rightarrow> u64 \<Rightarrow> log_entry" where
  "grow le l = (if le_len le < l then le_set_len le l else le)"

fun coalesce :: "log_entry \<Rightarrow> log_entry list \<Rightarrow> log_entry list" where
  "coalesce p [] = [p]"
| "coalesce p (x # xs) =
     (if le_pgi p = le_pgi x then le_set_inval p # coalesce (grow x (le_len p)) xs
      else p # coalesce x xs)"

fun flush_list ::
  "'d kernel \<Rightarrow> 'd flush_operations \<Rightarrow> ptr \<Rightarrow> log_entry list \<Rightarrow> rstate \<Rightarrow> 'd \<Rightarrow>
     fault + log_entry list \<times> rstate \<times> 'd" where
  "flush_list K ops handle [] rs d = Inr ([], rs, d)"
| "flush_list K ops handle (le # les) rs d =
     (if le_inval le then
        and_then (flush_list K ops handle les rs d) (\<lambda>(les1, rs1, d1). Inr (le # les1, rs1, d1))
      else
        and_then (do_le_flush K ops handle le rs d) (\<lambda>(err, d1).
          if err \<noteq> 0 then
            and_then (evict_entry (hash_32 K) rs (le_set_inval le)) (\<lambda>rs1.
            and_then (flush_list K ops handle les rs1 d1) (\<lambda>(les2, rs2, d2).
              Inr (le_set_inval le # les2, rs2, d2)))
          else
            and_then (flush_list K ops handle les rs d1) (\<lambda>(les2, rs2, d2).
              Inr (le # les2, rs2, d2))))"

fun wait_list :: "'d kernel \<Rightarrow> log_entry list \<Rightarrow> rstate \<Rightarrow> 'd \<Rightarrow> fault + rstate \<times> 'd" where
  "wait_list K [] rs d = Inr (rs, d)"
| "wait_list K (le # les) rs d =
     (if le_inval le then wait_list K les rs d
      else if r_pages rs (le_page le) = None then Inl BAD_POINTER
      else and_then (evict_entry (hash_32 K) rs le) (\<lambda>rs1.
        wait_list K les rs1 (wait_on_page_writeback K (le_page le) d)))"

text \<open>
  The journal transaction of one group: begin with the number of valid entries, flush each of them,
  end, wait for the pages, wait for the commit.
\<close>

definition group_run ::
  "'d kernel \<Rightarrow> 'd flush_operations \<Rightarrow> ptr \<Rightarrow> log_entry list \<Rightarrow> rstate \<Rightarrow> 'd \<Rightarrow>
     fault + int \<times> log_entry list \<times> rstate \<times> 'd" where
  "group_run K ops inode les rs d =
     and_then (do_trans_begin ops inode (int (length (filter le_valid les))) d) (\<lambda>(handle, d1).
     if IS_ERR K handle then Inl BUG
     else if handle = NULL then Inl BAD_POINTER
     else
       and_then (flush_list K ops handle les rs d1) (\<lambda>(les2, rs2, d2).
       and_then (do_trans_end ops handle d2) (\<lambda>(err, d3).
       and_then (wait_list K les2 rs2 d3) (\<lambda>(rs3, d4).
       and_then (do_wait_sync ops inode (handle_tid K handle d1) d4) (\<lambda>(_, d5).
         Inr (err, les2, rs3, d5))))))"

section \<open>Lemmas: windows as lists\<close>

lemma window_run: "window log b n = run (l_entries log) b n"
  by (simp add: window_def run_def L_ENT_def ent_def)

lemma run_0 [simp]: "run es b 0 = []"
  by (simp add: run_def)

lemma run_Suc: "run es b (Suc n) = ent es b # run es (b + 1) n"
  by (simp add: run_def upt_conv_Cons map_Suc_upt [symmetric] o_def algebra_simps del: upt_Suc map_Suc_upt)

lemma length_run [simp]: "length (run es b n) = n"
  by (simp add: run_def)

lemma L_INDEX_fresh:
  assumes "n < 32768" and "i < n"
  shows "L_INDEX (b + 1 + of_nat i) \<noteq> L_INDEX b"
  using L_INDEX_inj [of "Suc i" 0 b] assms by (auto simp: algebra_simps)

lemma run_upd: "n < 32768 \<Longrightarrow> run (ent_upd es b x) (b + 1) n = run es (b + 1) n"
  by (auto simp: run_def ent_def ent_upd_def dest: L_INDEX_fresh)

lemma ent_upd_same [simp]: "ent (ent_upd es b x) b = x"
  by (simp add: ent_def ent_upd_def)

lemma ent_upd_next [simp]: "ent (ent_upd es b x) (b + 1) = ent es (b + 1)"
  using L_INDEX_fresh [of 1 0 b] by (simp add: ent_def ent_upd_def)

lemma ent_upd_prev [simp]: "ent (ent_upd es (b + 1) x) b = ent es b"
  using L_INDEX_fresh [of 1 0 b] by (simp add: ent_def ent_upd_def)

lemma ent_upd_id [simp]: "ent_upd es b (ent es b) = es"
  by (simp add: ent_def ent_upd_def)

lemma ent_upd_upd [simp]: "ent_upd (ent_upd es b x) b y = ent_upd es b y"
  by (simp add: ent_upd_def)

lemma put_outside: "(\<And>i. i < length xs \<Longrightarrow> j \<noteq> L_INDEX (b + of_nat i)) \<Longrightarrow> put es b xs j = es j"
proof (induction xs arbitrary: es b)
  case (Cons x xs)
  have "put (ent_upd es b x) (b + 1) xs j = ent_upd es b x j"
    by (rule Cons.IH) (use Cons.prems [of "Suc _"] in \<open>simp add: algebra_simps\<close>)
  with Cons.prems [of 0] show ?case by (simp add: ent_upd_def)
qed simp

lemma run_put: "length xs \<le> 32768 \<Longrightarrow> run (put es b xs) b (length xs) = xs"
proof (induction xs arbitrary: es b)
  case (Cons x xs)
  have "put (ent_upd es b x) (b + 1) xs (L_INDEX b) = ent_upd es b x (L_INDEX b)"
  proof (rule put_outside)
    fix i assume "i < length xs"
    then show "L_INDEX b \<noteq> L_INDEX (b + 1 + of_nat i)"
      using L_INDEX_fresh [of "length xs" i b] Cons.prems by simp
  qed
  then have "ent (put (ent_upd es b x) (b + 1) xs) b = x" by (simp add: ent_def ent_upd_def)
  with Cons show ?case by (simp add: run_Suc)
qed simp

lemma put_run: "put es b (run es b n) = es"
  by (induction n arbitrary: b) (simp_all add: run_Suc)

lemma put_append: "put es b (xs @ ys) = put (put es b xs) (b + of_nat (length xs)) ys"
  by (induction xs arbitrary: es b) (simp_all add: algebra_simps)

lemma seq_less_of_nat: "n \<le> 32768 \<Longrightarrow> seq_less b (b + of_nat n) \<longleftrightarrow> n \<noteq> 0"
proof -
  assume n: "n \<le> 32768"
  have u: "unat (of_nat n :: u32) = n" using n by (subst unat_of_nat) simp
  then have "uint (seq_dist b (b + of_nat n)) = int n"
    unfolding seq_dist_def uint_nat by (simp del: of_nat_unat)
  then have "seq_less b (b + of_nat n) \<longleftrightarrow> b \<noteq> b + of_nat n" using n by (intro seq_less_dist) simp
  also have "\<dots> \<longleftrightarrow> (of_nat n :: u32) \<noteq> 0" by simp
  also have "\<dots> \<longleftrightarrow> n \<noteq> 0" using u by (simp only: unat_eq_0 [symmetric])
  finally show ?thesis .
qed

section \<open>Lemmas: the inner loops\<close>

lemma le_pgi_grow [simp]: "le_pgi (grow x l) = le_pgi x"
  and le_ino_grow [simp]: "le_ino (grow x l) = le_ino x"
  and le_page_grow [simp]: "le_page (grow x l) = le_page x"
  by (simp_all add: grow_def le_pgi_def le_ino_def le_page_def le_set_len_def)

lemma le_page_inval [simp]: "le_page (le_set_inval x) = le_page x"
  by (simp add: le_page_def le_set_inval_def le_set_ino_def)

lemma le_inval_set [simp]: "le_inval (le_set_inval x)"
  by (simp add: le_inval_def le_set_inval_def le_set_ino_def le_ino_def)

lemma le_len_inval [simp]: "le_len (le_set_inval x) = le_len x"
  by (simp add: le_len_def le_set_inval_def le_set_ino_def)

lemma le_valid_iff [simp]: "le_valid = (\<lambda>x. \<not> le_inval x)"
  by (simp add: fun_eq_iff le_valid_def)

lemma put_upd_hd: "xs \<noteq> [] \<Longrightarrow> put (ent_upd es b x) b xs = put es b xs"
  by (cases xs) simp_all

lemma coalesce_Cons [simp]: "coalesce p xs \<noteq> []"
  by (cases xs) simp_all

lemma run_upd2: "Suc n < 32768 \<Longrightarrow> run (ent_upd es b x) (b + 1 + 1) n = run es (b + 1 + 1) n"
  using run_upd [of "Suc n" es b x] by (simp only: run_Suc list.inject)

lemma merge_scan_list:
  assumes "n < 32768" and "rl_inv h rs" and "ino \<noteq> LE_INVAL_INO" and "le_ino (ent es b) = ino"
    and "g = takeWhile (\<lambda>le. le_ino le = ino) (run es (b + 1) n)" and "c = coalesce (ent es b) g"
  shows "merge_scan h ino (b + 1 + of_nat n) es rs (b + 1) nles =
    Inr (put es b c, foldl (rl_del h) rs (map le_page (filter le_inval c)),
      b + 1 + of_nat (length g), nles + of_nat (length (filter le_valid c)) - 1)"
  using assms
proof (induction n arbitrary: b es rs nles g c)
  case 0
  then have "\<not> le_inval (ent es b)" by (simp add: le_inval_def)
  with 0 show ?case using seq_less_of_nat [of 0 "b + 1"]
    by (simp add: merge_scan.simps [of h ino "b + 1"])
next
  case (Suc n)
  let ?p = "ent es b" and ?x = "ent es (b + 1)"
  have sl: "seq_less (b + 1) (b + 1 + of_nat (Suc n))" using seq_less_of_nat [of "Suc n" "b + 1"] Suc.prems(1) by simp
  have en: "b + 1 + of_nat (Suc n) = b + 1 + 1 + (of_nat n :: u32)" by simp
  have v: "\<not> le_inval ?p" using Suc.prems(3,4) by (simp add: le_inval_def)
  consider (other) "le_ino ?x \<noteq> ino" | (dup) "le_ino ?x = ino" "le_pgi ?p = le_pgi ?x"
    | (new) "le_ino ?x = ino" "le_pgi ?p \<noteq> le_pgi ?x" by blast
  then show ?case
  proof cases
    case other
    with Suc.prems(5,6) sl v show ?thesis
      by (simp add: merge_scan.simps [of h ino "b + 1 + of_nat (Suc n)" es] run_Suc
          of_nat_1 [where 'a = "32 word", unfolded One_nat_def] del: of_nat_Suc)
  next
    case dup
    let ?es1 = "ent_upd es b (le_set_inval ?p)" and ?x' = "grow ?x (le_len ?p)"
    let ?es2 = "ent_upd ?es1 (b + 1) ?x'" and ?rs1 = "rl_del h rs (le_page ?p)"
    let ?g = "takeWhile (\<lambda>le. le_ino le = ino) (run es (b + 1 + 1) n)"
    have "merge_scan h ino (b + 1 + of_nat (Suc n)) es rs (b + 1) nles =
      merge_scan h ino (b + 1 + of_nat (Suc n)) ?es2 ?rs1 (b + 1 + 1) nles"
      using dup sl evict_entry_del [OF Suc.prems(2), of "le_set_inval ?p"]
      by (simp add: merge_scan.simps [of h ino "b + 1 + of_nat (Suc n)" es] Let_def grow_def
          del: of_nat_Suc) (metis ent_upd_id ent_upd_next)
    moreover have "run ?es2 (b + 1 + 1) n = run es (b + 1 + 1) n"
      using Suc.prems(1) by (simp only: run_upd run_upd2)
    ultimately show ?thesis
      unfolding en using Suc.IH [of ?rs1 ?es2 "b + 1" ?g "coalesce ?x' ?g" nles] Suc.prems dup v
      by (simp add: run_Suc rl_del_inv put_upd_hd)
  next
    case new
    let ?g = "takeWhile (\<lambda>le. le_ino le = ino) (run es (b + 1 + 1) n)"
    have "merge_scan h ino (b + 1 + of_nat (Suc n)) es rs (b + 1) nles =
      merge_scan h ino (b + 1 + of_nat (Suc n)) es rs (b + 1 + 1) (nles + 1)"
      using new sl by (simp add: merge_scan.simps [of h ino "b + 1 + of_nat (Suc n)" es] del: of_nat_Suc)
    then show ?thesis
      unfolding en using Suc.IH [of rs es "b + 1" ?g "coalesce ?x ?g" "nles + 1"] Suc.prems new v
      by (simp add: run_Suc)
  qed
qed

lemma flush_entries_list:
  assumes "n \<le> 32768"
  shows "flush_entries K ops handle (b + of_nat n) es rs d b =
    and_then (flush_list K ops handle (run es b n) rs d) (\<lambda>(les, rs1, d1). Inr (put es b les, rs1, d1))"
  using assms
proof (induction n arbitrary: b es rs d)
  case 0
  then show ?case using seq_less_of_nat [of 0 b] by (simp add: flush_entries.simps)
next
  case (Suc n)
  let ?le = "ent es b"
  have sl: "seq_less b (b + of_nat (Suc n))" using seq_less_of_nat [of "Suc n" b] Suc.prems by simp
  have en: "b + of_nat (Suc n) = b + 1 + (of_nat n :: u32)" by simp
  have r: "run (ent_upd es b x) (b + 1) n = run es (b + 1) n" for x
    using Suc.prems by (simp add: run_upd)
  have IH: "flush_entries K ops handle (b + of_nat (Suc n)) es1 rs1 d1 (b + 1) =
    and_then (flush_list K ops handle (run es1 (b + 1) n) rs1 d1)
      (\<lambda>(les, rs2, d2). Inr (put es1 (b + 1) les, rs2, d2))" for es1 rs1 d1
    unfolding en by (rule Suc.IH) (use Suc.prems in simp)
  show ?case
    unfolding flush_entries.simps [of K ops handle "b + of_nat (Suc n)" es rs d b] if_P [OF sl]
    by (simp add: run_Suc IH r Let_def and_then_assoc and_then_if split_def del: of_nat_Suc cong: if_cong)
qed

lemma wait_entries_list:
  assumes "n \<le> 32768"
  shows "wait_entries K (b + of_nat n) es rs d b = wait_list K (run es b n) rs d"
  using assms
proof (induction n arbitrary: b rs d)
  case 0
  then show ?case using seq_less_of_nat [of 0 b] by (simp add: wait_entries.simps)
next
  case (Suc n)
  have sl: "seq_less b (b + of_nat (Suc n))" using seq_less_of_nat [of "Suc n" b] Suc.prems by simp
  have en: "b + of_nat (Suc n) = b + 1 + (of_nat n :: u32)" by simp
  have IH: "wait_entries K (b + of_nat (Suc n)) es rs1 d1 (b + 1) = wait_list K (run es (b + 1) n) rs1 d1"
    for rs1 d1 unfolding en by (rule Suc.IH) (use Suc.prems in simp)
  show ?case
    unfolding wait_entries.simps [of K "b + of_nat (Suc n)" es rs d b] if_P [OF sl]
    by (simp add: run_Suc IH Let_def del: of_nat_Suc)
qed

lemma flush_list_length: "flush_list K ops handle les rs d = Inr (les', rs', d') \<Longrightarrow> length les' = length les"
  by (induction les arbitrary: rs d les') (auto simp: and_then_Inr split: if_splits)

lemma put_upd_other:
  "(\<And>i. i < length xs \<Longrightarrow> j \<noteq> L_INDEX (b + of_nat i)) \<Longrightarrow> (put es b xs)(j := y) = put (es(j := y)) b xs"
proof (induction xs arbitrary: es b)
  case (Cons x xs)
  have "(put (ent_upd es b x) (b + 1) xs)(j := y) = put ((ent_upd es b x)(j := y)) (b + 1) xs"
    by (rule Cons.IH) (use Cons.prems [of "Suc _"] in \<open>simp add: algebra_simps\<close>)
  moreover have "(ent_upd es b x)(j := y) = ent_upd (es(j := y)) b x"
    using Cons.prems [of 0] by (auto simp: ent_upd_def)
  ultimately show ?case by (simp only: put.simps)
qed simp

lemma put_put:
  "length xs = length ys \<Longrightarrow> length xs \<le> 32768 \<Longrightarrow> put (put es b xs) b ys = put es b ys"
proof (induction xs ys arbitrary: es b rule: list_induct2)
  case (Cons x xs y ys)
  have "ent_upd (put (ent_upd es b x) (b + 1) xs) b y = put (ent_upd (ent_upd es b x) b y) (b + 1) xs"
    unfolding ent_upd_def [of _ b y]
    using L_INDEX_fresh [of "length xs" _ b] Cons.prems by (intro put_upd_other) (metis Suc_le_eq length_Cons)
  with Cons show ?case by simp
qed simp

lemma length_coalesce [simp]: "length (coalesce p xs) = Suc (length xs)"
  by (induction p xs rule: coalesce.induct) simp_all

lemma sint_of_nat: "n \<le> 32768 \<Longrightarrow> sint (of_nat n :: u32) = int n"
  by (subst sint_low) (simp_all add: unat_of_nat del: of_nat_unat)

section \<open>Lemmas: one group\<close>

lemma flush_list_inv:
  "flush_list K ops handle les rs d = Inr (les', rs', d') \<Longrightarrow> rl_inv (hash_32 K) rs \<Longrightarrow>
    rl_inv (hash_32 K) rs'"
  by (induction les arbitrary: rs d les')
    (auto simp: and_then_Inr evict_entry_del rl_del_inv split: if_splits)

lemma wait_list_inv:
  "wait_list K les rs d = Inr (rs', d') \<Longrightarrow> rl_inv (hash_32 K) rs \<Longrightarrow> rl_inv (hash_32 K) rs'"
  by (induction les arbitrary: rs d)
    (auto simp: and_then_Inr evict_entry_del rl_del_inv split: if_splits)

lemma group_run_inv:
  "group_run K ops inode les rs d = Inr (err, les', rs', d') \<Longrightarrow> rl_inv (hash_32 K) rs \<Longrightarrow>
    rl_inv (hash_32 K) rs'"
  by (auto simp: group_run_def and_then_Inr split: if_splits dest: flush_list_inv wait_list_inv)

lemma group_run_length:
  "group_run K ops inode les rs d = Inr (err, les', rs', d') \<Longrightarrow> length les' = length les"
  by (auto simp: group_run_def and_then_Inr split: if_splits dest: flush_list_length)

lemma flush_group_list:
  assumes "n < 32768" and "rl_inv (hash_32 K) (s_rs st)" and "\<not> le_inval (ent es b)"
    and es: "es = l_entries (s_log st)"
    and c: "c = coalesce (ent es b) (takeWhile (\<lambda>le. le_ino le = le_ino (ent es b)) (run es (b + 1) n))"
    and p: "r_pages (s_rs st) (le_page (ent es b)) = Some p" "p_mapping p \<noteq> NULL"
  shows "flush_group K ops st b (b + of_nat (Suc n)) =
    and_then (group_run K ops (mapping_host K (p_mapping p)) c
        (foldl (rl_del (hash_32 K)) (s_rs st) (map le_page (filter le_inval c))) (s_dev st))
      (\<lambda>(err, les, rs, d). Inr (err, b + of_nat (length c),
        st\<lparr>s_log := (s_log st)\<lparr>l_entries := put es b les, l_begin := b + of_nat (length c)\<rparr>,
          s_rs := rs, s_dev := d\<rparr>))"
proof -
  let ?ino = "le_ino (ent es b)"
  let ?g = "takeWhile (\<lambda>le. le_ino le = ?ino) (run es (b + 1) n)"
  let ?rs = "foldl (rl_del (hash_32 K)) (s_rs st) (map le_page (filter le_inval c))"
  let ?v = "length (filter le_valid c)"
  have ino: "?ino \<noteq> LE_INVAL_INO" using assms(3) by (simp add: le_inval_def)
  have lg: "length ?g \<le> n" using length_takeWhile_le [of _ "run es (b + 1) n"] by simp
  have lc: "length c = Suc (length ?g)" by (simp add: c)
  have l32: "length c \<le> 32768" using lc lg assms(1) by simp
  have v: "?v \<le> 32768" using length_filter_le [of le_valid c] l32 by linarith
  have ms: "merge_scan (hash_32 K) ?ino (b + of_nat (Suc n)) es (s_rs st) (b + 1) 1 =
      Inr (put es b c, ?rs, b + of_nat (length c), of_nat ?v)"
    using merge_scan_list [OF assms(1,2) ino refl refl c, of 1] lc by (simp add: algebra_simps)
  have fe: "flush_entries K ops handle (b + of_nat (length c)) (put es b c) rs d b =
      and_then (flush_list K ops handle c rs d) (\<lambda>(les, rs1, d1). Inr (put es b les, rs1, d1))"
    for handle rs d
    using flush_entries_list [OF l32, of K ops handle b "put es b c" rs d] l32
    by (auto simp: run_put put_put dest: flush_list_length intro!: and_then_cong)
  have we: "wait_entries K (b + of_nat (length c)) (put es b les) rs d b = wait_list K les rs d"
    if "length les = length c" for les rs d
    using wait_entries_list [OF l32, of K b "put es b les" rs d] run_put [of les es b] that l32 by simp
  show ?thesis
    unfolding flush_group_def Let_def es [symmetric] p(1) option.case if_not_P [OF p(2)] ms
      group_run_def
    using p v
    by (auto simp: fe we sint_of_nat and_then_assoc split_def and_then_if
        intro!: and_then_cong we [OF flush_list_length])
qed

section \<open>The outer loop on lists\<close>

text \<open>
  \<open>merge_list\<close> returns the error code, the entries as they are left behind, how many of them have
  been retired by the last group, and the new state.  An invalid entry ends the loop, a metadata
  entry is passed over.
\<close>

function merge_list ::
  "'d kernel \<Rightarrow> 'd flush_operations \<Rightarrow> log_entry list \<Rightarrow> rstate \<Rightarrow> 'd \<Rightarrow> int \<Rightarrow>
     fault + int \<times> log_entry list \<times> nat \<times> rstate \<times> 'd" where
  "merge_list K ops [] rs d err = Inr (err, [], 0, rs, d)"
| "merge_list K ops (le # les) rs d err =
     (if le_inval le then Inr (err, le # les, 0, rs, d)
      else if le_meta le then
        and_then (merge_list K ops les rs d err) (\<lambda>(err1, les1, r, rs1, d1).
          Inr (err1, le # les1, if r = 0 then 0 else Suc r, rs1, d1))
      else
        (case r_pages rs (le_page le) of
           None \<Rightarrow> Inl BAD_POINTER
         | Some p \<Rightarrow>
             if p_mapping p = NULL then Inl BAD_POINTER
             else
               let c = coalesce le (takeWhile (\<lambda>x. le_ino x = le_ino le) les) in
               and_then (group_run K ops (mapping_host K (p_mapping p)) c
                   (foldl (rl_del (hash_32 K)) rs (map le_page (filter le_inval c))) d)
                 (\<lambda>(err1, c1, rs1, d1).
               and_then (merge_list K ops (dropWhile (\<lambda>x. le_ino x = le_ino le) les) rs1 d1 err1)
                 (\<lambda>(err2, les2, r, rs2, d2).
                 Inr (err2, c1 @ les2, length c1 + r, rs2, d2)))))"
  by pat_completeness auto
termination
  by (relation "measure (\<lambda>(K, ops, les, rs, d, err). length les)")
    (auto simp: le_imp_less_Suc length_dropWhile_le)

lemma run_append: "run es b (m + n) = run es b m @ run es (b + of_nat m) n"
  by (induction m arbitrary: b) (simp_all add: run_Suc algebra_simps)

lemma run_take: "m \<le> n \<Longrightarrow> run es b m = take m (run es b n)"
  and run_drop: "m \<le> n \<Longrightarrow> run es (b + of_nat m) (n - m) = drop m (run es b n)"
  using run_append [of es b m "n - m"] by simp_all

lemma run_put_next:
  assumes "length xs + n \<le> 32768"
  shows "run (put es b xs) (b + of_nat (length xs)) n = run es (b + of_nat (length xs)) n"
proof -
  have "put es b xs (L_INDEX (b + of_nat (length xs) + of_nat i)) =
      es (L_INDEX (b + of_nat (length xs) + of_nat i))" if "i < n" for i
  proof (rule put_outside)
    fix k assume "k < length xs"
    then show "L_INDEX (b + of_nat (length xs) + of_nat i) \<noteq> L_INDEX (b + of_nat k)"
      using L_INDEX_inj [of "length xs + i" k b] that assms by (auto simp: algebra_simps)
  qed
  then show ?thesis by (simp add: run_def ent_def)
qed

text \<open>The state that the outer loop leaves behind, given what \<open>merge_list\<close> returns.\<close>

definition flushed :: "'d fstate \<Rightarrow> u32 \<Rightarrow> log_entry list \<Rightarrow> nat \<Rightarrow> rstate \<Rightarrow> 'd \<Rightarrow> 'd fstate" where
  "flushed st b les r rs d =
     st\<lparr>s_log := (s_log st)\<lparr>l_entries := put (l_entries (s_log st)) b les,
          l_begin := (if r = 0 then l_begin (s_log st) else b + of_nat r)\<rparr>,
        s_rs := rs, s_dev := d\<rparr>"

lemma flushed_same: "put (l_entries (s_log st)) b les = l_entries (s_log st) \<Longrightarrow>
    flushed st b les 0 (s_rs st) (s_dev st) = st"
  by (simp add: flushed_def)

lemma dropWhile_run:
  assumes "g = takeWhile P (run es (b + 1) n)"
  shows "dropWhile P (run es (b + 1) n) = run es (b + of_nat (Suc (length g))) (n - length g)"
    and "length g \<le> n"
proof -
  show l: "length g \<le> n" using length_takeWhile_le [of P "run es (b + 1) n"] assms by simp
  have "run es (b + 1) n = g @ dropWhile P (run es (b + 1) n)" by (simp add: assms)
  then have "dropWhile P (run es (b + 1) n) = drop (length g) (run es (b + 1) n)"
    by (metis append_eq_conv_conj)
  then show "dropWhile P (run es (b + 1) n) = run es (b + of_nat (Suc (length g))) (n - length g)"
    using run_drop [OF l, of es "b + 1"] by (simp add: algebra_simps)
qed

text \<open>The refinement, for a window of \<open>n\<close> entries from \<open>b\<close> on.\<close>

definition refines_at :: "'d kernel \<Rightarrow> 'd flush_operations \<Rightarrow> nat \<Rightarrow> u32 \<Rightarrow> 'd fstate \<Rightarrow> int \<Rightarrow> bool" where
  "refines_at K ops n b st err \<longleftrightarrow>
     merge_flush K ops (b + of_nat n) st b err =
       and_then (merge_list K ops (run (l_entries (s_log st)) b n) (s_rs st) (s_dev st) err)
         (\<lambda>(err1, les, r, rs, d). Inr (err1, flushed st b les r rs d))"

lemma merge_flush_unfold:
  "merge_flush K ops (b + of_nat n) st b err =
     (if seq_less b (b + of_nat n) then
        let le = ent (l_entries (s_log st)) b in
        if le_inval le then Inr (err, st)
        else if le_meta le then merge_flush K ops (b + of_nat n) st (b + 1) err
        else and_then (flush_group K ops st b (b + of_nat n)) (\<lambda>(err1, e, st1).
          merge_flush K ops (b + of_nat n) st1 e err1)
      else Inr (err, st))"
  by (rule merge_flush.simps)

lemma refines_at_rest:
  assumes "length les + k \<le> 32768" and "r \<noteq> 0"
    and "refines_at K ops k (b + of_nat (length les)) (flushed st b les r rs d) err"
  shows "merge_flush K ops (b + of_nat (length les + k)) (flushed st b les r rs d) (b + of_nat (length les)) err =
    and_then (merge_list K ops (run (l_entries (s_log st)) (b + of_nat (length les)) k) rs d err)
      (\<lambda>(err1, les2, r2, rs2, d2). Inr (err1,
        flushed st b (les @ les2) (if r2 = 0 then r else length les + r2) rs2 d2))"
proof -
  let ?st = "flushed st b les r rs d" and ?b = "b + of_nat (length les)"
  have "run (l_entries (s_log ?st)) ?b k = run (l_entries (s_log st)) ?b k"
    using run_put_next [OF assms(1)] by (simp add: flushed_def)
  moreover have "flushed ?st ?b les2 r2 rs2 d2 =
      flushed st b (les @ les2) (if r2 = 0 then r else length les + r2) rs2 d2" for les2 r2 rs2 d2
    using assms(2) by (simp add: flushed_def put_append algebra_simps)
  ultimately show ?thesis
    using assms(3) by (simp add: refines_at_def flushed_def algebra_simps)
qed

lemma refines_at_data:
  assumes m: "m < 32768" and i: "rl_inv (hash_32 K) (s_rs st)"
    and le: "le = ent (l_entries (s_log st)) b" "\<not> le_inval le" "\<not> le_meta le"
    and IH: "\<And>k b st err. k \<le> m \<Longrightarrow> rl_inv (hash_32 K) (s_rs st) \<Longrightarrow> refines_at K ops k b st err"
  shows "refines_at K ops (Suc m) b st err"
proof (cases "\<exists>p. r_pages (s_rs st) (le_page le) = Some p \<and> p_mapping p \<noteq> NULL")
  case False
  with le show ?thesis using seq_less_of_nat [of "Suc m" b] m
    unfolding refines_at_def merge_flush_unfold [of K ops b "Suc m"]
    by (auto simp: flush_group_def Let_def run_Suc split: option.splits)
next
  case True
  then obtain p where p: "r_pages (s_rs st) (le_page le) = Some p" "p_mapping p \<noteq> NULL" by blast
  let ?es = "l_entries (s_log st)" and ?P = "\<lambda>x. le_ino x = le_ino le"
  let ?g = "takeWhile ?P (run ?es (b + 1) m)"
  let ?c = "coalesce le ?g" and ?k = "m - length ?g"
  let ?rs = "foldl (rl_del (hash_32 K)) (s_rs st) (map le_page (filter le_inval ?c))"
  let ?G = "group_run K ops (mapping_host K (p_mapping p)) ?c ?rs (s_dev st)"
  note dw = dropWhile_run [OF refl, of ?P ?es b m]
  have iv: "rl_inv (hash_32 K) ?rs" using rindex.inv_dels i by blast
  have "flush_group K ops st b (b + of_nat (Suc m)) = and_then ?G
      (\<lambda>(err, les, rs, d). Inr (err, b + of_nat (length ?c), flushed st b les (length ?c) rs d))"
    using flush_group_list [OF m i _ refl refl] le p by (simp add: flushed_def)
  moreover have "merge_flush K ops (b + of_nat (Suc m)) (flushed st b c1 (length ?c) rs1 d1)
      (b + of_nat (length ?c)) err1 =
    and_then (merge_list K ops (dropWhile ?P (run ?es (b + 1) m)) rs1 d1 err1)
      (\<lambda>(err2, les2, r, rs2, d2). Inr (err2, flushed st b (c1 @ les2) (length c1 + r) rs2 d2))"
    if "?G = Inr (err1, c1, rs1, d1)" for err1 c1 rs1 d1
  proof -
    have l: "length c1 = Suc (length ?g)" using group_run_length [OF that] by simp
    have "refines_at K ops ?k (b + of_nat (length c1)) (flushed st b c1 (length c1) rs1 d1) err1"
      using group_run_inv [OF that iv] by (intro IH) (simp_all add: flushed_def)
    moreover have "length c1 + ?k = Suc m" using l dw(2) by simp
    ultimately show ?thesis
      using refines_at_rest [of c1 ?k "length c1" K ops b st rs1 d1 err1] l m dw(1)
      by (auto simp: split_def intro!: and_then_cong)
  qed
  ultimately have "and_then (flush_group K ops st b (b + of_nat (Suc m))) (\<lambda>(err1, e, st1).
      merge_flush K ops (b + of_nat (Suc m)) st1 e err1) =
    and_then ?G (\<lambda>(err1, c1, rs1, d1).
    and_then (merge_list K ops (dropWhile ?P (run ?es (b + 1) m)) rs1 d1 err1)
      (\<lambda>(err2, les2, r, rs2, d2). Inr (err2, flushed st b (c1 @ les2) (length c1 + r) rs2 d2)))"
    by (auto simp: and_then_assoc split_def simp del: of_nat_Suc length_coalesce intro!: and_then_cong)
  with le p show ?thesis
    unfolding refines_at_def merge_flush_unfold [of K ops b "Suc m"]
    using seq_less_of_nat [of "Suc m" b] m
    by (simp add: run_Suc and_then_assoc split_def Let_def del: of_nat_Suc)
qed

lemma merge_flush_list:
  assumes "n \<le> 32768" and "rl_inv (hash_32 K) (s_rs st)"
  shows "refines_at K ops n b st err"
  using assms
proof (induction n arbitrary: b st err rule: less_induct)
  case (less n b st err)
  show ?case
  proof (cases n)
    case 0
    then show ?thesis using seq_less_of_nat [of 0 b]
      by (simp add: refines_at_def merge_flush.simps flushed_same)
  next
    case (Suc m)
    let ?es = "l_entries (s_log st)"
    have sl: "seq_less b (b + of_nat (Suc m))" using seq_less_of_nat [of n b] less.prems(1) Suc by simp
    have en: "b + of_nat (Suc m) = b + 1 + (of_nat m :: u32)" by simp
    consider "le_inval (ent ?es b)" | (meta) "\<not> le_inval (ent ?es b)" "le_meta (ent ?es b)"
      | (data) "\<not> le_inval (ent ?es b)" "\<not> le_meta (ent ?es b)" by blast
    then have "refines_at K ops (Suc m) b st err"
    proof cases
      case 1
      then show ?thesis using put_run [of ?es b "Suc m"] sl
        unfolding refines_at_def merge_flush_unfold [of K ops b "Suc m"]
        by (simp add: run_Suc flushed_same del: of_nat_Suc)
    next
      case meta
      have "refines_at K ops m (b + 1) st err" using less.IH [of m] less.prems Suc by simp
      moreover have "flushed st (b + 1) les k rs d =
          flushed st b (ent ?es b # les) (if k = 0 then 0 else Suc k) rs d" for les k rs d
        by (simp add: flushed_def algebra_simps)
      ultimately show ?thesis using meta sl
        unfolding refines_at_def merge_flush_unfold [of K ops b "Suc m"] unfolding en
        by (simp add: run_Suc and_then_assoc split_def)
    next
      case data
      with less.IH less.prems Suc show ?thesis by (intro refines_at_data [OF _ _ refl]) simp_all
    qed
    then show ?thesis by (simp add: Suc)
  qed
qed

end
