(* ===== verification/Flush_Correct.thy ===== *)
theory Flush_Correct
  imports Flush_Refine
begin

text \<open>
  What the flusher guarantees: merging keeps the newest version of every page; a flush of data
  entries whose pages are tracked never faults, retires its whole window and releases the pages;
  and what it does not guarantee: errors of \<open>entry_flush\<close> do not reach the caller, and metadata
  entries alone are never retired.
\<close>

section \<open>What merging keeps\<close>

lemma f_pgi_grow [simp]: "f_pgi (grow x l) = f_pgi x"
  and f_ref_grow [simp]: "f_ref (grow x l) = f_ref x"
  by (simp_all add: grow_def le_set_len_def)

lemma le_len_bound: "le_len x < 2 ^ 16"
proof -
  have "take_bit 16 (f_flags x) = f_flags x mod 2 ^ 16" by (simp add: take_bit_eq_mod)
  then show ?thesis by (simp add: le_len_bits word_mod_less_divisor)
qed

lemma le_len_grow: "le_len (grow x (le_len y)) = max (le_len x) (le_len y)"
  using le_set_len_len [OF le_len_bound [of y], of x] by (auto simp: grow_def max_def)

text \<open>\<open>keeps g v\<close>: the entries \<open>v\<close> are the newest version of every page in \<open>g\<close>, in page order, each
  with the length of the longest version.\<close>

definition keeps :: "log_entry list \<Rightarrow> log_entry list \<Rightarrow> bool" where
  "keeps g v \<longleftrightarrow>
     sorted_wrt (\<lambda>x y. le_pgi x < le_pgi y) v \<and>
     (\<forall>x\<in>set g. \<exists>y\<in>set v. le_pgi y = le_pgi x \<and> f_pgi x \<le> f_pgi y \<and> le_len x \<le> le_len y) \<and>
     (\<forall>y\<in>set v. \<exists>x\<in>set g. le_ino y = le_ino x \<and> f_pgi y = f_pgi x \<and> f_ref y = f_ref x) \<and>
     (\<forall>y\<in>set v. \<exists>x\<in>set g. le_pgi y = le_pgi x \<and> le_len y = le_len x)"

lemma le_pgi_mono: "f_pgi x \<le> f_pgi y \<Longrightarrow> le_pgi x \<le> le_pgi y"
  unfolding le_pgi_bits word_le_nat_alt unat_drop_bit_eq by (simp add: drop_bit_eq_div div_le_mono)

lemma le_pgi_cong: "f_pgi x = f_pgi y \<Longrightarrow> le_pgi x = le_pgi y"
  by (simp add: le_pgi_bits)

lemma keeps_Cons: "keeps g v \<Longrightarrow> (\<And>y. y \<in> set v \<Longrightarrow> le_pgi p < le_pgi y) \<Longrightarrow> keeps (p # g) (p # v)"
  unfolding keeps_def by (simp add: Ball_def Bex_def) blast

lemma coalesce_keeps:
  assumes "\<forall>x\<in>set (p # xs). le_ino x = ino" and "ino \<noteq> LE_INVAL_INO"
    and "sorted_wrt (\<lambda>x y. f_pgi x \<le> f_pgi y) (p # xs)"
  shows "keeps (p # xs) (filter le_valid (coalesce p xs)) \<and>
    (\<forall>y\<in>set (filter le_valid (coalesce p xs)). f_pgi p \<le> f_pgi y)"
  using assms
proof (induction p xs rule: coalesce.induct)
  case (1 p)
  then show ?case by (simp add: keeps_def le_inval_def)
next
  case (2 p x xs)
  have v: "\<not> le_inval p" using 2(3,4) by (auto simp: le_inval_def)
  have px: "f_pgi p \<le> f_pgi x" using 2(5) by simp
  show ?case
  proof (cases "le_pgi p = le_pgi x")
    case True
    let ?x = "grow x (le_len p)" and ?v = "filter le_valid (coalesce (grow x (le_len p)) xs)"
    have IH: "keeps (?x # xs) ?v" "\<forall>y\<in>set ?v. f_pgi x \<le> f_pgi y"
      using 2(1) [OF True] 2(3,4,5) by simp_all
    have len: "le_len x \<le> le_len ?x" "le_len p \<le> le_len ?x" by (simp_all add: le_len_grow)
    have "keeps (p # x # xs) ?v"
      unfolding keeps_def
    proof (intro conjI)
      show "\<forall>z\<in>set (p # x # xs). \<exists>y\<in>set ?v. le_pgi y = le_pgi z \<and> f_pgi z \<le> f_pgi y \<and> le_len z \<le> le_len y"
        using IH(1) True px len unfolding keeps_def by (fastforce intro: order_trans)
      show "\<forall>y\<in>set ?v. \<exists>z\<in>set (p # x # xs). le_ino y = le_ino z \<and> f_pgi y = f_pgi z \<and> f_ref y = f_ref z"
        using IH(1) unfolding keeps_def by fastforce
      show "\<forall>y\<in>set ?v. \<exists>z\<in>set (p # x # xs). le_pgi y = le_pgi z \<and> le_len y = le_len z"
        using IH(1) True unfolding keeps_def by (auto simp: le_len_grow max_def split: if_splits)
    qed (use IH(1) in \<open>simp add: keeps_def\<close>)
    with True IH(2) px show ?thesis by (auto intro: order_trans)
  next
    case False
    let ?v = "filter le_valid (coalesce x xs)"
    have IH: "keeps (x # xs) ?v" "\<forall>y\<in>set ?v. f_pgi x \<le> f_pgi y"
      using 2(2) [OF False] 2(3,4,5) by simp_all
    have "le_pgi p < le_pgi y" if "y \<in> set ?v" for y
      using le_pgi_mono [OF px] le_pgi_mono [of x y] IH(2) that False by (metis order_le_less order_less_le_trans)
    then have "keeps (p # x # xs) (p # ?v)"
      using IH(1) by (intro keeps_Cons) simp_all
    with False v IH(2) px show ?thesis by (auto intro: order_trans)
  qed
qed

lemma takeWhile_run_prefix:
  "run es b (Suc (length (takeWhile P (run es (b + 1) n)))) = ent es b # takeWhile P (run es (b + 1) n)"
proof -
  let ?g = "takeWhile P (run es (b + 1) n)"
  have "length ?g \<le> n" using length_takeWhile_le [of P "run es (b + 1) n"] by simp
  then have "run es (b + 1) (length ?g) = ?g"
    by (simp only: run_take takeWhile_eq_take [of P "run es (b + 1) n", symmetric])
  then show ?thesis by (simp add: run_Suc)
qed

text \<open>
  C3.  The merging loop of \<open>__merge_flush\<close> on the entries of one inode, sorted by page and version:
  the entries left valid are the newest version of every page in the group, one per page and in page
  order, each with the greatest length among its versions.  It counts them, stops behind the group,
  changes no slot outside the group, and removes exactly the rlogs of the superseded entries.
\<close>

theorem merge_scan_newest:
  assumes "n < 32768" and "rl_inv h rs" and "ino \<noteq> LE_INVAL_INO" and "le_ino (ent es b) = ino"
    and "k = Suc (length (takeWhile (\<lambda>le. le_ino le = ino) (run es (b + 1) n)))"
    and "sorted_wrt key_le (run es b k)"
  shows "\<exists>es' rs' v.
    merge_scan h ino (b + 1 + of_nat n) es rs (b + 1) 1 = Inr (es', rs', b + of_nat k, of_nat (length v)) \<and>
    v = filter le_valid (run es' b k) \<and> keeps (run es b k) v \<and>
    (\<forall>j. j \<notin> (\<lambda>i. L_INDEX (b + of_nat i)) ` {0..<k} \<longrightarrow> es' j = es j) \<and>
    (\<forall>page. rl_look h rs' page =
      (if page \<in> le_page ` set (filter le_inval (run es' b k)) then None else rl_look h rs page))"
proof -
  let ?g = "takeWhile (\<lambda>le. le_ino le = ino) (run es (b + 1) n)"
  let ?c = "coalesce (ent es b) ?g"
  have k: "length ?c = k" "k \<le> 32768"
    using length_takeWhile_le [of "\<lambda>le. le_ino le = ino" "run es (b + 1) n"] assms(1,5) by auto
  have r: "run es b k = ent es b # ?g" using takeWhile_run_prefix assms(5) by blast
  have c: "run (put es b ?c) b k = ?c" using run_put [of ?c es b] k by simp
  have ino: "\<forall>x\<in>set (ent es b # ?g). le_ino x = ino" using assms(4) by (auto dest: set_takeWhileD)
  have "sorted_wrt (\<lambda>x y. f_pgi x \<le> f_pgi y) (ent es b # ?g)"
  proof (rule sorted_wrt_mono_rel [OF _ assms(6) [unfolded r]])
    fix x y
    assume "x \<in> set (ent es b # ?g)" and "y \<in> set (ent es b # ?g)" and xy: "key_le x y"
    then have "le_ino x = le_ino y" using ino by metis
    with xy show "f_pgi x \<le> f_pgi y" by (simp add: key_le_def le_ino_def)
  qed
  with ino assms(3) have "keeps (run es b k) (filter le_valid ?c)"
    unfolding r using coalesce_keeps by blast
  moreover have "merge_scan h ino (b + 1 + of_nat n) es rs (b + 1) 1 =
      Inr (put es b ?c, foldl (rl_del h) rs (map le_page (filter le_inval ?c)), b + of_nat k,
        of_nat (length (filter le_valid ?c)))"
    using merge_scan_list [OF assms(1-4) refl refl, of 1] assms(5) by (simp add: algebra_simps)
  moreover have "put es b ?c j = es j" if "j \<notin> (\<lambda>i. L_INDEX (b + of_nat i)) ` {0..<k}" for j
    using that k by (intro put_outside) auto
  ultimately show ?thesis
    using c rindex.look_dels [OF assms(2)] by (intro exI conjI) (auto simp: c)
qed

definition ex_versions :: slots where
  "ex_versions = (\<lambda>_. LE_INITIALIZER)(0 := \<lparr>f_ino = 7, f_pgi = 257, f_flags = 100, f_ref = 4096\<rparr>,
     1 := \<lparr>f_ino = 7, f_pgi = 258, f_flags = 50, f_ref = 8192\<rparr>)"

definition ex_hash :: hash_fun where
  "ex_hash val b = 0"

definition ex_rs :: rstate where
  "ex_rs = \<lparr>r_rlogs = (\<lambda>_. None), r_table = SHASHTABLE_UNINIT 10, r_pages = (\<lambda>_. None)\<rparr>"

lemma ex_rs_inv: "rl_inv ex_hash ex_rs"
  using sht_uninit_inv [of ex_hash 10]
  by (simp add: rl_inv_def ex_rs_def rl_key_def hash_ok_def ex_hash_def)

lemma ex_versions_run: "run ex_versions 0 2 =
    [\<lparr>f_ino = 7, f_pgi = 257, f_flags = 100, f_ref = 4096\<rparr>, \<lparr>f_ino = 7, f_pgi = 258, f_flags = 50, f_ref = 8192\<rparr>]"
  by (simp add: numeral_2_eq_2 run_Suc ex_versions_def ent_def L_INDEX_mod)

lemma ex_versions_group:
  "2 = Suc (length (takeWhile (\<lambda>le. le_ino le = 7) (run ex_versions (0 + 1) 1)))"
  "le_ino (ent ex_versions 0) = 7"
  by (simp_all add: run_def ex_versions_def ent_def L_INDEX_mod le_ino_def)

theorem merge_scan_newest_witness:
  "\<exists>es' rs' v. merge_scan ex_hash 7 (0 + 1 + of_nat 1) ex_versions ex_rs (0 + 1) 1 =
       Inr (es', rs', 0 + of_nat 2, of_nat (length v)) \<and>
     v = filter le_valid (run es' 0 2) \<and> keeps (run ex_versions 0 2) v"
  using merge_scan_newest [of 1 ex_hash ex_rs 7 ex_versions 0 2, OF _ ex_rs_inv _
      ex_versions_group(2,1)]
  by (auto simp: ex_versions_run key_le_def LE_INVAL_INO_def)

section \<open>What a flush asks of the disk file system\<close>

text \<open>
  The calls that a flush makes on the installed operations and on the block layer, as a protocol.  A
  transaction is begun for an inode, with a handle whose transaction number is read at once; entries
  are handed out under that handle, each with its page locked first; the transaction is ended; pages
  are waited for; and the commit of the transaction is waited for.  Only the pages \<open>P\<close> are
  handed out and waited for.
\<close>

datatype phase = Idle | Open ptr ptr u32 | Ended ptr u32

inductive dev_step ::
  "'d kernel \<Rightarrow> 'd flush_operations \<Rightarrow> ptr set \<Rightarrow> phase \<times> 'd \<Rightarrow> phase \<times> 'd \<Rightarrow> bool" for K ops P where
  start: "0 < nles \<Longrightarrow> do_trans_begin ops inode nles d = Inr (handle, d1) \<Longrightarrow> handle \<noteq> NULL \<Longrightarrow>
    \<not> IS_ERR K handle \<Longrightarrow>
    dev_step K ops P (Idle, d) (Open inode handle (handle_tid K handle d1), d1)"
| flush: "entry_flush ops = Some f \<Longrightarrow> le_page le \<in> P \<Longrightarrow> d1 = lock_page K (le_page le) d \<Longrightarrow>
    \<not> PageWriteback K (le_page le) d1 \<Longrightarrow> f handle le d1 = Inr (err, d2) \<Longrightarrow>
    dev_step K ops P (Open inode handle tid, d) (Open inode handle tid, d2)"
| finish: "do_trans_end ops handle d = Inr (err, d1) \<Longrightarrow>
    dev_step K ops P (Open inode handle tid, d) (Ended inode tid, d1)"
| await: "page \<in> P \<Longrightarrow>
    dev_step K ops P (Ended inode tid, d) (Ended inode tid, wait_on_page_writeback K page d)"
| sync: "do_wait_sync ops inode tid d = Inr (err, d1) \<Longrightarrow>
    dev_step K ops P (Ended inode tid, d) (Idle, d1)"

text \<open>
  How a call can stop the thread: the operation faults, the handle is an error pointer (\<open>BUG_ON\<close>) or null,
  or the page is still under write-back once it is locked (\<open>BUG_ON\<close>).
\<close>

inductive dev_fails ::
  "'d kernel \<Rightarrow> 'd flush_operations \<Rightarrow> ptr set \<Rightarrow> phase \<times> 'd \<Rightarrow> fault \<Rightarrow> bool" for K ops P where
  begin_faults: "0 < nles \<Longrightarrow> do_trans_begin ops inode nles d = Inl f \<Longrightarrow> dev_fails K ops P (Idle, d) f"
| handle_error: "0 < nles \<Longrightarrow> do_trans_begin ops inode nles d = Inr (handle, d1) \<Longrightarrow> IS_ERR K handle \<Longrightarrow>
    dev_fails K ops P (Idle, d) BUG"
| handle_null: "0 < nles \<Longrightarrow> do_trans_begin ops inode nles d = Inr (NULL, d1) \<Longrightarrow>
    dev_fails K ops P (Idle, d) BAD_POINTER"
| under_writeback: "entry_flush ops = Some f \<Longrightarrow> page \<in> P \<Longrightarrow> PageWriteback K page (lock_page K page d) \<Longrightarrow>
    dev_fails K ops P (Open inode handle tid, d) BUG"
| flush_faults: "entry_flush ops = Some f \<Longrightarrow> le_page le \<in> P \<Longrightarrow>
    \<not> PageWriteback K (le_page le) (lock_page K (le_page le) d) \<Longrightarrow>
    f handle le (lock_page K (le_page le) d) = Inl e \<Longrightarrow> dev_fails K ops P (Open inode handle tid, d) e"
| end_faults: "do_trans_end ops handle d = Inl f \<Longrightarrow> dev_fails K ops P (Open inode handle tid, d) f"
| sync_faults: "do_wait_sync ops inode tid d = Inl f \<Longrightarrow> dev_fails K ops P (Ended inode tid, d) f"

inductive_cases dev_stepE: "dev_step K ops P c c'"
inductive_cases dev_failsE: "dev_fails K ops P c f"

abbreviation dev_run ::
  "'d kernel \<Rightarrow> 'd flush_operations \<Rightarrow> ptr set \<Rightarrow> phase \<times> 'd \<Rightarrow> phase \<times> 'd \<Rightarrow> bool" where
  "dev_run K ops P \<equiv> (dev_step K ops P)\<^sup>*\<^sup>*"

definition dev_faults ::
  "'d kernel \<Rightarrow> 'd flush_operations \<Rightarrow> ptr set \<Rightarrow> phase \<times> 'd \<Rightarrow> fault \<Rightarrow> bool" where
  "dev_faults K ops P c f \<longleftrightarrow> (\<exists>c'. dev_run K ops P c c' \<and> dev_fails K ops P c' f)"

text \<open>An invariant of the protocol under which no call fails.\<close>

lemma dev_safe:
  assumes "I c" and "\<And>c c'. I c \<Longrightarrow> dev_step K ops P c c' \<Longrightarrow> I c'" and "\<And>c f. I c \<Longrightarrow> \<not> dev_fails K ops P c f"
  shows "\<not> dev_faults K ops P c f"
proof
  assume "dev_faults K ops P c f"
  then obtain c' where c': "dev_run K ops P c c'" "dev_fails K ops P c' f" by (auto simp: dev_faults_def)
  from c'(1) have "I c'" by (induction rule: rtranclp_induct) (use assms(1,2) in auto)
  with assms(3) c'(2) show False by blast
qed

text \<open>
  A computation at the point \<open>c\<close> of the protocol: its fault is one of the protocol, or it returns, with the
  protocol at a point and with a result of which \<open>Q\<close> holds.
\<close>

definition runs ::
  "'d kernel \<Rightarrow> 'd flush_operations \<Rightarrow> ptr set \<Rightarrow> phase \<times> 'd \<Rightarrow> fault + 'a \<Rightarrow> (phase \<times> 'd \<Rightarrow> 'a \<Rightarrow> bool) \<Rightarrow> bool" where
  "runs K ops P c r Q \<longleftrightarrow>
     (case r of Inl f \<Rightarrow> dev_faults K ops P c f | Inr x \<Rightarrow> \<exists>c'. dev_run K ops P c c' \<and> Q c' x)"

lemma runs_return: "Q c x \<Longrightarrow> runs K ops P c (Inr x) Q"
  unfolding runs_def sum.case by (intro exI [of _ c] conjI rtranclp.rtrancl_refl)

lemma runs_fail: "dev_fails K ops P c f \<Longrightarrow> runs K ops P c (Inl f) Q"
  unfolding runs_def sum.case dev_faults_def by (intro exI [of _ c] conjI rtranclp.rtrancl_refl)

lemma runs_step: "dev_step K ops P c c1 \<Longrightarrow> runs K ops P c1 r Q \<Longrightarrow> runs K ops P c r Q"
  by (auto simp: runs_def dev_faults_def split: sum.splits intro: converse_rtranclp_into_rtranclp)

lemma runs_bind:
  assumes "runs K ops P c r Q" and "\<And>c' x. Q c' x \<Longrightarrow> runs K ops P c' (g x) R"
  shows "runs K ops P c (and_then r g) R"
proof (cases r)
  case (Inl f)
  with assms(1) show ?thesis by (simp add: runs_def)
next
  case (Inr x)
  with assms(1) obtain c' where c': "dev_run K ops P c c'" "Q c' x" by (auto simp: runs_def)
  from assms(2) [OF c'(2)] c'(1) Inr show ?thesis
    by (auto simp: runs_def dev_faults_def split: sum.splits intro: rtranclp_trans)
qed

lemma runs_weaken: "runs K ops P c r Q \<Longrightarrow> (\<And>c' x. Q c' x \<Longrightarrow> R c' x) \<Longrightarrow> runs K ops P c r R"
  unfolding runs_def by (auto split: sum.splits simp del: split_paired_Ex)

lemma runs_end:
  "runs K ops P (Open inode handle tid, d) (do_trans_end ops handle d) (\<lambda>c (err, d1). c = (Ended inode tid, d1))"
  by (cases "do_trans_end ops handle d")
    (auto intro: runs_fail end_faults runs_step [OF finish] runs_return)

lemma runs_sync:
  "runs K ops P (Ended inode tid, d) (do_wait_sync ops inode tid d) (\<lambda>c (err, d1). c = (Idle, d1))"
  by (cases "do_wait_sync ops inode tid d")
    (auto intro: runs_fail sync_faults runs_step [OF sync] runs_return)

section \<open>The loops of a flush follow the protocol\<close>

text \<open>
  The pages of the valid entries are tracked by an rlog and belong to a mapping, and no page is
  logged twice.
\<close>

definition tracked :: "hash_fun \<Rightarrow> rstate \<Rightarrow> log_entry list \<Rightarrow> bool" where
  "tracked h rs les \<longleftrightarrow>
     distinct (map le_page (filter le_valid les)) \<and>
     (\<forall>le\<in>set les. le_valid le \<longrightarrow> rl_look h rs (le_page le) \<noteq> None \<and>
        (\<exists>p. r_pages rs (le_page le) = Some p \<and> p_mapping p \<noteq> NULL))"

lemma r_pages_del:
  assumes "rl_inv h rs" and "q \<noteq> page"
  shows "r_pages (rl_del h rs page) q = r_pages rs q"
  using assms(1)
proof (cases rule: rl_find_cases [where page = page])
  case (some rl r)
  with evict_rlog_ok [OF assms(1) some(2)] assms(2) show ?thesis by (auto simp: rl_del_def)
qed (simp add: rl_del_def)

lemma r_pages_dels:
  "rl_inv h rs \<Longrightarrow> q \<notin> set ps \<Longrightarrow> r_pages (foldl (rl_del h) rs ps) q = r_pages rs q"
  by (induction ps arbitrary: rs) (simp_all add: rl_del_inv r_pages_del)

abbreviation valid_pages :: "log_entry list \<Rightarrow> ptr set" where
  "valid_pages les \<equiv> le_page ` {le \<in> set les. \<not> le_inval le}"

lemma tracked_Nil [simp]: "tracked h rs []"
  by (simp add: tracked_def)

lemma tracked_inval [simp]: "le_inval le \<Longrightarrow> tracked h rs (le # les) \<longleftrightarrow> tracked h rs les"
  by (auto simp: tracked_def)

lemma tracked_Cons:
  "\<not> le_inval le \<Longrightarrow> tracked h rs (le # les) \<longleftrightarrow>
     le_page le \<notin> valid_pages les \<and> rl_look h rs (le_page le) \<noteq> None \<and>
     (\<exists>p. r_pages rs (le_page le) = Some p \<and> p_mapping p \<noteq> NULL) \<and> tracked h rs les"
  by (auto simp: tracked_def)

lemma tracked_dels:
  assumes "rl_inv h rs" and "tracked h rs les" and "set ps \<inter> valid_pages les = {}"
  shows "tracked h (foldl (rl_del h) rs ps) les"
  using assms(2,3) by (auto simp: tracked_def rindex.look_dels [OF assms(1)] r_pages_dels [OF assms(1)])

text \<open>Every call of \<open>entry_flush\<close> that returns reports an error.\<close>

definition flush_errors :: "'d flush_operations \<Rightarrow> bool" where
  "flush_errors ops \<longleftrightarrow>
     (\<exists>f. entry_flush ops = Some f \<and> (\<forall>handle le d err d1. f handle le d = Inr (err, d1) \<longrightarrow> err \<noteq> 0))"

lemma runs_le_flush:
  assumes "r_pages rs (le_page le) \<noteq> None" and "le_page le \<in> P" and "handle \<noteq> NULL"
  shows "runs K ops P (Open inode handle tid, d) (do_le_flush K ops handle le rs d)
    (\<lambda>c (err, d1). c = (Open inode handle tid, d1) \<and> (flush_errors ops \<longrightarrow> err \<noteq> 0))"
proof (cases "entry_flush ops")
  case None
  then show ?thesis by (simp add: do_le_flush_def flush_errors_def runs_return)
next
  case (Some f)
  let ?d = "lock_page K (le_page le) d"
  show ?thesis
  proof (cases "PageWriteback K (le_page le) ?d")
    case True
    then have "do_le_flush K ops handle le rs d = Inl BUG"
      using Some assms by (simp add: do_le_flush_def Let_def)
    then show ?thesis using runs_fail [OF under_writeback [OF Some assms(2) True]] by simp
  next
    case False
    then have eq: "do_le_flush K ops handle le rs d = f handle le ?d"
      using Some assms by (auto simp: do_le_flush_def Let_def)
    show ?thesis
    proof (cases "f handle le ?d")
      case (Inl e)
      then show ?thesis unfolding eq
        using runs_fail [OF flush_faults [OF Some assms(2) False Inl]] by simp
    next
      case (Inr r)
      then obtain err d2 where r: "f handle le ?d = Inr (err, d2)" by (cases r) auto
      then have "flush_errors ops \<longrightarrow> err \<noteq> 0" using Some by (fastforce simp: flush_errors_def)
      with r show ?thesis unfolding eq r
        by (intro runs_step [OF flush [OF Some assms(2) refl False r]] runs_return) simp
    qed
  qed
qed

text \<open>What flushing a list of entries leaves: some rlogs are gone, the other entries are still tracked.\<close>

definition flush_post ::
  "'d kernel \<Rightarrow> 'd flush_operations \<Rightarrow> log_entry list \<Rightarrow> rstate \<Rightarrow> log_entry list \<Rightarrow> rstate \<Rightarrow> bool" where
  "flush_post K ops les rs les' rs' \<longleftrightarrow>
     (\<exists>ps. rs' = foldl (rl_del (hash_32 K)) rs ps \<and> tracked (hash_32 K) rs' les' \<and>
        set ps \<union> valid_pages les' = valid_pages les \<and>
        (flush_errors ops \<longrightarrow> (\<forall>le\<in>set les'. le_inval le)))"

lemma flush_post_inval:
  assumes "le_inval le" and "flush_post K ops les rs les' rs'"
  shows "flush_post K ops (le # les) rs (le # les') rs'"
proof -
  have "valid_pages (le # xs) = valid_pages xs" for xs using assms(1) by auto
  with assms show ?thesis by (simp add: flush_post_def)
qed

lemma flush_post_kept:
  assumes "rl_inv (hash_32 K) rs" and "tracked (hash_32 K) rs (le # les)" and "\<not> le_inval le"
    and "\<not> flush_errors ops" and "flush_post K ops les rs les' rs'"
  shows "flush_post K ops (le # les) rs (le # les') rs'"
proof -
  let ?h = "hash_32 K"
  from assms(5) obtain ps where ps: "rs' = foldl (rl_del ?h) rs ps" "tracked ?h rs' les'"
      "set ps \<union> valid_pages les' = valid_pages les" by (auto simp: flush_post_def)
  have n: "le_page le \<notin> valid_pages les" using assms(2,3) by (simp add: tracked_Cons)
  then have "tracked ?h rs' (le # les')"
    using ps assms(1-3)
    by (auto simp: tracked_Cons rindex.look_dels [OF assms(1)] r_pages_dels [OF assms(1)])
  with ps assms(3,4) show ?thesis unfolding flush_post_def by (intro exI [of _ ps]) auto
qed

lemma flush_post_dropped:
  assumes "\<not> le_inval le" and "flush_post K ops les (rl_del (hash_32 K) rs (le_page le)) les' rs'"
  shows "flush_post K ops (le # les) rs (le_set_inval le # les') rs'"
proof -
  from assms(2) obtain ps where "rs' = foldl (rl_del (hash_32 K)) rs (le_page le # ps)"
      "tracked (hash_32 K) rs' les'" "set ps \<union> valid_pages les' = valid_pages les"
      "flush_errors ops \<longrightarrow> (\<forall>le\<in>set les'. le_inval le)" by (auto simp: flush_post_def)
  with assms(1) show ?thesis unfolding flush_post_def by (intro exI [of _ "le_page le # ps"]) auto
qed

lemma flush_list_runs:
  assumes "rl_inv (hash_32 K) rs" and "tracked (hash_32 K) rs les" and "valid_pages les \<subseteq> P" and "handle \<noteq> NULL"
  shows "runs K ops P (Open inode handle tid, d) (flush_list K ops handle les rs d)
    (\<lambda>c (les', rs', d'). c = (Open inode handle tid, d') \<and> flush_post K ops les rs les' rs')"
  using assms(1-3)
proof (induction les arbitrary: rs d)
  case Nil
  then show ?case by (auto simp: flush_post_def intro!: runs_return exI [of _ "[]"])
next
  case (Cons le les)
  let ?h = "hash_32 K" and ?c = "\<lambda>d. (Open inode handle tid, d)"
  show ?case
  proof (cases "le_inval le")
    case True
    have p: "tracked ?h rs les" "valid_pages les \<subseteq> P" using Cons.prems(2,3) True by auto
    show ?thesis
      using runs_bind [OF Cons.IH [OF Cons.prems(1) p, of d]] True
      by (auto intro!: runs_bind [OF Cons.IH [OF Cons.prems(1) p, of d]] runs_return flush_post_inval)
  next
    case False
    with Cons.prems have t: "le_page le \<notin> valid_pages les" "r_pages rs (le_page le) \<noteq> None"
        "tracked ?h rs les" "le_page le \<in> P" "valid_pages les \<subseteq> P" by (auto simp: tracked_Cons)
    let ?rs = "rl_del ?h rs (le_page le)"
    have tr: "tracked ?h ?rs les"
      using tracked_dels [OF Cons.prems(1) t(3), of "[le_page le]"] t(1) by simp
    have drop: "runs K ops P (?c d1)
        (and_then (flush_list K ops handle les ?rs d1) (\<lambda>(les2, rs2, d2). Inr (le_set_inval le # les2, rs2, d2)))
        (\<lambda>c (les', rs', d'). c = ?c d' \<and> flush_post K ops (le # les) rs les' rs')" for d1
      using False by (intro runs_bind [OF Cons.IH [OF rl_del_inv [OF Cons.prems(1)] tr t(5), of d1]])
        (auto intro!: runs_return flush_post_dropped)
    have keep: "runs K ops P (?c d1)
        (and_then (flush_list K ops handle les rs d1) (\<lambda>(les2, rs2, d2). Inr (le # les2, rs2, d2)))
        (\<lambda>c (les', rs', d'). c = ?c d' \<and> flush_post K ops (le # les) rs les' rs')"
      if "\<not> flush_errors ops" for d1
      using False that Cons.prems by (intro runs_bind [OF Cons.IH [OF Cons.prems(1) t(3,5), of d1]])
        (auto intro!: runs_return flush_post_kept)
    have "runs K ops P (?c d) (and_then (do_le_flush K ops handle le rs d) (\<lambda>(err, d1).
        if err \<noteq> 0 then and_then (flush_list K ops handle les ?rs d1)
          (\<lambda>(les2, rs2, d2). Inr (le_set_inval le # les2, rs2, d2))
        else and_then (flush_list K ops handle les rs d1) (\<lambda>(les2, rs2, d2). Inr (le # les2, rs2, d2))))
      (\<lambda>c (les', rs', d'). c = ?c d' \<and> flush_post K ops (le # les) rs les' rs')"
      by (rule runs_bind [OF runs_le_flush [OF t(2,4) assms(4)]]) (use drop keep in auto)
    then show ?thesis
      using False evict_entry_del [OF Cons.prems(1), of "le_set_inval le"] by (simp cong: if_cong)
  qed
qed

lemma wait_list_runs:
  assumes "rl_inv (hash_32 K) rs" and "tracked (hash_32 K) rs les" and "valid_pages les \<subseteq> P"
  shows "runs K ops P (Ended inode tid, d) (wait_list K les rs d)
    (\<lambda>c (rs', d'). c = (Ended inode tid, d') \<and>
       rs' = foldl (rl_del (hash_32 K)) rs (map le_page (filter le_valid les)))"
  using assms
proof (induction les arbitrary: rs d)
  case Nil
  then show ?case by (simp add: runs_return)
next
  case (Cons le les)
  show ?case
  proof (cases "le_inval le")
    case True
    have "valid_pages (le # les) = valid_pages les" using True by auto
    with Cons True show ?thesis by simp
  next
    case False
    let ?rs = "rl_del (hash_32 K) rs (le_page le)"
    from False Cons.prems have t: "le_page le \<notin> valid_pages les" "r_pages rs (le_page le) \<noteq> None"
      "tracked (hash_32 K) rs les" "le_page le \<in> P" "valid_pages les \<subseteq> P" by (auto simp: tracked_Cons)
    have "tracked (hash_32 K) ?rs les"
      using tracked_dels [OF Cons.prems(1) t(3), of "[le_page le]"] t(1) by simp
    from runs_step [OF await [OF t(4)] Cons.IH [OF rl_del_inv [OF Cons.prems(1)] this t(5)]] False t(2)
    show ?thesis by (auto simp: evict_entry_del [OF Cons.prems(1)])
  qed
qed

lemma group_run_runs:
  assumes "rl_inv (hash_32 K) rs" and "tracked (hash_32 K) rs les" and "valid_pages les \<subseteq> P"
    and "filter le_valid les \<noteq> []"
  shows "runs K ops P (Idle, d) (group_run K ops inode les rs d)
    (\<lambda>c (err, les', rs', d'). c = (Idle, d') \<and> length les' = length les \<and>
       (flush_errors ops \<longrightarrow> (\<forall>le\<in>set les'. le_inval le)) \<and>
       (\<exists>ps. rs' = foldl (rl_del (hash_32 K)) rs ps \<and> set ps = valid_pages les))"
proof -
  let ?h = "hash_32 K" and ?n = "int (length (filter le_valid les))"
  have n: "0 < ?n" using assms(4) by simp
  show ?thesis
  proof (cases "do_trans_begin ops inode ?n d")
    case (Inl f)
    then show ?thesis by (simp add: group_run_def runs_fail [OF begin_faults [OF n Inl]])
  next
    case (Inr r)
    then obtain handle d1 where b: "do_trans_begin ops inode ?n d = Inr (handle, d1)" by (cases r) auto
    let ?t = "handle_tid K handle d1"
    show ?thesis
    proof (cases "IS_ERR K handle \<or> handle = NULL")
      case True
      then show ?thesis
        using b runs_fail [OF handle_error [OF n b]] runs_fail [OF handle_null [OF n, of ops inode d d1]]
        by (auto simp: group_run_def)
    next
      case False
      then have h: "handle \<noteq> NULL" "\<not> IS_ERR K handle" by auto
      have w: "runs K ops P (Ended inode ?t, d3)
          (and_then (wait_list K les2 rs2 d3) (\<lambda>(rs3, d4).
           and_then (do_wait_sync ops inode ?t d4) (\<lambda>(_, d5). Inr (err, les2, rs3, d5))))
          (\<lambda>c (err, les', rs', d'). c = (Idle, d') \<and> length les' = length les \<and>
             (flush_errors ops \<longrightarrow> (\<forall>le\<in>set les'. le_inval le)) \<and>
             (\<exists>ps. rs' = foldl (rl_del ?h) rs ps \<and> set ps = valid_pages les))"
        if p: "flush_post K ops les rs les2 rs2" "length les2 = length les" for err les2 rs2 d3
      proof -
        from p(1) obtain ps where ps: "rs2 = foldl (rl_del ?h) rs ps" "tracked ?h rs2 les2"
            "set ps \<union> valid_pages les2 = valid_pages les" "flush_errors ops \<longrightarrow> (\<forall>le\<in>set les2. le_inval le)"
          by (auto simp: flush_post_def)
        have "rl_inv ?h rs2" "valid_pages les2 \<subseteq> P" using ps(1,3) rindex.inv_dels [OF assms(1)] assms(3) by auto
        note wl = wait_list_runs [OF this(1) ps(2) this(2), of ops inode ?t d3]
        have "\<exists>qs. foldl (rl_del ?h) rs2 (map le_page (filter le_valid les2)) = foldl (rl_del ?h) rs qs \<and>
            set qs = valid_pages les"
          using ps(1,3) by (intro exI [of _ "ps @ map le_page (filter le_valid les2)"]) auto
        with ps(4) p(2) show ?thesis
          by (intro runs_bind [OF wl]) (auto intro!: runs_bind [OF runs_sync] runs_return)
      qed
      have f: "runs K ops P (Open inode handle ?t, d1) (flush_list K ops handle les rs d1)
          (\<lambda>c (les', rs', d'). c = (Open inode handle ?t, d') \<and> flush_post K ops les rs les' rs' \<and>
             length les' = length les)"
        using flush_list_runs [OF assms(1-3) h(1), of ops inode ?t d1]
        by (auto simp: runs_def split: sum.splits dest: flush_list_length)
      show ?thesis
        unfolding group_run_def b and_then_simps split_conv if_not_P [OF h(2)] if_not_P [OF h(1)]
        using w by (intro runs_step [OF start [OF n b h]] runs_bind [OF f])
          (auto intro!: runs_bind [OF runs_end])
    qed
  qed
qed

lemma map_le_page_coalesce [simp]: "map le_page (coalesce p xs) = map le_page (p # xs)"
  by (induction p xs rule: coalesce.induct) simp_all

lemma coalesce_some_valid: "\<forall>x\<in>set (p # xs). \<not> le_inval x \<Longrightarrow> \<exists>y\<in>set (coalesce p xs). \<not> le_inval y"
  by (induction p xs rule: coalesce.induct) (auto simp: le_inval_def)

lemma tracked_coalesce:
  assumes "rl_inv h rs" and "tracked h rs (p # xs)" and "\<forall>x\<in>set (p # xs). \<not> le_inval x"
    and "c = coalesce p xs" and "ps = map le_page (filter le_inval c)"
  shows "tracked h (foldl (rl_del h) rs ps) c" and "set ps \<union> valid_pages c = le_page ` set (p # xs)"
proof -
  have m: "map le_page c = map le_page (p # xs)" by (simp add: assms(4))
  have fv: "filter le_valid (p # xs) = p # xs" using assms(3) by (auto intro: filter_True)
  have d: "distinct (map le_page c)" using assms(2) fv unfolding tracked_def m by simp
  have s: "le_page ` set c = le_page ` set (p # xs)" by (metis m list.set_map)
  then show "set ps \<union> valid_pages c = le_page ` set (p # xs)" by (auto simp: assms(5))
  have "tracked h rs c"
    unfolding tracked_def
  proof (intro conjI ballI impI)
    show "distinct (map le_page (filter le_valid c))" using d by (simp add: distinct_map_filter)
    fix le assume "le \<in> set c"
    then obtain x where "x \<in> set (p # xs)" "le_page le = le_page x" using s by auto
    then show "rl_look h rs (le_page le) \<noteq> None" "\<exists>p. r_pages rs (le_page le) = Some p \<and> p_mapping p \<noteq> NULL"
      using assms(2,3) unfolding tracked_def by auto
  qed
  moreover have "set ps \<inter> valid_pages c = {}"
    using d by (auto simp: assms(5) distinct_map inj_on_def)
  ultimately show "tracked h (foldl (rl_del h) rs ps) c" using assms(1) by (intro tracked_dels)
qed

lemma tracked_append:
  "tracked h rs (xs @ ys) \<longleftrightarrow> tracked h rs xs \<and> tracked h rs ys \<and> valid_pages xs \<inter> valid_pages ys = {}"
  by (auto simp: tracked_def)

lemma merge_list_runs:
  assumes "rl_inv (hash_32 K) rs" and "tracked (hash_32 K) rs les" and "le_page ` set les \<subseteq> P"
    and "\<forall>le\<in>set les. \<not> le_inval le \<and> \<not> le_meta le"
  shows "runs K ops P (Idle, d) (merge_list K ops les rs d err)
    (\<lambda>c (err', les', n, rs', d'). c = (Idle, d') \<and> n = length les \<and> length les' = length les \<and>
       (flush_errors ops \<longrightarrow> (\<forall>le\<in>set les'. le_inval le)) \<and>
       (\<exists>ps. rs' = foldl (rl_del (hash_32 K)) rs ps \<and> set ps = le_page ` set les))"
  using assms
proof (induction "length les" arbitrary: les rs d err rule: less_induct)
  case (less les rs d err)
  let ?h = "hash_32 K"
  show ?case
  proof (cases les)
    case Nil
    then show ?thesis by (auto intro!: runs_return exI [of _ "[]"])
  next
    case (Cons le xs)
    let ?P = "\<lambda>x. le_ino x = le_ino le"
    let ?g = "le # takeWhile ?P xs" and ?r = "dropWhile ?P xs"
    let ?c = "coalesce le (takeWhile ?P xs)"
    let ?ps = "map le_page (filter le_inval ?c)"
    have split: "les = ?g @ ?r" by (simp add: Cons)
    have "tracked ?h rs (?g @ ?r)" using less.prems(2) by (simp add: Cons)
    then have t: "tracked ?h rs ?g" "tracked ?h rs ?r" "valid_pages ?g \<inter> valid_pages ?r = {}"
      by (simp_all only: tracked_append)
    have val: "\<forall>x\<in>set ?g. \<not> le_inval x" "\<forall>x\<in>set ?r. \<not> le_inval x \<and> \<not> le_meta x"
      using less.prems(4) unfolding Cons by (auto dest: set_takeWhileD set_dropWhileD)
    note tc = tracked_coalesce [OF less.prems(1) t(1) val(1) refl refl]
    have pg: "le_page ` set les = le_page ` set ?g \<union> le_page ` set ?r"
      unfolding image_Un [symmetric] set_append [symmetric] by (simp only: split [symmetric])
    obtain p where p: "r_pages rs (le_page le) = Some p" "p_mapping p \<noteq> NULL"
      using less.prems(2,4) Cons by (auto simp: tracked_Cons)
    have cp: "valid_pages ?c \<subseteq> P" "le_page ` set ?r \<subseteq> P"
      using tc(2) less.prems(3) unfolding pg by blast+
    have cv: "filter le_valid ?c \<noteq> []" using coalesce_some_valid [OF val(1)] by (auto simp: filter_empty_conv)
    have lc: "length ?c + length ?r = length les" using split by (metis length_append length_coalesce length_Cons)
    note g = group_run_runs [OF rindex.inv_dels [OF less.prems(1)] tc(1) cp(1) cv,
        of ops d "mapping_host K (p_mapping p)"]
    have rest: "runs K ops P (Idle, d1)
        (and_then (merge_list K ops ?r rs1 d1 err1) (\<lambda>(err2, les2, r, rs2, d2).
           Inr (err2, c1 @ les2, length c1 + r, rs2, d2)))
        (\<lambda>c (err', les', n, rs', d'). c = (Idle, d') \<and> n = length les \<and> length les' = length les \<and>
           (flush_errors ops \<longrightarrow> (\<forall>le\<in>set les'. le_inval le)) \<and>
           (\<exists>ps. rs' = foldl (rl_del ?h) rs ps \<and> set ps = le_page ` set les))"
      if "length c1 = length ?c" "flush_errors ops \<longrightarrow> (\<forall>le\<in>set c1. le_inval le)"
        "rs1 = foldl (rl_del ?h) (foldl (rl_del ?h) rs ?ps) qs" "set qs = valid_pages ?c" for c1 rs1 d1 err1 qs
    proof -
      have rs1: "rs1 = foldl (rl_del ?h) rs (?ps @ qs)" using that(3) by simp
      have pages: "set (?ps @ qs) = le_page ` set ?g" using tc(2) that(4) by simp
      have "set (?ps @ qs) \<inter> valid_pages ?r = {}" unfolding pages using t(3) val(1) by auto
      then have tr: "tracked ?h rs1 ?r" unfolding rs1 by (rule tracked_dels [OF less.prems(1) t(2)])
      have "length ?r < length les" using length_dropWhile_le [of ?P xs] Cons by simp
      note IH = less.hyps [OF this
          rindex.inv_dels [OF less.prems(1), of "?ps @ qs", folded rs1] tr cp(2) val(2), of d1 err1]
      have "\<exists>ps. foldl (rl_del ?h) rs1 ps2 = foldl (rl_del ?h) rs ps \<and> set ps = le_page ` set les"
        if "set ps2 = le_page ` set ?r" for ps2
        unfolding rs1 pg using that pages by (intro exI [of _ "(?ps @ qs) @ ps2"]) auto
      then show ?thesis
        using that(1,2) lc by (intro runs_bind [OF IH]) (auto intro!: runs_return)
    qed
    show ?thesis
      using less.prems(4) p unfolding Cons
      by (simp add: Let_def) (rule runs_bind [OF g], use rest [unfolded Cons] in auto)
  qed
qed

section \<open>The whole flush\<close>

lemma log_take_window:
  assumes "log_inv log" and "log_take log nr = Inr ((b, e), log1)" and "b \<noteq> e"
  shows "off (l_begin log) b + off b e = off (l_begin log) e" and "off (l_begin log) e \<le> 32768"
    and "e = pend log1" and "log1 = log\<lparr>l_trans := l_trans log1\<rparr>"
proof -
  from log_take_spec [OF assms(1), of nr] assms(2,3) obtain ts1 ts2 t where
    l: "log1 = log\<lparr>l_trans := ts2 @ [t]\<rparr>" "sealed (l_begin log) b ts1 e"
      "sealed (l_begin log) e ts2 (l_head log)" by (auto split: if_splits)
  then show "log1 = log\<lparr>l_trans := l_trans log1\<rparr>" by simp
  have be: "off (l_begin log) b \<le> off (l_begin log) e" using sealed_mono [OF l(2)] .
  show "off (l_begin log) b + off b e = off (l_begin log) e"
    using off_shift [OF be] be by simp
  show "off (l_begin log) e \<le> 32768"
    using sealed_mono [OF l(3)] assms(1) by (simp add: log_inv_def)
  show "e = pend log1" using l(1,3) by (cases ts2) (auto simp: pend_def)
qed

lemma pend_entries [simp]: "pend (log\<lparr>l_entries := es\<rparr>) = pend log"
  by (simp add: pend_def split: list.split)

lemma log_inv_entries [simp]: "log_inv (log\<lparr>l_entries := es\<rparr>) = log_inv log"
  by (simp add: log_inv_def log_tail_tran_def)

lemma tracked_mset:
  assumes "mset xs = mset ys"
  shows "tracked h rs xs = tracked h rs ys"
proof -
  have "mset (map le_page (filter le_valid xs)) = mset (map le_page (filter le_valid ys))"
    using assms by simp
  then show ?thesis unfolding tracked_def
    using mset_eq_imp_distinct_iff mset_eq_setD [OF assms] by metis
qed

lemma log_retire_inv:
  assumes "log_inv log" and "log_take log nr = Inr ((b, e), log1)" and "b \<noteq> e"
  shows "log_inv (log1\<lparr>l_entries := es, l_begin := e\<rparr>)"
proof -
  let ?log = "log1\<lparr>l_entries := es\<rparr>"
  have "log_inv ?log" using log_take_inv [OF assms(1,2)] by simp
  moreover have "e = pend ?log" using log_take_window(3) [OF assms] by simp
  ultimately have "log_inv (log_advance ?log (off (l_begin ?log) e))" by (intro log_advance_inv) simp_all
  then show ?thesis by (simp add: log_advance_def)
qed

definition window_pages :: "adafs_log \<Rightarrow> u32 \<Rightarrow> u32 \<Rightarrow> ptr set" where
  "window_pages log b e = le_page ` set (window log b (off b e))"

text \<open>
  The state that a flush starts from: the log and the table of rlogs are consistent, the sorter's stack is
  empty, some sealed entries are taken, their sequence numbers keep clear of the sign change of
  \<open>int\<close>, and they are valid data entries of tracked pages.
\<close>

definition flushable ::
  "'d kernel \<Rightarrow> 'd fstate \<Rightarrow> nat \<Rightarrow> u32 \<Rightarrow> u32 \<Rightarrow> adafs_log \<Rightarrow> bool" where
  "flushable K st nr b e log1 \<longleftrightarrow>
     log_inv (s_log st) \<and> s_stack st = [] \<and> rl_inv (hash_32 K) (s_rs st) \<and>
     log_take (s_log st) nr = Inr ((b, e), log1) \<and> b \<noteq> e \<and> span_ok b (off b e) \<and>
     (\<forall>le\<in>set (window (s_log st) b (off b e)). le_valid le \<and> \<not> le_meta le) \<and>
     tracked (hash_32 K) (s_rs st) (window (s_log st) b (off b e))"

lemma log_flush_runs:
  assumes "flushable K st nr b e log1"
  shows "runs K ops (window_pages (s_log st) b e) (Idle, s_dev st) (log_flush K ops st nr)
    (\<lambda>c (err, st'). c = (Idle, s_dev st') \<and> log_inv (s_log st') \<and>
       l_begin (s_log st') = e \<and> l_end (s_log st') = l_end (s_log st) \<and> l_trans (s_log st') = l_trans log1 \<and>
       (\<forall>j. j \<notin> (\<lambda>i. L_INDEX (b + of_nat i)) ` {0..<off b e} \<longrightarrow>
          l_entries (s_log st') j = l_entries (s_log st) j) \<and>
       (flush_errors ops \<longrightarrow> (\<forall>le\<in>set (window (s_log st') b (off b e)). le_inval le)) \<and>
       rl_inv (hash_32 K) (s_rs st') \<and>
       (\<forall>page. rl_look (hash_32 K) (s_rs st') page =
         (if page \<in> window_pages (s_log st) b e then None else rl_look (hash_32 K) (s_rs st) page)))"
proof -
  have a: "log_inv (s_log st)" "s_stack st = []" "rl_inv (hash_32 K) (s_rs st)"
      "log_take (s_log st) nr = Inr ((b, e), log1)" "b \<noteq> e" "span_ok b (off b e)"
      "\<forall>le\<in>set (window (s_log st) b (off b e)). le_valid le \<and> \<not> le_meta le"
      "tracked (hash_32 K) (s_rs st) (window (s_log st) b (off b e))"
    using assms by (simp_all add: flushable_def)
  let ?n = "off b e" and ?h = "hash_32 K" and ?P = "window_pages (s_log st) b e"
  note w = log_take_window [OF a(1,4,5)]
  have n: "0 < ?n" "?n \<le> 32768" using w(1,2) a(5) off_inject [of b e b] by auto
  have e: "b + of_nat ?n = e" by simp
  have l1: "l_entries log1 = l_entries (s_log st)" "l_end log1 = l_end (s_log st)"
    by (subst w(4), simp)+
  obtain serr es stk where so: "log_sort (l_entries (s_log st)) [] b (b + of_nat ?n) = (serr, es, stk)"
    by (cases "log_sort (l_entries (s_log st)) [] b (b + of_nat ?n)")
  note sw = log_sort_window [OF n a(6) so]
  let ?st = "st\<lparr>s_log := log1\<lparr>l_entries := es\<rparr>, s_stack := stk\<rparr>"
  have ws: "run es b ?n = window ((s_log st)\<lparr>l_entries := es\<rparr>) b ?n" by (simp add: window_run)
  have ms: "mset (run es b ?n) = mset (window (s_log st) b ?n)" using sw ws by simp
  have pg: "le_page ` set (run es b ?n) = ?P" using mset_eq_setD [OF ms] by (simp add: window_pages_def)
  have m: "runs K ops ?P (Idle, s_dev st) (merge_list K ops (run es b ?n) (s_rs st) (s_dev st) 0)
      (\<lambda>c (err', les', k, rs', d'). c = (Idle, d') \<and> k = ?n \<and> length les' = ?n \<and>
         (flush_errors ops \<longrightarrow> (\<forall>le\<in>set les'. le_inval le)) \<and>
         (\<exists>ps. rs' = foldl (rl_del ?h) (s_rs st) ps \<and> set ps = ?P))"
    using merge_list_runs [OF a(3), of "run es b ?n" ?P ops "s_dev st" 0] a(7,8)
      tracked_mset [OF ms] mset_eq_setD [OF ms] pg by simp
  have fl: "log_flush K ops st nr =
      and_then (merge_list K ops (run es b ?n) (s_rs st) (s_dev st) 0)
        (\<lambda>(err1, les, r, rs, d). Inr (err1, flushed ?st b les r rs d))"
    using merge_flush_list [OF n(2), of K ?st ops b 0] a(2-5) so
    unfolding refines_at_def by (simp add: log_flush_def l1)
  have o: "put es b les j = l_entries (s_log st) j"
    if "j \<notin> (\<lambda>i. L_INDEX (b + of_nat i)) ` {0..<?n}" "length les = ?n" for j les
    using that sw by (subst put_outside) auto
  have li: "log_inv (s_log (flushed ?st b les ?n rs d))" for les rs d
    using log_retire_inv [OF a(1,4,5), of "put es b les"] n(1) by (simp add: flushed_def)
  have wl: "window (s_log (flushed ?st b les ?n rs d)) b ?n = les" if "length les = ?n" for les rs d
    using run_put [of les es b] that n(2) by (simp add: window_run flushed_def)
  show ?thesis
    unfolding fl
  proof (rule runs_bind [OF m], clarify)
    fix err les ps d
    assume les: "length les = ?n" "flush_errors ops \<longrightarrow> (\<forall>le\<in>set les. le_inval le)" "set ps = ?P"
    show "runs K ops ?P (Idle, d) (Inr (err, flushed ?st b les ?n (foldl (rl_del ?h) (s_rs st) ps) d))
      (\<lambda>c (err, st'). c = (Idle, s_dev st') \<and> log_inv (s_log st') \<and>
         l_begin (s_log st') = e \<and> l_end (s_log st') = l_end (s_log st) \<and> l_trans (s_log st') = l_trans log1 \<and>
         (\<forall>j. j \<notin> (\<lambda>i. L_INDEX (b + of_nat i)) ` {0..<off b e} \<longrightarrow>
            l_entries (s_log st') j = l_entries (s_log st) j) \<and>
         (flush_errors ops \<longrightarrow> (\<forall>le\<in>set (window (s_log st') b (off b e)). le_inval le)) \<and>
         rl_inv (hash_32 K) (s_rs st') \<and>
         (\<forall>page. rl_look (hash_32 K) (s_rs st') page =
           (if page \<in> window_pages (s_log st) b e then None else rl_look (hash_32 K) (s_rs st) page)))"
      using n(1) rindex.inv_dels [OF a(3)] rindex.look_dels [OF a(3)] l1 les o [OF _ les(1)] li wl [OF les(1)]
      by (intro runs_return) (auto simp: flushed_def)
  qed
qed

text \<open>
  C1.  A flush only stops where the disk file system or the block layer stops it, and otherwise makes
  progress.  Take any installed operations and any kernel functions, and a state in which the log and
  the rlogs are consistent, the static stack of the sorter is empty, and the sealed transactions
  that the flush takes hold valid data entries of tracked pages whose sequence numbers do not cross
  the sign change of \<open>int\<close>.  If \<open>log_flush\<close> faults, then a run of the protocol, from the
  device state it started in and on pages of the window only, reaches a call that faults, returns
  an error or null handle, or finds a page under write-back after locking it.  If it returns, its calls
  were a complete run of the protocol, every entry it took is retired (\<open>l_begin\<close> is the end of
  the window), the log invariant holds, no slot outside the window has changed, and exactly the
  rlogs of the window's pages are gone.
\<close>

theorem log_flush_progress:
  assumes "flushable K st nr b e log1"
  shows "case log_flush K ops st nr of
      Inl f \<Rightarrow> dev_faults K ops (window_pages (s_log st) b e) (Idle, s_dev st) f
    | Inr (err, st') \<Rightarrow>
        dev_run K ops (window_pages (s_log st) b e) (Idle, s_dev st) (Idle, s_dev st') \<and>
        log_inv (s_log st') \<and> l_begin (s_log st') = e \<and> l_end (s_log st') = l_end (s_log st) \<and>
        l_trans (s_log st') = l_trans log1 \<and>
        (\<forall>j. j \<notin> (\<lambda>i. L_INDEX (b + of_nat i)) ` {0..<off b e} \<longrightarrow>
           l_entries (s_log st') j = l_entries (s_log st) j) \<and>
        rl_inv (hash_32 K) (s_rs st') \<and>
        (\<forall>page. rl_look (hash_32 K) (s_rs st') page =
          (if page \<in> window_pages (s_log st) b e then None else rl_look (hash_32 K) (s_rs st) page))"
  using log_flush_runs [OF assms, of ops] by (auto simp: runs_def split: sum.splits)

lemma merge_flush_err:
  assumes "\<And>handle d err d1. do_trans_end ops handle d = Inr (err, d1) \<Longrightarrow> err = 0"
  shows "merge_flush K ops end st b 0 = Inr (err, st') \<Longrightarrow> err = 0"
proof (induction "unat (end - b)" arbitrary: b st rule: less_induct)
  case less
  have g: "err1 = 0 \<and> unat (end - e) < unat (end - b)"
    if "seq_less b end" "flush_group K ops st b end = Inr (err1, e, st1)" for err1 e st1
    using that flush_group_le [OF that(2)] seq_less_Suc [OF that(1)] assms
    by (auto simp: flush_group_def Let_def and_then_Inr split: option.splits if_splits prod.splits)
  from less(2) show ?case
    unfolding merge_flush.simps [of K ops "end" st b 0]
    using less(1) g seq_less_Suc [of b "end"]
    by (auto simp: Let_def and_then_Inr split: if_splits)
qed

text \<open>
  C40.  An error of \<open>entry_flush\<close> does not reach the caller: \<open>err\<close> is overwritten by the result of
  ending the transaction.  Take a consistent state whose sealed transactions hold valid data entries of
  tracked pages (\<^const>\<open>flushable\<close>), and operations whose \<open>entry_flush\<close> never succeeds and whose \<open>trans_end\<close> never reports an error.  Unless a call of the protocol stops the thread,
  the flush returns 0 and retires its whole window, although not one page was written: every
  entry of the window has been invalidated and its rlog is gone.
\<close>

theorem entry_flush_error_lost:
  assumes "flushable K st nr b e log1" and "flush_errors ops"
    and "\<forall>handle d err d1. do_trans_end ops handle d = Inr (err, d1) \<longrightarrow> err = 0"
  shows "case log_flush K ops st nr of
      Inl f \<Rightarrow> dev_faults K ops (window_pages (s_log st) b e) (Idle, s_dev st) f
    | Inr (err, st') \<Rightarrow> err = 0 \<and> l_begin (s_log st') = e \<and>
        (\<forall>le\<in>set (window (s_log st') b (off b e)). le_inval le) \<and>
        (\<forall>page\<in>window_pages (s_log st) b e. rl_look (hash_32 K) (s_rs st') page = None)"
proof (cases "log_flush K ops st nr")
  case (Inl f)
  then show ?thesis using log_flush_runs [OF assms(1), of ops] by (simp add: runs_def)
next
  case (Inr r)
  obtain err st' where r: "r = (err, st')" by fastforce
  have "log_take (s_log st) nr = Inr ((b, e), log1)" "b \<noteq> e" using assms(1) by (simp_all add: flushable_def)
  then have "err = 0"
    using Inr r merge_flush_err [of ops] assms(3) by (auto simp: log_flush_def split: prod.splits)
  with Inr r log_flush_runs [OF assms(1), of ops] assms(2) show ?thesis by (auto simp: runs_def)
qed

lemma merge_list_meta:
  "\<forall>le\<in>set les. le_valid le \<and> le_meta le \<Longrightarrow> merge_list K ops les rs d err = Inr (err, les, 0, rs, d)"
  by (induction les) simp_all

text \<open>
  Metadata entries alone are never retired: a flush whose window holds only metadata entries
  reports success but leaves \<open>l_begin\<close>, the rlogs and the device as they are.  So the log does not
  get shorter, and an append that failed for lack of room before the flush fails after it.
\<close>

theorem meta_never_retired:
  assumes "log_inv (s_log st)" and "s_stack st = []" and "rl_inv (hash_32 K) (s_rs st)"
    and "log_take (s_log st) nr = Inr ((b, e), log1)" and "b \<noteq> e" and "span_ok b (off b e)"
    and "\<forall>le\<in>set (window (s_log st) b (off b e)). le_valid le \<and> le_meta le"
  shows "\<exists>st'. log_flush K ops st nr = Inr (0, st') \<and> s_rs st' = s_rs st \<and> s_dev st' = s_dev st \<and>
    l_begin (s_log st') = l_begin (s_log st) \<and> l_end (s_log st') = l_end (s_log st) \<and>
    fst (log_append (s_log st') le) = fst (log_append (s_log st) le)"
proof -
  let ?n = "off b e"
  note w = log_take_window [OF assms(1,4,5)]
  have n: "0 < ?n" "?n \<le> 32768" using w(1,2) assms(5) off_inject [of b e b] by auto
  have l1: "l_entries log1 = l_entries (s_log st)" "l_end log1 = l_end (s_log st)"
      "l_begin log1 = l_begin (s_log st)" by (subst w(4), simp)+
  obtain serr es stk where so: "log_sort (l_entries (s_log st)) [] b (b + of_nat ?n) = (serr, es, stk)"
    by (cases "log_sort (l_entries (s_log st)) [] b (b + of_nat ?n)")
  let ?st = "st\<lparr>s_log := log1\<lparr>l_entries := es\<rparr>, s_stack := stk\<rparr>"
  have "mset (run es b ?n) = mset (window (s_log st) b ?n)"
    using log_sort_window [OF n assms(6) so] by (simp add: window_run)
  from mset_eq_setD [OF this] assms(7)
  have "merge_flush K ops e ?st b 0 = Inr (0, flushed ?st b (run es b ?n) 0 (s_rs st) (s_dev st))"
    using merge_flush_list [OF n(2), of K ?st ops b 0] assms(3)
      merge_list_meta [of "run es b ?n" K ops "s_rs st" "s_dev st" 0] unfolding refines_at_def by simp
  then have "log_flush K ops st nr = Inr (0, flushed ?st b (run es b ?n) 0 (s_rs st) (s_dev st))"
    using assms(2,4,5) so by (simp add: log_flush_def l1)
  then show ?thesis using l1
    by (intro exI [of _ "flushed ?st b (run es b ?n) 0 (s_rs st) (s_dev st)"])
      (simp add: flushed_def log_append_def)
qed

section \<open>A concrete flush\<close>

text \<open>A log with one sealed data entry on a tracked page, and operations that always succeed.\<close>

definition ex_kernel :: "unit kernel" where
  "ex_kernel = \<lparr>hash_32 = ex_hash, mapping_host = (\<lambda>m. m), IS_ERR = (\<lambda>p. 18446744073709547520 < p),
     handle_tid = (\<lambda>_ _. 1), lock_page = (\<lambda>_ d. d), PageWriteback = (\<lambda>_ _. False),
     wait_on_page_writeback = (\<lambda>_ d. d)\<rparr>"

definition ex_fops :: "int \<Rightarrow> unit flush_operations" where
  "ex_fops err = \<lparr>trans_begin = Some (\<lambda>_ _ d. Inr (16, d)), entry_flush = Some (\<lambda>_ _ d. Inr (err, d)),
     trans_end = Some (\<lambda>_ d. Inr (0, d)), wait_sync = Some (\<lambda>_ _ d. Inr (0, d))\<rparr>"

definition ex_page :: page where
  "ex_page = \<lparr>p_mapping = 64, p_index = 1, p_flags = 0, p_count = 1, p_data = []\<rparr>"

definition ex_st :: "log_entry \<Rightarrow> unit fstate" where
  "ex_st le = \<lparr>s_log = ex_log\<lparr>l_entries := (\<lambda>_. le)\<rparr>, s_stack = [],
     s_rs = rl_add ex_hash (ex_rs\<lparr>r_pages := [4096 \<mapsto> ex_page]\<rparr>) 512 4096 0, s_dev = ()\<rparr>"

definition ex_data :: log_entry where
  "ex_data = \<lparr>f_ino = 7, f_pgi = 257, f_flags = 100, f_ref = 4096\<rparr>"

lemma ex_never_fails: "\<not> dev_fails ex_kernel (ex_fops err) P c f"
  by (auto elim!: dev_failsE simp: ex_kernel_def ex_fops_def do_trans_begin_def do_trans_end_def
      do_wait_sync_def split: if_splits)

lemma ex_never_faults: "\<not> dev_faults ex_kernel (ex_fops err) P c f"
  using dev_safe [of "\<lambda>_. True"] ex_never_fails by blast

lemma ex_st_inv: "log_inv (s_log (ex_st le))"
  using ex_log_inv by (simp add: ex_st_def)

lemma ex_st_log: "s_stack (ex_st le) = []"
    "log_take (s_log (ex_st le)) 5 = Inr ((0, 1), s_log (ex_st le)\<lparr>l_trans := [new_tran]\<rparr>)"
    "window (s_log (ex_st le)) 0 (off 0 1) = [le]"
  by (simp_all add: ex_st_def ex_log_def log_take_def eval_nat_numeral is_tran_open_def new_tran_def
      off_def window_def L_ENT_def)

lemma ex_pages_inv: "rl_inv ex_hash (ex_rs\<lparr>r_pages := [4096 \<mapsto> ex_page]\<rparr>)"
  using ex_rs_inv by (simp add: rl_inv_def rl_key_def ex_rs_def)

lemma ex_pages_fresh: "rl_look ex_hash (ex_rs\<lparr>r_pages := [4096 \<mapsto> ex_page]\<rparr>) 4096 = None"
    "rl_room (ex_rs\<lparr>r_pages := [4096 \<mapsto> ex_page]\<rparr>) 512 4096"
  by (simp_all add: rl_look_def find_rlog_def sht_find_entry_def ex_rs_def SHASHTABLE_UNINIT_def rl_room_def)

lemma ex_st_rs: "rl_inv (hash_32 ex_kernel) (s_rs (ex_st le))"
    "tracked (hash_32 ex_kernel) (s_rs (ex_st le)) [ex_data]"
proof -
  show "rl_inv (hash_32 ex_kernel) (s_rs (ex_st le))"
    using rl_add_inv [OF ex_pages_inv ex_pages_fresh] by (simp add: ex_st_def ex_kernel_def)
  have "rl_look ex_hash (s_rs (ex_st le)) 4096 = Some 0"
    using rl_look_add [OF ex_pages_inv ex_pages_fresh, of 0 4096] by (simp add: ex_st_def)
  moreover have "\<exists>p. r_pages (s_rs (ex_st le)) 4096 = Some p \<and> p_mapping p \<noteq> NULL"
    by (simp add: ex_st_def rl_add_def assoc_rlog_def get_page_def ex_page_def)
  ultimately show "tracked (hash_32 ex_kernel) (s_rs (ex_st le)) [ex_data]"
    by (simp add: tracked_def ex_kernel_def ex_data_def le_page_def)
qed

lemma ex_window: "\<forall>le\<in>set (window (s_log (ex_st ex_data)) 0 (off 0 1)). le_valid le \<and> \<not> le_meta le"
    "tracked (hash_32 ex_kernel) (s_rs (ex_st ex_data)) (window (s_log (ex_st ex_data)) 0 (off 0 1))"
    "\<forall>le\<in>set (window (s_log (ex_st (le_set_meta LE_INITIALIZER))) 0 (off 0 1)). le_valid le \<and> le_meta le"
    "span_ok 0 (off 0 1)"
  using ex_st_rs(2)
  by (simp_all only: ex_st_log) (simp_all add: ex_data_def le_inval_def le_ino_def LE_INVAL_INO_def
      le_meta_def LE_META_SETTER_exp le_set_meta_def LE_INITIALIZER_def span_ok_def off_def)

lemma ex_end: "\<forall>handle d err1 d1. do_trans_end (ex_fops err) handle d = Inr (err1, d1) \<longrightarrow> err1 = 0"
  by (simp add: do_trans_end_def ex_fops_def split: if_splits)

lemma ex_flushable: "flushable ex_kernel (ex_st ex_data) 5 0 1 (s_log (ex_st ex_data)\<lparr>l_trans := [new_tran]\<rparr>)"
  unfolding flushable_def
  by (intro conjI ex_st_inv ex_st_log(1,2) ex_st_rs(1) ex_window zero_neq_one)

lemma ex_flush_errors: "err \<noteq> 0 \<Longrightarrow> flush_errors (ex_fops err)"
  by (simp add: flush_errors_def ex_fops_def)

theorem entry_flush_error_lost_witness:
  "\<exists>st'. log_flush ex_kernel (ex_fops (- EIO)) (ex_st ex_data) 5 = Inr (0, st') \<and> l_begin (s_log st') = 1 \<and>
     (\<forall>le\<in>set (window (s_log st') 0 (off 0 1)). le_inval le)"
  using entry_flush_error_lost [OF ex_flushable ex_flush_errors ex_end, of "- EIO"] ex_never_faults
  by (auto split: sum.splits)

theorem meta_never_retired_witness:
  "\<exists>st'. log_flush ex_kernel (ex_fops 0) (ex_st (le_set_meta LE_INITIALIZER)) 5 = Inr (0, st') \<and>
     l_begin (s_log st') = l_begin (s_log (ex_st (le_set_meta LE_INITIALIZER)))"
  using meta_never_retired [OF ex_st_inv ex_st_log(1) ex_st_rs(1) ex_st_log(2) zero_neq_one ex_window(4,3)] by blast

end
