(* ===== verification/Hooks_Inv.thy ===== *)
theory Hooks_Inv
  imports Hooks Flush_Correct
begin

text \<open>
  The invariant of the hooks and its preservation by their steps.  It ties the log and the reverse map together: every live data
  entry describes its page (same file, same page index) and is the entry its page is known by, and
  every page known to the reverse map is known by a live data entry, unless the write that should have
  logged it did not finish (\<open>L_NULL\<close>).  The code installs one log, number 0.  The function
  \<open>g\<close> gives the inode number of a mapping.
\<close>

section \<open>The invariant\<close>

definition live :: "adafs_log \<Rightarrow> u32 \<Rightarrow> bool" where
  "live log q \<longleftrightarrow> off (l_begin log) q < off (l_begin log) (l_end log)"

definition is_data :: "log_entry \<Rightarrow> bool" where
  "is_data le \<longleftrightarrow> le_valid le \<and> \<not> le_meta le"

definition describes :: "(ptr \<Rightarrow> u64) \<Rightarrow> rstate \<Rightarrow> log_entry \<Rightarrow> bool" where
  "describes g rs le \<longleftrightarrow>
     (\<exists>p. r_pages rs (le_page le) = Some p \<and> p_mapping p \<noteq> NULL \<and>
        le_ino le = g (p_mapping p) \<and> le_pgi le = p_index p)"

definition linked :: "hash_fun \<Rightarrow> (ptr \<Rightarrow> u64) \<Rightarrow> rstate \<Rightarrow> adafs_log \<Rightarrow> bool" where
  "linked h g rs log \<longleftrightarrow>
     (\<forall>q. live log q \<and> is_data (L_ENT log q) \<longrightarrow>
        rl_look h rs (le_page (L_ENT log q)) = Some q \<and> describes g rs (L_ENT log q))"

definition backed :: "hash_fun \<Rightarrow> ptr set \<Rightarrow> rstate \<Rightarrow> adafs_log \<Rightarrow> bool" where
  "backed h X rs log \<longleftrightarrow>
     (\<forall>page q. rl_look h rs page = Some q \<and> q \<noteq> L_NULL \<and> page \<notin> X \<longrightarrow>
        live log q \<and> is_data (L_ENT log q) \<and> le_page (L_ENT log q) = page)"

definition lr_inv :: "hash_fun \<Rightarrow> (ptr \<Rightarrow> u64) \<Rightarrow> ptr set \<Rightarrow> rstate \<Rightarrow> adafs_log \<Rightarrow> bool" where
  "lr_inv h g X rs log \<longleftrightarrow> log_inv log \<and> rl_inv h rs \<and> linked h g rs log \<and> backed h X rs log"

definition sys_inv :: "'d env \<Rightarrow> (ptr \<Rightarrow> u64) \<Rightarrow> 'd system \<Rightarrow> bool" where
  "sys_inv E g S \<longleftrightarrow>
     (\<exists>log. adafs_logs S = [0 \<mapsto> log] \<and> lr_inv (hash_of E) g {} (page_rlog S) log)"

section \<open>Lemmas: entries\<close>

lemma entry_fields [simp]:
  "f_ino (le_set_ref le r) = f_ino le" "f_pgi (le_set_ref le r) = f_pgi le"
  "f_flags (le_set_ref le r) = f_flags le" "f_ref (le_set_ref le r) = r"
  "f_ino (le_set_cow le) = f_ino le" "f_pgi (le_set_cow le) = f_pgi le" "f_ref (le_set_cow le) = f_ref le"
  "f_ino (le_set_len le l) = f_ino le" "f_pgi (le_set_len le l) = f_pgi le"
  "f_ref (le_set_len le l) = f_ref le"
  "f_ino (le_init_pgi le i) = f_ino le" "f_flags (le_init_pgi le i) = f_flags le"
  "f_ref (le_init_pgi le i) = f_ref le"
  "f_ino (le_init_len le l) = f_ino le" "f_pgi (le_init_len le l) = f_pgi le"
  "f_ref (le_init_len le l) = f_ref le" "f_flags (le_init_len le l) = l"
  "f_ino (le_set_ver le v) = f_ino le" "f_flags (le_set_ver le v) = f_flags le"
  "f_ref (le_set_ver le v) = f_ref le" "f_ino (le_set_ino le i) = i"
  by (simp_all add: le_set_ref_def le_set_cow_def le_set_len_def le_init_pgi_def le_init_len_def
      le_set_ver_def le_set_ino_def)

lemma bit_le_set_cow: "bit (f_flags (le_set_cow le)) n \<longleftrightarrow> bit (f_flags le) n \<or> n = 17"
proof -
  have "f_flags (le_set_cow le) = f_flags le OR 2 ^ 17" by (simp add: le_set_cow_def LE_COW_SETTER_exp)
  then show ?thesis by (simp only: bit_or_iff bit_exp_iff) auto
qed

lemma le_set_cow_meta [simp]: "le_meta (le_set_cow le) = le_meta le"
  by (simp add: le_meta_bits bit_le_set_cow)

lemma le_set_cow_len [simp]: "le_len (le_set_cow le) = le_len le"
  unfolding le_len_bits by (rule bit_eqI) (auto simp: bit_take_bit_iff bit_le_set_cow)

lemma le_set_ref_views [simp]:
  "le_ino (le_set_ref le r) = le_ino le" "le_inval (le_set_ref le r) = le_inval le"
  "le_pgi (le_set_ref le r) = le_pgi le" "le_ver (le_set_ref le r) = le_ver le"
  "le_len (le_set_ref le r) = le_len le" "le_meta (le_set_ref le r) = le_meta le"
  "le_page (le_set_ref le r) = r"
  by (simp_all add: le_ino_def le_valid_def le_inval_def entry_simps le_page_def)

lemma le_set_cow_views [simp]:
  "le_ino (le_set_cow le) = le_ino le" "le_inval (le_set_cow le) = le_inval le"
  "le_pgi (le_set_cow le) = le_pgi le" "le_ver (le_set_cow le) = le_ver le"
  "le_page (le_set_cow le) = le_page le"
  by (simp_all add: le_ino_def le_valid_def le_inval_def entry_simps le_page_def)

lemma le_set_len_views [simp]:
  "le_ino (le_set_len le l) = le_ino le" "le_inval (le_set_len le l) = le_inval le"
  "le_pgi (le_set_len le l) = le_pgi le" "le_ver (le_set_len le l) = le_ver le"
  "le_page (le_set_len le l) = le_page le"
  by (simp_all add: le_ino_def le_valid_def le_inval_def entry_simps le_page_def)

lemma le_set_inval_views [simp]: "\<not> is_data (le_set_inval le)"
  by (simp add: is_data_def le_set_inval_def le_set_ino_def le_valid_def le_inval_def le_ino_def)

lemma ucast_ver: "ucast (ucast (le_ver le) + 1 :: u32) = le_ver le + 1"
proof -
  have "unat (le_ver le) < 2 ^ 8"
    unfolding le_ver_bits unsigned_take_bit_eq by (rule take_bit_nat_less_exp)
  then have u: "unat (ucast (le_ver le) :: u32) = unat (le_ver le)" "unat (le_ver le) < 256"
    by (simp_all add: unsigned_ucast_eq take_bit_nat_eq_self)
  have s: "unat (ucast (le_ver le) + 1 :: u32) = unat (le_ver le) + 1" using u by (simp add: unat_word_ariths)
  show ?thesis
    by (rule unsigned_word_eqI [where ?'a = nat], unfold unsigned_ucast_eq s)
      (use u(2) in \<open>simp add: unat_word_ariths take_bit_nat_eq_self\<close>)
qed

text \<open>The entry that a write makes.\<close>

lemma page_entry_views:
  assumes "p_index p < 2 ^ 56" and "len < 2 ^ 16" and "i_ino host \<noteq> LE_INVAL_INO"
    and "rl_enti r \<noteq> L_NULL \<longrightarrow> le_ver (L_ENT log (rl_enti r)) < 255"
  shows "le_ino (page_entry host r p log len) = i_ino host"
    and "le_pgi (page_entry host r p log len) = p_index p"
    and "le_len (page_entry host r p log len) = len"
    and "le_page (page_entry host r p log len) = rl_page r"
    and "is_data (page_entry host r p log len)"
    and "le_ver (page_entry host r p log len) =
      (if rl_enti r = L_NULL then 1 else le_ver (L_ENT log (rl_enti r)) + 1)"
proof -
  let ?le = "le_set_ref (le_init_len (le_init_pgi
    (le_set_ino LE_INITIALIZER (i_ino host)) (p_index p)) len) (rl_page r)"
  let ?v = "le_ver (L_ENT log (rl_enti r)) + 1"
  have e: "page_entry host r p log len = (if rl_enti r \<noteq> L_NULL then le_set_ver ?le ?v else ?le)"
    by (simp add: page_entry_def Let_def ucast_ver)
  have t: "take_bit 16 len = len" using assms(2) by (intro take_bit_id_u64) simp_all
  then have nb: "\<not> bit len 16" by (metis bit_take_bit_iff less_irrefl)
  have pg: "le_pgi ?le = p_index p" "le_ver ?le = 1"
    using le_init_pgi_pgi [OF assms(1)] le_init_pgi_ver by (simp_all add: le_pgi_def le_ver_def)
  have v: "?v < 2 ^ 8" if "rl_enti r \<noteq> L_NULL"
  proof -
    have "unat (le_ver (L_ENT log (rl_enti r))) < 255"
      using assms(4) that by (simp add: word_less_nat_alt)
    then show ?thesis by (simp add: word_less_nat_alt unat_word_ariths)
  qed
  show "le_ino (page_entry host r p log len) = i_ino host" by (simp add: e le_ino_def)
  show "le_len (page_entry host r p log len) = len" by (simp add: e le_len_bits t)
  show "le_page (page_entry host r p log len) = rl_page r" by (simp add: e le_page_def)
  show "is_data (page_entry host r p log len)"
    using assms(3) nb by (simp add: e is_data_def le_valid_def le_inval_def le_ino_def le_meta_bits)
  show "le_pgi (page_entry host r p log len) = p_index p"
    using v pg(1) by (simp add: e le_set_ver_pgi del: le_set_ref_views)
  show "le_ver (page_entry host r p log len) =
      (if rl_enti r = L_NULL then 1 else le_ver (L_ENT log (rl_enti r)) + 1)"
    using v pg(2) by (simp add: e le_set_ver_ver del: le_set_ref_views)
qed

section \<open>Lemmas: positions\<close>

lemma sint_diff_off:
  assumes "off b x \<le> 32768" and "off b y \<le> 32768"
  shows "sint (x - y) = int (off b x) - int (off b y)"
proof -
  have "x - y = (b + of_nat (off b x)) - (b + of_nat (off b y))" by (simp only: add_off)
  also have "\<dots> = word_of_int (int (off b x) - int (off b y))"
    by (simp only: add_diff_cancel_left of_int_diff of_int_of_nat_eq)
  finally have "x - y = word_of_int (int (off b x) - int (off b y))" .
  then have "sint (x - y) = wrap_int (int (off b x) - int (off b y))" by (simp add: wrap_int_def)
  with assms show ?thesis by (simp add: wrap_int_id)
qed

lemma seq_off:
  assumes "off b x \<le> 32768" and "off b y \<le> 32768"
  shows "seq_less x y \<longleftrightarrow> off b x < off b y" and "seq_ng x y \<longleftrightarrow> off b x \<le> off b y"
  using assms by (auto simp: seq_less_def seq_ng_def sint_diff_off [of b])

lemma live_off: "log_inv log \<Longrightarrow> live log q \<Longrightarrow> off (l_begin log) q < 32768"
  using log_inv_pend(3) by (force simp: live_def)

lemma live_upd [simp]:
  "live (L_ENT_upd log i le) = live log" "live (log\<lparr>l_head := i\<rparr>) = live log"
  "live (on_evict_page log z) = live log"
  by (simp_all add: live_def fun_eq_iff)

lemma L_ENT_live:
  assumes "log_inv log" and "live log q" and "live log r"
  shows "L_ENT (L_ENT_upd log q le) r = (if r = q then le else L_ENT log r)"
  using L_ENT_upd_other [OF live_off [OF assms(1,2)] live_off [OF assms(1,3)], of log "l_begin log" le]
  by (simp add: L_ENT_upd_same)

lemma L_ENT_evict [simp]: "L_ENT (on_evict_page log z) i = L_ENT log i"
  by (simp add: L_ENT_def)

lemma live_append:
  assumes "log_inv log" and "off (l_begin log) (l_end log) < 32768"
    and "log' = (L_ENT_upd log (l_end log) le)\<lparr>l_end := l_end log + 1\<rparr>"
  shows "live log' q \<longleftrightarrow> live log q \<or> q = l_end log"
    and "live log' q \<Longrightarrow> L_ENT log' q = (if q = l_end log then le else L_ENT log q)"
proof -
  have s: "off (l_begin log) (l_end log + 1) = Suc (off (l_begin log) (l_end log))"
    using assms(2) by (simp add: off_Suc)
  show l: "live log' q \<longleftrightarrow> live log q \<or> q = l_end log"
    using off_inject [of "l_begin log" q "l_end log"]
    by (auto simp: live_def assms(3) s less_Suc_eq)
  assume "live log' q"
  then have "off (l_begin log) q < 32768" using assms(2) l by (auto simp: live_def)
  then show "L_ENT log' q = (if q = l_end log then le else L_ENT log q)"
    using L_ENT_upd_other [OF assms(2), of "off (l_begin log) q" log "l_begin log" le]
    by (simp add: assms(3) L_ENT_upd_same)
qed

section \<open>Lemmas: the invariant and the steps of the hooks\<close>

lemma lr_invD:
  assumes "lr_inv h g X rs log"
  shows "log_inv log" "rl_inv h rs"
    and "live log q \<Longrightarrow> is_data (L_ENT log q) \<Longrightarrow> rl_look h rs (le_page (L_ENT log q)) = Some q"
    and "live log q \<Longrightarrow> is_data (L_ENT log q) \<Longrightarrow> describes g rs (L_ENT log q)"
    and "rl_look h rs page = Some q \<Longrightarrow> q \<noteq> L_NULL \<Longrightarrow> page \<notin> X \<Longrightarrow>
      live log q \<and> is_data (L_ENT log q) \<and> le_page (L_ENT log q) = page"
  using assms by (simp_all add: lr_inv_def linked_def backed_def)

lemma lr_inv_same:
  assumes "lr_inv h g X rs log" and "log_inv log'"
    and "l_entries log' = l_entries log" "l_begin log' = l_begin log" "l_end log' = l_end log"
  shows "lr_inv h g X rs log'"
proof -
  have e: "live log' = live log" "L_ENT log' = L_ENT log"
    using assms(3-) by (simp_all add: live_def L_ENT_def fun_eq_iff)
  from assms(1,2) show ?thesis unfolding lr_inv_def linked_def backed_def e by blast
qed

lemma lr_inv_rewrite:
  assumes i: "lr_inv h g X rs log" and q: "live log q"
    and s: "is_data le \<longleftrightarrow> is_data (L_ENT log q)" "le_page le = le_page (L_ENT log q)"
      "le_ino le = le_ino (L_ENT log q)" "le_pgi le = le_pgi (L_ENT log q)"
  shows "lr_inv h g X rs (L_ENT_upd log q le)"
proof -
  note d = lr_invD [OF i]
  have e: "live log r \<Longrightarrow> is_data (L_ENT (L_ENT_upd log q le) r) = is_data (L_ENT log r) \<and>
      le_page (L_ENT (L_ENT_upd log q le) r) = le_page (L_ENT log r) \<and>
      describes g rs (L_ENT (L_ENT_upd log q le) r) = describes g rs (L_ENT log r)" for r
    using L_ENT_live [OF d(1) q] s by (simp add: describes_def)
  have "linked h g rs (L_ENT_upd log q le)"
    unfolding linked_def live_upd using d(3,4) by (simp add: e cong: conj_cong)
  moreover have "backed h X rs (L_ENT_upd log q le)"
    unfolding backed_def live_upd
  proof (intro allI impI)
    fix page r
    assume "rl_look h rs page = Some r \<and> r \<noteq> L_NULL \<and> page \<notin> X"
    then have "live log r \<and> is_data (L_ENT log r) \<and> le_page (L_ENT log r) = page"
      using d(5) by blast
    then show "live log r \<and> is_data (L_ENT (L_ENT_upd log q le) r) \<and>
        le_page (L_ENT (L_ENT_upd log q le) r) = page"
      by (simp add: e)
  qed
  ultimately show ?thesis using d(1,2) by (simp add: lr_inv_def log_entry_inv)
qed

lemma lr_inv_evict:
  assumes i: "lr_inv h g {} rs log" and q: "live log q" "is_data (L_ENT log q)"
    and le: "\<not> is_data le"
  shows "lr_inv h g {} (rl_del h rs (le_page (L_ENT log q))) (L_ENT_upd log q le)"
proof -
  note d = lr_invD [OF i]
  let ?p = "le_page (L_ENT log q)"
  have neq: "le_page (L_ENT log r) \<noteq> ?p" if "live log r" "is_data (L_ENT log r)" "r \<noteq> q" for r
    using d(3) [OF that(1,2)] d(3) [OF q] that(3) by auto
  have "linked h g (rl_del h rs ?p) (L_ENT_upd log q le)"
    unfolding linked_def live_upd
  proof (intro allI impI)
    fix r
    assume r: "live log r \<and> is_data (L_ENT (L_ENT_upd log q le) r)"
    then have n: "r \<noteq> q" and e: "L_ENT (L_ENT_upd log q le) r = L_ENT log r"
      using le L_ENT_live [OF d(1) q(1), of r le] by (auto split: if_splits)
    with r d(3,4) [of r] neq [of r] show "rl_look h (rl_del h rs ?p) (le_page (L_ENT (L_ENT_upd log q le) r)) = Some r \<and>
        describes g (rl_del h rs ?p) (L_ENT (L_ENT_upd log q le) r)"
      by (simp add: rl_look_del [OF d(2)] describes_def r_pages_del [OF d(2)])
  qed
  moreover have "backed h {} (rl_del h rs ?p) (L_ENT_upd log q le)"
    unfolding backed_def live_upd
  proof (intro allI impI)
    fix page r
    assume r: "rl_look h (rl_del h rs ?p) page = Some r \<and> r \<noteq> L_NULL \<and> page \<notin> {}"
    then have p: "page \<noteq> ?p" "rl_look h rs page = Some r"
      by (auto simp: rl_look_del [OF d(2)] split: if_splits)
    with r have l: "live log r \<and> is_data (L_ENT log r) \<and> le_page (L_ENT log r) = page"
      using d(5) [OF p(2)] by simp
    with p(1) have "r \<noteq> q" by auto
    with l show "live log r \<and> is_data (L_ENT (L_ENT_upd log q le) r) \<and>
        le_page (L_ENT (L_ENT_upd log q le) r) = page"
      by (simp add: L_ENT_live [OF d(1) q(1)])
  qed
  ultimately show ?thesis
    using d(1,2) by (simp add: lr_inv_def log_entry_inv rl_del_inv)
qed

lemma rl_look_congI:
  assumes "r_rlogs rs' = r_rlogs rs" and "r_table rs' = r_table rs"
  shows "rl_look h rs' = rl_look h rs"
  unfolding rl_look_def find_rlog_def rl_key_def assms ..

lemma describes_mono:
  assumes "describes g rs le"
    and "\<And>p. r_pages rs (le_page le) = Some p \<Longrightarrow>
      \<exists>p'. r_pages rs' (le_page le) = Some p' \<and> p_mapping p' = p_mapping p \<and> p_index p' = p_index p"
  shows "describes g rs' le"
  using assms unfolding describes_def by fastforce

lemma rl_look_page:
  assumes "rl_inv h rs" and "rl_look h rs page = Some q"
  shows "\<exists>p. r_pages rs page = Some p \<and> 0 < p_count p"
proof -
  obtain rl where "r_rlogs rs rl = Some \<lparr>rl_page = page, rl_enti = q\<rparr>"
    using assms rl_look_iff by blast
  with assms(1) show ?thesis unfolding rl_inv_def by force
qed

text \<open>A page without an rlog gets one that names no entry yet.\<close>

lemma lr_inv_assoc:
  assumes i: "lr_inv h g {} rs log" and n: "rl_look h rs page = None" "r_rlogs rs rl = None" "rl \<noteq> NULL"
    and p: "r_pages rs page = Some p"
  obtains rs' where "assoc_rlog h rs rl page L_NULL = Inr rs'" "lr_inv h g {} rs' log"
    "r_rlogs rs' = (r_rlogs rs)(rl \<mapsto> \<lparr>rl_page = page, rl_enti = L_NULL\<rparr>)"
    "r_pages rs' = (r_pages rs)(page \<mapsto> p\<lparr>p_count := p_count p + 1\<rparr>)"
    "rl_look h rs' = (rl_look h rs)(page \<mapsto> L_NULL)"
proof -
  note d = lr_invD [OF i]
  from assoc_rlog_ok [OF d(2) n p, of L_NULL] obtain rs' where
    a: "assoc_rlog h rs rl page L_NULL = Inr rs'" "rl_inv h rs'"
      "r_rlogs rs' = (r_rlogs rs)(rl \<mapsto> \<lparr>rl_page = page, rl_enti = L_NULL\<rparr>)"
      "r_pages rs' = (r_pages rs)(page \<mapsto> p\<lparr>p_count := p_count p + 1\<rparr>)" by blast
  have "rl_room rs rl page" using n p by (simp add: rl_room_def)
  from rl_look_add [OF d(2) n(1) this, of L_NULL] a(1)
  have l: "rl_look h rs' = (rl_look h rs)(page \<mapsto> L_NULL)" by (auto simp: rl_add_def)
  have "linked h g rs' log"
    unfolding linked_def
  proof (intro allI impI)
    fix q
    assume q: "live log q \<and> is_data (L_ENT log q)"
    with d(3) n(1) have "le_page (L_ENT log q) \<noteq> page" by auto
    with q d(3,4) [of q] show "rl_look h rs' (le_page (L_ENT log q)) = Some q \<and> describes g rs' (L_ENT log q)"
      by (simp add: l describes_def a(4))
  qed
  moreover have "backed h {} rs' log"
    unfolding backed_def l using d(5) by (metis fun_upd_apply option.inject)
  ultimately have "lr_inv h g {} rs' log" using d(1) a(2) by (simp add: lr_inv_def)
  with a l show ?thesis by (intro that)
qed

text \<open>A copy of the page takes over its sealed entry.\<close>

lemma lr_inv_cow:
  assumes i: "lr_inv h g {} rs log" and e: "rl_look h rs page = Some e" "e \<noteq> L_NULL"
    and p: "r_pages rs page = Some p"
    and c: "r_pages rs cpage = None" and n: "r_rlogs rs nrl = None" "nrl \<noteq> NULL"
    and rs1: "rs1 = rs\<lparr>r_pages := (r_pages rs)(cpage \<mapsto> p\<lparr>p_count := 1\<rparr>)\<rparr>"
    and le: "le = le_set_cow (le_set_ref (L_ENT log e) cpage)"
  obtains rs' where "assoc_rlog h rs1 nrl cpage e = Inr rs'"
    "lr_inv h g {page} rs' (L_ENT_upd log e le)"
    "r_rlogs rs' = (r_rlogs rs)(nrl \<mapsto> \<lparr>rl_page = cpage, rl_enti = e\<rparr>)"
    "r_pages rs' = (r_pages rs)(cpage \<mapsto> p\<lparr>p_count := 2\<rparr>)"
    "rl_look h rs' = (rl_look h rs)(cpage \<mapsto> e)"
proof -
  note d = lr_invD [OF i]
  have ent: "live log e" "is_data (L_ENT log e)" "le_page (L_ENT log e) = page"
    using d(5) [OF e] by simp_all
  have cp: "cpage \<noteq> page" using p c by auto
  have lc: "rl_look h rs cpage = None"
    using rl_look_page [OF d(2), of cpage] c by (cases "rl_look h rs cpage") auto
  have l1: "rl_look h rs1 = rl_look h rs" by (rule rl_look_congI) (simp_all add: rs1)
  have k: "rl_key rs1 = rl_key rs" by (simp add: rl_key_def rs1 fun_eq_iff)
  have i1: "rl_inv h rs1"
    unfolding rl_inv_def
  proof (intro conjI allI impI)
    show "sht_inv h (rl_key rs1) (r_table rs1)" using d(2) unfolding k rl_inv_def by (simp add: rs1)
    fix rl r assume "r_rlogs rs1 rl = Some r"
    then have "\<exists>q. r_pages rs (rl_page r) = Some q \<and> 0 < p_count q"
      using d(2) by (simp add: rs1 rl_inv_def)
    then show "\<exists>q. r_pages rs1 (rl_page r) = Some q \<and> 0 < p_count q" using c by (auto simp: rs1)
  qed
  have n1: "r_rlogs rs1 nrl = None" "r_pages rs1 cpage = Some (p\<lparr>p_count := 1\<rparr>)" using n by (simp_all add: rs1)
  have lc1: "rl_look h rs1 cpage = None" using lc by (simp only: l1)
  from assoc_rlog_ok [OF i1 lc1 n1(1) n(2) n1(2), of e] obtain rs' where
    a: "assoc_rlog h rs1 nrl cpage e = Inr rs'" "rl_inv h rs'"
      "r_rlogs rs' = (r_rlogs rs1)(nrl \<mapsto> \<lparr>rl_page = cpage, rl_enti = e\<rparr>)"
      "r_pages rs' = (r_pages rs1)(cpage \<mapsto> p\<lparr>p_count := 1, p_count := 1 + 1\<rparr>)"
    by (auto simp del: One_nat_def)
  have a34: "r_rlogs rs' = (r_rlogs rs)(nrl \<mapsto> \<lparr>rl_page = cpage, rl_enti = e\<rparr>)"
      "r_pages rs' = (r_pages rs)(cpage \<mapsto> p\<lparr>p_count := 2\<rparr>)"
    unfolding a(3,4) by (simp_all add: rs1 numeral_2_eq_2)
  have "rl_room rs1 nrl cpage" using n1 n(2) by (simp add: rl_room_def)
  from rl_look_add [OF i1 lc1 this, of e] a(1)
  have l: "rl_look h rs' = (rl_look h rs)(cpage \<mapsto> e)" by (auto simp: rl_add_def l1)
  have L: "live log q \<Longrightarrow> L_ENT (L_ENT_upd log e le) q = (if q = e then le else L_ENT log q)" for q
    by (rule L_ENT_live [OF d(1) ent(1)])
  have led: "is_data le" "le_page le = cpage" using ent by (simp_all add: le is_data_def)
  have "describes g rs' le"
    using d(4) [OF ent(1,2)] ent(3) p by (simp add: describes_def led(2) a34(2)) (simp add: le)
  have "linked h g rs' (L_ENT_upd log e le)"
    unfolding linked_def live_upd
  proof (intro allI impI)
    fix q
    assume q: "live log q \<and> is_data (L_ENT (L_ENT_upd log e le) q)"
    show "rl_look h rs' (le_page (L_ENT (L_ENT_upd log e le) q)) = Some q \<and>
        describes g rs' (L_ENT (L_ENT_upd log e le) q)"
    proof (cases "q = e")
      case True
      with q led \<open>describes g rs' le\<close> show ?thesis by (simp add: L l)
    next
      case False
      with q L [of q] have q': "live log q" "is_data (L_ENT log q)" by simp_all
      from d(3) [OF this] lc have "le_page (L_ENT log q) \<noteq> cpage" by auto
      with False q' d(3,4) [OF q'] show ?thesis
        by (simp add: L l) (simp add: describes_def a34(2))
    qed
  qed
  moreover have "backed h {page} rs' (L_ENT_upd log e le)"
    unfolding backed_def live_upd
  proof (intro allI impI)
    fix pg q
    assume q: "rl_look h rs' pg = Some q \<and> q \<noteq> L_NULL \<and> pg \<notin> {page}"
    show "live log q \<and> is_data (L_ENT (L_ENT_upd log e le) q) \<and> le_page (L_ENT (L_ENT_upd log e le) q) = pg"
    proof (cases "pg = cpage")
      case True
      with q have "q = e" by (simp add: l)
      with True ent(1) led show ?thesis by (simp add: L)
    next
      case False
      with q have q': "live log q" "is_data (L_ENT log q)" "le_page (L_ENT log q) = pg"
        using d(5) [of pg q] by (simp_all add: l)
      with q ent(3) have "q \<noteq> e" by auto
      with q' show ?thesis by (simp add: L)
    qed
  qed
  ultimately have "lr_inv h g {page} rs' (L_ENT_upd log e le)"
    using d(1) a(2) by (simp add: lr_inv_def log_entry_inv)
  with a(1) a34 l show ?thesis by (intro that)
qed

lemma lr_inv_nondata:
  assumes i: "lr_inv h g X rs log" and q: "live log q" and n: "\<not> is_data (L_ENT log q)" "\<not> is_data le"
  shows "lr_inv h g X rs (L_ENT_upd log q le)"
proof -
  note d = lr_invD [OF i]
  note L = L_ENT_live [OF d(1) q, of _ le]
  have "linked h g rs (L_ENT_upd log q le)"
    unfolding linked_def live_upd
  proof (intro allI impI)
    fix r
    assume r: "live log r \<and> is_data (L_ENT (L_ENT_upd log q le) r)"
    with L [of r] n(2) have "L_ENT (L_ENT_upd log q le) r = L_ENT log r" by (auto split: if_splits)
    with r d(3,4) [of r] show "rl_look h rs (le_page (L_ENT (L_ENT_upd log q le) r)) = Some r \<and>
        describes g rs (L_ENT (L_ENT_upd log q le) r)" by simp
  qed
  moreover have "backed h X rs (L_ENT_upd log q le)"
    unfolding backed_def live_upd
  proof (intro allI impI)
    fix page r
    assume "rl_look h rs page = Some r \<and> r \<noteq> L_NULL \<and> page \<notin> X"
    then have "live log r \<and> is_data (L_ENT log r) \<and> le_page (L_ENT log r) = page" using d(5) by blast
    moreover from this n(1) have "r \<noteq> q" by auto
    ultimately show "live log r \<and> is_data (L_ENT (L_ENT_upd log q le) r) \<and>
        le_page (L_ENT (L_ENT_upd log q le) r) = page" using L [of r] by simp
  qed
  ultimately show ?thesis using d(1,2) by (simp add: lr_inv_def log_entry_inv)
qed

lemma rl_set_enti_ok:
  assumes i: "rl_inv h rs" and r: "r_rlogs rs rl = Some r"
  obtains rs' where "rl_set_enti rs rl e = Inr rs'" "rl_inv h rs'" "r_pages rs' = r_pages rs"
    "rl_look h rs' = (rl_look h rs)(rl_page r \<mapsto> e)"
proof -
  let ?rs = "rs\<lparr>r_rlogs := (r_rlogs rs)(rl \<mapsto> r\<lparr>rl_enti := e\<rparr>)\<rparr>"
  have s: "rl_set_enti rs rl e = Inr ?rs" by (simp add: rl_set_enti_def r)
  have k: "rl_key ?rs = rl_key rs" using r by (auto simp: rl_key_def)
  have i': "rl_inv h ?rs"
    unfolding rl_inv_def
  proof (intro conjI allI impI)
    show "sht_inv h (rl_key ?rs) (r_table ?rs)" using i unfolding k rl_inv_def by simp
    fix x y assume "r_rlogs ?rs x = Some y"
    then show "\<exists>p. r_pages ?rs (rl_page y) = Some p \<and> 0 < p_count p"
      using i r unfolding rl_inv_def by (auto split: if_splits)
  qed
  have "rl_look h ?rs page = ((rl_look h rs)(rl_page r \<mapsto> e)) page" for page
  proof (rule option_eqI)
    fix v
    have "rl_look h ?rs page = Some v \<longleftrightarrow>
        (\<exists>x. r_rlogs ?rs x = Some \<lparr>rl_page = page, rl_enti = v\<rparr>)" by (rule rl_look_iff [OF i'])
    also have "\<dots> \<longleftrightarrow> page = rl_page r \<and> v = e \<or>
        (\<exists>x. x \<noteq> rl \<and> r_rlogs rs x = Some \<lparr>rl_page = page, rl_enti = v\<rparr>)"
      by (cases r) auto
    also have "\<dots> \<longleftrightarrow> (if page = rl_page r then v = e else rl_look h rs page = Some v)"
    proof (cases "page = rl_page r")
      case True
      then have "r_rlogs rs x \<noteq> Some \<lparr>rl_page = page, rl_enti = v\<rparr>" if "x \<noteq> rl" for x
        using rl_inv_unique [OF i _ r, of x] that by fastforce
      with True show ?thesis by auto
    next
      case False
      with r have "r_rlogs rs x = Some \<lparr>rl_page = page, rl_enti = v\<rparr> \<Longrightarrow> x \<noteq> rl" for x by auto
      with False show ?thesis unfolding rl_look_iff [OF i] by auto
    qed
    finally show "rl_look h ?rs page = Some v \<longleftrightarrow> ((rl_look h rs)(rl_page r \<mapsto> e)) page = Some v" by auto
  qed
  then have "rl_look h ?rs = (rl_look h rs)(rl_page r \<mapsto> e)" by (rule ext)
  with s i' show ?thesis by (intro that) simp_all
qed

text \<open>Logging a page: the new entry becomes the one the page is known by.\<close>

lemma lr_inv_append:
  assumes i: "lr_inv h g X rs log" and room: "off (l_begin log) (l_end log) < 32768"
    and r: "r_rlogs rs rl = Some r" "X \<subseteq> {rl_page r}"
    and f: "\<And>q. live log q \<Longrightarrow> is_data (L_ENT log q) \<Longrightarrow> le_page (L_ENT log q) \<noteq> rl_page r"
    and le: "is_data le" "le_page le = rl_page r" "describes g rs le"
    and log': "log' = (L_ENT_upd log (l_end log) le)\<lparr>l_end := l_end log + 1\<rparr>"
  obtains rs' where "rl_set_enti rs rl (l_end log) = Inr rs'" "lr_inv h g {} rs' log'"
    "r_pages rs' = r_pages rs" "rl_look h rs' = (rl_look h rs)(rl_page r \<mapsto> l_end log)"
proof -
  note d = lr_invD [OF i]
  note L = live_append [OF d(1) room log']
  from rl_set_enti_ok [OF d(2) r(1)] obtain rs' where
    s: "rl_set_enti rs rl (l_end log) = Inr rs'" "rl_inv h rs'" "r_pages rs' = r_pages rs"
      "rl_look h rs' = (rl_look h rs)(rl_page r \<mapsto> l_end log)" by blast
  have "log_append log le = (0, Some (l_end log), log')"
    using room by (simp add: log_append_def seq_dist_off log')
  then have li: "log_inv log'" by (rule log_append_inv [OF d(1)])
  have nl: "\<not> live log (l_end log)" by (simp add: live_def)
  have dd: "describes g rs' x = describes g rs x" for x by (simp add: describes_def s(3))
  have "linked h g rs' log'"
    unfolding linked_def
  proof (intro allI impI)
    fix q
    assume q: "live log' q \<and> is_data (L_ENT log' q)"
    show "rl_look h rs' (le_page (L_ENT log' q)) = Some q \<and> describes g rs' (L_ENT log' q)"
    proof (cases "q = l_end log")
      case True
      with q le show ?thesis by (simp add: L(2) s(4) dd)
    next
      case False
      with q L [of q] have "live log q" "is_data (L_ENT log q)" by simp_all
      with f [of q] d(3,4) [of q] False q show ?thesis by (simp add: L(2) s(4) dd)
    qed
  qed
  moreover have "backed h {} rs' log'"
    unfolding backed_def
  proof (intro allI impI)
    fix page q
    assume q: "rl_look h rs' page = Some q \<and> q \<noteq> L_NULL \<and> page \<notin> {}"
    show "live log' q \<and> is_data (L_ENT log' q) \<and> le_page (L_ENT log' q) = page"
    proof (cases "page = rl_page r")
      case True
      with q have "q = l_end log" by (simp add: s(4))
      with True le L [of q] show ?thesis by simp
    next
      case False
      with q r(2) d(5) [of page q] have "live log q \<and> is_data (L_ENT log q) \<and> le_page (L_ENT log q) = page"
        by (auto simp: s(4))
      with nl L [of q] show ?thesis by auto
    qed
  qed
  ultimately have "lr_inv h g {} rs' log'" using li s(2) by (simp add: lr_inv_def)
  with s show ?thesis by (intro that)
qed

lemma append_wait_room:
  assumes "log_at S li = Inr log" and "off (l_begin log) (l_end log) < 32768"
  shows "append_wait E li le ei S =
    Some (Inr (l_end log, log_put_at S li ((L_ENT_upd log (l_end log) le)\<lparr>l_end := l_end log + 1\<rparr>)))"
  using assms by (subst append_wait.simps) (simp add: log_append_def seq_dist_off)

end
