(* ===== verification/Hooks_Write.thy ===== *)
theory Hooks_Write
  imports Hooks_Inv
begin

text \<open>
  Correctness of the write path: every branch of \<open>adafs_try_assoc_rlog\<close> and
  \<open>adafs_try_append_log\<close> of \<^verbatim>\<open>ada_fs.h\<close>, for pages that are new, active or sealed.  The
  kernel's part is named in \<open>alloc_ok\<close> (fresh addresses from the allocators) and
  \<open>page_of\<close> (the page belongs to the file).
\<close>

lemma log_stal_sum_upd [simp]:
  "log_stal_sum (L_ENT_upd log i le) = log_stal_sum log" "log_stal_sum (log\<lparr>l_end := e\<rparr>) = log_stal_sum log"
  by (simp_all add: log_stal_sum_def)

text \<open>
  What the policy does to the system after a page write: the log keeps its entries and window.
\<close>

lemma apply_policy_ok:
  assumes l: "adafs_logs S = [0 \<mapsto> log]" and i: "lr_inv h g {} (page_rlog S) log"
    and o: "on_write = on_write_old_page \<or> on_write = on_write_new_page"
  obtains S' log' where "apply_policy S 0 on_write sz = Inr S'" "adafs_logs S' = [0 \<mapsto> log']"
    "page_rlog S' = page_rlog S" "lr_inv h g {} (page_rlog S) log'" "live log' = live log"
    "L_ENT log' = L_ENT log" "l_end log' = l_end log" "log_stal_sum log' = log_stal_sum log + sz"
proof -
  obtain wake log' where w: "on_write (stal_limit_blocks S) log sz = (wake, log')" by fastforce
  then have e: "log' = snd (on_write (stal_limit_blocks S) log sz)" by simp
  note li = lr_invD(1) [OF i]
  have f: "log_inv log'" "l_entries log' = l_entries log" "l_begin log' = l_begin log" "l_end log' = l_end log"
      "log_stal_sum log' = log_stal_sum log + sz"
    unfolding e using o li
    by (auto simp: old_page.react_fields new_page.react_fields old_page.react_sum new_page.react_sum
        intro: old_page.react_inv new_page.react_inv)
  let ?S = "if wake then wake_up_flusher (log_put_at S 0 log') else log_put_at S 0 log'"
  have "apply_policy S 0 on_write sz = Inr ?S"
    using w l by (simp add: apply_policy_def log_at_def MAX_LOG_NUM_def Let_def)
  moreover have "adafs_logs ?S = [0 \<mapsto> log']" "page_rlog ?S = page_rlog S"
    using l by (simp_all add: wake_up_flusher_def log_put_at_def)
  moreover have "lr_inv h g {} (page_rlog S) log'" using f(2-4) by (rule lr_inv_same [OF i f(1)])
  moreover have "live log' = live log" "L_ENT log' = L_ENT log"
    using f by (simp_all add: live_def L_ENT_def fun_eq_iff)
  ultimately show ?thesis using f(4,5) by (rule that)
qed

text \<open>What the allocators promise: addresses that are not in use.\<close>

definition alloc_ok :: "'d env \<Rightarrow> 'd system \<Rightarrow> bool" where
  "alloc_ok E S \<longleftrightarrow>
     (\<forall>S'. r_rlogs (page_rlog S') = r_rlogs (page_rlog S) \<longrightarrow>
        rlog_malloc E S' \<noteq> NULL \<and> r_rlogs (page_rlog S) (rlog_malloc E S') = None) \<and>
     page_cache_alloc_cold E S \<noteq> NULL \<and> r_pages (page_rlog S) (page_cache_alloc_cold E S) = None"

text \<open>The page that a write is about: allocated, in the mapping of the file, with a page index.\<close>

definition page_of :: "(ptr \<Rightarrow> u64) \<Rightarrow> rstate \<Rightarrow> inode \<Rightarrow> ptr \<Rightarrow> page \<Rightarrow> bool" where
  "page_of g rs host page p \<longleftrightarrow>
     r_pages rs page = Some p \<and> p_mapping p \<noteq> NULL \<and> g (p_mapping p) = i_ino host \<and>
     p_index p < 2 ^ 56 \<and> i_private host = 0 \<and> i_ino host \<noteq> LE_INVAL_INO"

lemma find_rlog_look:
  assumes "rl_inv h rs"
  shows "rl_look h rs page = None \<Longrightarrow> find_rlog h rs page = Inr None"
    and "rl_look h rs page = Some e \<Longrightarrow>
      \<exists>rl. find_rlog h rs page = Inr (Some rl) \<and> r_rlogs rs rl = Some \<lparr>rl_page = page, rl_enti = e\<rparr>"
  using assms by (cases rule: rl_find_cases [where page = page]; force)+

text \<open>\<open>adafs_try_assoc_rlog\<close>, branch by branch.\<close>

lemma try_assoc_new:
  assumes l: "adafs_logs S = [0 \<mapsto> log]" and i: "lr_inv (hash_of E) g {} (page_rlog S) log"
    and a: "alloc_ok E S" and p: "page_of g (page_rlog S) host page p"
    and n: "rl_look (hash_of E) (page_rlog S) page = None"
  obtains rl rs1 where "adafs_try_assoc_rlog E host page S = Inr (rl, S\<lparr>page_rlog := rs1\<rparr>)"
    "lr_inv (hash_of E) g {} rs1 log" "r_rlogs rs1 rl = Some \<lparr>rl_page = page, rl_enti = L_NULL\<rparr>"
    "r_pages rs1 = (r_pages (page_rlog S))(page \<mapsto> p\<lparr>p_count := p_count p + 1\<rparr>)"
    "rl_look (hash_of E) rs1 = (rl_look (hash_of E) (page_rlog S))(page \<mapsto> L_NULL)"
proof -
  let ?h = "hash_of E" and ?rs = "page_rlog S" and ?rl = "rlog_malloc E S"
  have rl: "r_rlogs ?rs ?rl = None" "?rl \<noteq> NULL" using a by (auto simp: alloc_ok_def)
  have p': "r_pages ?rs page = Some p" using p by (simp add: page_of_def)
  from lr_inv_assoc [OF i n rl p'] obtain rs1 where
    s: "assoc_rlog ?h ?rs ?rl page L_NULL = Inr rs1" "lr_inv ?h g {} rs1 log"
      "r_rlogs rs1 = (r_rlogs ?rs)(?rl \<mapsto> \<lparr>rl_page = page, rl_enti = L_NULL\<rparr>)"
      "r_pages rs1 = (r_pages ?rs)(page \<mapsto> p\<lparr>p_count := p_count p + 1\<rparr>)"
      "rl_look ?h rs1 = (rl_look ?h ?rs)(page \<mapsto> L_NULL)" .
  have "adafs_try_assoc_rlog E host page S = Inr (?rl, S\<lparr>page_rlog := rs1\<rparr>)"
    using p find_rlog_look(1) [OF lr_invD(2) [OF i] n] s(1)
    by (simp add: adafs_try_assoc_rlog_def page_of_def Let_def)
  moreover note s(2)
  moreover have "r_rlogs rs1 ?rl = Some \<lparr>rl_page = page, rl_enti = L_NULL\<rparr>" unfolding s(3) by simp
  ultimately show ?thesis using s(4,5) by (rule that)
qed

lemma try_assoc_active:
  assumes l: "adafs_logs S = [0 \<mapsto> log]" and i: "lr_inv (hash_of E) g {} (page_rlog S) log"
    and p: "page_of g (page_rlog S) host page p"
    and e: "rl_look (hash_of E) (page_rlog S) page = Some e" "\<not> seq_less e (l_head log)"
  obtains rl where "adafs_try_assoc_rlog E host page S = Inr (rl, S)"
    "r_rlogs (page_rlog S) rl = Some \<lparr>rl_page = page, rl_enti = e\<rparr>"
  using find_rlog_look(2) [OF lr_invD(2) [OF i] e(1)] p l e(2)
  by (auto simp: adafs_try_assoc_rlog_def page_of_def Let_def log_at_def MAX_LOG_NUM_def)

lemma try_assoc_cow:
  assumes l: "adafs_logs S = [0 \<mapsto> log]" and i: "lr_inv (hash_of E) g {} (page_rlog S) log"
    and a: "alloc_ok E S" and p: "page_of g (page_rlog S) host page p"
    and e: "rl_look (hash_of E) (page_rlog S) page = Some e" "e \<noteq> L_NULL" "seq_less e (l_head log)"
    and c: "cpage = page_cache_alloc_cold E S" "le = le_set_cow (le_set_ref (L_ENT log e) cpage)"
  obtains rl rs1 where
    "adafs_try_assoc_rlog E host page S = Inr (rl, log_put_at (S\<lparr>page_rlog := rs1\<rparr>) 0 (L_ENT_upd log e le))"
    "lr_inv (hash_of E) g {page} rs1 (L_ENT_upd log e le)"
    "r_rlogs rs1 rl = Some \<lparr>rl_page = page, rl_enti = e\<rparr>"
    "r_pages rs1 = (r_pages (page_rlog S))(cpage \<mapsto> p\<lparr>p_count := 2\<rparr>)"
    "rl_look (hash_of E) rs1 = (rl_look (hash_of E) (page_rlog S))(cpage \<mapsto> e)" "cpage \<noteq> page"
proof -
  let ?h = "hash_of E" and ?rs = "page_rlog S"
  let ?rs1 = "?rs\<lparr>r_pages := (r_pages ?rs)(cpage \<mapsto> p\<lparr>p_count := 1\<rparr>)\<rparr>"
  let ?nrl = "rlog_malloc E (S\<lparr>page_rlog := ?rs1\<rparr>)"
  have n: "r_rlogs ?rs ?nrl = None" "?nrl \<noteq> NULL" "cpage \<noteq> NULL" "r_pages ?rs cpage = None"
    using a by (auto simp: alloc_ok_def c(1))
  have p': "r_pages ?rs page = Some p" using p by (simp add: page_of_def)
  from lr_inv_cow [OF i e(1,2) p' n(4) n(1,2) refl c(2)] obtain rs' where
    s: "assoc_rlog ?h ?rs1 ?nrl cpage e = Inr rs'" "lr_inv ?h g {page} rs' (L_ENT_upd log e le)"
      "r_rlogs rs' = (r_rlogs ?rs)(?nrl \<mapsto> \<lparr>rl_page = cpage, rl_enti = e\<rparr>)"
      "r_pages rs' = (r_pages ?rs)(cpage \<mapsto> p\<lparr>p_count := 2\<rparr>)"
      "rl_look ?h rs' = (rl_look ?h ?rs)(cpage \<mapsto> e)" .
  from find_rlog_look(2) [OF lr_invD(2) [OF i] e(1)] obtain rl where
    f: "find_rlog ?h ?rs page = Inr (Some rl)" "r_rlogs ?rs rl = Some \<lparr>rl_page = page, rl_enti = e\<rparr>" by blast
  have "cow_page E S 0 log page e = Inr (log_put_at (S\<lparr>page_rlog := rs'\<rparr>) 0 (L_ENT_upd log e le))"
    using p' n(3) s(1) by (simp add: cow_page_def Let_def c del: One_nat_def)
  then have "adafs_try_assoc_rlog E host page S = Inr (rl, log_put_at (S\<lparr>page_rlog := rs'\<rparr>) 0 (L_ENT_upd log e le))"
    using p f l e(3) by (simp add: adafs_try_assoc_rlog_def page_of_def Let_def log_at_def MAX_LOG_NUM_def)
  moreover have "r_rlogs rs' rl = Some \<lparr>rl_page = page, rl_enti = e\<rparr>" using f(2) n(1) s(3) by auto
  moreover have "cpage \<noteq> page" using p' n(4) by auto
  ultimately show ?thesis using s by (intro that)
qed

text \<open>\<open>adafs_try_append_log\<close>, branch by branch.\<close>

lemma try_append_new:
  assumes l: "adafs_logs S = [0 \<mapsto> log]" and i: "lr_inv (hash_of E) g X (page_rlog S) log"
    and p: "page_of g (page_rlog S) host (rl_page r) p"
    and r: "r_rlogs (page_rlog S) rl = Some r" "X \<subseteq> {rl_page r}"
    and na: "rl_enti r = L_NULL \<or> \<not> seq_ng (l_head log) (rl_enti r)"
    and f: "\<And>q. live log q \<Longrightarrow> is_data (L_ENT log q) \<Longrightarrow> le_page (L_ENT log q) \<noteq> rl_page r"
    and room: "off (l_begin log) (l_end log) < 32768" and len: "offset + copied < 2 ^ 16"
    and v: "rl_enti r \<noteq> L_NULL \<longrightarrow> le_ver (L_ENT log (rl_enti r)) < 255"
  obtains S2 log2 where "adafs_try_append_log E host rl offset copied S = Some (Inr (0, S2))"
    "adafs_logs S2 = [0 \<mapsto> log2]" "lr_inv (hash_of E) g {} (page_rlog S2) log2"
    "rl_look (hash_of E) (page_rlog S2) = (rl_look (hash_of E) (page_rlog S))(rl_page r \<mapsto> l_end log)"
    "\<And>q. live log2 q \<longleftrightarrow> live log q \<or> q = l_end log"
    "\<And>q. live log2 q \<Longrightarrow>
      L_ENT log2 q = (if q = l_end log then page_entry host r p log (offset + copied) else L_ENT log q)"
    "r_pages (page_rlog S2) = r_pages (page_rlog S)" "log_stal_sum log2 = log_stal_sum log + copied"
    "l_end log2 = l_end log + 1"
proof -
  let ?h = "hash_of E" and ?le = "page_entry host r p log (offset + copied)"
  have pp: "p_index p < 2 ^ 56" "i_ino host \<noteq> LE_INVAL_INO" "r_pages (page_rlog S) (rl_page r) = Some p"
      "i_private host = 0" using p by (simp_all add: page_of_def)
  note le = page_entry_views [OF pp(1) len pp(2) v]
  have d: "describes g (page_rlog S) ?le" using p le(1,2,4) by (auto simp: describes_def page_of_def)
  let ?log = "(L_ENT_upd log (l_end log) ?le)\<lparr>l_end := l_end log + 1\<rparr>"
  note L = live_append [OF lr_invD(1) [OF i] room refl, of ?le]
  from lr_inv_append [OF i room r f le(5,4) d refl] obtain rs' where
    a: "rl_set_enti (page_rlog S) rl (l_end log) = Inr rs'" "lr_inv ?h g {} rs' ?log"
      "r_pages rs' = r_pages (page_rlog S)" "rl_look ?h rs' = (rl_look ?h (page_rlog S))(rl_page r \<mapsto> l_end log)"
    by blast
  let ?S1 = "(log_put_at S 0 ?log)\<lparr>page_rlog := rs'\<rparr>"
  have at: "log_at S 0 = Inr log" using l by (simp add: log_at_def MAX_LOG_NUM_def)
  have s1: "adafs_logs ?S1 = [0 \<mapsto> ?log]" "page_rlog ?S1 = rs'" using l by (simp_all add: log_put_at_def)
  obtain S2 log2 where
    b: "apply_policy ?S1 0 on_write_new_page copied = Inr S2" "adafs_logs S2 = [0 \<mapsto> log2]"
      "page_rlog S2 = rs'" "lr_inv ?h g {} rs' log2" "live log2 = live ?log" "L_ENT log2 = L_ENT ?log"
      "l_end log2 = l_end ?log" "log_stal_sum log2 = log_stal_sum ?log + copied"
    by (rule apply_policy_ok [OF s1(1), of ?h g on_write_new_page copied]) (use a(2) in \<open>auto simp: s1(2)\<close>)
  have aw: "append_wait E 0 ?le L_NULL S = Some (Inr (l_end log, log_put_at S 0 ?log))"
    by (rule append_wait_room [OF at room])
  have pr: "page_rlog (log_put_at S 0 ?log) = page_rlog S" by (simp add: log_put_at_def)
  have "adafs_try_append_log E host rl offset copied S = Some (Inr (0, S2))"
    using na pp r(1) at aw a(1) b(1) unfolding adafs_try_append_log_def by (auto simp: pr Let_def)
  moreover note b(2)
  moreover have "lr_inv ?h g {} (page_rlog S2) log2" using b(3,4) by simp
  moreover have "rl_look ?h (page_rlog S2) = (rl_look ?h (page_rlog S))(rl_page r \<mapsto> l_end log)"
    using a(4) b(3) by simp
  moreover have "live log2 q \<longleftrightarrow> live log q \<or> q = l_end log" for q using L(1) b(5) by simp
  moreover have "L_ENT log2 q = (if q = l_end log then ?le else L_ENT log q)" if "live log2 q" for q
    using L(2) that b(5,6) by simp
  moreover have "r_pages (page_rlog S2) = r_pages (page_rlog S)" using a(3) b(3) by simp
  moreover have "log_stal_sum log2 = log_stal_sum log + copied" "l_end log2 = l_end log + 1"
    using b(7,8) by simp_all
  ultimately show ?thesis by (rule that)
qed

lemma try_append_active:
  assumes l: "adafs_logs S = [0 \<mapsto> log]" and i: "lr_inv (hash_of E) g {} (page_rlog S) log"
    and r: "r_rlogs (page_rlog S) rl = Some r" and h: "i_private host = 0"
    and e: "rl_look (hash_of E) (page_rlog S) (rl_page r) = Some (rl_enti r)" "rl_enti r \<noteq> L_NULL"
      "seq_ng (l_head log) (rl_enti r)"
    and len: "offset + copied < 2 ^ 16"
  obtains S2 log2 where "adafs_try_append_log E host rl offset copied S = Some (Inr (0, S2))"
    "adafs_logs S2 = [0 \<mapsto> log2]" "lr_inv (hash_of E) g {} (page_rlog S2) log2"
    "page_rlog S2 = page_rlog S" "live log2 = live log"
    "\<And>q. live log q \<Longrightarrow> L_ENT log2 q =
      (if q = rl_enti r then le_set_len (L_ENT log q) (offset + copied) else L_ENT log q)"
    "log_stal_sum log2 = log_stal_sum log + copied" "l_end log2 = l_end log"
proof -
  let ?h = "hash_of E" and ?e = "rl_enti r"
  let ?le = "le_set_len (L_ENT log ?e) (offset + copied)"
  have q: "live log ?e" "is_data (L_ENT log ?e)" using lr_invD(5) [OF i e(1,2)] by simp_all
  have i1: "lr_inv ?h g {} (page_rlog S) (L_ENT_upd log ?e ?le)"
    by (rule lr_inv_rewrite [OF i q(1)]) (use len in \<open>simp_all add: is_data_def le_set_len_meta\<close>)
  let ?S1 = "log_put_at S 0 (L_ENT_upd log ?e ?le)"
  have s1: "adafs_logs ?S1 = [0 \<mapsto> L_ENT_upd log ?e ?le]" "page_rlog ?S1 = page_rlog S"
    using l by (simp_all add: log_put_at_def)
  obtain S2 log2 where
    b: "apply_policy ?S1 0 on_write_old_page copied = Inr S2" "adafs_logs S2 = [0 \<mapsto> log2]"
      "page_rlog S2 = page_rlog S" "lr_inv ?h g {} (page_rlog S) log2" "live log2 = live (L_ENT_upd log ?e ?le)"
      "L_ENT log2 = L_ENT (L_ENT_upd log ?e ?le)" "l_end log2 = l_end (L_ENT_upd log ?e ?le)"
      "log_stal_sum log2 = log_stal_sum (L_ENT_upd log ?e ?le) + copied"
    by (rule apply_policy_ok [OF s1(1), of ?h g on_write_old_page copied]) (use i1 in \<open>auto simp: s1(2)\<close>)
  have "adafs_try_append_log E host rl offset copied S = Some (Inr (0, S2))"
    using h r(1) e(2,3) l b(1)
    by (simp add: adafs_try_append_log_def Let_def log_at_def MAX_LOG_NUM_def)
  moreover note b(2)
  moreover have "lr_inv ?h g {} (page_rlog S2) log2" using b(3,4) by simp
  moreover note b(3)
  moreover have "live log2 = live log" using b(5) by simp
  moreover have "L_ENT log2 q = (if q = ?e then le_set_len (L_ENT log q) (offset + copied) else L_ENT log q)"
    if "live log q" for q
    using L_ENT_live [OF lr_invD(1) [OF i] \<open>live log ?e\<close> that, of ?le] b(6) by simp
  moreover have "log_stal_sum log2 = log_stal_sum log + copied" "l_end log2 = l_end log"
    using b(7,8) by simp_all
  ultimately show ?thesis by (rule that)
qed

text \<open>A write to a page of the file, with room in the log.\<close>

definition write_ready ::
  "'d env \<Rightarrow> (ptr \<Rightarrow> u64) \<Rightarrow> 'd system \<Rightarrow> adafs_log \<Rightarrow> inode \<Rightarrow> ptr \<Rightarrow> page \<Rightarrow> bool" where
  "write_ready E g S log host page p \<longleftrightarrow>
     adafs_logs S = [0 \<mapsto> log] \<and> lr_inv (hash_of E) g {} (page_rlog S) log \<and> alloc_ok E S \<and>
     page_of g (page_rlog S) host page p \<and> off (l_begin log) (l_end log) < 32768 \<and>
     rl_look (hash_of E) (page_rlog S) page \<noteq> Some L_NULL \<and>
     (\<forall>q. rl_look (hash_of E) (page_rlog S) page = Some q \<longrightarrow> le_ver (L_ENT log q) < 255)"

text \<open>What a write establishes: the page is known by a live entry that describes the write.\<close>

definition logged :: "hash_fun \<Rightarrow> rstate \<Rightarrow> adafs_log \<Rightarrow> inode \<Rightarrow> ptr \<Rightarrow> page \<Rightarrow> u64 \<Rightarrow> bool" where
  "logged h rs log host page p len \<longleftrightarrow>
     (\<exists>q. rl_look h rs page = Some q \<and> live log q \<and> is_data (L_ENT log q) \<and>
        le_page (L_ENT log q) = page \<and> le_ino (L_ENT log q) = i_ino host \<and>
        le_pgi (L_ENT log q) = p_index p \<and> le_len (L_ENT log q) = len)"

lemma sys_invI: "adafs_logs S = [0 \<mapsto> log] \<Longrightarrow> lr_inv (hash_of E) g {} (page_rlog S) log \<Longrightarrow> sys_inv E g S"
  by (auto simp: sys_inv_def)

lemma live_seq:
  assumes "log_inv log" and "live log q"
  shows "seq_less q (l_head log) \<longleftrightarrow> \<not> seq_ng (l_head log) q"
proof -
  have "off (l_begin log) q \<le> 32768" "off (l_begin log) (l_head log) \<le> 32768"
    using live_off [OF assms] log_inv_pend(2,3) [OF assms(1)] by linarith+
  then show ?thesis by (simp add: seq_off [where b = "l_begin log"] not_le)
qed

text \<open>
  Between the two hooks the kernel copies the user's data into the page: the log and the reverse map
  stay, and of the pages only the data changes.
\<close>

definition data_copied :: "'d system \<Rightarrow> 'd system \<Rightarrow> bool" where
  "data_copied S S' \<longleftrightarrow>
     adafs_logs S' = adafs_logs S \<and> r_rlogs (page_rlog S') = r_rlogs (page_rlog S) \<and>
     r_table (page_rlog S') = r_table (page_rlog S) \<and>
     (\<forall>page. map_option (p_data_update (\<lambda>_. [])) (r_pages (page_rlog S') page) =
        map_option (p_data_update (\<lambda>_. [])) (r_pages (page_rlog S) page))"

lemma data_copied_refl: "data_copied S S"
  by (simp add: data_copied_def)

lemma data_copied_page:
  assumes "data_copied S S'" and "r_pages (page_rlog S) page = Some p"
  obtains p' where "r_pages (page_rlog S') page = Some p'" "p_mapping p' = p_mapping p"
    "p_index p' = p_index p" "p_count p' = p_count p"
proof -
  have "map_option (p_data_update (\<lambda>_. [])) (r_pages (page_rlog S') page) = Some (p\<lparr>p_data := []\<rparr>)"
    using assms by (simp add: data_copied_def)
  then obtain p' where p': "r_pages (page_rlog S') page = Some p'" "p'\<lparr>p_data := []\<rparr> = p\<lparr>p_data := []\<rparr>" by auto
  from p'(2) have "p_mapping p' = p_mapping p" "p_index p' = p_index p" "p_count p' = p_count p"
    by (metis page.select_convs page.surjective page.update_convs)+
  with p'(1) show ?thesis by (rule that)
qed

lemma data_copied_inv:
  assumes c: "data_copied S S'" and i: "lr_inv h g X (page_rlog S) log"
  shows "lr_inv h g X (page_rlog S') log" and "rl_look h (page_rlog S') = rl_look h (page_rlog S)"
proof -
  note d = lr_invD [OF i]
  have e: "r_rlogs (page_rlog S') = r_rlogs (page_rlog S)" "r_table (page_rlog S') = r_table (page_rlog S)"
    using c by (simp_all add: data_copied_def)
  show l: "rl_look h (page_rlog S') = rl_look h (page_rlog S)" by (rule rl_look_congI) (simp_all add: e)
  have k: "rl_key (page_rlog S') = rl_key (page_rlog S)" by (simp add: rl_key_def e fun_eq_iff)
  have "rl_inv h (page_rlog S')"
    unfolding rl_inv_def k e
  proof (intro conjI allI impI)
    show "sht_inv h (rl_key (page_rlog S)) (r_table (page_rlog S))" using d(2) by (simp add: rl_inv_def)
    fix rl r assume "r_rlogs (page_rlog S) rl = Some r"
    then obtain p where p: "r_pages (page_rlog S) (rl_page r) = Some p" "0 < p_count p"
      using d(2) unfolding rl_inv_def by blast
    from data_copied_page [OF c p(1)] p(2) show "\<exists>p. r_pages (page_rlog S') (rl_page r) = Some p \<and> 0 < p_count p"
      by metis
  qed
  moreover have "describes g (page_rlog S') le" if "describes g (page_rlog S) le" for le
    using that by (rule describes_mono) (use data_copied_page [OF c] in metis)
  ultimately show "lr_inv h g X (page_rlog S') log"
    using i unfolding lr_inv_def linked_def backed_def l by blast
qed

lemma data_copied_page_of:
  assumes "data_copied S S'" and "page_of g (page_rlog S) host page p"
  obtains p' where "page_of g (page_rlog S') host page p'" "p_index p' = p_index p"
proof -
  have "r_pages (page_rlog S) page = Some p" using assms(2) by (simp add: page_of_def)
  from data_copied_page [OF assms(1) this] obtain p' where
    "r_pages (page_rlog S') page = Some p'" "p_mapping p' = p_mapping p" "p_index p' = p_index p" by blast
  with assms(2) show ?thesis by (intro that [of p']) (simp_all add: page_of_def)
qed

definition write_done ::
  "'d env \<Rightarrow> (ptr \<Rightarrow> u64) \<Rightarrow> adafs_log \<Rightarrow> inode \<Rightarrow> ptr \<Rightarrow> page \<Rightarrow> u64 \<Rightarrow> u64 \<Rightarrow> u32 \<Rightarrow> 'd system \<Rightarrow> bool" where
  "write_done E g log host page p len copied k S2 \<longleftrightarrow>
     (\<exists>log2. sys_inv E g S2 \<and> adafs_logs S2 = [0 \<mapsto> log2] \<and>
        logged (hash_of E) (page_rlog S2) log2 host page p len \<and>
        log_stal_sum log2 = log_stal_sum log + copied \<and> l_end log2 = l_end log + k)"

lemma write_new:
  assumes w: "write_ready E g S log host page p" and len: "offset + copied < 2 ^ 16"
    and n: "rl_look (hash_of E) (page_rlog S) page = None"
  shows "\<exists>rl S1. adafs_try_assoc_rlog E host page S = Inr (rl, S1) \<and>
    (\<forall>S1'. data_copied S1 S1' \<longrightarrow>
      (\<exists>S2. adafs_try_append_log E host rl offset copied S1' = Some (Inr (0, S2)) \<and>
        write_done E g log host page p (offset + copied) copied 1 S2))"
proof -
  let ?h = "hash_of E"
  have w': "adafs_logs S = [0 \<mapsto> log]" "lr_inv ?h g {} (page_rlog S) log" "alloc_ok E S"
      "page_of g (page_rlog S) host page p" "off (l_begin log) (l_end log) < 32768"
    using w by (simp_all add: write_ready_def)
  from try_assoc_new [OF w'(1-4) n] obtain rl rs1 where
    a: "adafs_try_assoc_rlog E host page S = Inr (rl, S\<lparr>page_rlog := rs1\<rparr>)" "lr_inv ?h g {} rs1 log"
      "r_rlogs rs1 rl = Some \<lparr>rl_page = page, rl_enti = L_NULL\<rparr>"
      "r_pages rs1 = (r_pages (page_rlog S))(page \<mapsto> p\<lparr>p_count := p_count p + 1\<rparr>)" by blast
  let ?S = "S\<lparr>page_rlog := rs1\<rparr>" and ?r = "\<lparr>rl_page = page, rl_enti = L_NULL\<rparr>"
  let ?p = "p\<lparr>p_count := p_count p + 1\<rparr>"
  have s: "adafs_logs ?S = [0 \<mapsto> log]" "lr_inv ?h g {} (page_rlog ?S) log" "r_rlogs (page_rlog ?S) rl = Some ?r"
    using w'(1) a by simp_all
  have pg: "page_of g (page_rlog ?S) host (rl_page ?r) ?p" using w'(4) a(4) by (simp add: page_of_def)
  have f: "le_page (L_ENT log q) \<noteq> rl_page ?r" if "live log q" "is_data (L_ENT log q)" for q
    using lr_invD(3) [OF w'(2) that] n by auto
  have "\<exists>S2. adafs_try_append_log E host rl offset copied S1 = Some (Inr (0, S2)) \<and>
      write_done E g log host page p (offset + copied) copied 1 S2" if c: "data_copied ?S S1" for S1
  proof -
    have s1: "adafs_logs S1 = [0 \<mapsto> log]" "r_rlogs (page_rlog S1) rl = Some ?r"
      using c s(1,3) by (simp_all add: data_copied_def)
    from data_copied_page_of [OF c pg] obtain p1 where
      p1: "page_of g (page_rlog S1) host (rl_page ?r) p1" "p_index p1 = p_index p" by auto
    obtain S2 log2 where b: "adafs_try_append_log E host rl offset copied S1 = Some (Inr (0, S2))"
        "adafs_logs S2 = [0 \<mapsto> log2]" "lr_inv ?h g {} (page_rlog S2) log2"
        "rl_look ?h (page_rlog S2) = (rl_look ?h (page_rlog S1))(rl_page ?r \<mapsto> l_end log)"
        "\<And>q. live log2 q \<longleftrightarrow> live log q \<or> q = l_end log"
        "\<And>q. live log2 q \<Longrightarrow> L_ENT log2 q =
          (if q = l_end log then page_entry host ?r p1 log (offset + copied) else L_ENT log q)"
        "log_stal_sum log2 = log_stal_sum log + copied" "l_end log2 = l_end log + 1"
      by (rule try_append_new [OF s1(1) data_copied_inv(1) [OF c s(2)] p1(1) s1(2) _ _ f w'(5) len]) simp_all
    have "logged ?h (page_rlog S2) log2 host page p (offset + copied)"
      using page_entry_views [of p1 "offset + copied" host ?r log] p1 len b(4-6)
      by (auto simp: logged_def page_of_def intro!: exI [of _ "l_end log"])
    with b sys_invI [OF b(2,3)] show ?thesis by (auto simp: write_done_def)
  qed
  with a(1) show ?thesis by blast
qed

lemma write_active:
  assumes w: "write_ready E g S log host page p" and len: "offset + copied < 2 ^ 16"
    and e: "rl_look (hash_of E) (page_rlog S) page = Some e" "\<not> seq_less e (l_head log)"
  shows "\<exists>rl S1. adafs_try_assoc_rlog E host page S = Inr (rl, S1) \<and>
    (\<forall>S1'. data_copied S1 S1' \<longrightarrow>
      (\<exists>S2. adafs_try_append_log E host rl offset copied S1' = Some (Inr (0, S2)) \<and>
        write_done E g log host page p (offset + copied) copied 0 S2))"
proof -
  let ?h = "hash_of E"
  have w': "adafs_logs S = [0 \<mapsto> log]" "lr_inv ?h g {} (page_rlog S) log"
      "page_of g (page_rlog S) host page p" "e \<noteq> L_NULL"
    using w e(1) by (auto simp: write_ready_def)
  have q: "live log e" "is_data (L_ENT log e)" "le_page (L_ENT log e) = page"
    using lr_invD(5) [OF w'(2) e(1) w'(4)] by simp_all
  have ng: "seq_ng (l_head log) e" using live_seq [OF lr_invD(1) [OF w'(2)] q(1)] e(2) by simp
  from try_assoc_active [OF w'(1-3) e] obtain rl where
    a: "adafs_try_assoc_rlog E host page S = Inr (rl, S)"
      "r_rlogs (page_rlog S) rl = Some \<lparr>rl_page = page, rl_enti = e\<rparr>" by blast
  let ?r = "\<lparr>rl_page = page, rl_enti = e\<rparr>"
  have h0: "i_private host = 0" using w'(3) by (simp add: page_of_def)
  have r: "rl_look ?h (page_rlog S) (rl_page ?r) = Some (rl_enti ?r)" "rl_enti ?r \<noteq> L_NULL"
      "seq_ng (l_head log) (rl_enti ?r)" using e(1) w'(4) ng by simp_all
  have d: "le_ino (L_ENT log e) = i_ino host" "le_pgi (L_ENT log e) = p_index p"
    using lr_invD(4) [OF w'(2) q(1,2)] w'(3) q(3) by (auto simp: describes_def page_of_def)
  have "\<exists>S2. adafs_try_append_log E host rl offset copied S1 = Some (Inr (0, S2)) \<and>
      write_done E g log host page p (offset + copied) copied 0 S2" if c: "data_copied S S1" for S1
  proof -
    have s1: "adafs_logs S1 = [0 \<mapsto> log]" "r_rlogs (page_rlog S1) rl = Some ?r"
      using c w'(1) a(2) by (simp_all add: data_copied_def)
    note i1 = data_copied_inv [OF c w'(2)]
    have r1: "rl_look ?h (page_rlog S1) (rl_page ?r) = Some (rl_enti ?r)" using r(1) i1(2) by simp
    obtain S2 log2 where b: "adafs_try_append_log E host rl offset copied S1 = Some (Inr (0, S2))"
        "adafs_logs S2 = [0 \<mapsto> log2]" "lr_inv ?h g {} (page_rlog S2) log2"
        "page_rlog S2 = page_rlog S1" "live log2 = live log"
        "\<And>q. live log q \<Longrightarrow> L_ENT log2 q =
          (if q = e then le_set_len (L_ENT log q) (offset + copied) else L_ENT log q)"
        "log_stal_sum log2 = log_stal_sum log + copied" "l_end log2 = l_end log"
      by (rule try_append_active [OF s1(1) i1(1) s1(2) h0 r1 r(2,3) len]) simp_all
    have "logged ?h (page_rlog S2) log2 host page p (offset + copied)"
      using q d e(1) b(4-6) len i1(2)
      by (auto simp: logged_def is_data_def le_set_len_len le_set_len_meta intro!: exI [of _ e])
    with b sys_invI [OF b(2,3)] show ?thesis by (auto simp: write_done_def)
  qed
  with a(1) show ?thesis by blast
qed

lemma write_cow:
  assumes w: "write_ready E g S log host page p" and len: "offset + copied < 2 ^ 16"
    and e: "rl_look (hash_of E) (page_rlog S) page = Some e" "seq_less e (l_head log)"
  shows "\<exists>rl S1. adafs_try_assoc_rlog E host page S = Inr (rl, S1) \<and>
    (\<forall>S1'. data_copied S1 S1' \<longrightarrow>
      (\<exists>S2. adafs_try_append_log E host rl offset copied S1' = Some (Inr (0, S2)) \<and>
        write_done E g log host page p (offset + copied) copied 1 S2))"
proof -
  let ?h = "hash_of E" and ?cp = "page_cache_alloc_cold E S"
  let ?le = "le_set_cow (le_set_ref (L_ENT log e) ?cp)"
  have w': "adafs_logs S = [0 \<mapsto> log]" "lr_inv ?h g {} (page_rlog S) log" "alloc_ok E S"
      "page_of g (page_rlog S) host page p" "off (l_begin log) (l_end log) < 32768" "e \<noteq> L_NULL"
      "le_ver (L_ENT log e) < 255"
    using w e(1) by (auto simp: write_ready_def)
  have q: "live log e" "is_data (L_ENT log e)" "le_page (L_ENT log e) = page"
    using lr_invD(5) [OF w'(2) e(1) w'(6)] by simp_all
  from try_assoc_cow [OF w'(1-4) e(1) w'(6) e(2) refl refl] obtain rl rs1 where
    a: "adafs_try_assoc_rlog E host page S =
        Inr (rl, log_put_at (S\<lparr>page_rlog := rs1\<rparr>) 0 (L_ENT_upd log e ?le))"
      "lr_inv ?h g {page} rs1 (L_ENT_upd log e ?le)"
      "r_rlogs rs1 rl = Some \<lparr>rl_page = page, rl_enti = e\<rparr>"
      "r_pages rs1 = (r_pages (page_rlog S))(?cp \<mapsto> p\<lparr>p_count := 2\<rparr>)"
      "rl_look ?h rs1 = (rl_look ?h (page_rlog S))(?cp \<mapsto> e)" "?cp \<noteq> page" by blast
  let ?log = "L_ENT_upd log e ?le" and ?r = "\<lparr>rl_page = page, rl_enti = e\<rparr>"
  let ?S = "log_put_at (S\<lparr>page_rlog := rs1\<rparr>) 0 ?log"
  have s: "adafs_logs ?S = [0 \<mapsto> ?log]" "lr_inv ?h g {page} (page_rlog ?S) ?log"
      "r_rlogs (page_rlog ?S) rl = Some ?r"
    using w'(1) a by (simp_all add: log_put_at_def)
  have pg: "page_of g (page_rlog ?S) host (rl_page ?r) p"
    using w'(4) a(4,6) by (simp add: page_of_def log_put_at_def)
  have L: "L_ENT ?log e = ?le" by (simp add: L_ENT_upd_same)
  have f: "le_page (L_ENT ?log x) \<noteq> rl_page ?r" if x: "live ?log x" "is_data (L_ENT ?log x)" for x
  proof
    assume "le_page (L_ENT ?log x) = rl_page ?r"
    then have "rl_look ?h rs1 page = Some x" using lr_invD(3) [OF a(2) x] by simp
    then have "x = e" using a(5,6) e(1) by simp
    with \<open>le_page (L_ENT ?log x) = rl_page ?r\<close> L a(6) show False by simp
  qed
  have na: "rl_enti ?r = L_NULL \<or> \<not> seq_ng (l_head ?log) (rl_enti ?r)"
    using live_seq [OF lr_invD(1) [OF w'(2)] q(1)] e(2) by simp
  have "\<exists>S2. adafs_try_append_log E host rl offset copied S1 = Some (Inr (0, S2)) \<and>
      write_done E g log host page p (offset + copied) copied 1 S2" if c: "data_copied ?S S1" for S1
  proof -
    have s1: "adafs_logs S1 = [0 \<mapsto> ?log]" "r_rlogs (page_rlog S1) rl = Some ?r"
      using c s(1,3) by (simp_all add: data_copied_def)
    from data_copied_page_of [OF c pg] obtain p1 where
      p1: "page_of g (page_rlog S1) host (rl_page ?r) p1" "p_index p1 = p_index p" by auto
    obtain S2 log2 where b: "adafs_try_append_log E host rl offset copied S1 = Some (Inr (0, S2))"
        "adafs_logs S2 = [0 \<mapsto> log2]" "lr_inv ?h g {} (page_rlog S2) log2"
        "rl_look ?h (page_rlog S2) = (rl_look ?h (page_rlog S1))(rl_page ?r \<mapsto> l_end ?log)"
        "\<And>q. live log2 q \<longleftrightarrow> live ?log q \<or> q = l_end ?log"
        "\<And>q. live log2 q \<Longrightarrow> L_ENT log2 q =
          (if q = l_end ?log then page_entry host ?r p1 ?log (offset + copied) else L_ENT ?log q)"
        "log_stal_sum log2 = log_stal_sum ?log + copied" "l_end log2 = l_end ?log + 1"
      by (rule try_append_new [OF s1(1) data_copied_inv(1) [OF c s(2)] p1(1) s1(2) _ na f _ len])
        (use w'(5,7) L in simp_all)
    have "logged ?h (page_rlog S2) log2 host page p (offset + copied)"
      using page_entry_views [of p1 "offset + copied" host ?r ?log] p1 w'(7) len b(4-6) L
      by (auto simp: logged_def page_of_def intro!: exI [of _ "l_end log"])
    with b sys_invI [OF b(2,3)] show ?thesis by (auto simp: write_done_def)
  qed
  with a(1) show ?thesis by blast
qed

text \<open>The entries a write uses: none if the page has one in the open transaction.\<close>

definition entries_used :: "u32 option \<Rightarrow> adafs_log \<Rightarrow> u32" where
  "entries_used known log =
     (case known of None \<Rightarrow> 1 | Some e \<Rightarrow> if seq_less e (l_head log) then 1 else 0)"

lemma page_write_ok:
  assumes "write_ready E g S log host page p" and "offset + copied < 2 ^ 16"
  shows "\<exists>rl S1. adafs_try_assoc_rlog E host page S = Inr (rl, S1) \<and>
    (\<forall>S1'. data_copied S1 S1' \<longrightarrow>
      (\<exists>S2. adafs_try_append_log E host rl offset copied S1' = Some (Inr (0, S2)) \<and>
        write_done E g log host page p (offset + copied) copied
          (entries_used (rl_look (hash_of E) (page_rlog S) page) log) S2))"
proof (cases "rl_look (hash_of E) (page_rlog S) page")
  case None
  with write_new [OF assms] show ?thesis by (simp add: entries_used_def)
next
  case (Some e)
  with write_cow [OF assms] write_active [OF assms] show ?thesis
    by (cases "seq_less e (l_head log)") (simp_all add: entries_used_def)
qed

text \<open>
  C6.  A page write is logged.  For a page of a regular file, with room in the log and fresh addresses
  from the allocators, the pair of hooks around the copy succeeds, whatever data the kernel copies in between, and leaves the page known by a
  live entry with the file's inode number, the page's index and the length of the valid data, whether
  the page is new, already in the open transaction, or belongs to a sealed one and is copied.  The
  coupling invariant of log and reverse map holds again, the staleness of the log grows by the bytes
  written, and one entry is used unless the page already has one in the open transaction.
\<close>

theorem page_write_logged:
  assumes "write_ready E g S log host page p" and "offset + copied < 2 ^ 16"
  shows "\<exists>rl S1. adafs_try_assoc_rlog E host page S = Inr (rl, S1) \<and>
    (\<forall>S1'. data_copied S1 S1' \<longrightarrow>
      (\<exists>S2 log2. adafs_try_append_log E host rl offset copied S1' = Some (Inr (0, S2)) \<and> sys_inv E g S2 \<and>
        adafs_logs S2 = [0 \<mapsto> log2] \<and>
        logged (hash_of E) (page_rlog S2) log2 host page p (offset + copied) \<and>
        log_stal_sum log2 = log_stal_sum log + copied \<and>
        l_end log2 = l_end log + entries_used (rl_look (hash_of E) (page_rlog S) page) log))"
  using page_write_ok [OF assms] unfolding write_done_def by blast

section \<open>Concrete systems\<close>

text \<open>
  A freshly initialised system with one page in the page cache, and one whose log has one sealed entry
  for that page.
\<close>

definition ex_env :: "unit env" where
  "ex_env = \<lparr>kern = ex_kernel,
     rlog_malloc = (\<lambda>S. if r_rlogs (page_rlog S) 512 = None then 512 else 520),
     page_cache_alloc_cold = (\<lambda>S. 8192), wait_for_completion_interruptible = (\<lambda>S. Inr (- 4, S))\<rparr>"

definition ex_host :: inode where
  "ex_host = \<lparr>i_ino = 7, i_private = 0, i_mode = 0x81A4\<rparr>"

definition ex_system :: "adafs_log \<Rightarrow> rstate \<Rightarrow> unit system" where
  "ex_system log rs = \<lparr>adafs_logs = [0 \<mapsto> log], num_logs = 1, sys_stack = [], page_rlog = rs, sys_dev = (),
     flush_ops = ex_fops 0, stal_limit_blocks = 4096, flusher_woken = False, flush_cmpl = False\<rparr>"

definition ex_log0 :: adafs_log where
  "ex_log0 = log_init (ex_log\<lparr>l_entries := (\<lambda>_. ex_data)\<rparr>)"

definition ex_log1 :: adafs_log where
  "ex_log1 = ex_log\<lparr>l_entries := (\<lambda>_. ex_data), l_end := 1\<rparr>"

definition ex_rs0 :: rstate where
  "ex_rs0 = ex_rs\<lparr>r_pages := [4096 \<mapsto> ex_page]\<rparr>"

definition ex_rs1 :: rstate where
  "ex_rs1 = rl_add ex_hash ex_rs0 512 4096 0"

lemma ex_sys_fields [simp]:
  "adafs_logs (ex_system log rs) = [0 \<mapsto> log]" "page_rlog (ex_system log rs) = rs"
  "hash_of ex_env = ex_hash"
  by (simp_all add: ex_system_def ex_env_def ex_kernel_def)

lemma ex_look0: "rl_look ex_hash ex_rs0 page = None"
  by (simp add: rl_look_def find_rlog_def sht_find_entry_def ex_rs0_def ex_rs_def SHASHTABLE_UNINIT_def)

lemma ex_look1: "rl_look ex_hash ex_rs1 page = (if page = 4096 then Some 0 else None)"
  using rl_look_add [OF ex_pages_inv ex_pages_fresh, of 0 page] ex_look0 [of page]
  by (simp add: ex_rs1_def ex_rs0_def)

lemma ex_inv0: "lr_inv ex_hash (\<lambda>_. 7) {} ex_rs0 ex_log0"
proof -
  have "log_inv ex_log0" by (simp add: ex_log0_def log_init_inv)
  moreover have "\<not> live ex_log0 q" for q
    by (simp add: ex_log0_def live_def log_init_def log_add_tran_def)
  moreover have "rl_inv ex_hash ex_rs0" using ex_pages_inv by (simp add: ex_rs0_def)
  ultimately show ?thesis by (simp add: lr_inv_def linked_def backed_def ex_look0)
qed

lemma ex_log1_live: "live ex_log1 q \<longleftrightarrow> q = 0" "L_ENT ex_log1 q = ex_data" "log_inv ex_log1"
proof -
  have "unat q = 0 \<longleftrightarrow> q = 0" by (simp add: unsigned_eq_0_iff)
  then show "live ex_log1 q \<longleftrightarrow> q = 0" by (simp add: live_def ex_log1_def ex_log_def off_def)
  show "L_ENT ex_log1 q = ex_data" by (simp add: ex_log1_def L_ENT_def)
  show "log_inv ex_log1"
    by (simp add: ex_log1_def ex_log_def log_inv_def log_tail_tran_def is_tran_open_def new_tran_def
        pend_def off_def)
qed

lemma ex_data_views: "is_data ex_data" "le_page ex_data = 4096" "le_ino ex_data = 7" "le_pgi ex_data = 1"
    "le_ver ex_data = 1"
  by (simp_all add: is_data_def ex_data_def le_inval_def le_ino_def LE_INVAL_INO_def
      le_meta_def LE_META_SETTER_exp le_page_def le_pgi_def LE_PGI_SHIFT_def le_ver_def LE_PGI_MASK_def
      drop_bit_eq_div)

lemma ex_pages1: "r_pages ex_rs1 = [4096 \<mapsto> ex_page\<lparr>p_count := 2\<rparr>]"
    "r_rlogs ex_rs1 = [512 \<mapsto> \<lparr>rl_page = 4096, rl_enti = 0\<rparr>]"
  by (simp_all add: ex_rs1_def rl_add_def assoc_rlog_def get_page_def ex_rs0_def ex_page_def ex_rs_def)
    (simp add: numeral_2_eq_2)

lemma ex_inv1: "lr_inv ex_hash (\<lambda>_. 7) {} ex_rs1 ex_log1"
proof -
  have "rl_inv ex_hash ex_rs1"
    using rl_add_inv [OF ex_pages_inv ex_pages_fresh] by (simp add: ex_rs1_def ex_rs0_def)
  then show ?thesis
    using ex_log1_live ex_data_views
    by (auto simp: lr_inv_def linked_def backed_def ex_look1 describes_def ex_pages1 ex_page_def split: if_splits)
qed

lemma ex_alloc:
  "alloc_ok ex_env (ex_system log ex_rs0)" "alloc_ok ex_env (ex_system log ex_rs1)"
  by (simp_all add: alloc_ok_def ex_env_def ex_pages1 ex_rs0_def ex_rs_def)

lemma ex_ready0: "write_ready ex_env (\<lambda>_. 7) (ex_system ex_log0 ex_rs0) ex_log0 ex_host 4096 ex_page"
  using ex_inv0 ex_alloc(1)
  by (simp add: write_ready_def ex_look0)
    (simp add: page_of_def ex_rs0_def ex_page_def ex_host_def LE_INVAL_INO_def ex_log0_def log_init_def
      log_add_tran_def)

lemma ex_ready1:
  "write_ready ex_env (\<lambda>_. 7) (ex_system ex_log1 ex_rs1) ex_log1 ex_host 4096 (ex_page\<lparr>p_count := 2\<rparr>)"
  using ex_inv1 ex_alloc(2)
  by (simp add: write_ready_def ex_look1 ex_log1_live ex_data_views L_NULL_def)
    (simp add: page_of_def ex_pages1 ex_page_def ex_host_def LE_INVAL_INO_def ex_log1_def ex_log_def off_def)

theorem page_write_logged_witness:
  "\<exists>rl S1 S2 log2. adafs_try_assoc_rlog ex_env ex_host 4096 (ex_system ex_log1 ex_rs1) = Inr (rl, S1) \<and>
     adafs_try_append_log ex_env ex_host rl 0 100 S1 = Some (Inr (0, S2)) \<and>
     adafs_logs S2 = [0 \<mapsto> log2] \<and>
     logged ex_hash (page_rlog S2) log2 ex_host 4096 (ex_page\<lparr>p_count := 2\<rparr>) 100"
proof -
  have "(0 :: u64) + 100 < 2 ^ 16" by simp
  from page_write_logged [OF ex_ready1 this] data_copied_refl show ?thesis by simp blast
qed

text \<open>
  C7.  Copy-on-write keeps the sealed snapshot.  A write to a page whose entry is sealed and not yet
  flushed moves that entry to a copy of the page with the same data, index and mapping, before the
  page is modified; file, page index, version and length of the entry and all other live entries are
  unchanged, and the page itself is left as it was.
\<close>

theorem cow_keeps_snapshot:
  assumes "write_ready E g S log host page p"
    and "rl_look (hash_of E) (page_rlog S) page = Some e" and "seq_less e (l_head log)"
  shows "\<exists>rl S1 log1 cpage cp. adafs_try_assoc_rlog E host page S = Inr (rl, S1) \<and>
    adafs_logs S1 = [0 \<mapsto> log1] \<and> r_pages (page_rlog S1) page = Some p \<and>
    cpage \<noteq> page \<and> r_pages (page_rlog S1) cpage = Some cp \<and> p_data cp = p_data p \<and>
    p_index cp = p_index p \<and> p_mapping cp = p_mapping p \<and> p_count cp = 2 \<and>
    le_page (L_ENT log1 e) = cpage \<and> le_ino (L_ENT log1 e) = le_ino (L_ENT log e) \<and>
    le_pgi (L_ENT log1 e) = le_pgi (L_ENT log e) \<and> le_ver (L_ENT log1 e) = le_ver (L_ENT log e) \<and>
    le_len (L_ENT log1 e) = le_len (L_ENT log e) \<and> le_cow (L_ENT log1 e) \<and>
    rl_look (hash_of E) (page_rlog S1) cpage = Some e \<and>
    (\<forall>q. live log q \<longrightarrow> q \<noteq> e \<longrightarrow> L_ENT log1 q = L_ENT log q)"
proof -
  let ?h = "hash_of E" and ?cp = "page_cache_alloc_cold E S"
  let ?le = "le_set_cow (le_set_ref (L_ENT log e) ?cp)"
  have w': "adafs_logs S = [0 \<mapsto> log]" "lr_inv ?h g {} (page_rlog S) log" "alloc_ok E S"
      "page_of g (page_rlog S) host page p" "e \<noteq> L_NULL"
    using assms(1,2) by (auto simp: write_ready_def)
  have q: "live log e" using lr_invD(5) [OF w'(2) assms(2) w'(5)] by simp
  have c: "le_cow ?le" by (simp add: le_cow_bits bit_le_set_cow)
  from try_assoc_cow [OF w'(1-4) assms(2) w'(5) assms(3) refl refl] obtain rl rs1 where
    a: "adafs_try_assoc_rlog E host page S =
        Inr (rl, log_put_at (S\<lparr>page_rlog := rs1\<rparr>) 0 (L_ENT_upd log e ?le))"
      "r_pages rs1 = (r_pages (page_rlog S))(?cp \<mapsto> p\<lparr>p_count := 2\<rparr>)"
      "rl_look ?h rs1 = (rl_look ?h (page_rlog S))(?cp \<mapsto> e)" "?cp \<noteq> page" by blast
  let ?log = "L_ENT_upd log e ?le"
  have L: "L_ENT ?log e = ?le" "\<And>q. live log q \<Longrightarrow> q \<noteq> e \<Longrightarrow> L_ENT ?log q = L_ENT log q"
    using L_ENT_live [OF lr_invD(1) [OF w'(2)] q, of _ ?le] by (simp_all add: L_ENT_upd_same)
  show ?thesis
    using w'(1,4) c a L
    by (intro exI [of _ rl] exI [of _ "log_put_at (S\<lparr>page_rlog := rs1\<rparr>) 0 ?log"] exI [of _ ?log]
        exI [of _ ?cp] exI [of _ "p\<lparr>p_count := 2\<rparr>"]) (simp add: log_put_at_def page_of_def)
qed

theorem cow_keeps_snapshot_witness:
  "\<exists>rl S1 log1. adafs_try_assoc_rlog ex_env ex_host 4096 (ex_system ex_log1 ex_rs1) = Inr (rl, S1) \<and>
     adafs_logs S1 = [0 \<mapsto> log1] \<and> le_page (L_ENT log1 0) \<noteq> 4096 \<and> le_cow (L_ENT log1 0)"
proof -
  have "rl_look (hash_of ex_env) (page_rlog (ex_system ex_log1 ex_rs1)) 4096 = Some 0"
      "seq_less 0 (l_head ex_log1)"
    by (simp_all add: ex_look1 seq_less_def ex_log1_def ex_log_def)
  from cow_keeps_snapshot [OF ex_ready1 this] show ?thesis by blast
qed

end
