(* ===== verification/Hooks_Truncate.thy ===== *)
theory Hooks_Truncate
  imports Hooks_Write
begin

text \<open>
  Correctness of \<open>adafs_truncate_hook\<close> and \<open>adafs_evict_inode_hook\<close> of \<^verbatim>\<open>ada_fs.h\<close>:
  the backward loop over the ring refines a pass over the list of entries, newest first.
\<close>

section \<open>Specification and refinement\<close>

text \<open>
  What truncation does to the entries, newest first: the ones of the file in the page range become
  invalid, down to the entry that records the creation of the file, which becomes invalid too.
\<close>

definition truncate_entry :: "u64 \<Rightarrow> u64 \<Rightarrow> u64 \<Rightarrow> log_entry \<Rightarrow> log_entry" where
  "truncate_entry ino start end le =
     (if \<not> le_inval le \<and> le_ino le = ino \<and> start \<le> le_pgi le \<and> le_pgi le \<le> end
      then le_set_inval le else le)"

definition creation_of :: "u64 \<Rightarrow> log_entry \<Rightarrow> bool" where
  "creation_of ino le \<longleftrightarrow> \<not> le_inval le \<and> le_ino le = ino \<and> le_meta le"

fun truncated :: "u64 \<Rightarrow> u64 \<Rightarrow> u64 \<Rightarrow> log_entry list \<Rightarrow> log_entry list" where
  "truncated ino start end [] = []"
| "truncated ino start end (le # les) =
     (if creation_of ino le then le_set_inval le # les
      else truncate_entry ino start end le # truncated ino start end les)"

lemma truncated_append:
  "\<forall>le\<in>set xs. \<not> creation_of ino le \<Longrightarrow>
   truncated ino start end (xs @ ys) = map (truncate_entry ino start end) xs @ truncated ino start end ys"
  by (induction xs) simp_all

lemma length_truncated [simp]: "length (truncated ino start end les) = length les"
  by (induction les) simp_all

lemma window_upd_end:
  assumes "log_inv log" and "live log (l_begin log + of_nat n)" and "n < 32768"
  shows "window (L_ENT_upd log (l_begin log + of_nat n) le) (l_begin log) n = window log (l_begin log) n"
  by (rule nth_equalityI) (use assms in \<open>simp_all add: entry_simps\<close>)

lemma window_cong: "(\<And>i. i < n \<Longrightarrow> L_ENT log (b + of_nat i) = L_ENT log' (b + of_nat i)) \<Longrightarrow>
    window log b n = window log' b n"
  by (simp add: window_def)

lemma truncate_loop_list:
  assumes "lr_inv h g {} rs log" and "n \<le> off (l_begin log) (l_end log)"
  shows "\<exists>log' rs'. truncate_loop h ino start end log rs (l_begin log + of_nat n - 1) = Inr (log', rs') \<and>
    lr_inv h g {} rs' log' \<and> l_begin log' = l_begin log \<and> l_head log' = l_head log \<and>
    l_end log' = l_end log \<and>
    rev (window log' (l_begin log) n) = truncated ino start end (rev (window log (l_begin log) n)) \<and>
    (\<forall>q. n \<le> off (l_begin log) q \<and> live log q \<longrightarrow> L_ENT log' q = L_ENT log q)"
  using assms
proof (induction n arbitrary: log rs)
  case 0
  have "\<not> seq_ng (l_begin log) (l_begin log - 1)" by (simp add: seq_ng_def)
  with 0 show ?case by (subst truncate_loop.simps) (simp add: window_def)
next
  case (Suc n)
  note d = lr_invD [OF Suc.prems(1)]
  let ?b = "l_begin log" and ?q = "l_begin log + of_nat n"
  let ?le = "L_ENT log ?q"
  let ?P = "\<lambda>m log1 log' rs'. lr_inv h g {} rs' log' \<and> l_begin log' = ?b \<and> l_head log' = l_head log \<and>
    l_end log' = l_end log \<and> rev (window log' ?b m) = truncated ino start end (rev (window log1 ?b m)) \<and>
    (\<forall>q. m \<le> off ?b q \<and> live log q \<longrightarrow> L_ENT log' q = L_ENT log1 q)"
  have n: "n < 32768" using Suc.prems(2) log_inv_pend(3) [OF d(1)] by simp
  have o: "off ?b ?q = n" using n by (simp add: off_add)
  have q: "live log ?q" using Suc.prems(2) by (simp add: live_def o)
  have i: "?b + of_nat (Suc n) - 1 = ?q" by simp
  have ng: "seq_ng ?b ?q" using seq_off(2) [of ?b ?b ?q] n by (simp add: o)
  have w: "rev (window l ?b (Suc n)) = L_ENT l ?q # rev (window l ?b n)" for l by (simp add: window_Suc)
  have IH: "\<exists>log' rs'. truncate_loop h ino start end log1 rs1 (?q - 1) = Inr (log', rs') \<and> ?P n log1 log' rs'"
    if "lr_inv h g {} rs1 log1" "l_begin log1 = ?b" "l_head log1 = l_head log" "l_end log1 = l_end log" for log1 rs1
    using Suc.IH [OF that(1)] that(2-) Suc.prems(2) by (simp add: live_def)
  have keep: "?case" if s: "truncate_loop h ino start end log rs ?q = truncate_loop h ino start end log rs (?q - 1)"
    and e: "\<not> creation_of ino ?le" "truncate_entry ino start end ?le = ?le"
  proof -
    from IH [OF Suc.prems(1)] obtain log' rs' where
      r: "truncate_loop h ino start end log rs (?q - 1) = Inr (log', rs')" "?P n log log' rs'" by auto
    with q o have "L_ENT log' ?q = ?le" by simp
    with r e s show ?thesis unfolding w i
      by (intro exI [of _ log'] exI [of _ rs']) simp
  qed
  show ?case
  proof (cases "le_inval ?le \<or> le_ino ?le \<noteq> ino")
    case True
    then show ?thesis
      by (intro keep) (use ng in \<open>auto simp: truncate_loop.simps [of h ino start "end" log rs ?q] Let_def
        creation_of_def truncate_entry_def\<close>)
  next
    case valid: False
    show ?thesis
    proof (cases "le_meta ?le")
      case True
      have c: "creation_of ino ?le" using True valid by (simp add: creation_of_def)
      have nd: "\<not> is_data ?le" using True by (simp add: is_data_def)
      let ?log = "L_ENT_upd log ?q (le_set_inval ?le)"
      have "truncate_loop h ino start end log rs ?q = Inr (?log, rs)"
        using ng valid True by (subst truncate_loop.simps) (simp add: Let_def)
      moreover have "lr_inv h g {} rs ?log" by (rule lr_inv_nondata [OF Suc.prems(1) q nd]) simp
      moreover have "L_ENT ?log r = L_ENT log r" if "Suc n \<le> off ?b r" "live log r" for r
        using L_ENT_live [OF d(1) q that(2), of "le_set_inval ?le"] that(1) o by auto
      ultimately show ?thesis unfolding i w using c window_upd_end [OF d(1) q n]
        by (intro exI [of _ ?log] exI [of _ rs]) (simp add: L_ENT_upd_same)
    next
      case data: False
      show ?thesis
      proof (cases "start \<le> le_pgi ?le \<and> le_pgi ?le \<le> end")
        case True
        let ?inv = "le_set_inval ?le"
        let ?log1 = "L_ENT_upd log ?q ?inv"
        let ?log = "on_evict_page ?log1 (le_len (L_ENT ?log1 ?q))" and ?rs = "rl_del h rs (le_page ?le)"
        have isd: "is_data ?le" using valid data by (simp add: is_data_def)
        have "evict_entry h rs (L_ENT ?log1 ?q) = Inr ?rs"
          using evict_entry_del [OF d(2)] by (simp add: L_ENT_upd_same le_page_def le_set_inval_def le_set_ino_def)
        then have s: "truncate_loop h ino start end log rs ?q = truncate_loop h ino start end ?log ?rs (?q - 1)"
          using ng valid data True by (simp add: truncate_loop.simps [of h ino start "end" log rs ?q] Let_def)
        have "lr_inv h g {} ?rs ?log1" by (rule lr_inv_evict [OF Suc.prems(1) q isd]) simp
        then have "lr_inv h g {} ?rs ?log"
          by (rule lr_inv_same) (simp_all add: on_evict_page_inv log_entry_inv d(1))
        from IH [OF this] obtain log' rs' where
          r: "truncate_loop h ino start end ?log ?rs (?q - 1) = Inr (log', rs')" "?P n ?log log' rs'" by auto
        have "window ?log ?b n = window log ?b n"
          using window_upd_end [OF d(1) q n, of ?inv] by (simp add: window_def)
        moreover have "L_ENT log' ?q = ?inv" using r(2) q o by (simp add: L_ENT_upd_same)
        moreover have "\<not> creation_of ino ?le" "truncate_entry ino start end ?le = ?inv"
          using data valid True by (simp_all add: creation_of_def truncate_entry_def)
        moreover have "L_ENT log' x = L_ENT log x" if "Suc n \<le> off ?b x" "live log x" for x
          using r(2) that L_ENT_live [OF d(1) q that(2), of ?inv] o by auto
        ultimately show ?thesis unfolding i w s using r
          by (intro exI [of _ log'] exI [of _ rs']) simp
      next
        case False
        with valid data show ?thesis
          by (intro keep) (use ng in \<open>auto simp: truncate_loop.simps [of h ino start "end" log rs ?q] Let_def
            creation_of_def truncate_entry_def\<close>)
      qed
    qed
  qed
qed

lemma sys_invD:
  assumes "adafs_logs S = [0 \<mapsto> log]" and "sys_inv E g S"
  shows "lr_inv (hash_of E) g {} (page_rlog S) log"
  using assms by (auto simp: sys_inv_def fun_upd_def fun_eq_iff split: if_splits)

lemma truncate_hook_list:
  assumes l: "adafs_logs S = [0 \<mapsto> log]" and i: "lr_inv (hash_of E) g {} (page_rlog S) log"
    and h: "i_private inode = 0"
    and se: "start = drop_bit PAGE_CACHE_SHIFT (lstart + PAGE_CACHE_SIZE - 1)"
      "end = signed_drop_bit PAGE_CACHE_SHIFT lend"
  shows "\<exists>S' log'. adafs_truncate_hook E inode lstart lend S = Inr S' \<and> adafs_logs S' = [0 \<mapsto> log'] \<and>
    sys_inv E g S' \<and> rev (log_list log') = truncated (i_ino inode) start end (rev (log_list log)) \<and>
    l_begin log' = l_begin log \<and> l_head log' = l_head log \<and> l_end log' = l_end log"
proof -
  let ?n = "off (l_begin log) (l_end log)"
  have "l_begin log + of_nat ?n - 1 = l_end log - 1" by simp
  with truncate_loop_list [OF i order.refl, of "i_ino inode" start "end"] obtain log' rs' where
    r: "truncate_loop (hash_of E) (i_ino inode) start end log (page_rlog S) (l_end log - 1) = Inr (log', rs')"
      "lr_inv (hash_of E) g {} rs' log'" "l_begin log' = l_begin log" "l_head log' = l_head log"
      "l_end log' = l_end log"
      "rev (window log' (l_begin log) ?n) = truncated (i_ino inode) start end (rev (window log (l_begin log) ?n))"
    by auto
  let ?S = "log_put_at (S\<lparr>page_rlog := rs'\<rparr>) 0 log'"
  have "adafs_truncate_hook E inode lstart lend S = Inr ?S"
    using l h r(1) by (simp add: adafs_truncate_hook_def Let_def log_at_def MAX_LOG_NUM_def se)
  moreover have "adafs_logs ?S = [0 \<mapsto> log']" using l by (simp add: log_put_at_def)
  moreover have "sys_inv E g ?S"
    using r(2) calculation(2) by (intro sys_invI [of _ log']) (simp_all add: log_put_at_def)
  ultimately show ?thesis using r(3-) by (auto simp: log_list_def)
qed

text \<open>
  C11.  Truncation refines a pass over the entries from the newest to the oldest that invalidates the
  entries of the file in the page range and stops at, and invalidates, the record of the file's
  creation.  It keeps the coupling invariant: exactly the pages of the invalidated entries lose their
  rlogs.  It never faults and does not move the window.
\<close>

theorem truncate_refines:
  assumes "adafs_logs S = [0 \<mapsto> log]" and "sys_inv E g S" and "i_private inode = 0"
  shows "\<exists>S' log'. adafs_truncate_hook E inode lstart lend S = Inr S' \<and> adafs_logs S' = [0 \<mapsto> log'] \<and>
    sys_inv E g S' \<and>
    rev (log_list log') = truncated (i_ino inode) (drop_bit PAGE_CACHE_SHIFT (lstart + PAGE_CACHE_SIZE - 1))
      (signed_drop_bit PAGE_CACHE_SHIFT lend) (rev (log_list log)) \<and>
    l_begin log' = l_begin log \<and> l_head log' = l_head log \<and> l_end log' = l_end log"
proof -
  have "lr_inv (hash_of E) g {} (page_rlog S) log" using assms(1,2) by (rule sys_invD)
  from truncate_hook_list [OF assms(1) this assms(3) refl refl] show ?thesis .
qed

text \<open>
  C14.  Evicting an inode forgets it and nothing else.  Take the entries \<open>newer\<close> behind the newest record
  of the file's creation, or all entries if the log has no such record: exactly the valid entries of
  the file among them become invalid, whatever their page index, and every entry of another file
  stays as it was; the creation record becomes invalid; and all entries older than that record,
  of whatever file, stay exactly as they were.  The coupling invariant holds afterwards.
\<close>

theorem evict_inode_forgets:
  assumes "adafs_logs S = [0 \<mapsto> log]" and "sys_inv E g S" and "i_private inode = 0"
    and "log_list log = older @ newer" and "\<forall>le\<in>set newer. \<not> creation_of (i_ino inode) le"
    and "older \<noteq> [] \<longrightarrow> creation_of (i_ino inode) (last older)"
  shows "\<exists>S' log'. adafs_evict_inode_hook E inode S = Inr S' \<and> adafs_logs S' = [0 \<mapsto> log'] \<and>
    sys_inv E g S' \<and>
    log_list log' = (if older = [] then [] else butlast older @ [le_set_inval (last older)]) @
      map (\<lambda>le. if \<not> le_inval le \<and> le_ino le = i_ino inode then le_set_inval le else le) newer"
proof -
  have i: "lr_inv (hash_of E) g {} (page_rlog S) log" using assms(1,2) by (rule sys_invD)
  have z: "drop_bit PAGE_CACHE_SHIFT (0 + PAGE_CACHE_SIZE - 1) = 0"
    by (simp add: PAGE_CACHE_SHIFT_def PAGE_CACHE_SIZE_def drop_bit_eq_div)
  have m: "signed_drop_bit PAGE_CACHE_SHIFT (- 1 :: u64) = - 1" by (rule bit_eqI) (simp add: bit_simps)
  have e: "truncate_entry (i_ino inode) 0 (- 1) =
      (\<lambda>le. if \<not> le_inval le \<and> le_ino le = i_ino inode then le_set_inval le else le)"
    by (auto simp: truncate_entry_def fun_eq_iff)
  from truncate_hook_list [OF assms(1) i assms(3) refl refl, of 0 "- 1"] obtain S' log' where
    t: "adafs_evict_inode_hook E inode S = Inr S'" "adafs_logs S' = [0 \<mapsto> log']" "sys_inv E g S'"
      "rev (log_list log') = truncated (i_ino inode) 0 (- 1) (rev (log_list log))"
    unfolding z m adafs_evict_inode_hook_def by auto
  let ?older = "if older = [] then [] else butlast older @ [le_set_inval (last older)]"
  have o: "truncated (i_ino inode) 0 (- 1) (rev older) = rev ?older"
    using assms(6) by (cases older rule: rev_cases) auto
  have "rev (log_list log') = rev (?older @ map (truncate_entry (i_ino inode) 0 (- 1)) newer)"
    unfolding t(4) assms(4) rev_append using assms(5)
    by (simp only: truncated_append [of "rev newer"] set_rev o rev_map [symmetric])
  then have "log_list log' = ?older @ map (truncate_entry (i_ino inode) 0 (- 1)) newer" by (simp only: rev_is_rev_conv)
  with t(1-3) show ?thesis unfolding e by blast
qed

lemma ex_sys_inv: "sys_inv ex_env (\<lambda>_. 7) (ex_system ex_log1 ex_rs1)"
  using ex_inv1 by (intro sys_invI [of _ ex_log1]) simp_all

lemma ex_log1_list: "log_list ex_log1 = [] @ [ex_data]" "i_private ex_host = 0"
    "\<forall>le\<in>set [ex_data]. \<not> creation_of (i_ino ex_host) le"
  using ex_data_views(1)
  by (simp_all add: log_list_def window_def ex_log1_live(2) ex_host_def creation_of_def is_data_def)
    (simp add: ex_log1_def ex_log_def off_def)

theorem truncate_refines_witness:
  "\<exists>S' log'. adafs_truncate_hook ex_env ex_host 4096 8191 (ex_system ex_log1 ex_rs1) = Inr S' \<and>
     adafs_logs S' = [0 \<mapsto> log'] \<and> log_list log' = [le_set_inval ex_data]"
proof -
  have "sint (signed_drop_bit 12 (8191 :: u64)) = sint (1 :: u64)"
    by (simp add: sint_signed_drop_bit_eq drop_bit_eq_div)
  then have r: "drop_bit PAGE_CACHE_SHIFT (4096 + PAGE_CACHE_SIZE - 1) = 1"
      "signed_drop_bit PAGE_CACHE_SHIFT (8191 :: u64) = 1"
    by (simp_all only: signed_word_eqI PAGE_CACHE_SHIFT_def) (simp add: PAGE_CACHE_SHIFT_def PAGE_CACHE_SIZE_def drop_bit_eq_div)
  have "truncated (i_ino ex_host) 1 1 (rev (log_list ex_log1)) = [le_set_inval ex_data]"
    using ex_data_views by (simp add: ex_log1_list creation_of_def truncate_entry_def is_data_def) (simp add: ex_host_def)
  with truncate_refines [OF ex_sys_fields(1) ex_sys_inv ex_log1_list(2), of 4096 8191] show ?thesis
    unfolding r by (auto simp: rev_eq_Cons_iff)
qed

theorem evict_inode_forgets_witness:
  "\<exists>S' log'. adafs_evict_inode_hook ex_env ex_host (ex_system ex_log1 ex_rs1) = Inr S' \<and>
     adafs_logs S' = [0 \<mapsto> log'] \<and> log_list log' = [le_set_inval ex_data]"
proof -
  have "\<not> le_inval ex_data \<and> le_ino ex_data = i_ino ex_host"
    using ex_data_views by (simp add: is_data_def ex_host_def)
  moreover have "[] \<noteq> ([] :: log_entry list) \<longrightarrow> creation_of (i_ino ex_host) (last [])" by simp
  ultimately show ?thesis
    using evict_inode_forgets [OF ex_sys_fields(1) ex_sys_inv ex_log1_list(2,1,3)] by auto
qed

end
