(* ===== verification/Hooks_Errors.thy ===== *)
theory Hooks_Errors
  imports Hooks_Truncate
begin

text \<open>
  The creation of inodes, and the writes that do not finish: what an interrupted wait leaves behind,
  and what the next write makes of it.
\<close>

section \<open>Creation of inodes\<close>

lemma lr_inv_append_nondata:
  assumes i: "lr_inv h g X rs log" and room: "off (l_begin log) (l_end log) < 32768" and le: "\<not> is_data le"
    and log': "log' = (L_ENT_upd log (l_end log) le)\<lparr>l_end := l_end log + 1\<rparr>"
  shows "lr_inv h g X rs log'"
proof -
  note d = lr_invD [OF i]
  note L = live_append [OF d(1) room log']
  have "log_append log le = (0, Some (l_end log), log')"
    using room by (simp add: log_append_def seq_dist_off log')
  then have li: "log_inv log'" by (rule log_append_inv [OF d(1)])
  have nl: "\<not> live log (l_end log)" by (simp add: live_def)
  have "linked h g rs log'"
    unfolding linked_def
  proof (intro allI impI)
    fix q assume q: "live log' q \<and> is_data (L_ENT log' q)"
    with L(2) [of q] le have "q \<noteq> l_end log" by auto
    with q L [of q] d(3,4) [of q]
    show "rl_look h rs (le_page (L_ENT log' q)) = Some q \<and> describes g rs (L_ENT log' q)" by simp
  qed
  moreover have "backed h X rs log'"
    unfolding backed_def
  proof (intro allI impI)
    fix page q assume "rl_look h rs page = Some q \<and> q \<noteq> L_NULL \<and> page \<notin> X"
    then have "live log q \<and> is_data (L_ENT log q) \<and> le_page (L_ENT log q) = page" using d(5) by blast
    with nl L [of q] show "live log' q \<and> is_data (L_ENT log' q) \<and> le_page (L_ENT log' q) = page" by auto
  qed
  ultimately show ?thesis using li d(2) by (simp add: lr_inv_def)
qed

text \<open>
  C16.  Creating a regular file in a directory puts the file in the directory's log and appends the
  record of its creation there; the rest of the log is unchanged and the coupling invariant holds.
\<close>

theorem new_inode_logged:
  assumes "adafs_logs S = [0 \<mapsto> log]" and "sys_inv E g S" and "i_private dir = 0" and "S_ISREG mode"
    and "length (log_list log) < 32768" and "i_ino new \<noteq> LE_INVAL_INO"
  shows "\<exists>S' log' le. adafs_new_inode_hook E (Some dir) new mode S = Some (Inr (new\<lparr>i_private := 0\<rparr>, S')) \<and>
    adafs_logs S' = [0 \<mapsto> log'] \<and> sys_inv E g S' \<and> log_list log' = log_list log @ [le] \<and>
    creation_of (i_ino new) le"
proof -
  let ?le = "le_set_meta (le_set_ino LE_INITIALIZER (i_ino new))"
  let ?log = "(L_ENT_upd log (l_end log) ?le)\<lparr>l_end := l_end log + 1\<rparr>"
  have i: "lr_inv (hash_of E) g {} (page_rlog S) log" by (rule sys_invD [OF assms(1,2)])
  have m: "le_meta ?le" by (simp add: le_meta_def le_set_meta_def LE_META_SETTER_exp LE_INITIALIZER_def le_set_ino_def)
  have room: "off (l_begin log) (l_end log) < 32768" using assms(5) by (simp add: log_list_length)
  have "log_at S 0 = Inr log" using assms(1) by (simp add: log_at_def MAX_LOG_NUM_def)
  note aw = append_wait_room [OF this room, of E ?le L_NULL]
  let ?S = "log_put_at S 0 ?log"
  have "adafs_new_inode_hook E (Some dir) new mode S = Some (Inr (new\<lparr>i_private := 0\<rparr>, ?S))"
    using aw assms(3,4) by (simp add: adafs_new_inode_hook_def Let_def)
  moreover have l: "adafs_logs ?S = [0 \<mapsto> ?log]" using assms(1) by (simp add: log_put_at_def)
  moreover have "sys_inv E g ?S"
    using lr_inv_append_nondata [OF i room _ refl, of ?le] m
    by (intro sys_invI [OF l]) (simp add: is_data_def log_put_at_def)
  moreover have "log_list ?log = log_list log @ [?le]" by (rule log_append_list [OF room])
  moreover have "creation_of (i_ino new) ?le"
    using m assms(6) by (simp add: creation_of_def le_inval_def le_ino_def le_set_meta_def)
  ultimately show ?thesis by blast
qed

theorem new_inode_logged_witness:
  "\<exists>S' log' le. adafs_new_inode_hook ex_env (Some ex_host) (ex_host\<lparr>i_ino := 8\<rparr>) 0x81A4 (ex_system ex_log1 ex_rs1) =
       Some (Inr (ex_host\<lparr>i_ino := 8, i_private := 0\<rparr>, S')) \<and>
     adafs_logs S' = [0 \<mapsto> log'] \<and> log_list log' = [ex_data, le] \<and> creation_of 8 le"
proof -
  have "S_ISREG 0x81A4" "length (log_list ex_log1) < 32768" "i_ino (ex_host\<lparr>i_ino := 8\<rparr>) \<noteq> LE_INVAL_INO"
    by (simp_all add: S_ISREG_def ex_log1_list LE_INVAL_INO_def)
  from new_inode_logged [OF ex_sys_fields(1) ex_sys_inv ex_log1_list(2) this] show ?thesis
    by (auto simp: ex_log1_list(1))
qed

section \<open>Writes that do not finish\<close>

text \<open>
  C34.  A write that is interrupted while it waits for room in a full log is reported as logged although
  it is not, both for a page that is new to the log and for one whose entry is sealed.  Whatever
  happened to the log and to the reverse map during the wait, as long as the log and the page's rlog
  are still there: \<open>adafs_try_append_log\<close> returns 0, the log has exactly the entries that the
  wait left in it, and the page's rlog, whatever entry it named, now names none (\<open>L_NULL\<close>).
\<close>

theorem interrupted_write_unlogged:
  assumes "adafs_logs S = [0 \<mapsto> log]" and "i_private host = 0" and "length (log_list log) = 32768"
    and "r_rlogs (page_rlog S) rl = Some r" and "rl_enti r = L_NULL \<or> \<not> seq_ng (l_head log) (rl_enti r)"
    and "r_pages (page_rlog S) (rl_page r) = Some p"
    and "wait_for_completion_interruptible E (wake_up_flusher (log_put_at S 0 (snd (log_seal log)))) = Inr (ret, S1)"
    and "ret < 0" and "adafs_logs S1 = [0 \<mapsto> log1]" and "rl_inv (hash_of E) (page_rlog S1)"
    and "r_rlogs (page_rlog S1) rl = Some r1"
  shows "\<exists>S2 log2. adafs_try_append_log E host rl offset copied S = Some (Inr (0, S2)) \<and>
    adafs_logs S2 = [0 \<mapsto> log2] \<and> log_list log2 = log_list log1 \<and>
    rl_look (hash_of E) (page_rlog S2) = (rl_look (hash_of E) (page_rlog S1))(rl_page r1 \<mapsto> L_NULL)"
proof -
  let ?h = "hash_of E"
  have full: "\<not> off (l_begin log) (l_end log) < 32768" using assms(3) by (simp add: log_list_length)
  have at: "log_at S 0 = Inr log" using assms(1) by (simp add: log_at_def MAX_LOG_NUM_def)
  have aw: "append_wait E 0 le L_NULL S = Some (Inr (L_NULL, S1))" for le
    using at full assms(7,8) by (subst append_wait.simps) (simp add: log_append_def seq_dist_off)
  from rl_set_enti_ok [OF assms(10,11), of L_NULL] obtain rs2 where
    e: "rl_set_enti (page_rlog S1) rl L_NULL = Inr rs2"
      "rl_look ?h rs2 = (rl_look ?h (page_rlog S1))(rl_page r1 \<mapsto> L_NULL)" by blast
  let ?S2 = "S1\<lparr>page_rlog := rs2\<rparr>"
  obtain wake log2 where w: "on_write_new_page (stal_limit_blocks ?S2) log1 copied = (wake, log2)" by fastforce
  then have l2: "log_list log2 = log_list log1"
    using new_page.react_list [of "stal_limit_blocks ?S2" log1 copied] by simp
  let ?S3 = "if wake then wake_up_flusher (log_put_at ?S2 0 log2) else log_put_at ?S2 0 log2"
  have "apply_policy ?S2 0 on_write_new_page copied = Inr ?S3"
    using w assms(9) by (simp add: apply_policy_def log_at_def MAX_LOG_NUM_def Let_def)
  then have "adafs_try_append_log E host rl offset copied S = Some (Inr (0, ?S3))"
    using assms(2,4,5,6) at aw e(1) unfolding adafs_try_append_log_def by (auto simp: Let_def)
  moreover have "adafs_logs ?S3 = [0 \<mapsto> log2]" "page_rlog ?S3 = rs2"
    using assms(9) by (simp_all add: wake_up_flusher_def log_put_at_def)
  ultimately show ?thesis using l2 e(2)
    by (intro exI [of _ ?S3] exI [of _ log2]) (simp only: simp_thms)
qed

text \<open>
  What a page left at \<open>L_NULL\<close> does to the log.  \<open>L_NULL\<close> is compared and used as a sequence number:
  the next write to such a page takes the copy-on-write branch and redirects the entry in the last
  slot of the log, whichever page it belongs to, to a copy of this page.  The entry keeps its file
  and page index, so the flusher would write the wrong data there.
\<close>

theorem unlogged_page_corrupts_slot:
  assumes "adafs_logs S = [0 \<mapsto> log]" and "sys_inv E g S" and "i_private host = 0" and "alloc_ok E S"
    and "r_pages (page_rlog S) page = Some p" and "rl_look (hash_of E) (page_rlog S) page = Some L_NULL"
    and "l_head log < 2 ^ 31 - 1" and "L_INDEX q = 32767"
  shows "\<exists>rl S1 log1 cpage cp. adafs_try_assoc_rlog E host page S = Inr (rl, S1) \<and>
    adafs_logs S1 = [0 \<mapsto> log1] \<and> r_pages (page_rlog S) cpage = None \<and>
    r_pages (page_rlog S1) cpage = Some cp \<and> p_data cp = p_data p \<and>
    L_ENT log1 q = le_set_cow (le_set_ref (L_ENT log q) cpage)"
proof -
  let ?h = "hash_of E" and ?rs = "page_rlog S" and ?cp = "page_cache_alloc_cold E S"
  have i: "rl_inv ?h ?rs" by (rule lr_invD(2) [OF sys_invD [OF assms(1,2)]])
  have slot: "L_INDEX L_NULL = 32767" by (simp add: L_INDEX_def LOG_MASK_def L_NULL_def)
  then have same: "L_ENT l L_NULL = L_ENT l q" for l using assms(8) by (simp add: L_ENT_def)
  from find_rlog_look(2) [OF i assms(6)] obtain rl where
    f: "find_rlog ?h ?rs page = Inr (Some rl)" "r_rlogs ?rs rl = Some \<lparr>rl_page = page, rl_enti = L_NULL\<rparr>" by blast
  have u: "uint (l_head log) < 2 ^ 31 - 1" using assms(7) by (simp add: word_less_def)
  have u0: "0 \<le> uint (l_head log)" by simp
  from u have u1: "uint (l_head log + 1) = uint (l_head log) + 1" by (simp add: uint_word_ariths)
  have "uint (l_head log + 1) \<noteq> 0" unfolding u1 using u0 by linarith
  then have "l_head log + 1 \<noteq> 0" by (metis unsigned_0)
  then have "uint (- (l_head log + 1)) = 2 ^ 32 - (uint (l_head log) + 1)"
    by (simp only: uint_minus_u32 u1 simp_thms)
  then have "sint (- (l_head log + 1)) < 0" using u
    by (simp only: sint_u32, simp) (use u0 in linarith)
  moreover have "L_NULL - l_head log = - (l_head log + 1)" by (simp add: L_NULL_def)
  ultimately have less: "seq_less L_NULL (l_head log)" by (simp only: seq_less_def)
  let ?rs1 = "?rs\<lparr>r_pages := (r_pages ?rs)(?cp \<mapsto> p\<lparr>p_count := 1\<rparr>)\<rparr>"
  let ?nrl = "rlog_malloc E (S\<lparr>page_rlog := ?rs1\<rparr>)"
  have n: "?nrl \<noteq> NULL" "?cp \<noteq> NULL" "r_pages ?rs ?cp = None" using assms(4) by (auto simp: alloc_ok_def)
  obtain rs2 where a: "assoc_rlog ?h ?rs1 ?nrl ?cp L_NULL = Inr rs2" "r_pages rs2 ?cp = Some (p\<lparr>p_count := 2\<rparr>)"
    using n(1) by (simp add: assoc_rlog_def get_page_def numeral_2_eq_2)
  let ?log = "L_ENT_upd log L_NULL (le_set_cow (le_set_ref (L_ENT log L_NULL) ?cp))"
  have "adafs_try_assoc_rlog E host page S = Inr (rl, log_put_at (S\<lparr>page_rlog := rs2\<rparr>) 0 ?log)"
    using assms(1,3,5) f less a(1) n(2)
    by (simp add: adafs_try_assoc_rlog_def Let_def log_at_def MAX_LOG_NUM_def cow_page_def)
  then show ?thesis using assms(1) n(3) a(2)
    by (intro exI [of _ rl] exI [of _ "log_put_at (S\<lparr>page_rlog := rs2\<rparr>) 0 ?log"] exI [of _ ?log]
        exI [of _ ?cp] exI [of _ "p\<lparr>p_count := 2\<rparr>"])
      (simp add: log_put_at_def flip: same, simp add: L_ENT_upd_same)
qed


definition ex_rs2 :: rstate where
  "ex_rs2 = rl_add ex_hash ex_rs0 512 4096 L_NULL"

lemma ex_inv2: "lr_inv ex_hash (\<lambda>_. 7) {} ex_rs2 ex_log0"
proof -
  have look: "rl_look ex_hash ex_rs2 page = (if page = 4096 then Some L_NULL else None)" for page
    using rl_look_add [OF ex_pages_inv ex_pages_fresh, of L_NULL page] ex_look0 [of page]
    by (simp add: ex_rs2_def ex_rs0_def)
  have "rl_inv ex_hash ex_rs2"
    using rl_add_inv [OF ex_pages_inv ex_pages_fresh] by (simp add: ex_rs2_def ex_rs0_def)
  then show ?thesis
    using ex_inv0 by (auto simp: lr_inv_def linked_def backed_def look ex_look0 split: if_splits)
qed


lemma ex_rs2_fields:
  "r_pages ex_rs2 = [4096 \<mapsto> ex_page\<lparr>p_count := 2\<rparr>]"
  "r_rlogs ex_rs2 = [512 \<mapsto> \<lparr>rl_page = 4096, rl_enti = L_NULL\<rparr>]"
  "rl_look ex_hash ex_rs2 4096 = Some L_NULL"
proof -
  show "rl_look ex_hash ex_rs2 4096 = Some L_NULL"
    using rl_look_add [OF ex_pages_inv ex_pages_fresh, of L_NULL 4096] by (simp add: ex_rs2_def ex_rs0_def)
qed (simp_all add: ex_rs2_def rl_add_def assoc_rlog_def get_page_def ex_rs0_def ex_page_def ex_rs_def,
    simp add: numeral_2_eq_2)

theorem unlogged_page_corrupts_slot_witness:
  "\<exists>rl S1 log1 cpage. adafs_try_assoc_rlog ex_env ex_host 4096 (ex_system ex_log0 ex_rs2) = Inr (rl, S1) \<and>
     adafs_logs S1 = [0 \<mapsto> log1] \<and> L_ENT log1 32767 = le_set_cow (le_set_ref (L_ENT ex_log0 32767) cpage)"
proof -
  have i: "sys_inv ex_env (\<lambda>_. 7) (ex_system ex_log0 ex_rs2)"
    using ex_inv2 by (intro sys_invI [of _ ex_log0]) simp_all
  have a: "alloc_ok ex_env (ex_system ex_log0 ex_rs2)"
    by (simp add: alloc_ok_def ex_env_def ex_rs2_fields)
  have h: "l_head ex_log0 < 2 ^ 31 - 1" "L_INDEX 32767 = 32767"
    by (simp_all add: ex_log0_def log_init_def log_add_tran_def L_INDEX_def LOG_MASK_def)
  have p: "r_pages (page_rlog (ex_system ex_log0 ex_rs2)) 4096 = Some (ex_page\<lparr>p_count := 2\<rparr>)"
      "rl_look (hash_of ex_env) (page_rlog (ex_system ex_log0 ex_rs2)) 4096 = Some L_NULL"
    by (simp_all add: ex_rs2_fields)
  from unlogged_page_corrupts_slot [OF ex_sys_fields(1) i ex_log1_list(2) a p h] show ?thesis by blast
qed

text \<open>
  A full log without valid entries whose first six are sealed; the page at 4096 is known by the sealed
  entry 5, and the wait is interrupted.
\<close>

definition ex_full :: adafs_log where
  "ex_full = \<lparr>l_entries = (\<lambda>_. le_set_inval LE_INITIALIZER), l_begin = 0, l_head = 6, l_end = 32768,
     l_trans = [new_tran]\<rparr>"

definition ex_rs3 :: rstate where
  "ex_rs3 = rl_add ex_hash ex_rs0 512 4096 5"

theorem interrupted_write_unlogged_witness:
  "\<exists>S2 log2. adafs_try_append_log ex_env ex_host 512 0 100 (ex_system ex_full ex_rs3) = Some (Inr (0, S2)) \<and>
     adafs_logs S2 = [0 \<mapsto> log2] \<and> log_list log2 = log_list ex_full \<and>
     rl_look ex_hash (page_rlog S2) 4096 = Some L_NULL"
proof -
  let ?S = "ex_system ex_full ex_rs3"
  let ?S1 = "wake_up_flusher (log_put_at ?S 0 (snd (log_seal ex_full)))"
  have f: "length (log_list ex_full) = 32768" by (simp add: log_list_length ex_full_def off_def)
  let ?r = "\<lparr>rl_page = 4096, rl_enti = 5\<rparr>"
  have rs: "r_rlogs ex_rs3 512 = Some ?r" "\<exists>p. r_pages ex_rs3 4096 = Some p" "rl_inv ex_hash ex_rs3"
    using rl_add_inv [OF ex_pages_inv ex_pages_fresh]
    by (simp_all add: ex_rs3_def rl_add_def assoc_rlog_def get_page_def ex_rs0_def)
  then obtain p where p: "r_pages (page_rlog ?S) (rl_page ?r) = Some p" by auto
  have r: "r_rlogs (page_rlog ?S) 512 = Some ?r" "rl_enti ?r = L_NULL \<or> \<not> seq_ng (l_head ex_full) (rl_enti ?r)"
    using rs(1) by (simp_all add: seq_ng_def ex_full_def)
  have w: "wait_for_completion_interruptible ex_env ?S1 = Inr (- 4, ?S1)" "(- 4 :: int) < 0" by (simp_all add: ex_env_def)
  have s1: "adafs_logs ?S1 = [0 \<mapsto> snd (log_seal ex_full)]" "page_rlog ?S1 = ex_rs3"
    by (simp_all add: wake_up_flusher_def log_put_at_def)
  have i: "rl_inv (hash_of ex_env) (page_rlog ?S1)" "r_rlogs (page_rlog ?S1) 512 = Some ?r"
    using rs by (simp_all add: s1)
  from interrupted_write_unlogged [OF ex_sys_fields(1) ex_log1_list(2) f r p w s1(1) i, of 0 100]
  show ?thesis by auto
qed

end
