(* ===== verification/Flusher.thy ===== *)
theory Flusher
  imports Ada_File Hooks_Errors
begin

text \<open>
  The flusher thread of \<^verbatim>\<open>ada_file.c\<close>: every round ends, a flush of a sealed log empties it, and a writer
  that waits for room in a full log gets it from one round.
\<close>

section \<open>The flusher thread ends its rounds\<close>

lemma flush_group_ends:
  "flush_group K ops st b end = Inr (err, e, st') \<Longrightarrow>
   l_head (s_log st') = l_head (s_log st) \<and> l_end (s_log st') = l_end (s_log st)"
  unfolding flush_group_def
  by (auto simp: Let_def and_then_Inr split: option.splits if_splits prod.splits)

lemma merge_flush_ends:
  "merge_flush K ops end st b err = Inr (err', st') \<Longrightarrow>
   l_head (s_log st') = l_head (s_log st) \<and> l_end (s_log st') = l_end (s_log st)"
proof (induction K ops "end" st b err rule: merge_flush.induct)
  case (1 K ops "end" st b err)
  show ?case
  proof (cases "seq_less b end \<and> \<not> le_inval (ent (l_entries (s_log st)) b) \<and>
      \<not> le_meta (ent (l_entries (s_log st)) b)")
    case True
    with "1.prems" obtain err1 e st1 where
      g: "flush_group K ops st b end = Inr (err1, e, st1)" "merge_flush K ops end st1 e err1 = Inr (err', st')"
      unfolding merge_flush.simps [of K ops "end" st b err] by (auto simp: Let_def and_then_Inr)
    from "1.IH"(2) [OF _ refl _ _ g(1) refl refl g(2)] True flush_group_ends [OF g(1)] show ?thesis by simp
  next
    case False
    with "1.prems" "1.IH"(1) [OF _ refl] show ?thesis
      unfolding merge_flush.simps [of K ops "end" st b err] by (auto simp: Let_def split: if_splits)
  qed
qed

lemma log_take_ends:
  "log_take log nr = Inr (w, log') \<Longrightarrow> l_head log' = l_head log \<and> l_end log' = l_end log"
  by (auto simp: log_take_def split: list.splits sum.splits prod.splits)

lemma log_flush_ends:
  assumes "log_flush K ops st nr = Inr (err, st')"
  shows "l_head (s_log st') = l_head (s_log st) \<and> l_end (s_log st') = l_end (s_log st)"
proof -
  from assms obtain b e log1 where t: "log_take (s_log st) nr = Inr ((b, e), log1)"
    and r: "(if b = e then Inr (- ENODATA, st\<lparr>s_log := log1\<rparr>)
       else (case log_sort (l_entries log1) (s_stack st) b e of
            (_, es, stk) \<Rightarrow> merge_flush K ops e (st\<lparr>s_log := log1\<lparr>l_entries := es\<rparr>, s_stack := stk\<rparr>) b 0)) =
      Inr (err, st')"
    unfolding log_flush_def by (auto simp: and_then_Inr)
  show ?thesis
  proof (cases "b = e")
    case True
    with r log_take_ends [OF t] show ?thesis by auto
  next
    case False
    with r obtain es stk where
      "merge_flush K ops e (st\<lparr>s_log := log1\<lparr>l_entries := es\<rparr>, s_stack := stk\<rparr>) b 0 = Inr (err, st')"
      by (auto split: prod.splits)
    from merge_flush_ends [OF this] log_take_ends [OF t] show ?thesis by simp
  qed
qed

lemma log_at_put [simp]:
  "log_at S i = Inr log \<Longrightarrow> log_at (put_flush_state S i st) i = Inr (s_log st)"
  by (auto simp: log_at_def put_flush_state_def log_put_at_def split: if_splits option.splits)

lemma put_flush_state_fields [simp]:
  "num_logs (put_flush_state S i st) = num_logs S" "flush_ops (put_flush_state S i st) = flush_ops S"
  "page_rlog (put_flush_state S i st) = s_rs st" "sys_stack (put_flush_state S i st) = s_stack st"
  "sys_dev (put_flush_state S i st) = s_dev st"
  "adafs_logs (put_flush_state S i st) = (adafs_logs S)(i \<mapsto> s_log st)"
  by (simp_all add: put_flush_state_def log_put_at_def)

text \<open>Two passes are enough: after a seal the loop's condition is false.\<close>

lemma flush_log_stops:
  assumes "log_at S i = Inr log" and "l_head log = l_end log"
  shows "flush_log E i S = Some
    (and_then (log_flush (kern E) (flush_ops S) (flush_state S log) UINT_MAX)
      (\<lambda>(err, st). Inr (put_flush_state S i st)))"
proof (cases "log_flush (kern E) (flush_ops S) (flush_state S log) UINT_MAX")
  case (Inl f)
  with assms(1) show ?thesis by (subst flush_log.simps) simp
next
  case (Inr r)
  obtain err st where r: "r = (err, st)" by fastforce
  have "l_head (s_log st) = l_end (s_log st)"
    using log_flush_ends [OF Inr [unfolded r]] assms(2) by (simp add: flush_state_def)
  with Inr assms(1) show ?thesis by (subst flush_log.simps) (simp add: r)
qed

lemma flush_log_cases [case_names fault once twice]:
  obtains f where "flush_log E i S = Some (Inl f)"
  | log err st where "log_at S i = Inr log"
      "log_flush (kern E) (flush_ops S) (flush_state S log) UINT_MAX = Inr (err, st)"
      "flush_log E i S = Some (Inr (put_flush_state S i st))"
      "err \<noteq> - ENODATA \<or> l_head log = l_end log"
  | log st err st' where "log_at S i = Inr log" "l_head log \<noteq> l_end log"
      "log_flush (kern E) (flush_ops S) (flush_state S log) UINT_MAX = Inr (- ENODATA, st)"
      "log_flush (kern E) (flush_ops S) (st\<lparr>s_log := snd (log_seal (s_log st))\<rparr>) UINT_MAX = Inr (err, st')"
      "flush_log E i S = Some (Inr (put_flush_state S i st'))"
proof (cases "log_at S i")
  case (Inl f)
  then have "flush_log E i S = Some (Inl f)" by (subst flush_log.simps) simp
  then show ?thesis by (rule that(1))
next
  case at: (Inr log)
  show ?thesis
  proof (cases "log_flush (kern E) (flush_ops S) (flush_state S log) UINT_MAX")
    case (Inl f)
    with at have "flush_log E i S = Some (Inl f)" by (subst flush_log.simps) simp
    then show ?thesis by (rule that(1))
  next
    case (Inr r)
    obtain err st where r: "r = (err, st)" by fastforce
    note ends = log_flush_ends [OF Inr [unfolded r]]
    show ?thesis
    proof (cases "err = - ENODATA \<and> l_head log \<noteq> l_end log")
      case False
      with at Inr r ends have "flush_log E i S = Some (Inr (put_flush_state S i st))"
        by (subst flush_log.simps) (auto simp: flush_state_def)
      with at Inr r False show ?thesis by (intro that(2)) auto
    next
      case True
      let ?st = "st\<lparr>s_log := snd (log_seal (s_log st))\<rparr>"
      let ?S = "put_flush_state S i ?st"
      have step: "flush_log E i S = flush_log E i ?S"
        using at Inr r ends True by (subst flush_log.simps) (auto simp: flush_state_def)
      have "flush_state ?S (s_log ?st) = ?st" by (simp add: flush_state_def)
      moreover have "log_at ?S i = Inr (s_log ?st)" using at by (rule log_at_put)
      ultimately have s: "flush_log E i ?S = Some
          (and_then (log_flush (kern E) (flush_ops S) ?st UINT_MAX)
            (\<lambda>(err, st'). Inr (put_flush_state ?S i st')))"
        using flush_log_stops [of ?S i "s_log ?st" E] by simp
      have pp: "put_flush_state ?S i st' = put_flush_state S i st'" for st'
        by (simp add: put_flush_state_def log_put_at_def)
      show ?thesis
      proof (cases "log_flush (kern E) (flush_ops S) ?st UINT_MAX")
        case (Inl f)
        with step s show ?thesis by (intro that(1)) simp
      next
        case (Inr r')
        with step s at True \<open>log_flush _ _ (flush_state S log) _ = Inr r\<close> r show ?thesis
          by (cases r') (auto simp: pp intro: that(3))
      qed
    qed
  qed
qed

lemma flush_log_num:
  "flush_log E i S = Some (Inr S') \<Longrightarrow> num_logs S' = num_logs S \<and> flush_ops S' = flush_ops S"
  by (cases rule: flush_log_cases [of E i S]) auto

text \<open>The two passes written out: at most two flushes of the log, with a seal between them.\<close>

definition two_flushes :: "'d env \<Rightarrow> nat \<Rightarrow> 'd system \<Rightarrow> fault + 'd system" where
  "two_flushes E i S =
     and_then (log_at S i) (\<lambda>log.
     and_then (log_flush (kern E) (flush_ops S) (flush_state S log) UINT_MAX) (\<lambda>(err, st).
       if err = - ENODATA \<and> l_head log \<noteq> l_end log
       then and_then (log_flush (kern E) (flush_ops S) (st\<lparr>s_log := snd (log_seal (s_log st))\<rparr>) UINT_MAX)
              (\<lambda>(_, st'). Inr (put_flush_state S i st'))
       else Inr (put_flush_state S i st)))"

lemma flush_log_two: "flush_log E i S = Some (two_flushes E i S)"
proof (cases "log_at S i")
  case (Inl f)
  then show ?thesis by (subst flush_log.simps) (simp add: two_flushes_def)
next
  case at: (Inr log)
  show ?thesis
  proof (cases "log_flush (kern E) (flush_ops S) (flush_state S log) UINT_MAX")
    case (Inl f)
    with at show ?thesis by (subst flush_log.simps) (simp add: two_flushes_def)
  next
    case (Inr r)
    obtain err st where r: "r = (err, st)" by fastforce
    note ends = log_flush_ends [OF Inr [unfolded r]]
    show ?thesis
    proof (cases "err = - ENODATA \<and> l_head log \<noteq> l_end log")
      case False
      with at Inr r ends show ?thesis
        by (subst flush_log.simps) (auto simp: flush_state_def two_flushes_def)
    next
      case True
      let ?st = "st\<lparr>s_log := snd (log_seal (s_log st))\<rparr>"
      let ?S = "put_flush_state S i ?st"
      have "flush_log E i S = flush_log E i ?S"
        using at Inr r ends True by (subst flush_log.simps) (auto simp: flush_state_def)
      moreover have "flush_state ?S (s_log ?st) = ?st" by (simp add: flush_state_def)
      moreover have "log_at ?S i = Inr (s_log ?st)" using at by (rule log_at_put)
      moreover have "put_flush_state ?S i st' = put_flush_state S i st'" for st'
        by (simp add: put_flush_state_def log_put_at_def)
      ultimately show ?thesis
        using flush_log_stops [of ?S i "s_log ?st" E] at Inr r True
        by (simp add: two_flushes_def case_prod_unfold)
    qed
  qed
qed

lemma flush_logs_total: "\<exists>r. flush_logs E i S = Some r"
proof (induction "nat (num_logs S - int i)" arbitrary: i S rule: less_induct)
  case (less i S)
  show ?case
  proof (cases "int i < num_logs S")
    case True
    show ?thesis
    proof (cases "two_flushes E i S")
      case (Inl f)
      with True show ?thesis by (subst flush_logs.simps) (simp add: flush_log_two)
    next
      case (Inr S1)
      then have "num_logs S1 = num_logs S" using flush_log_num [of E i S S1] by (simp add: flush_log_two)
      with True less [of S1 "Suc i"] Inr show ?thesis by (subst flush_logs.simps) (simp add: flush_log_two)
    qed
  qed (subst flush_logs.simps, simp)
qed

text \<open>
  \<open>HANG\<close> stands for an operation of the disk file system that does not return.  None of the loops of the
  flusher produces it: where it comes from is an installed operation.
\<close>

definition op_hangs :: "'d flush_operations \<Rightarrow> bool" where
  "op_hangs ops \<longleftrightarrow>
     (\<exists>f inode nles d. trans_begin ops = Some f \<and> f inode nles d = Inl HANG) \<or>
     (\<exists>f handle le d. entry_flush ops = Some f \<and> f handle le d = Inl HANG) \<or>
     (\<exists>f handle d. trans_end ops = Some f \<and> f handle d = Inl HANG) \<or>
     (\<exists>f inode tid d. wait_sync ops = Some f \<and> f inode tid d = Inl HANG)"

definition hang_ok :: "'d flush_operations \<Rightarrow> fault + 'a \<Rightarrow> bool" where
  "hang_ok ops r \<longleftrightarrow> (r = Inl HANG \<longrightarrow> op_hangs ops)"

lemma hang_ok_bind:
  "hang_ok ops x \<Longrightarrow> (\<And>a. x = Inr a \<Longrightarrow> hang_ok ops (f a)) \<Longrightarrow> hang_ok ops (and_then x f)"
  by (cases x) (auto simp: hang_ok_def)

lemma hang_ok_simps [simp]:
  "hang_ok ops (Inr x)" "hang_ok ops (Inl BUG)" "hang_ok ops (Inl BAD_POINTER)"
  by (simp_all add: hang_ok_def)

lemma hang_ok_ops:
  "hang_ok ops (do_trans_begin ops inode n d)" "hang_ok ops (do_trans_end ops handle d)"
  "hang_ok ops (do_wait_sync ops inode tid d)" "hang_ok ops (do_le_flush K ops handle le rs d)"
  by (auto simp: hang_ok_def op_hangs_def do_trans_begin_def do_trans_end_def do_wait_sync_def
      do_le_flush_def Let_def split: option.splits if_splits)

lemma hlist_find_no_hang: "hlist_find km key hl \<noteq> Inl HANG"
  by (induction hl) (simp_all split: option.split)

lemma hang_ok_evict: "hang_ok ops (evict_entry h rs le)"
proof -
  have "evict_rlog rs rl \<noteq> Inl HANG" for rl
    by (auto simp: evict_rlog_def put_page_def Let_def split: option.splits sum.splits if_splits)
  then show ?thesis
    using hlist_find_no_hang
    by (auto simp: hang_ok_def evict_entry_def find_rlog_def sht_find_entry_def split: sum.splits option.splits)
qed

lemma hang_ok_scan: "hang_ok ops (merge_scan h ino end es rs i nles)"
proof (induction "unat (end - i)" arbitrary: ino es rs i nles rule: less_induct)
  case less
  have IH: "hang_ok ops (merge_scan h ino end es rs (i + 1) nles)" if "seq_less i end" for ino es rs nles
    using less [OF seq_less_Suc [OF that]] .
  show ?case
    by (subst merge_scan.simps) (auto simp: Let_def intro!: hang_ok_bind hang_ok_evict IH)
qed

lemma hang_ok_entries: "hang_ok ops (flush_entries K ops handle e es rs d i)"
proof (induction "unat (e - i)" arbitrary: es rs d i rule: less_induct)
  case less
  have IH: "hang_ok ops (flush_entries K ops handle e es rs d (i + 1))" if "seq_less i e" for es rs d
    using less [OF seq_less_Suc [OF that]] .
  show ?case
    by (subst flush_entries.simps)
      (auto simp: Let_def split: prod.split intro!: hang_ok_bind hang_ok_evict hang_ok_ops IH)
qed

lemma hang_ok_waits: "hang_ok ops (wait_entries K e es rs d i)"
proof (induction "unat (e - i)" arbitrary: rs d i rule: less_induct)
  case less
  have IH: "hang_ok ops (wait_entries K e es rs d (i + 1))" if "seq_less i e" for rs d
    using less [OF seq_less_Suc [OF that]] .
  show ?case
    by (subst wait_entries.simps) (auto simp: Let_def intro!: hang_ok_bind hang_ok_evict IH)
qed

lemma hang_ok_group: "hang_ok ops (flush_group K ops st b end)"
  unfolding flush_group_def Let_def
  by (auto split: option.split prod.split
      intro!: hang_ok_bind hang_ok_scan hang_ok_ops hang_ok_entries hang_ok_waits)

lemma hang_ok_merge: "hang_ok ops (merge_flush K ops end st b err)"
proof (induction "unat (end - b)" arbitrary: st b err rule: less_induct)
  case less
  have IH1: "hang_ok ops (merge_flush K ops end st (b + 1) err)" if "seq_less b end" for st err
    using less [OF seq_less_Suc [OF that]] .
  have IH2: "hang_ok ops (merge_flush K ops end st1 e err1)"
    if "seq_less b end" "flush_group K ops st b end = Inr (err1, e, st1)" for st err1 e st1
    using less [OF order.strict_trans1 [OF flush_group_le [OF that(2)] seq_less_Suc [OF that(1)]]] .
  show ?case
    by (subst merge_flush.simps)
      (auto simp: Let_def split: prod.split intro!: hang_ok_bind hang_ok_group IH1 IH2)
qed

lemma take_trans_no_hang: "take_trans ts n e \<noteq> Inl HANG"
  by (induction ts n e rule: take_trans.induct) (auto split: if_splits sum.splits)

lemma hang_ok_flush: "hang_ok ops (log_flush K ops st nr)"
proof -
  have "hang_ok ops (log_take (s_log st) nr)"
    using take_trans_no_hang by (auto simp: hang_ok_def log_take_def split: list.splits sum.splits)
  then show ?thesis
    unfolding log_flush_def by (intro hang_ok_bind) (auto split: prod.split intro!: hang_ok_merge)
qed

lemma hang_ok_two: "hang_ok (flush_ops S) (two_flushes E i S)"
proof -
  have "hang_ok ops (log_at S i)" for ops :: "'a flush_operations"
    by (simp add: log_at_def split: option.split)
  then show ?thesis
    unfolding two_flushes_def by (intro hang_ok_bind) (auto split: prod.split intro!: hang_ok_bind hang_ok_flush)
qed

lemma hang_ok_logs: "flush_logs E i S = Some r \<Longrightarrow> hang_ok (flush_ops S) r"
proof (induction "nat (num_logs S - int i)" arbitrary: i S rule: less_induct)
  case (less i S)
  note r = less.prems [unfolded flush_logs.simps [of E i S] flush_log_two option.case]
  show ?case
  proof (cases "int i < num_logs S")
    case True
    show ?thesis
    proof (cases "two_flushes E i S")
      case (Inl f)
      with r True hang_ok_two [of S E i] show ?thesis by (auto simp: hang_ok_def)
    next
      case (Inr S1)
      then have "num_logs S1 = num_logs S" "flush_ops S1 = flush_ops S"
        using flush_log_num [of E i S S1] by (simp_all add: flush_log_two)
      with less.hyps [of S1 "Suc i"] True Inr r show ?thesis by simp
    qed
  next
    case False
    with r show ?thesis by auto
  qed
qed

text \<open>
  C18.  A round of the flusher ends, whatever the state of the logs and whatever the disk file system does.
  The seal-and-flush loop on a log is exactly \<open>two_flushes\<close>: one flush, and if that found nothing sealed
  while entries are open, a seal and one more flush.  The loop over the logs ends, and so does the
  round.  The model reports an operation of the disk file system that does not return as the fault
  \<open>HANG\<close>; a round has that fault only if an installed operation has it, never from a loop of the flusher.
\<close>

theorem flush_round_terminates:
  "flush_log E i S = Some (two_flushes E i S) \<and> (\<exists>r. flush_logs E i S = Some r) \<and>
   (\<exists>r. flush_round E S = Some r \<and> (r = Inl HANG \<longrightarrow> op_hangs (flush_ops S)))"
proof (intro conjI flush_log_two flush_logs_total)
  obtain r where r: "flush_logs E 0 (S\<lparr>flush_cmpl := False\<rparr>) = Some r" using flush_logs_total by blast
  with hang_ok_logs [OF r] show "\<exists>r. flush_round E S = Some r \<and> (r = Inl HANG \<longrightarrow> op_hangs (flush_ops S))"
    by (cases r) (auto simp: flush_round_def hang_ok_def)
qed

section \<open>A full log is drained\<close>

lemma tracked_window:
  assumes i: "lr_inv h g {} rs log" and n: "n \<le> 32768"
    and l: "\<And>j. j < n \<Longrightarrow> live log (b + of_nat j) \<and> is_data (L_ENT log (b + of_nat j))"
  shows "tracked h rs (window log b n)"
proof -
  note d = lr_invD [OF i]
  have inj: "inj_on (\<lambda>j. le_page (L_ENT log (b + of_nat j))) {0..<n}"
  proof (rule inj_onI)
    fix j k
    assume j: "j \<in> {0..<n}" and k: "k \<in> {0..<n}"
      and e: "le_page (L_ENT log (b + of_nat j)) = le_page (L_ENT log (b + of_nat k))"
    have r: "rl_look h rs (le_page (L_ENT log (b + of_nat j))) = Some (b + of_nat j)"
        "rl_look h rs (le_page (L_ENT log (b + of_nat k))) = Some (b + of_nat k)"
      using l [of j] l [of k] j k by (auto intro!: d(3))
    have "Some (b + of_nat j) = Some (b + (of_nat k :: u32))" using r(1) unfolding e r(2) by (rule sym)
    then have "off b (b + of_nat j) = off b (b + of_nat k)" by (simp only: option.inject)
    moreover have "off b (b + of_nat j) = j" "off b (b + of_nat k) = k"
      using j k n by (auto intro!: off_add)
    ultimately show "j = k" by simp
  qed
  have v: "filter le_valid (window log b n) = window log b n"
    by (rule filter_True) (use l in \<open>auto simp: window_def is_data_def\<close>)
  have "distinct (map le_page (filter le_valid (window log b n)))"
    unfolding v using inj by (simp add: window_def comp_def distinct_map)
  moreover have "rl_look h rs (le_page le) \<noteq> None \<and> (\<exists>p. r_pages rs (le_page le) = Some p \<and> p_mapping p \<noteq> NULL)"
    if le: "le \<in> set (window log b n)" for le
  proof -
    from le obtain j where "j < n" "le = L_ENT log (b + of_nat j)" by (auto simp: window_def)
    with l [of j] d(3,4) [of "b + of_nat j"] show ?thesis by (auto simp: describes_def)
  qed
  ultimately show ?thesis by (simp add: tracked_def)
qed

lemma sealed_length: "sealed b p ts h \<Longrightarrow> off b p + length ts \<le> off b h"
  by (induction ts arbitrary: p) fastforce+

lemma log_take_all:
  assumes i: "log_inv log" and p: "pend log \<noteq> l_head log"
  obtains log1 where "log_take log UINT_MAX = Inr ((pend log, l_head log), log1)"
proof -
  from log_take_spec [OF i, of UINT_MAX] obtain b e log1 ts1 ts2 t where
    t: "log_take log UINT_MAX = Inr ((b, e), log1)" "l_trans log = ts1 @ ts2 @ [t]"
      "length ts1 = min UINT_MAX (length ts1 + length ts2)" "if ts1 = [] then b = e else b = pend log"
      "ts1 \<noteq> [] \<longrightarrow> sealed (l_begin log) b ts1 e \<and> sealed (l_begin log) e ts2 (l_head log)"
    by blast
  have s: "sealed (l_begin log) (pend log) (ts1 @ ts2) (l_head log)"
  proof -
    have "butlast (l_trans log) = ts1 @ ts2" using t(2) by (simp add: butlast_append)
    with i show ?thesis by (simp add: log_inv_def)
  qed
  then have "length (ts1 @ ts2) \<le> 32768"
    using sealed_length [OF s] log_inv_pend [OF i] by linarith
  then have "length ts2 = 0" using t(3) by (simp add: UINT_MAX_def)
  moreover have "ts1 \<noteq> []" using s p calculation by (cases ts1) auto
  ultimately show ?thesis using t(1,4,5) by (intro that) auto
qed

text \<open>Everything sealed and nothing taken yet: a flush empties the log and forgets its pages.\<close>

lemma log_flush_drains:
  assumes i: "lr_inv (hash_32 K) g {} (s_rs st) (s_log st)" and k: "s_stack st = []"
    and s: "l_head (s_log st) = l_end (s_log st)" "pend (s_log st) = l_begin (s_log st)"
      "l_begin (s_log st) \<noteq> l_end (s_log st)"
    and sp: "span_ok (l_begin (s_log st)) (off (l_begin (s_log st)) (l_end (s_log st)))"
    and a: "\<And>q. live (s_log st) q \<Longrightarrow> is_data (L_ENT (s_log st) q)"
  shows "runs K ops (window_pages (s_log st) (l_begin (s_log st)) (l_end (s_log st))) (Idle, s_dev st)
    (log_flush K ops st UINT_MAX)
    (\<lambda>c (err, st'). lr_inv (hash_32 K) g {} (s_rs st') (s_log st') \<and> l_begin (s_log st') = l_end (s_log st') \<and>
       (\<forall>page q. rl_look (hash_32 K) (s_rs st') page = Some q \<longrightarrow> q = L_NULL))"
proof -
  let ?log = "s_log st" and ?h = "hash_32 K"
  let ?b = "l_begin ?log" and ?n = "off (l_begin ?log) (l_end ?log)"
  let ?P = "window_pages ?log ?b (l_end ?log)"
  note d = lr_invD [OF i]
  have n: "?n \<le> 32768" using log_inv_pend(3) [OF d(1)] .
  have lv: "live ?log (?b + of_nat j) \<and> is_data (L_ENT ?log (?b + of_nat j))" if "j < ?n" for j
  proof -
    have "off ?b (?b + of_nat j) = j" using that n by (simp add: off_add)
    with that a show ?thesis by (simp add: live_def)
  qed
  obtain log1 where t: "log_take ?log UINT_MAX = Inr ((?b, l_end ?log), log1)"
    using log_take_all [OF d(1)] s by auto
  have w: "\<forall>le\<in>set (window ?log ?b ?n). le_valid le \<and> \<not> le_meta le"
    using lv by (auto simp: window_def is_data_def)
  have fl: "flushable K st UINT_MAX ?b (l_end ?log) log1"
    unfolding flushable_def using d(1,2) k t s(3) sp w tracked_window [OF i n lv] by blast
  show ?thesis
  proof (rule runs_weaken [OF log_flush_runs [OF fl]], clarify)
    fix st'
    assume f: "log_inv (s_log st')" "l_begin (s_log st') = l_end ?log" "l_end (s_log st') = l_end ?log"
        "rl_inv ?h (s_rs st')"
      and look: "\<forall>page. rl_look ?h (s_rs st') page =
        (if page \<in> ?P then None else rl_look ?h (s_rs st) page)"
    have g: "q = L_NULL" if q: "rl_look ?h (s_rs st') page = Some q" for page q
    proof (rule ccontr)
      assume "q \<noteq> L_NULL"
      from q look have o: "page \<notin> ?P" "rl_look ?h (s_rs st) page = Some q"
        by (auto split: if_splits)
      with d(5) [OF o(2) \<open>q \<noteq> L_NULL\<close>] have "live ?log q" "le_page (L_ENT ?log q) = page" by simp_all
      then have "L_ENT ?log q \<in> set (window ?log ?b ?n)"
        by (auto simp: window_def live_def intro!: image_eqI [of _ _ "off ?b q"])
      with o(1) \<open>le_page (L_ENT ?log q) = page\<close> show False by (auto simp: window_pages_def)
    qed
    have "\<not> live (s_log st') q" for q by (simp add: live_def f(2,3))
    then have "linked ?h g (s_rs st') (s_log st')" by (simp add: linked_def)
    moreover have "backed ?h {} (s_rs st') (s_log st')" unfolding backed_def using g by fast
    ultimately have "lr_inv ?h g {} (s_rs st') (s_log st')" using f(1,4) by (simp add: lr_inv_def)
    moreover have "l_begin (s_log st') = l_end (s_log st')" using f(2,3) by simp
    ultimately show "lr_inv ?h g {} (s_rs st') (s_log st') \<and> l_begin (s_log st') = l_end (s_log st') \<and>
       (\<forall>page q. rl_look ?h (s_rs st') page = Some q \<longrightarrow> q = L_NULL)" using g by blast
  qed
qed

lemma pend_seal:
  assumes "log_inv log"
  shows "pend (snd (log_seal log)) = pend log"
proof (cases "l_head log = l_end log")
  case True
  then show ?thesis by (simp add: log_seal_def do_log_seal_def)
next
  case False
  from assms obtain ts t where "l_trans log = ts @ [t]" by (rule log_invD)
  with False show ?thesis
    by (cases ts) (auto simp: log_seal_def do_log_seal_def log_tail_upd_def log_add_tran_def pend_def)
qed

lemma window_pages_seal: "window_pages (snd (log_seal log)) b e = window_pages log b e"
  by (simp add: window_pages_def window_def L_ENT_def)

text \<open>
  C8.  A writer that finds the only log full gets through, unless the flusher is stopped by the disk file
  system.  Suppose that the log is full of valid data entries none of which a flush has taken yet,
  that log and reverse map are coupled, that the sorter's static stack is empty, that the sequence
  numbers do not cross the sign change of \<open>int\<close>, and that the writer's wait on \<open>flush_cmpl\<close> ends
  without a signal after exactly one round of the flusher and nothing else.  Then either that round
  faults, at a call of the flush protocol on pages of the log that the installed operations or the
  block layer fail; or the append loop ends after this one wait: the new entry is the only one in the
  log, at the sequence number the loop returns, and no rlog names an older entry.  (A log of
  metadata entries is not drained by a round: \<open>meta_never_retired\<close>.)
\<close>

theorem full_log_append_completes:
  assumes "adafs_logs S = [0 \<mapsto> log]" and "sys_inv E g S" and "num_logs S = 1" and "sys_stack S = []"
    and "length (log_list log) = 32768" and "pend log = l_begin log"
    and "span_ok (l_begin log) 32768" and "\<forall>q. live log q \<longrightarrow> is_data (L_ENT log q)"
    and "kern E0 = kern E"
    and "S1 = wake_up_flusher (log_put_at S 0 (snd (log_seal log)))"
    and "\<forall>S2. flush_round E0 S1 = Some (Inr S2) \<longrightarrow> wait_for_completion_interruptible E S1 = Inr (0, S2)"
  shows "(\<exists>f. flush_round E0 S1 = Some (Inl f) \<and>
      dev_faults (kern E) (flush_ops S) (window_pages log (l_begin log) (l_end log)) (Idle, sys_dev S) f) \<or>
    (\<exists>S' log'. append_wait E 0 le ei S = Some (Inr (l_end log, S')) \<and> adafs_logs S' = [0 \<mapsto> log'] \<and>
      log_list log' = [le] \<and> log_inv log' \<and>
      (\<forall>page q. rl_look (hash_of E) (page_rlog S') page = Some q \<longrightarrow> q = L_NULL))"
proof -
  have i: "lr_inv (hash_of E) g {} (page_rlog S) log" by (rule sys_invD [OF assms(1,2)])
  let ?log = "snd (log_seal log)" and ?b = "l_begin log"
  have o: "off ?b (l_end log) = 32768" using assms(5) by (simp add: log_list_length)
  have i1: "lr_inv (hash_of E) g {} (page_rlog S) ?log"
    by (rule lr_inv_same [OF i]) (simp_all add: log_seal_snd_inv lr_invD(1) [OF i])
  have f1: "page_rlog S1 = page_rlog S" "num_logs S1 = 1" "sys_stack S1 = []" "flush_ops S1 = flush_ops S"
      "adafs_logs S1 = [0 \<mapsto> ?log]" "sys_dev S1 = sys_dev S"
    using assms(1,3,4) by (simp_all add: assms(10) wake_up_flusher_def log_put_at_def)
  let ?S2 = "S1\<lparr>flush_cmpl := False\<rparr>"
  let ?st = "flush_state ?S2 ?log"
  have st: "s_log ?st = ?log" "s_rs ?st = page_rlog S" "s_stack ?st = []" "s_dev ?st = sys_dev S"
    using f1 by (simp_all add: flush_state_def)
  have ne: "?b \<noteq> l_end log" using o by auto
  have L: "live ?log = live log" "L_ENT ?log = L_ENT log" by (simp_all add: live_def L_ENT_def fun_eq_iff)
  have i2: "lr_inv (hash_32 (kern E)) g {} (s_rs ?st) (s_log ?st)" using i1 by (simp only: st)
  have se: "l_head (s_log ?st) = l_end (s_log ?st)" "pend (s_log ?st) = l_begin (s_log ?st)"
      "l_begin (s_log ?st) \<noteq> l_end (s_log ?st)"
    using assms(6) ne pend_seal [OF lr_invD(1) [OF i]] by (simp_all add: st)
  have sp: "span_ok (l_begin (s_log ?st)) (off (l_begin (s_log ?st)) (l_end (s_log ?st)))"
    using assms(7) o by (simp add: st)
  have a: "is_data (L_ENT (s_log ?st) q)" if "live (s_log ?st) q" for q
    using assms(8) that by (simp add: st L)
  note drain = log_flush_drains [OF i2 st(3) se sp a, of "flush_ops S"]
  have at: "log_at ?S2 0 = Inr ?log" using f1(5) by (simp add: log_at_def MAX_LOG_NUM_def)
  have fl: "flush_log E0 0 ?S2 = Some (and_then (log_flush (kern E) (flush_ops S) ?st UINT_MAX)
      (\<lambda>(err, st). Inr (put_flush_state ?S2 0 st)))"
    using flush_log_stops [OF at, of E0] f1(4) by (simp add: assms(9))
  show ?thesis
  proof (cases "log_flush (kern E) (flush_ops S) ?st UINT_MAX")
    case (Inl f)
    then have "flush_logs E0 0 ?S2 = Some (Inl f)"
      using fl f1(2) by (subst flush_logs.simps) simp
    then have "flush_round E0 S1 = Some (Inl f)" by (simp add: flush_round_def)
    moreover have "dev_faults (kern E) (flush_ops S) (window_pages log ?b (l_end log)) (Idle, sys_dev S) f"
      using drain Inl by (simp add: runs_def st window_pages_seal)
    ultimately show ?thesis by blast
  next
    case (Inr r)
    obtain err st' where r: "r = (err, st')" by fastforce
    have g: "lr_inv (hash_of E) g {} (s_rs st') (s_log st')" "l_begin (s_log st') = l_end (s_log st')"
        "\<forall>page q. rl_look (hash_of E) (s_rs st') page = Some q \<longrightarrow> q = L_NULL"
      using drain Inr r by (auto simp: runs_def)
    let ?S3 = "(put_flush_state ?S2 0 st')\<lparr>flush_cmpl := True\<rparr>"
    have "flush_log E0 0 ?S2 = Some (Inr (put_flush_state ?S2 0 st'))" using fl Inr r by simp
    moreover have "flush_logs E0 (Suc 0) (put_flush_state ?S2 0 st') = Some (Inr (put_flush_state ?S2 0 st'))"
      using f1(2) by (subst flush_logs.simps) simp
    ultimately have "flush_logs E0 0 ?S2 = Some (Inr (put_flush_state ?S2 0 st'))"
      using f1(2) by (subst flush_logs.simps) simp
    then have "flush_round E0 S1 = Some (Inr ?S3)" by (simp add: flush_round_def)
    then have w: "wait_for_completion_interruptible E S1 = Inr (0, ?S3)" using assms(11) by blast
    have l3: "adafs_logs ?S3 = [0 \<mapsto> s_log st']" "page_rlog ?S3 = s_rs st'" using f1(5) by simp_all
    have at3: "log_at ?S3 0 = Inr (s_log st')" using l3 by (simp add: log_at_def MAX_LOG_NUM_def)
    have room: "off (l_begin (s_log st')) (l_end (s_log st')) < 32768" using g(2) by simp
    have le: "l_end (s_log st') = l_end log" using log_flush_ends [OF Inr [unfolded r]] st(1) by simp
    let ?log' = "(L_ENT_upd (s_log st') (l_end (s_log st')) le)\<lparr>l_end := l_end (s_log st') + 1\<rparr>"
    have at0: "log_at S 0 = Inr log" using assms(1) by (simp add: log_at_def MAX_LOG_NUM_def)
    have "append_wait E 0 le ei S = append_wait E 0 le ei ?S3"
      using at0 o w by (subst append_wait.simps) (simp add: log_append_def seq_dist_off assms(10))
    then have "append_wait E 0 le ei S = Some (Inr (l_end log, log_put_at ?S3 0 ?log'))"
      using append_wait_room [OF at3 room] le by simp
    moreover have "log_list ?log' = [le]"
      using log_append_list [OF room, of le] g(2) by (simp add: log_list_def window_def)
    moreover have "log_inv ?log'"
      using log_append_inv [OF lr_invD(1) [OF g(1)], of le] room by (simp add: log_append_def seq_dist_off)
    moreover have "adafs_logs (log_put_at ?S3 0 ?log') = [0 \<mapsto> ?log']" "page_rlog (log_put_at ?S3 0 ?log') = s_rs st'"
      using l3 by (simp_all add: log_put_at_def)
    ultimately show ?thesis using g(3)
      by (intro disjI2 exI [of _ "log_put_at ?S3 0 ?log'"] exI [of _ ?log']) (simp only: simp_thms)
  qed
qed

section \<open>A concrete full log\<close>

text \<open>
  All slots hold data entries of one file; entry \<open>j\<close> is for the page at address \<open>j + 1\<close>, with index
  \<open>j + 1\<close>, whose rlog is at address \<open>j + 1\<close>.
\<close>

definition ex_slots :: nat where
  "ex_slots = 32768"

definition ex_used :: "ptr \<Rightarrow> bool" where
  "ex_used a \<longleftrightarrow> unat (a - 1) < ex_slots"

definition ex_fdata :: "nat \<Rightarrow> log_entry" where
  "ex_fdata j = le_set_ref (le_init_len (le_init_pgi (le_set_ino LE_INITIALIZER 7) (of_nat (Suc j))) 100)
     (of_nat (Suc j))"

definition ex_flog :: adafs_log where
  "ex_flog = \<lparr>l_entries = ex_fdata, l_begin = 0, l_head = 0, l_end = 32768, l_trans = [new_tran]\<rparr>"

definition ex_frs :: rstate where
  "ex_frs = \<lparr>r_rlogs = (\<lambda>a. if ex_used a then Some \<lparr>rl_page = a, rl_enti = of_nat (unat (a - 1))\<rparr> else None),
     r_table = \<lparr>lists = (\<lambda>i. if i = 0 then map (\<lambda>j. of_nat (Suc j)) [0..<ex_slots] else []), bits = 10\<rparr>,
     r_pages = (\<lambda>a. if ex_used a then Some \<lparr>p_mapping = 64, p_index = a, p_flags = 0, p_count = 1,
       p_data = []\<rparr> else None)\<rparr>"

lemma ex_addr: "j < ex_slots \<Longrightarrow> unat (of_nat (Suc j) - 1 :: u64) = j"
  by (simp add: unat_of_nat ex_slots_def)

lemma ex_used_iff: "ex_used a \<longleftrightarrow> (\<exists>j<ex_slots. a = of_nat (Suc j))"
proof
  assume "ex_used a"
  then show "\<exists>j<ex_slots. a = of_nat (Suc j)" by (intro exI [of _ "unat (a - 1)"]) (simp add: ex_used_def)
qed (auto simp: ex_used_def ex_addr simp del: of_nat_Suc)

lemma ex_frs_inv: "rl_inv ex_hash ex_frs"
proof -
  have k: "rl_key ex_frs = (\<lambda>a. if ex_used a then Some a else None)" by (auto simp: rl_key_def ex_frs_def)
  have "inj_on (\<lambda>j. of_nat (Suc j) :: u64) {0..<ex_slots}"
    by (rule inj_on_inverseI [of _ "\<lambda>a. unat (a - 1)"]) (simp add: ex_addr del: of_nat_Suc)
  then have "distinct (map (\<lambda>j. of_nat (Suc j) :: u64) [0..<ex_slots])" by (simp add: distinct_map)
  then have "sht_inv ex_hash (rl_key ex_frs) (r_table ex_frs)"
    unfolding k by (auto simp: sht_inv_def ex_frs_def hash_ok_def ex_hash_def sht_possible_hlist_def
        ex_used_iff simp del: of_nat_Suc split: if_splits)
  then show ?thesis by (auto simp: rl_inv_def ex_frs_def split: if_splits)
qed

lemma ex_frs_look: "rl_look ex_hash ex_frs page = Some q \<longleftrightarrow> ex_used page \<and> q = of_nat (unat (page - 1))"
  unfolding rl_look_iff [OF ex_frs_inv] by (auto simp: ex_frs_def split: if_splits)

lemma ex_flog_live: "live ex_flog q \<longleftrightarrow> unat q < ex_slots" "L_ENT ex_flog q = ex_fdata (unat q mod 32768)"
    "log_inv ex_flog"
proof -
  show "live ex_flog q \<longleftrightarrow> unat q < ex_slots" by (simp add: live_def ex_flog_def off_def ex_slots_def)
  show "L_ENT ex_flog q = ex_fdata (unat q mod 32768)" by (simp add: L_ENT_def ex_flog_def L_INDEX_mod)
  show "log_inv ex_flog"
    by (simp add: ex_flog_def log_inv_def log_tail_tran_def is_tran_open_def new_tran_def pend_def off_def)
qed

lemma ex_fdata_views:
  assumes "j < ex_slots"
  shows "le_page (ex_fdata j) = of_nat (Suc j)" "le_ino (ex_fdata j) = 7"
    "le_pgi (ex_fdata j) = of_nat (Suc j)" "is_data (ex_fdata j)"
proof -
  have b: "of_nat (Suc j) < (2 ^ 56 :: u64)"
    using assms by (simp add: word_less_nat_alt unat_of_nat ex_slots_def del: of_nat_Suc)
  have "le_pgi (ex_fdata j) = le_pgi (le_init_pgi (le_set_ino LE_INITIALIZER 7) (of_nat (Suc j)))"
    by (simp add: ex_fdata_def le_pgi_def del: of_nat_Suc)
  also have "\<dots> = of_nat (Suc j)" by (rule le_init_pgi_pgi [OF b])
  finally show "le_pgi (ex_fdata j) = of_nat (Suc j)" .
  show "le_page (ex_fdata j) = of_nat (Suc j)" "le_ino (ex_fdata j) = 7"
    by (simp_all add: ex_fdata_def le_ino_def)
  then show "is_data (ex_fdata j)"
    by (simp add: is_data_def le_inval_def LE_INVAL_INO_def le_meta_def LE_META_SETTER_exp ex_fdata_def)
qed

lemma ex_finv: "lr_inv ex_hash (\<lambda>_. 7) {} ex_frs ex_flog"
proof -
  have e: "L_ENT ex_flog q = ex_fdata (unat q)" if "live ex_flog q" for q
    using that by (simp add: ex_flog_live ex_slots_def)
  have "linked ex_hash (\<lambda>_. 7) ex_frs ex_flog"
    unfolding linked_def
  proof (intro allI impI)
    fix q assume q: "live ex_flog q \<and> is_data (L_ENT ex_flog q)"
    then have j: "unat q < ex_slots" by (simp add: ex_flog_live)
    have u: "ex_used (of_nat (Suc (unat q)))" using j ex_used_iff by blast
    then have "rl_look ex_hash ex_frs (le_page (L_ENT ex_flog q)) = Some q"
      unfolding ex_frs_look using q j by (simp add: e ex_fdata_views ex_addr del: of_nat_Suc)
    moreover have "describes (\<lambda>_. 7) ex_frs (L_ENT ex_flog q)"
      using q j u by (simp add: describes_def e ex_fdata_views ex_frs_def del: of_nat_Suc)
    ultimately show "rl_look ex_hash ex_frs (le_page (L_ENT ex_flog q)) = Some q \<and>
        describes (\<lambda>_. 7) ex_frs (L_ENT ex_flog q)" ..
  qed
  moreover have "backed ex_hash {} ex_frs ex_flog"
    unfolding backed_def
  proof (intro allI impI)
    fix page q assume "rl_look ex_hash ex_frs page = Some q \<and> q \<noteq> L_NULL \<and> page \<notin> {}"
    then have u: "ex_used page" "q = of_nat (unat (page - 1))" unfolding ex_frs_look by blast+
    then obtain j where j: "j < ex_slots" "page = of_nat (Suc j)" unfolding ex_used_iff by blast
    have "q = of_nat j" unfolding u(2) j(2) ex_addr [OF j(1)] ..
    with j(1) have "unat q = j" by (simp add: unat_of_nat ex_slots_def)
    with j show "live ex_flog q \<and> is_data (L_ENT ex_flog q) \<and> le_page (L_ENT ex_flog q) = page"
      using e [of q] by (simp add: ex_flog_live(1) ex_fdata_views del: of_nat_Suc)
  qed
  ultimately show ?thesis using ex_frs_inv ex_flog_live(3) by (simp add: lr_inv_def)
qed

definition ex_wait_env :: "unit env" where
  "ex_wait_env = ex_env\<lparr>wait_for_completion_interruptible := (\<lambda>S.
     case flush_round ex_env S of Some (Inr S1) \<Rightarrow> Inr (0, S1) | Some (Inl f) \<Rightarrow> Inl f | None \<Rightarrow> Inr (- 4, S))\<rparr>"

theorem full_log_append_completes_witness:
  "\<exists>S' log'. append_wait ex_wait_env 0 ex_data L_NULL (ex_system ex_flog ex_frs) = Some (Inr (32768, S')) \<and>
     adafs_logs S' = [0 \<mapsto> log'] \<and> log_list log' = [ex_data]"
proof -
  have k: "kern ex_env = kern ex_wait_env" "hash_of ex_wait_env = ex_hash" "kern ex_wait_env = ex_kernel"
    by (simp_all add: ex_wait_env_def ex_env_def ex_kernel_def)
  have i: "sys_inv ex_wait_env (\<lambda>_. 7) (ex_system ex_flog ex_frs)"
    using ex_finv by (intro sys_invI [of _ ex_flog]) (simp_all add: k ex_kernel_def)
  have s: "num_logs (ex_system ex_flog ex_frs) = 1" "sys_stack (ex_system ex_flog ex_frs) = []"
    by (simp_all add: ex_system_def)
  have l: "length (log_list ex_flog) = 32768" "pend ex_flog = l_begin ex_flog" "span_ok (l_begin ex_flog) 32768"
      "l_end ex_flog = 32768"
    by (simp_all add: log_list_length ex_flog_def off_def pend_def span_ok_def)
  have d: "\<forall>q. live ex_flog q \<longrightarrow> is_data (L_ENT ex_flog q)"
    by (auto simp: ex_flog_live ex_slots_def intro!: ex_fdata_views)
  have w: "\<forall>S2. flush_round ex_env S1 = Some (Inr S2) \<longrightarrow>
      wait_for_completion_interruptible ex_wait_env S1 = Inr (0, S2)" for S1
    by (simp add: ex_wait_env_def)
  have "\<exists>err. flush_ops (ex_system ex_flog ex_frs) = ex_fops err" by (auto simp: ex_system_def)
  then have "\<not> dev_faults (kern ex_wait_env) (flush_ops (ex_system ex_flog ex_frs)) P c f" for P c f
    using ex_never_faults unfolding k(3) by metis
  with full_log_append_completes [OF ex_sys_fields(1) i s l(1-3) d k(1) refl w, of ex_data L_NULL] show ?thesis
    unfolding l(4) by blast
qed

text \<open>A wait for a commit that hangs is what a round can hang in.\<close>

definition ex_hang_ops :: "unit flush_operations" where
  "ex_hang_ops = (ex_fops 0)\<lparr>wait_sync := Some (\<lambda>_ _ _. Inl HANG)\<rparr>"

theorem flush_round_terminates_witness:
  "(\<exists>r. flush_round ex_env (ex_system ex_log1 ex_rs1) = Some r \<and> r \<noteq> Inl HANG) \<and> op_hangs ex_hang_ops"
proof -
  have "\<not> op_hangs (flush_ops (ex_system ex_log1 ex_rs1))"
    by (simp add: op_hangs_def ex_system_def ex_fops_def)
  moreover have "op_hangs ex_hang_ops" by (simp add: op_hangs_def ex_hang_ops_def)
  ultimately show ?thesis
    using flush_round_terminates [of ex_env 0 "ex_system ex_log1 ex_rs1"] by blast
qed

end
