(* ===== verification/Ada_File_Correct.thy ===== *)
theory Ada_File_Correct
  imports Flusher
begin

text \<open>
  The rest of \<^verbatim>\<open>ada_file.c\<close>: unmounting, set-up and tear-down of the module, and the write call down to the
  hooks.  The kernel's part of a write is named in \<open>kernel_writes\<close>.
\<close>

section \<open>Unmounting\<close>










section \<open>Set-up and tear-down\<close>

lemma evict_all_ok:
  assumes "rl_inv h rs" and "distinct rls" and "set rls \<subseteq> dom (r_rlogs rs)"
  shows "\<exists>rs'. evict_all rs rls = Inr rs' \<and> rl_inv h rs' \<and> r_rlogs rs' = r_rlogs rs |` (- set rls) \<and>
    (\<forall>page p. r_pages rs page = Some p \<and> page \<notin> rl_page ` (\<lambda>rl. the (r_rlogs rs rl)) ` set rls \<longrightarrow>
      r_pages rs' page = Some p)"
  using assms
proof (induction rls arbitrary: rs)
  case Nil
  then show ?case by (simp add: restrict_map_def)
next
  case (Cons rl rls)
  from Cons.prems(3) obtain r where r: "r_rlogs rs rl = Some r" by auto
  from evict_rlog_ok [OF Cons.prems(1) r] obtain rs1 where
    e: "evict_rlog rs rl = Inr rs1" "rl_inv h rs1" "r_rlogs rs1 = (r_rlogs rs)(rl := None)"
      "\<forall>page. page \<noteq> rl_page r \<longrightarrow> r_pages rs1 page = r_pages rs page" by blast
  have "set rls \<subseteq> dom (r_rlogs rs1)" using Cons.prems(2,3) by (auto simp: e(3))
  from Cons.IH [OF e(2) _ this] Cons.prems(2) obtain rs' where
    f: "evict_all rs1 rls = Inr rs'" "rl_inv h rs'" "r_rlogs rs' = r_rlogs rs1 |` (- set rls)"
      "\<forall>page p. r_pages rs1 page = Some p \<and> page \<notin> rl_page ` (\<lambda>rl. the (r_rlogs rs1 rl)) ` set rls \<longrightarrow>
        r_pages rs' page = Some p" by auto
  have "(\<lambda>x. the (r_rlogs rs1 x)) ` set rls = (\<lambda>x. the (r_rlogs rs x)) ` set rls"
    using Cons.prems(2) by (auto simp: e(3) image_iff)
  with f(4) have g: "r_pages rs' page = Some p"
    if "r_pages rs page = Some p" "page \<notin> rl_page ` (\<lambda>rl. the (r_rlogs rs rl)) ` set (rl # rls)" for page p
    using that e(4) r by auto
  have "r_rlogs rs' = r_rlogs rs |` (- set (rl # rls))"
    by (rule ext) (auto simp: f(3) e(3) restrict_map_def)
  with e(1) f(1,2) g show ?case by auto
qed

text \<open>
  C19.  Set-up and tear-down.  After \<open>adafs_init_hook\<close> on a system without rlogs there is one empty log
  and the coupling invariant holds; a failed slab allocation is reported as \<open>-ENOMEM\<close> and changes
  nothing.  From any state of the invariant, \<open>adafs_exit_hook\<close> evicts every rlog and frees the
  log, and keeps every page that no rlog refers to.
\<close>

theorem init_exit:
  assumes "rl_inv (hash_of E) (page_rlog S)" and "r_rlogs (page_rlog S) = Map.empty" and "adafs_logs S = Map.empty"
    and "rlog_cachep \<noteq> NULL" and "tran_cachep \<noteq> NULL" and "0 \<le> thread"
    and "adafs_logs T = [0 \<mapsto> log]" and "sys_inv E g T" and "num_logs T = 1"
  shows "(\<exists>S' log'. adafs_init_hook rlog_cachep tran_cachep (Some mem) thread fops S = Inr (0, S') \<and>
      sys_inv E g S' \<and> adafs_logs S' = [0 \<mapsto> log'] \<and> log_list log' = [] \<and> num_logs S' = 1) \<and>
    adafs_init_hook NULL tran_cachep (Some mem) thread fops S = Inr (- ENOMEM, S) \<and>
    (\<exists>T'. adafs_exit_hook T = Inr T' \<and> adafs_logs T' = Map.empty \<and> r_rlogs (page_rlog T') = Map.empty \<and>
      (\<forall>page p. r_pages (page_rlog T) page = Some p \<and> rl_look (hash_of E) (page_rlog T) page = None \<longrightarrow>
        r_pages (page_rlog T') page = Some p))"
proof (intro conjI)
  let ?h = "hash_of E" and ?S = "log_put_at (S\<lparr>num_logs := 1\<rparr>) 0 (new_log mem)"
  let ?S' = "(case fops of Some ops \<Rightarrow> ?S\<lparr>flush_ops := ops\<rparr> | None \<Rightarrow> ?S)\<lparr>flush_cmpl := False\<rparr>"
  have f: "adafs_logs ?S' = [0 \<mapsto> new_log mem]" "page_rlog ?S' = page_rlog S" "num_logs ?S' = 1"
    using assms(3) by (simp_all add: log_put_at_def split: option.split)
  have e: "log_list (new_log mem) = []"
    by (simp add: new_log_def log_init_def log_add_tran_def log_list_def window_def)
  have n: "rl_look ?h (page_rlog S) page = None" for page
    using rl_look_iff [OF assms(1)] assms(2) by (metis not_Some_eq)
  have "\<not> live (new_log mem) q" for q by (simp add: live_def new_log_def log_init_def log_add_tran_def)
  then have "lr_inv ?h g {} (page_rlog S) (new_log mem)"
    using assms(1) n by (simp add: lr_inv_def linked_def backed_def new_log_def log_init_inv)
  then have "sys_inv E g ?S'" using f by (intro sys_invI [OF f(1)]) simp
  moreover have "adafs_init_hook rlog_cachep tran_cachep (Some mem) thread fops S = Inr (0, ?S')"
    using assms(4-6) by (simp add: adafs_init_hook_def Let_def)
  ultimately show "\<exists>S' log'. adafs_init_hook rlog_cachep tran_cachep (Some mem) thread fops S = Inr (0, S') \<and>
      sys_inv E g S' \<and> adafs_logs S' = [0 \<mapsto> log'] \<and> log_list log' = [] \<and> num_logs S' = 1"
    using f(1,3) e by blast
  show "adafs_init_hook NULL tran_cachep (Some mem) thread fops S = Inr (- ENOMEM, S)"
    by (simp add: adafs_init_hook_def)
next
  let ?h = "hash_of E" and ?rs = "page_rlog T"
  have i: "rl_inv ?h ?rs" by (rule lr_invD(2) [OF sys_invD [OF assms(7,8)]])
  have "dom (rl_key ?rs) = dom (r_rlogs ?rs)" by (auto simp: rl_key_def)
  then have w: "set (sht_walk (r_table ?rs)) = dom (r_rlogs ?rs)" "distinct (sht_walk (r_table ?rs))"
    using sht_walk_all [of ?h "rl_key ?rs" "r_table ?rs"] i by (simp_all add: rl_inv_def)
  from evict_all_ok [OF i w(2)] w(1) obtain rs' where
    e: "evict_all ?rs (sht_walk (r_table ?rs)) = Inr rs'" "r_rlogs rs' = r_rlogs ?rs |` (- dom (r_rlogs ?rs))"
      "\<forall>page p. r_pages ?rs page = Some p \<and> page \<notin> rl_page ` (\<lambda>rl. the (r_rlogs ?rs rl)) ` dom (r_rlogs ?rs) \<longrightarrow>
        r_pages rs' page = Some p" by auto
  have m: "r_rlogs rs' = Map.empty" unfolding e(2) by (auto simp: restrict_map_def fun_eq_iff domIff)
  let ?T = "T\<lparr>page_rlog := rs', adafs_logs := Map.empty\<rparr>"
  have x: "adafs_exit_hook T = Inr ?T"
    using e(1) assms(7,9)
    by (simp add: adafs_exit_hook_def log_at_def MAX_LOG_NUM_def log_put_at_def Let_def)
  have "r_pages rs' page = Some p" if p: "r_pages ?rs page = Some p" "rl_look ?h ?rs page = None" for page p
  proof -
    have "page \<noteq> rl_page r" if "r_rlogs ?rs rl = Some r" for rl r
      using p(2) that rl_look_iff [OF i, of page "rl_enti r"] by (cases r) auto
    then have "page \<notin> rl_page ` (\<lambda>rl. the (r_rlogs ?rs rl)) ` dom (r_rlogs ?rs)" by fastforce
    with p(1) e(3) show ?thesis by blast
  qed
  with x m show "\<exists>T'. adafs_exit_hook T = Inr T' \<and> adafs_logs T' = Map.empty \<and> r_rlogs (page_rlog T') = Map.empty \<and>
      (\<forall>page p. r_pages (page_rlog T) page = Some p \<and> rl_look (hash_of E) (page_rlog T) page = None \<longrightarrow>
        r_pages (page_rlog T') page = Some p)"
    by (intro exI [of _ ?T]) simp
qed

theorem init_exit_witness:
  "(\<exists>S' log'. adafs_init_hook 8 16 (Some ex_log) 0 None
      ((ex_system ex_log ex_rs)\<lparr>adafs_logs := Map.empty\<rparr>) = Inr (0, S') \<and>
      adafs_logs S' = [0 \<mapsto> log'] \<and> log_list log' = []) \<and>
    (\<exists>T'. adafs_exit_hook (ex_system ex_log1 ex_rs1) = Inr T' \<and> r_rlogs (page_rlog T') = Map.empty)"
proof -
  let ?S = "(ex_system ex_log ex_rs)\<lparr>adafs_logs := Map.empty\<rparr>"
  have s: "rl_inv (hash_of ex_env) (page_rlog ?S)" "r_rlogs (page_rlog ?S) = Map.empty" "adafs_logs ?S = Map.empty"
    using ex_rs_inv by (simp_all add: ex_rs_def)
  have n: "(8 :: ptr) \<noteq> NULL" "(16 :: ptr) \<noteq> NULL" "0 \<le> (0 :: int)" "num_logs (ex_system ex_log1 ex_rs1) = 1"
    by (simp_all add: ex_system_def)
  from init_exit [OF s n(1-3) ex_sys_fields(1) ex_sys_inv n(4), of ex_log None] show ?thesis by blast
qed

section \<open>The write path\<close>

text \<open>
  What the kernel's functions do in a write of \<open>n\<close> bytes inside one page: the checks pass, the page is in
  the page cache, all bytes are copied, and nothing but the page's data changes.
\<close>

definition kernel_writes ::
  "('i, 'd) wkernel \<Rightarrow> 'i checks \<Rightarrow> u32 \<Rightarrow> u64 \<Rightarrow> u64 \<Rightarrow> ptr \<Rightarrow> 'd system \<Rightarrow> bool" where
  "kernel_writes W C flags pos n page S \<longleftrightarrow>
     (let i = iov_iter_init C n; offset = pos AND (PAGE_CACHE_SIZE - 1) in
      generic_segment_checks C = (0, n) \<and> generic_write_checks C pos n = (0, pos, n) \<and>
      file_remove_suid C = 0 \<and> iov_iter_count W i = n \<and>
      iov_iter_count W (iov_iter_advance W i n) = 0 \<and> \<not> iov_iter_fault_in_readable W i n \<and>
      write_begin W pos n flags S = (0, page, S) \<and>
      (\<forall>S1. \<exists>S2. iov_iter_copy_from_user_atomic W page i offset n S1 = (n, S2) \<and> data_copied S1 S2) \<and>
      (\<forall>S1. write_end W pos n n page S1 = (uint n, S1)))"

lemma page_bytes:
  assumes "offset + n \<le> 4096" and "offset < 4096" and "n \<le> 4096"
  shows "min (PAGE_CACHE_SIZE - offset) n = n" and "offset + n < (2 :: u64) ^ 16" and "sint n = uint n"
proof -
  have u: "unat offset < 4096" "unat n \<le> 4096" using assms(2,3) by (simp_all add: word_less_nat_alt word_le_nat_alt)
  have s: "unat (offset + n) = unat offset + unat n" using u by (simp add: unat_word_ariths)
  have c: "PAGE_CACHE_SIZE = 4096" by (simp add: PAGE_CACHE_SIZE_def PAGE_CACHE_SHIFT_def)
  have le: "unat offset + unat n \<le> 4096" using assms(1) s by (simp add: word_le_nat_alt)
  have "offset \<le> 4096" using assms(2) by simp
  then have "unat (4096 - offset) = 4096 - unat offset" by (simp add: unat_sub)
  with le have "n \<le> PAGE_CACHE_SIZE - offset" by (simp add: c word_le_nat_alt)
  then show "min (PAGE_CACHE_SIZE - offset) n = n" by (rule min_absorb2)
  show "offset + n < 2 ^ 16" using s le by (simp add: word_less_nat_alt)
  have n: "uint n \<le> 4096" "0 \<le> uint n" using assms(3) by (simp_all add: word_le_def)
  have "sint n = signed_take_bit 63 (uint n)" using sint_uint [of n] by simp
  also have "\<dots> = uint n"
    by (rule signed_take_bit_int_eq_self) (rule order.trans [OF _ n(2)] order.strict_trans1 [OF n(1)], simp)+
  finally show "sint n = uint n" .
qed

lemma page_offset: "pos AND (PAGE_CACHE_SIZE - 1) < 4096"
proof -
  have "pos AND (PAGE_CACHE_SIZE - 1) = take_bit 12 pos"
    by (simp add: PAGE_CACHE_SIZE_def PAGE_CACHE_SHIFT_def take_bit_eq_mask mask_eq_exp_minus_1)
  also have "\<dots> < 2 ^ 12"
    using take_bit_nat_less_exp [of 12 "unat pos"] by (simp add: word_less_nat_alt unsigned_take_bit_eq)
  finally show ?thesis by simp
qed

text \<open>
  C9.  A write call that stays in one page.  With the kernel doing its part, room in the log and fresh
  addresses from the allocators, \<open>adafs_file_aio_write\<close> returns the number of bytes and advances the file
  position by it, and the page is logged with the file's inode, its index and the end of the
  written data, with the coupling invariant intact.
\<close>

theorem aio_write_logged:
  assumes "write_ready E g S log host page p"
    and "kernel_writes W C (if ds then AOP_FLAG_UNINTERRUPTIBLE else 0) pos n page S"
    and "n \<noteq> 0" and "n \<le> 4096" and "(pos AND (PAGE_CACHE_SIZE - 1)) + n \<le> 4096"
  shows "\<exists>S2. adafs_file_aio_write E W C host ds pos pos S = Some (Inr (uint n, pos + n, S2)) \<and>
    write_done E g log host page p ((pos AND (PAGE_CACHE_SIZE - 1)) + n) n
      (entries_used (rl_look (hash_of E) (page_rlog S) page) log) S2"
proof -
  let ?o = "pos AND (PAGE_CACHE_SIZE - 1)" and ?i = "iov_iter_init C n"
  let ?f = "if ds then AOP_FLAG_UNINTERRUPTIBLE else 0"
  note b = page_bytes [OF assms(5) page_offset assms(4)]
  have k: "generic_segment_checks C = (0, n)" "generic_write_checks C pos n = (0, pos, n)"
      "file_remove_suid C = 0" "iov_iter_count W ?i = n" "iov_iter_count W (iov_iter_advance W ?i n) = 0"
      "\<not> iov_iter_fault_in_readable W ?i n" "write_begin W pos n ?f S = (0, page, S)"
      "\<And>S1. \<exists>S2. iov_iter_copy_from_user_atomic W page ?i ?o n S1 = (n, S2) \<and> data_copied S1 S2"
      "\<And>S1. write_end W pos n n page S1 = (uint n, S1)"
    using assms(2) unfolding kernel_writes_def Let_def by blast+
  from page_write_ok [OF assms(1) b(2)] obtain rl S1 where
    a: "adafs_try_assoc_rlog E host page S = Inr (rl, S1)"
      "\<And>S1'. data_copied S1 S1' \<Longrightarrow> \<exists>S2. adafs_try_append_log E host rl ?o n S1' = Some (Inr (0, S2)) \<and>
        write_done E g log host page p (?o + n) n (entries_used (rl_look (hash_of E) (page_rlog S) page) log) S2"
    by blast
  from k(8) [of S1] obtain S1' where
    c: "iov_iter_copy_from_user_atomic W page ?i ?o n S1 = (n, S1')" "data_copied S1 S1'" by blast
  from a(2) [OF c(2)] obtain S2 where
    d: "adafs_try_append_log E host rl ?o n S1' = Some (Inr (0, S2))"
      "write_done E g log host page p (?o + n) n (entries_used (rl_look (hash_of E) (page_rlog S) page) log) S2" by blast
  have "write_page E W host ?f pos ?o n None ?i S = Some (Inr (Copied n rl (iov_iter_advance W ?i n), S1'))"
    using k(6,7) a(1) c(1) k(9) [of S1'] assms(3)
    by (subst write_page.simps) (simp add: Let_def not_less)
  then have "write_pages E W host ?f pos 0 ?i S = Some (Inr (uint n, S2))"
    using d(1) k(4,5) assms(3) b(1,3) by (subst write_pages.simps) (simp add: Let_def)
  then have "adafs_perform_write E W host ds ?i pos S = Some (Inr (uint n, S2))"
    by (simp add: adafs_perform_write_def)
  then have "adafs_file_buffered_write E W host ds ?i pos pos 0 S = Some (Inr (uint n, pos + n, S2))"
    using assms(3) by (simp add: adafs_file_buffered_write_def Let_def)
  then have "adafs_file_aio_write E W C host ds pos pos S = Some (Inr (uint n, pos + n, S2))"
    using k(1-3) assms(3) by (simp add: adafs_file_aio_write_def do_adafs_file_aio_write_def)
  with d(2) show ?thesis by blast
qed

definition ex_wkernel :: "(u64, unit) wkernel" where
  "ex_wkernel = \<lparr>iov_iter_count = (\<lambda>i. i), iov_iter_single_seg_count = (\<lambda>i. i), iov_iter_advance = (\<lambda>i n. i - n),
     iov_iter_fault_in_readable = (\<lambda>_ _. False), write_begin = (\<lambda>_ _ _ S. (0, 4096, S)),
     iov_iter_copy_from_user_atomic = (\<lambda>_ _ _ n S. (n, S)), write_end = (\<lambda>_ _ n _ S. (uint n, S))\<rparr>"

definition ex_checks :: "u64 checks" where
  "ex_checks = \<lparr>generic_segment_checks = (0, 100), generic_write_checks = (\<lambda>pos n. (0, pos, n)),
     file_remove_suid = 0, iov_iter_init = (\<lambda>n. n)\<rparr>"

theorem aio_write_logged_witness:
  "\<exists>S2. adafs_file_aio_write ex_env ex_wkernel ex_checks ex_host False 4096 4096 (ex_system ex_log1 ex_rs1) =
     Some (Inr (100, 4196, S2)) \<and>
     write_done ex_env (\<lambda>_. 7) ex_log1 ex_host 4096 (ex_page\<lparr>p_count := 2\<rparr>) 100 100 1 S2"
proof -
  have o: "4096 AND (PAGE_CACHE_SIZE - 1) = 0" by (simp add: PAGE_CACHE_SIZE_def PAGE_CACHE_SHIFT_def)
  have k: "kernel_writes ex_wkernel ex_checks (if False then AOP_FLAG_UNINTERRUPTIBLE else 0) 4096 100 4096
      (ex_system ex_log1 ex_rs1)"
    by (simp add: kernel_writes_def ex_wkernel_def ex_checks_def Let_def data_copied_refl)
  have e: "entries_used (rl_look (hash_of ex_env) (page_rlog (ex_system ex_log1 ex_rs1)) 4096) ex_log1 = 1"
    by (simp add: entries_used_def ex_look1 seq_less_def ex_log1_def ex_log_def)
  have n: "(100 :: u64) \<noteq> 0" "(100 :: u64) \<le> 4096" "(4096 AND (PAGE_CACHE_SIZE - 1)) + (100 :: u64) \<le> 4096"
    by (simp_all add: o)
  from aio_write_logged [OF ex_ready1 k n] show ?thesis unfolding e o by simp
qed







end
