(* ===== verification/Sysfs.thy ===== *)
theory Sysfs
  imports Hooks
begin

text \<open>
  The attributes of a log under sysfs, from \<^verbatim>\<open>ada_log.c\<close> and the macros of \<^verbatim>\<open>ada_log.h\<close>:
  \<open>staleness_sum\<close> shows the stale bytes of the log and, when 0 is stored, wakes the flusher;
  \<open>stal_limit_blocks\<close> shows and sets the limit of the policy.  Text is a character list; the
  number printer stands for \<open>%lu\<close> and \<open>%u\<close> of \<open>snprintf\<close>, which agree on 32-bit values, and the kernel's parsers \<open>kstrtoul\<close> and \<open>kstrtouint\<close> are
  parameters that return an error code and a value.
\<close>

section \<open>Text\<close>

definition PAGE_SIZE :: nat where
  "PAGE_SIZE = 4096"

definition digit :: "nat \<Rightarrow> char" where
  "digit d = char_of (48 + d)"

fun print_lu :: "nat \<Rightarrow> string" where
  "print_lu n = (if n < 10 then [digit n] else print_lu (n div 10) @ [digit (n mod 10)])"

declare print_lu.simps [simp del]

text \<open>The length of the text is returned; what fits, less the terminating null, is stored.\<close>

definition snprintf :: "nat \<Rightarrow> string \<Rightarrow> int \<times> string" where
  "snprintf sz text = (int (length text), take (sz - 1) text)"

abbreviation newline :: char where
  "newline \<equiv> CHR 0x0A"

section \<open>Attributes\<close>

record parsers =
  kstrtoul :: "string \<Rightarrow> nat \<Rightarrow> int \<times> u64"
  kstrtouint :: "string \<Rightarrow> nat \<Rightarrow> int \<times> u32"

record 'd adafs_log_attr =
  attr_name :: string
  attr_mode :: nat
  attr_show :: "(adafs_log \<Rightarrow> 'd system \<Rightarrow> int \<times> string) option"
  attr_store :: "(adafs_log \<Rightarrow> string \<Rightarrow> nat \<Rightarrow> 'd system \<Rightarrow> int \<times> 'd system) option"

definition staleness_sum_show :: "adafs_log \<Rightarrow> 'd system \<Rightarrow> int \<times> string" where
  "staleness_sum_show log S =
     (let sum = log_stal_sum log in snprintf PAGE_SIZE (print_lu (unat sum) @ [newline]))"

definition staleness_sum_store ::
  "parsers \<Rightarrow> adafs_log \<Rightarrow> string \<Rightarrow> nat \<Rightarrow> 'd system \<Rightarrow> int \<times> 'd system" where
  "staleness_sum_store P log buf len S =
     (case kstrtoul P buf 0 of (err, req_sum) \<Rightarrow>
        if err \<noteq> 0 \<or> req_sum \<noteq> 0 then (- EINVAL, S)
        else (int len, wake_up_flusher S))"

definition stal_limit_blocks_show :: "adafs_log \<Rightarrow> 'd system \<Rightarrow> int \<times> string" where
  "stal_limit_blocks_show log S =
     snprintf PAGE_SIZE (print_lu (unat (stal_limit_blocks S)) @ [newline])"

definition stal_limit_blocks_store ::
  "parsers \<Rightarrow> adafs_log \<Rightarrow> string \<Rightarrow> nat \<Rightarrow> 'd system \<Rightarrow> int \<times> 'd system" where
  "stal_limit_blocks_store P log buf len S =
     (case kstrtouint P buf 0 of (err, limit) \<Rightarrow>
        if err \<noteq> 0 then (- EINVAL, S)
        else (int len, S\<lparr>stal_limit_blocks := limit\<rparr>))"

definition ADAFS_LOG_ATTR ::
  "string \<Rightarrow> nat \<Rightarrow> (adafs_log \<Rightarrow> 'd system \<Rightarrow> int \<times> string) option \<Rightarrow>
     (adafs_log \<Rightarrow> string \<Rightarrow> nat \<Rightarrow> 'd system \<Rightarrow> int \<times> 'd system) option \<Rightarrow> 'd adafs_log_attr" where
  "ADAFS_LOG_ATTR name mode sh st =
     \<lparr>attr_name = name, attr_mode = mode, attr_show = sh, attr_store = st\<rparr>"

text \<open>The modes are the octal 0444 and 0644.\<close>

definition ADAFS_RO_LA ::
  "string \<Rightarrow> (adafs_log \<Rightarrow> 'd system \<Rightarrow> int \<times> string) \<Rightarrow> 'd adafs_log_attr" where
  "ADAFS_RO_LA name sh = ADAFS_LOG_ATTR name 292 (Some sh) None"

definition ADAFS_RW_LA ::
  "string \<Rightarrow> (adafs_log \<Rightarrow> 'd system \<Rightarrow> int \<times> string) \<Rightarrow>
     (adafs_log \<Rightarrow> string \<Rightarrow> nat \<Rightarrow> 'd system \<Rightarrow> int \<times> 'd system) \<Rightarrow> 'd adafs_log_attr" where
  "ADAFS_RW_LA name sh st = ADAFS_LOG_ATTR name 420 (Some sh) (Some st)"

definition adafs_log_attrs :: "parsers \<Rightarrow> 'd adafs_log_attr list" where
  "adafs_log_attrs P =
     [ADAFS_RW_LA ''staleness_sum'' staleness_sum_show (staleness_sum_store P),
      ADAFS_RW_LA ''stal_limit_blocks'' stal_limit_blocks_show (stal_limit_blocks_store P)]"

definition adafs_la_show :: "adafs_log \<Rightarrow> 'd adafs_log_attr \<Rightarrow> 'd system \<Rightarrow> int \<times> string" where
  "adafs_la_show log a S = (case attr_show a of Some f \<Rightarrow> f log S | None \<Rightarrow> (0, []))"

definition adafs_la_store ::
  "adafs_log \<Rightarrow> 'd adafs_log_attr \<Rightarrow> string \<Rightarrow> nat \<Rightarrow> 'd system \<Rightarrow> int \<times> 'd system" where
  "adafs_la_store log a buf len S = (case attr_store a of Some f \<Rightarrow> f log buf len S | None \<Rightarrow> (0, S))"

section \<open>Lemmas: printed numbers\<close>

lemma length_print_lu: "n < 10 ^ Suc k \<Longrightarrow> length (print_lu n) \<le> Suc k"
proof (induction k arbitrary: n)
  case 0
  then show ?case by (simp add: print_lu.simps)
next
  case (Suc k)
  have "n div 10 < 10 ^ Suc k" using Suc.prems by (simp add: less_mult_imp_div_less)
  from Suc.IH [OF this] show ?case by (subst print_lu.simps) simp
qed

lemma show_fits:
  assumes "n < 2 ^ 64"
  shows "snprintf PAGE_SIZE (print_lu n @ [newline]) =
    (int (Suc (length (print_lu n))), print_lu n @ [newline])" and "length (print_lu n) \<le> 20"
proof -
  have "n < 10 ^ Suc 19" using assms by simp
  from length_print_lu [OF this] show l: "length (print_lu n) \<le> 20" by simp
  then show "snprintf PAGE_SIZE (print_lu n @ [newline]) =
      (int (Suc (length (print_lu n))), print_lu n @ [newline])"
    by (simp add: snprintf_def PAGE_SIZE_def)
qed

text \<open>
  Decimal numbers as text, without superfluous zeros in front (text that begins with 0 is octal for
  the kernel's parsers), and their value.
\<close>

definition is_digit :: "char \<Rightarrow> bool" where
  "is_digit c \<longleftrightarrow> 48 \<le> (of_char c :: nat) \<and> (of_char c :: nat) < 58"

definition decimal :: "string \<Rightarrow> bool" where
  "decimal s \<longleftrightarrow> s \<noteq> [] \<and> list_all is_digit s \<and> (hd s = CHR ''0'' \<longrightarrow> length s = 1)"

definition dec_value :: "string \<Rightarrow> nat" where
  "dec_value s = foldl (\<lambda>acc c. 10 * acc + (of_char c - 48)) 0 s"

text \<open>
  What is documented of \<open>kstrtouint\<close> with base 0: it reads a decimal number that may be followed by
  one newline, and reports one that does not fit an \<open>unsigned int\<close>.
\<close>

definition parses_decimal :: "parsers \<Rightarrow> bool" where
  "parses_decimal P \<longleftrightarrow>
     (\<forall>s nl. decimal s \<and> nl \<in> {[], [newline]} \<longrightarrow>
        (if dec_value s < 2 ^ 32 then kstrtouint P (s @ nl) 0 = (0, of_nat (dec_value s))
         else fst (kstrtouint P (s @ nl) 0) \<noteq> 0))"

lemma of_char_digit: "d < 10 \<Longrightarrow> (of_char (digit d) :: nat) = 48 + d"
  by (simp add: digit_def)

lemma dec_value_simps [simp]: "dec_value [] = 0" "dec_value (s @ [c]) = 10 * dec_value s + (of_char c - 48)"
  by (simp_all add: dec_value_def)

lemma print_lu_value: "dec_value (print_lu n) = n"
proof (induction n rule: print_lu.induct)
  case (1 n)
  show ?case
  proof (cases "n < 10")
    case True
    then show ?thesis by (simp add: print_lu.simps [of n] of_char_digit dec_value_def)
  next
    case False
    then have e: "print_lu n = print_lu (n div 10) @ [digit (n mod 10)]" by (subst print_lu.simps) simp
    have "n mod 10 < 10" by simp
    from of_char_digit [OF this] 1 [OF False] show ?thesis unfolding e by simp
  qed
qed

lemma digit_zero: "digit d = CHR ''0'' \<Longrightarrow> d < 10 \<Longrightarrow> d = 0"
  using of_char_digit [of d] by auto

lemma print_lu_head: "print_lu n \<noteq> [] \<and> list_all is_digit (print_lu n) \<and> (hd (print_lu n) = CHR ''0'' \<longrightarrow> n = 0)"
proof (induction n rule: print_lu.induct)
  case (1 n)
  show ?case
  proof (cases "n < 10")
    case True
    then show ?thesis
      by (auto simp: print_lu.simps [of n] is_digit_def of_char_digit dest: digit_zero)
  next
    case False
    then have e: "print_lu n = print_lu (n div 10) @ [digit (n mod 10)]" by (subst print_lu.simps) simp
    have "is_digit (digit (n mod 10))" by (simp add: is_digit_def of_char_digit)
    with 1 [OF False] False show ?thesis unfolding e by auto
  qed
qed

lemma print_lu_decimal: "decimal (print_lu n)"
proof -
  have "length (print_lu 0) = 1" by (subst print_lu.simps) simp
  with print_lu_head [of n] show ?thesis by (auto simp: decimal_def)
qed

lemma dec_value_pos: "list_all is_digit s \<Longrightarrow> s \<noteq> [] \<Longrightarrow> hd s \<noteq> CHR ''0'' \<Longrightarrow> 0 < dec_value s"
proof (induction s rule: rev_induct)
  case (snoc c s)
  show ?case
  proof (cases "s = []")
    case True
    have "(of_char c :: nat) \<noteq> of_char (CHR ''0'')" using snoc.prems(3) True by (simp only: of_char_eq_iff) simp
    then show ?thesis using snoc.prems(1) True by (auto simp: is_digit_def dec_value_def)
  next
    case False
    with snoc show ?thesis by simp
  qed
qed simp

lemma decimal_print: "decimal s \<Longrightarrow> print_lu (dec_value s) = s"
proof (induction s rule: rev_induct)
  case (snoc c s)
  have c: "is_digit c" using snoc.prems by (simp add: decimal_def)
  then have d: "(of_char c :: nat) - 48 < 10" "digit (of_char c - 48) = c" by (auto simp: is_digit_def digit_def)
  show ?case
  proof (cases "s = []")
    case True
    with d show ?thesis by (subst print_lu.simps) (simp add: dec_value_def)
  next
    case False
    then have s: "list_all is_digit s" "hd s \<noteq> CHR ''0''" using snoc.prems by (auto simp: decimal_def)
    with False have "decimal s" by (simp add: decimal_def)
    moreover have "0 < dec_value s" using dec_value_pos [OF s(1) False s(2)] .
    ultimately show ?thesis
      using snoc.IH d by (subst print_lu.simps) simp
  qed
qed (simp add: decimal_def)

section \<open>Properties\<close>

text \<open>
  C37.  The limit survives the way through text in both directions, for a parser that reads decimal
  numbers as documented.  Reading \<open>stal_limit_blocks\<close> and writing back what was read changes
  nothing, and the text fits the page that sysfs provides.  Writing a decimal number below
  \<open>2 ^ 32\<close>, with or without a newline, and reading gives that number back, followed by a newline;
  a larger one is refused with \<open>-EINVAL\<close> and changes nothing, as is any text that does not parse.
\<close>

theorem limit_show_store:
  assumes "parses_decimal P"
  shows "(\<exists>text. stal_limit_blocks_show log S = (int (length text), text) \<and> length text \<le> 21 \<and>
      stal_limit_blocks_store P log text (length text) S = (int (length text), S)) \<and>
    (\<forall>s nl. decimal s \<and> nl \<in> {[], [newline]} \<longrightarrow>
      (if dec_value s < 2 ^ 32
       then \<exists>S'. stal_limit_blocks_store P log (s @ nl) (length (s @ nl)) S = (int (length (s @ nl)), S') \<and>
         stal_limit_blocks_show log S' = (int (length s) + 1, s @ [newline]) \<and>
         S' = S\<lparr>stal_limit_blocks := stal_limit_blocks S'\<rparr>
       else stal_limit_blocks_store P log (s @ nl) (length (s @ nl)) S = (- EINVAL, S))) \<and>
    (\<forall>buf. fst (kstrtouint P buf 0) \<noteq> 0 \<longrightarrow>
      stal_limit_blocks_store P log buf (length buf) S = (- EINVAL, S))"
proof (intro conjI allI impI)
  let ?n = "unat (stal_limit_blocks S)"
  have n: "?n < 2 ^ 32" using unsigned_less [of "stal_limit_blocks S"] by simp
  then have n64: "?n < 2 ^ 64" by simp
  have "kstrtouint P (print_lu ?n @ [newline]) 0 = (0, stal_limit_blocks S)"
    using assms n print_lu_decimal [of ?n] print_lu_value [of ?n] unfolding parses_decimal_def
    by (auto dest!: spec [of _ "print_lu ?n"])
  with show_fits [OF n64]
  show "\<exists>text. stal_limit_blocks_show log S = (int (length text), text) \<and> length text \<le> 21 \<and>
      stal_limit_blocks_store P log text (length text) S = (int (length text), S)"
    by (intro exI [of _ "print_lu ?n @ [newline]"])
      (auto simp: stal_limit_blocks_show_def stal_limit_blocks_store_def)
next
  fix s nl assume s: "decimal s \<and> nl \<in> {[], [newline]}"
  have p: "if dec_value s < 2 ^ 32 then kstrtouint P (s @ nl) 0 = (0, of_nat (dec_value s))
      else fst (kstrtouint P (s @ nl) 0) \<noteq> 0"
    using assms s unfolding parses_decimal_def by blast
  show "if dec_value s < 2 ^ 32
       then \<exists>S'. stal_limit_blocks_store P log (s @ nl) (length (s @ nl)) S = (int (length (s @ nl)), S') \<and>
         stal_limit_blocks_show log S' = (int (length s) + 1, s @ [newline]) \<and>
         S' = S\<lparr>stal_limit_blocks := stal_limit_blocks S'\<rparr>
       else stal_limit_blocks_store P log (s @ nl) (length (s @ nl)) S = (- EINVAL, S)"
  proof (cases "dec_value s < 2 ^ 32")
    case True
    then have "unat (of_nat (dec_value s) :: u32) = dec_value s" by (simp add: unat_of_nat)
    moreover have "dec_value s < 2 ^ 64" using True by simp
    ultimately show ?thesis
      using p True show_fits(1) [of "dec_value s"] s decimal_print [of s]
      by (auto simp: stal_limit_blocks_show_def stal_limit_blocks_store_def)
  qed (use p in \<open>auto simp: stal_limit_blocks_store_def split: prod.split\<close>)
qed (auto simp: stal_limit_blocks_store_def split: prod.split)

definition ex_number :: "string \<Rightarrow> string" where
  "ex_number s = takeWhile is_digit s"

definition ex_parsers :: parsers where
  "ex_parsers = \<lparr>kstrtoul = (\<lambda>s b. (0, of_nat (dec_value (ex_number s)))),
     kstrtouint = (\<lambda>s b. (if dec_value (ex_number s) < 2 ^ 32 then 0 else - 34, of_nat (dec_value (ex_number s))))\<rparr>"

lemma ex_parses: "parses_decimal ex_parsers"
proof -
  have "ex_number (s @ nl) = s" if "decimal s" "nl \<in> {[], [newline]}" for s nl
  proof -
    have "takeWhile is_digit s = s" using that(1) by (simp add: decimal_def list_all_iff)
    moreover have "takeWhile is_digit nl = []" using that(2) by (auto simp: is_digit_def)
    ultimately show ?thesis
      using that(1) by (simp add: ex_number_def decimal_def list_all_iff takeWhile_append)
  qed
  then show ?thesis by (simp add: parses_decimal_def ex_parsers_def)
qed

theorem limit_show_store_witness:
  "\<forall>log (S :: unit system). \<exists>S'.
     stal_limit_blocks_store ex_parsers log (''8192'' @ [newline]) 5 S = (5, S') \<and>
     stal_limit_blocks_show log S' = (5, ''8192'' @ [newline])"
proof (intro allI)
  fix log and S :: "unit system"
  have d: "decimal ''8192'' \<and> [newline] \<in> {[], [newline]}" by (simp add: decimal_def is_digit_def)
  have v: "dec_value ''8192'' < 2 ^ 32" by (simp add: dec_value_def)
  have l: "length (''8192'' @ [newline]) = 5" "int (length ''8192'') + 1 = 5" "int 5 = 5" by simp_all
  from limit_show_store [OF ex_parses, THEN conjunct2, THEN conjunct1, rule_format, OF d, of log S,
      unfolded if_P [OF v] l]
  show "\<exists>S'. stal_limit_blocks_store ex_parsers log (''8192'' @ [newline]) 5 S = (5, S') \<and>
     stal_limit_blocks_show log S' = (5, ''8192'' @ [newline])" by blast
qed

end
