(* ===== verification/Ulist.thy ===== *)
theory Ulist
  imports Prelude
begin

text \<open>
  The intrusive lists of \<^verbatim>\<open>ulist.h\<close>, at the level of pointers.  The heap of \<open>struct list_head\<close>s maps
  the address of a node to its \<open>next\<close> and \<open>prev\<close> fields; every function writes the fields in the
  order in which the code does.  \<open>is_list h head xs\<close> says that the circular chain at \<open>head\<close> links
  the nodes \<open>xs\<close>; each operation is shown to do to \<open>xs\<close> what its name says.  A loop over a list may
  run forever on a broken chain: it is a partial function, \<open>None\<close> if it does not end.
\<close>

section \<open>The heap\<close>

record lheap =
  l_next :: "ptr \<Rightarrow> ptr"
  l_prev :: "ptr \<Rightarrow> ptr"

definition LIST_POISON1 :: ptr where
  "LIST_POISON1 = 0"

definition LIST_POISON2 :: ptr where
  "LIST_POISON2 = 0"

definition set_next :: "lheap \<Rightarrow> ptr \<Rightarrow> ptr \<Rightarrow> lheap" where
  "set_next h p v = h\<lparr>l_next := (l_next h)(p := v)\<rparr>"

definition set_prev :: "lheap \<Rightarrow> ptr \<Rightarrow> ptr \<Rightarrow> lheap" where
  "set_prev h p v = h\<lparr>l_prev := (l_prev h)(p := v)\<rparr>"

section \<open>Operations\<close>

definition INIT_LIST_HEAD :: "lheap \<Rightarrow> ptr \<Rightarrow> lheap" where
  "INIT_LIST_HEAD h list = set_prev (set_next h list list) list list"

definition do_list_add :: "lheap \<Rightarrow> ptr \<Rightarrow> ptr \<Rightarrow> ptr \<Rightarrow> lheap" where
  "do_list_add h new prev nxt =
     (let h1 = set_prev h nxt new;
          h2 = set_next h1 new nxt;
          h3 = set_prev h2 new prev
      in set_next h3 prev new)"

definition list_add :: "lheap \<Rightarrow> ptr \<Rightarrow> ptr \<Rightarrow> lheap" where
  "list_add h new head = do_list_add h new head (l_next h head)"

definition list_add_tail :: "lheap \<Rightarrow> ptr \<Rightarrow> ptr \<Rightarrow> lheap" where
  "list_add_tail h new head = do_list_add h new (l_prev h head) head"

definition do_list_del :: "lheap \<Rightarrow> ptr \<Rightarrow> ptr \<Rightarrow> lheap" where
  "do_list_del h prev nxt = set_next (set_prev h nxt prev) prev nxt"

definition list_del_entry :: "lheap \<Rightarrow> ptr \<Rightarrow> lheap" where
  "list_del_entry h entry = do_list_del h (l_prev h entry) (l_next h entry)"

definition list_del :: "lheap \<Rightarrow> ptr \<Rightarrow> lheap" where
  "list_del h entry =
     (let h1 = do_list_del h (l_prev h entry) (l_next h entry)
      in set_prev (set_next h1 entry LIST_POISON1) entry LIST_POISON2)"

definition list_replace :: "lheap \<Rightarrow> ptr \<Rightarrow> ptr \<Rightarrow> lheap" where
  "list_replace h old new =
     (let h1 = set_next h new (l_next h old);
          h2 = set_prev h1 (l_next h1 new) new;
          h3 = set_prev h2 new (l_prev h2 old)
      in set_next h3 (l_prev h3 new) new)"

definition list_replace_init :: "lheap \<Rightarrow> ptr \<Rightarrow> ptr \<Rightarrow> lheap" where
  "list_replace_init h old new = INIT_LIST_HEAD (list_replace h old new) old"

definition list_del_init :: "lheap \<Rightarrow> ptr \<Rightarrow> lheap" where
  "list_del_init h entry = INIT_LIST_HEAD (list_del_entry h entry) entry"

definition list_move :: "lheap \<Rightarrow> ptr \<Rightarrow> ptr \<Rightarrow> lheap" where
  "list_move h list head = list_add (list_del_entry h list) list head"

definition list_move_tail :: "lheap \<Rightarrow> ptr \<Rightarrow> ptr \<Rightarrow> lheap" where
  "list_move_tail h list head = list_add_tail (list_del_entry h list) list head"

definition list_is_last :: "lheap \<Rightarrow> ptr \<Rightarrow> ptr \<Rightarrow> bool" where
  "list_is_last h list head \<longleftrightarrow> l_next h list = head"

definition list_empty :: "lheap \<Rightarrow> ptr \<Rightarrow> bool" where
  "list_empty h head \<longleftrightarrow> l_next h head = head"

definition list_empty_careful :: "lheap \<Rightarrow> ptr \<Rightarrow> bool" where
  "list_empty_careful h head \<longleftrightarrow>
     (let nxt = l_next h head in nxt = head \<and> nxt = l_prev h head)"

definition list_rotate_left :: "lheap \<Rightarrow> ptr \<Rightarrow> lheap" where
  "list_rotate_left h head =
     (if \<not> list_empty h head then list_move_tail h (l_next h head) head else h)"

definition list_is_singular :: "lheap \<Rightarrow> ptr \<Rightarrow> bool" where
  "list_is_singular h head \<longleftrightarrow> \<not> list_empty h head \<and> l_next h head = l_prev h head"

definition do_list_cut_position :: "lheap \<Rightarrow> ptr \<Rightarrow> ptr \<Rightarrow> ptr \<Rightarrow> lheap" where
  "do_list_cut_position h list head entry =
     (let new_first = l_next h entry;
          h1 = set_next h list (l_next h head);
          h2 = set_prev h1 (l_next h1 list) list;
          h3 = set_prev h2 list entry;
          h4 = set_next h3 entry list;
          h5 = set_next h4 head new_first
      in set_prev h5 new_first head)"

definition list_cut_position :: "lheap \<Rightarrow> ptr \<Rightarrow> ptr \<Rightarrow> ptr \<Rightarrow> lheap" where
  "list_cut_position h list head entry =
     (if list_empty h head then h
      else if list_is_singular h head \<and> (l_next h head \<noteq> entry \<and> head \<noteq> entry) then h
      else if entry = head then INIT_LIST_HEAD h list
      else do_list_cut_position h list head entry)"

definition do_list_splice :: "lheap \<Rightarrow> ptr \<Rightarrow> ptr \<Rightarrow> ptr \<Rightarrow> lheap" where
  "do_list_splice h list prev nxt =
     (let first = l_next h list;
          lst = l_prev h list;
          h1 = set_prev h first prev;
          h2 = set_next h1 prev first;
          h3 = set_next h2 lst nxt
      in set_prev h3 nxt lst)"

definition list_splice :: "lheap \<Rightarrow> ptr \<Rightarrow> ptr \<Rightarrow> lheap" where
  "list_splice h list head =
     (if \<not> list_empty h list then do_list_splice h list head (l_next h head) else h)"

definition list_splice_tail :: "lheap \<Rightarrow> ptr \<Rightarrow> ptr \<Rightarrow> lheap" where
  "list_splice_tail h list head =
     (if \<not> list_empty h list then do_list_splice h list (l_prev h head) head else h)"

definition list_splice_init :: "lheap \<Rightarrow> ptr \<Rightarrow> ptr \<Rightarrow> lheap" where
  "list_splice_init h list head =
     (if \<not> list_empty h list
      then INIT_LIST_HEAD (do_list_splice h list head (l_next h head)) list else h)"

definition list_splice_tail_init :: "lheap \<Rightarrow> ptr \<Rightarrow> ptr \<Rightarrow> lheap" where
  "list_splice_tail_init h list head =
     (if \<not> list_empty h list
      then INIT_LIST_HEAD (do_list_splice h list (l_prev h head) head) list else h)"

section \<open>Loops\<close>

text \<open>
  A loop that only reads returns the nodes that it visits.  The \<open>_safe\<close> loops run a body that may
  change the heap; the successor of the cursor is read before the body runs.
\<close>

partial_function (option) list_walk :: "(ptr \<Rightarrow> ptr) \<Rightarrow> ptr \<Rightarrow> ptr \<Rightarrow> ptr list option" where
  "list_walk step pos head =
     (if pos = head then Some []
      else Option.bind (list_walk step (step pos) head) (\<lambda>ps. Some (pos # ps)))"

partial_function (option) list_walk_safe ::
  "(lheap \<Rightarrow> ptr \<Rightarrow> ptr) \<Rightarrow> (lheap \<Rightarrow> ptr \<Rightarrow> lheap) \<Rightarrow> lheap \<Rightarrow> ptr \<Rightarrow> ptr \<Rightarrow> ptr \<Rightarrow> lheap option" where
  "list_walk_safe step body h pos n head =
     (if pos = head then Some h
      else let h1 = body h pos in list_walk_safe step body h1 n (step h1 n) head)"

definition list_for_each :: "lheap \<Rightarrow> ptr \<Rightarrow> ptr list option" where
  "list_for_each h head = list_walk (l_next h) (l_next h head) head"

definition list_for_each_prev :: "lheap \<Rightarrow> ptr \<Rightarrow> ptr list option" where
  "list_for_each_prev h head = list_walk (l_prev h) (l_prev h head) head"

definition list_for_each_safe :: "(lheap \<Rightarrow> ptr \<Rightarrow> lheap) \<Rightarrow> lheap \<Rightarrow> ptr \<Rightarrow> lheap option" where
  "list_for_each_safe body h head =
     (let pos = l_next h head in list_walk_safe l_next body h pos (l_next h pos) head)"

definition list_for_each_prev_safe :: "(lheap \<Rightarrow> ptr \<Rightarrow> lheap) \<Rightarrow> lheap \<Rightarrow> ptr \<Rightarrow> lheap option" where
  "list_for_each_prev_safe body h head =
     (let pos = l_prev h head in list_walk_safe l_prev body h pos (l_prev h pos) head)"

text \<open>
  The loops over the structures that embed the nodes: \<open>off\<close> is the offset of the node member, a
  structure at \<open>p\<close> has its node at \<open>p + off\<close>.
\<close>

definition container_of :: "ptr \<Rightarrow> u64 \<Rightarrow> ptr" where
  "container_of p off = p - off"

definition list_entry :: "ptr \<Rightarrow> u64 \<Rightarrow> ptr" where
  "list_entry p off = container_of p off"

definition list_first_entry :: "lheap \<Rightarrow> ptr \<Rightarrow> u64 \<Rightarrow> ptr" where
  "list_first_entry h p off = list_entry (l_next h p) off"

partial_function (option) entry_walk :: "(ptr \<Rightarrow> ptr) \<Rightarrow> u64 \<Rightarrow> ptr \<Rightarrow> ptr \<Rightarrow> ptr list option" where
  "entry_walk step off pos head =
     (if pos + off = head then Some []
      else Option.bind (entry_walk step off (list_entry (step (pos + off)) off) head)
        (\<lambda>ps. Some (pos # ps)))"

partial_function (option) entry_walk_safe ::
  "(lheap \<Rightarrow> ptr \<Rightarrow> ptr) \<Rightarrow> u64 \<Rightarrow> (lheap \<Rightarrow> ptr \<Rightarrow> lheap) \<Rightarrow> lheap \<Rightarrow> ptr \<Rightarrow> ptr \<Rightarrow> ptr \<Rightarrow>
     lheap option" where
  "entry_walk_safe step off body h pos n head =
     (if pos + off = head then Some h
      else let h1 = body h pos in
        entry_walk_safe step off body h1 n (list_entry (step h1 (n + off)) off) head)"

definition list_for_each_entry :: "lheap \<Rightarrow> ptr \<Rightarrow> u64 \<Rightarrow> ptr list option" where
  "list_for_each_entry h head off = entry_walk (l_next h) off (list_entry (l_next h head) off) head"

definition list_for_each_entry_reverse :: "lheap \<Rightarrow> ptr \<Rightarrow> u64 \<Rightarrow> ptr list option" where
  "list_for_each_entry_reverse h head off =
     entry_walk (l_prev h) off (list_entry (l_prev h head) off) head"

definition list_prepare_entry :: "ptr \<Rightarrow> ptr \<Rightarrow> u64 \<Rightarrow> ptr" where
  "list_prepare_entry pos head off = (if pos \<noteq> NULL then pos else list_entry head off)"

definition list_for_each_entry_continue :: "lheap \<Rightarrow> ptr \<Rightarrow> ptr \<Rightarrow> u64 \<Rightarrow> ptr list option" where
  "list_for_each_entry_continue h pos head off =
     entry_walk (l_next h) off (list_entry (l_next h (pos + off)) off) head"

definition list_for_each_entry_continue_reverse :: "lheap \<Rightarrow> ptr \<Rightarrow> ptr \<Rightarrow> u64 \<Rightarrow> ptr list option" where
  "list_for_each_entry_continue_reverse h pos head off =
     entry_walk (l_prev h) off (list_entry (l_prev h (pos + off)) off) head"

definition list_for_each_entry_from :: "lheap \<Rightarrow> ptr \<Rightarrow> ptr \<Rightarrow> u64 \<Rightarrow> ptr list option" where
  "list_for_each_entry_from h pos head off = entry_walk (l_next h) off pos head"

definition list_for_each_entry_safe ::
  "(lheap \<Rightarrow> ptr \<Rightarrow> lheap) \<Rightarrow> lheap \<Rightarrow> ptr \<Rightarrow> u64 \<Rightarrow> lheap option" where
  "list_for_each_entry_safe body h head off =
     (let pos = list_entry (l_next h head) off
      in entry_walk_safe l_next off body h pos (list_entry (l_next h (pos + off)) off) head)"

definition list_for_each_entry_safe_continue ::
  "(lheap \<Rightarrow> ptr \<Rightarrow> lheap) \<Rightarrow> lheap \<Rightarrow> ptr \<Rightarrow> ptr \<Rightarrow> u64 \<Rightarrow> lheap option" where
  "list_for_each_entry_safe_continue body h pos0 head off =
     (let pos = list_entry (l_next h (pos0 + off)) off
      in entry_walk_safe l_next off body h pos (list_entry (l_next h (pos + off)) off) head)"

definition list_for_each_entry_safe_from ::
  "(lheap \<Rightarrow> ptr \<Rightarrow> lheap) \<Rightarrow> lheap \<Rightarrow> ptr \<Rightarrow> ptr \<Rightarrow> u64 \<Rightarrow> lheap option" where
  "list_for_each_entry_safe_from body h pos head off =
     entry_walk_safe l_next off body h pos (list_entry (l_next h (pos + off)) off) head"

definition list_for_each_entry_safe_reverse ::
  "(lheap \<Rightarrow> ptr \<Rightarrow> lheap) \<Rightarrow> lheap \<Rightarrow> ptr \<Rightarrow> u64 \<Rightarrow> lheap option" where
  "list_for_each_entry_safe_reverse body h head off =
     (let pos = list_entry (l_prev h head) off
      in entry_walk_safe l_prev off body h pos (list_entry (l_prev h (pos + off)) off) head)"

definition list_safe_reset_next :: "lheap \<Rightarrow> ptr \<Rightarrow> u64 \<Rightarrow> ptr" where
  "list_safe_reset_next h pos off = list_entry (l_next h (pos + off)) off"

section \<open>The abstraction: circular lists\<close>

text \<open>\<open>seg h ps\<close>: neighbours in \<open>ps\<close> are linked both ways.  A cycle is a segment whose last node is
  linked to its first; a list is a cycle that is entered at its head.\<close>

fun seg :: "lheap \<Rightarrow> ptr list \<Rightarrow> bool" where
  "seg h [] \<longleftrightarrow> True"
| "seg h [p] \<longleftrightarrow> True"
| "seg h (p # q # ps) \<longleftrightarrow> l_next h p = q \<and> l_prev h q = p \<and> seg h (q # ps)"

definition cycle :: "lheap \<Rightarrow> ptr list \<Rightarrow> bool" where
  "cycle h ps \<longleftrightarrow> distinct ps \<and> seg h ps \<and> l_next h (last ps) = hd ps \<and> l_prev h (hd ps) = last ps"

definition is_list :: "lheap \<Rightarrow> ptr \<Rightarrow> ptr list \<Rightarrow> bool" where
  "is_list h head xs \<longleftrightarrow> cycle h (head # xs)"

section \<open>Lemmas: segments and cycles\<close>

lemma heap_fields [simp]:
  "l_next (set_next h p v) = (l_next h)(p := v)" "l_prev (set_next h p v) = l_prev h"
  "l_prev (set_prev h p v) = (l_prev h)(p := v)" "l_next (set_prev h p v) = l_next h"
  by (simp_all add: set_next_def set_prev_def)

lemma seg_append:
  "ps \<noteq> [] \<Longrightarrow> qs \<noteq> [] \<Longrightarrow> seg h (ps @ qs) \<longleftrightarrow>
     seg h ps \<and> l_next h (last ps) = hd qs \<and> l_prev h (hd qs) = last ps \<and> seg h qs"
proof (induction h ps rule: seg.induct)
  case (2 h p)
  then show ?case by (cases qs) auto
qed auto

lemma seg_cong:
  "(\<And>p. p \<in> set (butlast ps) \<Longrightarrow> l_next h' p = l_next h p) \<Longrightarrow>
   (\<And>p. p \<in> set (tl ps) \<Longrightarrow> l_prev h' p = l_prev h p) \<Longrightarrow> seg h' ps = seg h ps"
  by (induction h ps rule: seg.induct) auto

lemma last_notin_butlast: "distinct ps \<Longrightarrow> last ps \<notin> set (butlast ps)"
  by (induction ps) auto

lemma hd_notin_tl: "distinct ps \<Longrightarrow> hd ps \<notin> set (tl ps)"
  by (cases ps) auto

text \<open>A segment survives changes behind its last node, before its first node, and elsewhere.\<close>

lemma seg_frame:
  assumes "seg h ps" and "distinct ps"
    and "\<And>p. p \<in> set ps \<Longrightarrow> p \<noteq> last ps \<Longrightarrow> l_next h' p = l_next h p"
    and "\<And>p. p \<in> set ps \<Longrightarrow> p \<noteq> hd ps \<Longrightarrow> l_prev h' p = l_prev h p"
  shows "seg h' ps"
proof (subst seg_cong [of ps h' h])
  fix p assume "p \<in> set (butlast ps)"
  then show "l_next h' p = l_next h p"
    using assms(2,3) last_notin_butlast [of ps] in_set_butlastD [of p ps] by metis
next
  fix p assume "p \<in> set (tl ps)"
  then show "l_prev h' p = l_prev h p"
    using assms(2,4) hd_notin_tl [of ps] list.set_sel(2) [of ps p] by (metis tl_Nil)
qed (rule assms(1))

lemma cycle_rotate: "cycle h (ps @ qs) \<longleftrightarrow> cycle h (qs @ ps)"
  by (cases "ps = []"; cases "qs = []") (auto simp: cycle_def seg_append)

lemma cycle_frame:
  assumes "cycle h ps" and "\<And>p. p \<in> set ps \<Longrightarrow> l_next h' p = l_next h p \<and> l_prev h' p = l_prev h p"
    and "ps \<noteq> []"
  shows "cycle h' ps"
  using assms seg_frame [of h ps h'] by (simp add: cycle_def)

text \<open>The two ways in which the operations change cycles: two cycles are joined, one is split.\<close>

lemma cycle_join:
  assumes "cycle h ps" and "cycle h qs" and "ps \<noteq> []" and "qs \<noteq> []" and "set ps \<inter> set qs = {}"
    and "\<And>p. p \<in> set ps \<union> set qs \<Longrightarrow>
      l_next h' p = (if p = last ps then hd qs else if p = last qs then hd ps else l_next h p)"
    and "\<And>p. p \<in> set ps \<union> set qs \<Longrightarrow>
      l_prev h' p = (if p = hd qs then last ps else if p = hd ps then last qs else l_prev h p)"
  shows "cycle h' (ps @ qs)"
proof -
  have "last ps \<in> set ps" "hd ps \<in> set ps" "last qs \<in> set qs" "hd qs \<in> set qs"
    using assms(3,4) by simp_all
  with assms(5) have m: "last qs \<notin> set ps" "hd qs \<notin> set ps" "last ps \<notin> set qs" "hd ps \<notin> set qs"
    by blast+
  have "seg h' ps" "seg h' qs"
    using assms m by (auto simp: cycle_def intro!: seg_frame [of h])
  then show ?thesis using assms m by (auto simp: cycle_def seg_append)
qed

lemma cycle_split:
  assumes "cycle h (ps @ qs)" and "ps \<noteq> []"
    and "\<And>p. p \<in> set ps \<Longrightarrow> l_next h' p = (if p = last ps then hd ps else l_next h p)"
    and "\<And>p. p \<in> set ps \<Longrightarrow> l_prev h' p = (if p = hd ps then last ps else l_prev h p)"
  shows "cycle h' ps"
proof -
  have s: "seg h ps" "distinct ps"
    using assms(1,2) by (cases "qs = []"; auto simp: cycle_def seg_append)+
  have "seg h' ps" by (rule seg_frame [OF s]) (use assms(3,4) in auto)
  with s assms(2-) show ?thesis by (simp add: cycle_def)
qed

lemma cycle_single [simp]: "cycle h [p] \<longleftrightarrow> l_next h p = p \<and> l_prev h p = p"
  by (simp add: cycle_def)

section \<open>Lemmas: what the operations do\<close>

lemma init_is_list: "is_list (INIT_LIST_HEAD h p) p []"
  by (simp add: is_list_def INIT_LIST_HEAD_def)

text \<open>Insertion joins the cycle with the cycle of the new node, at any place of the list.\<close>

lemma do_list_add_cycle:
  assumes "cycle h ps" and "ps \<noteq> []" and "new \<notin> set ps"
  shows "cycle (do_list_add h new (last ps) (hd ps)) (ps @ [new])"
proof (rule cycle_join [where h = "INIT_LIST_HEAD h new"])
  have m: "last ps \<noteq> new" "hd ps \<noteq> new" using assms(2,3) by auto
  show "cycle (INIT_LIST_HEAD h new) ps"
    by (rule cycle_frame [OF assms(1) _ assms(2)]) (use assms(3) in \<open>auto simp: INIT_LIST_HEAD_def\<close>)
  fix p assume "p \<in> set ps \<union> set [new]"
  then show "l_next (do_list_add h new (last ps) (hd ps)) p =
      (if p = last ps then hd [new] else if p = last [new] then hd ps else l_next (INIT_LIST_HEAD h new) p)"
    and "l_prev (do_list_add h new (last ps) (hd ps)) p =
      (if p = hd [new] then last ps else if p = hd ps then last [new] else l_prev (INIT_LIST_HEAD h new) p)"
    using m by (auto simp: do_list_add_def INIT_LIST_HEAD_def Let_def)
qed (use assms in \<open>auto simp: INIT_LIST_HEAD_def\<close>)

lemma is_list_ends: "is_list h head xs \<Longrightarrow> l_next h head = hd (xs @ [head])"
    "is_list h head xs \<Longrightarrow> l_prev h head = last (head # xs)"
  by (cases xs; simp add: is_list_def cycle_def)+

lemma list_add_is:
  assumes "is_list h head xs" and "new \<notin> set (head # xs)"
  shows "is_list (list_add h new head) head (new # xs)"
proof -
  have "cycle h (xs @ [head])" using assms(1) cycle_rotate [of h "[head]" xs] by (simp add: is_list_def)
  from do_list_add_cycle [OF this, of new] assms
  have "cycle (list_add h new head) (xs @ [head, new])"
    by (simp add: list_add_def is_list_ends)
  then show ?thesis using cycle_rotate [of _ xs "[head, new]"] by (simp add: is_list_def)
qed

lemma list_add_tail_is:
  assumes "is_list h head xs" and "new \<notin> set (head # xs)"
  shows "is_list (list_add_tail h new head) head (xs @ [new])"
  using do_list_add_cycle [of h "head # xs" new] assms is_list_ends(2) [OF assms(1)]
  by (simp add: is_list_def list_add_tail_def)

text \<open>Removal splits the cycle.\<close>

lemma do_list_del_cycle:
  assumes "cycle h (ps @ [e])" and "ps \<noteq> []"
  shows "l_prev h e = last ps" and "l_next h e = hd ps"
    and "cycle (do_list_del h (l_prev h e) (l_next h e)) ps"
proof -
  show pn: "l_prev h e = last ps" "l_next h e = hd ps"
    using assms by (auto simp: cycle_def seg_append)
  show "cycle (do_list_del h (l_prev h e) (l_next h e)) ps"
    using assms(2) by (intro cycle_split [OF assms(1)]) (auto simp: do_list_del_def pn)
qed

lemma is_list_del_rotate:
  "is_list h head (xs @ e # ys) \<longleftrightarrow> cycle h ((ys @ head # xs) @ [e])"
  using cycle_rotate [of h "head # xs @ [e]" ys] by (simp add: is_list_def)

lemma is_list_rotate: "is_list h head (xs @ ys) \<longleftrightarrow> cycle h (ys @ head # xs)"
  using cycle_rotate [of h "head # xs" ys] by (simp add: is_list_def)

lemma list_del_entry_is:
  assumes "is_list h head (xs @ e # ys)"
  shows "is_list (list_del_entry h e) head (xs @ ys)"
  using do_list_del_cycle(3) [OF assms [unfolded is_list_del_rotate]]
  unfolding is_list_rotate list_del_entry_def by simp

lemma is_list_frame:
  "is_list h head xs \<Longrightarrow> (\<And>p. p \<in> set (head # xs) \<Longrightarrow> l_next h' p = l_next h p \<and> l_prev h' p = l_prev h p) \<Longrightarrow>
    is_list h' head xs"
  unfolding is_list_def by (rule cycle_frame) auto

lemma list_del_is:
  assumes "is_list h head (xs @ e # ys)"
  shows "is_list (list_del h e) head (xs @ ys)" and "l_next (list_del h e) e = LIST_POISON1"
    and "l_prev (list_del h e) e = LIST_POISON2"
proof -
  have "e \<notin> set (head # xs @ ys)" using assms by (auto simp: is_list_def cycle_def)
  then show "is_list (list_del h e) head (xs @ ys)"
    by (intro is_list_frame [OF list_del_entry_is [OF assms]]) (auto simp: list_del_def list_del_entry_def)
qed (simp_all add: list_del_def Let_def)

lemma is_list_distinct: "is_list h head xs \<Longrightarrow> distinct (head # xs)"
  by (simp add: is_list_def cycle_def)

lemma cycle_next: "cycle h (ps @ p # qs) \<Longrightarrow> l_next h p = hd (qs @ ps @ [p])"
  and cycle_prev: "cycle h (ps @ p # qs) \<Longrightarrow> l_prev h p = last (p # qs @ ps)"
proof -
  assume "cycle h (ps @ p # qs)"
  then have "cycle h (p # qs @ ps)" using cycle_rotate [of h ps "p # qs"] by simp
  then show "l_next h p = hd (qs @ ps @ [p])" "l_prev h p = last (p # qs @ ps)"
    using is_list_ends [of h p "qs @ ps"] by (simp_all add: is_list_def)
qed

lemma list_replace_cycle:
  assumes "cycle h (ps @ [old])" and "new \<notin> set (ps @ [old])"
  shows "cycle (list_replace h old new) (ps @ [new])"
proof (cases "ps = []")
  case True
  with assms show ?thesis by (auto simp: list_replace_def Let_def)
next
  case False
  have o: "l_next h old = hd ps" "l_prev h old = last ps" "distinct (ps @ [old])" "seg h ps"
    using assms(1) False by (auto simp: cycle_def seg_append)
  have m: "hd ps \<in> set ps" "last ps \<in> set ps" using False by simp_all
  then have n: "hd ps \<noteq> old" "last ps \<noteq> new" "hd ps \<noteq> new" using o(3) assms(2) by auto
  have f: "l_next (list_replace h old new) = (l_next h)(new := hd ps, last ps := new)"
      "l_prev (list_replace h old new) = (l_prev h)(hd ps := new, new := last ps)"
    using n o(1,2) by (auto simp: list_replace_def Let_def)
  have "seg (list_replace h old new) ps"
    by (rule seg_frame [OF o(4)]) (use o(3) f assms(2) in auto)
  then show ?thesis using False n f o(3) assms(2) by (auto simp: cycle_def seg_append)
qed

lemma list_replace_is:
  assumes "is_list h head (xs @ old # ys)" and "new \<notin> set (head # xs @ old # ys)"
  shows "is_list (list_replace h old new) head (xs @ new # ys)"
  using list_replace_cycle [OF assms(1) [unfolded is_list_del_rotate]] assms(2)
  unfolding is_list_del_rotate by auto

lemma list_del_init_is:
  assumes "is_list h head (xs @ e # ys)"
  shows "is_list (list_del_init h e) head (xs @ ys)" and "is_list (list_del_init h e) e []"
proof -
  have "e \<notin> set (head # xs @ ys)" using is_list_distinct [OF assms] by auto
  then show "is_list (list_del_init h e) head (xs @ ys)"
    by (intro is_list_frame [OF list_del_entry_is [OF assms]]) (auto simp: list_del_init_def INIT_LIST_HEAD_def)
  show "is_list (list_del_init h e) e []" by (simp add: list_del_init_def init_is_list)
qed

lemma do_list_del_frame:
  assumes "is_list h head (xs @ e # ys)" and "p \<notin> set (head # xs @ ys)"
  shows "l_next (list_del_entry h e) p = l_next h p" "l_prev (list_del_entry h e) p = l_prev h p"
  using assms do_list_del_cycle(1,2) [OF assms(1) [unfolded is_list_del_rotate]]
  by (auto simp: list_del_entry_def do_list_del_def hd_append split: if_splits list.splits)

lemma list_move_is:
  assumes "is_list h a (xs @ e # ys)" and "is_list h b zs" and "set (a # xs @ e # ys) \<inter> set (b # zs) = {}"
  shows "is_list (list_move h e b) b (e # zs)" and "is_list (list_move_tail h e b) b (zs @ [e])"
    and "is_list (list_move h e b) a (xs @ ys)" and "is_list (list_move_tail h e b) a (xs @ ys)"
proof -
  let ?h = "list_del_entry h e"
  have fr: "is_list ?h b zs"
  proof (rule is_list_frame [OF assms(2)])
    fix p assume "p \<in> set (b # zs)"
    then have "p \<notin> set (a # xs @ ys)" using assms(3) by auto
    then show "l_next ?h p = l_next h p \<and> l_prev ?h p = l_prev h p"
      using do_list_del_frame [OF assms(1)] by blast
  qed
  have e: "e \<notin> set (b # zs)" "e \<notin> set (a # xs @ ys)" using assms(3) is_list_distinct [OF assms(1)] by auto
  show "is_list (list_move h e b) b (e # zs)" "is_list (list_move_tail h e b) b (zs @ [e])"
    using list_add_is [OF fr e(1)] list_add_tail_is [OF fr e(1)]
    by (simp_all add: list_move_def list_move_tail_def)
  have nb: "l_next ?h b \<in> set (b # zs)" "l_prev ?h b \<in> set (b # zs)"
    using is_list_ends [OF fr] by (cases zs; simp)+
  show "is_list (list_move h e b) a (xs @ ys)" "is_list (list_move_tail h e b) a (xs @ ys)"
    by (rule is_list_frame [OF list_del_entry_is [OF assms(1)]],
        use nb e(2) assms(3) in \<open>auto simp: list_move_def list_move_tail_def list_add_def
          list_add_tail_def do_list_add_def Let_def\<close>)+
qed

lemma list_empty_iff: "is_list h head xs \<Longrightarrow> list_empty h head \<longleftrightarrow> xs = []"
  by (cases xs) (auto simp: is_list_def cycle_def list_empty_def)

lemma list_empty_careful_iff: "is_list h head xs \<Longrightarrow> list_empty_careful h head \<longleftrightarrow> xs = []"
  by (cases xs) (auto simp: is_list_def cycle_def list_empty_careful_def Let_def)

lemma list_is_singular_iff: "is_list h head xs \<Longrightarrow> list_is_singular h head \<longleftrightarrow> length xs = 1"
proof (cases xs)
  case (Cons x ys)
  assume l: "is_list h head xs"
  show ?thesis using is_list_ends [OF l] list_empty_iff [OF l] is_list_distinct [OF l] Cons
    by (cases ys rule: rev_cases) (auto simp: list_is_singular_def)
qed (simp add: list_is_singular_def list_empty_iff)

lemma list_is_last_iff:
  assumes "is_list h head (xs @ e # ys)"
  shows "list_is_last h e head \<longleftrightarrow> ys = []"
proof -
  have "l_next h e = hd (ys @ [head])"
    using cycle_next [of h "head # xs" e ys] assms by (cases ys) (simp_all add: is_list_def)
  then show ?thesis using is_list_distinct [OF assms] by (cases ys) (auto simp: list_is_last_def)
qed

lemma list_rotate_left_is:
  assumes "is_list h head xs"
  shows "is_list (list_rotate_left h head) head (rotate1 xs)"
proof (cases xs)
  case Nil
  with assms show ?thesis using list_empty_iff [OF assms] by (simp add: list_rotate_left_def)
next
  case (Cons x ys)
  have "is_list (list_del_entry h x) head ys" using list_del_entry_is [of h head "[]" x ys] assms Cons by simp
  moreover have "x \<notin> set (head # ys)" using is_list_distinct [OF assms] Cons by auto
  ultimately show ?thesis
    using list_add_tail_is list_empty_iff [OF assms] is_list_ends(1) [OF assms] Cons
    by (simp add: list_rotate_left_def list_move_tail_def)
qed

text \<open>Splicing joins the cycle of the target with the nodes of the source.\<close>

lemma do_list_splice_cycle:
  assumes "is_list h l zs" and "zs \<noteq> []" and "cycle h ps" and "ps \<noteq> []"
    and "set (l # zs) \<inter> set ps = {}"
  shows "cycle (do_list_splice h l (last ps) (hd ps)) (ps @ zs)"
proof (rule cycle_join [where h = "list_del_entry h l"])
  have c: "cycle h (zs @ [l])" using assms(1) cycle_rotate [of h "[l]" zs] by (simp add: is_list_def)
  note d = do_list_del_cycle [OF c assms(2)]
  show "cycle (list_del_entry h l) zs" using d(3) by (simp add: list_del_entry_def)
  have m: "hd zs \<in> set zs" "last zs \<in> set zs" "hd ps \<in> set ps" "last ps \<in> set ps"
    using assms(2,4) by simp_all
  then have n: "hd zs \<notin> set ps" "last zs \<notin> set ps" "hd ps \<notin> set zs" "last ps \<notin> set zs"
    using assms(5) by auto
  have e: "list_del_entry h l = do_list_del h (last zs) (hd zs)" by (simp add: list_del_entry_def d)
  show "cycle (list_del_entry h l) ps"
    by (rule cycle_frame [OF assms(3) _ assms(4)]) (use n in \<open>auto simp: e do_list_del_def\<close>)
  fix p assume "p \<in> set ps \<union> set zs"
  then show "l_next (do_list_splice h l (last ps) (hd ps)) p =
      (if p = last ps then hd zs else if p = last zs then hd ps else l_next (list_del_entry h l) p)"
    and "l_prev (do_list_splice h l (last ps) (hd ps)) p =
      (if p = hd zs then last ps else if p = hd ps then last zs else l_prev (list_del_entry h l) p)"
    using n m by (auto simp: e do_list_del_def do_list_splice_def Let_def d)
qed (use assms in auto)

lemma list_splice_is:
  assumes "is_list h l zs" and "is_list h head xs" and "set (l # zs) \<inter> set (head # xs) = {}"
  shows "is_list (list_splice h l head) head (zs @ xs)" and "is_list (list_splice_tail h l head) head (xs @ zs)"
proof -
  have c: "cycle h (head # xs)" "cycle h (xs @ [head])"
    using assms(2) cycle_rotate [of h "[head]" xs] by (simp_all add: is_list_def)
  have e: "l_next h head = hd (xs @ [head])" "l_prev h head = last (head # xs)" using is_list_ends [OF assms(2)] .
  have i: "list_empty h l \<longleftrightarrow> zs = []" using list_empty_iff [OF assms(1)] .
  show "is_list (list_splice h l head) head (zs @ xs)"
    using do_list_splice_cycle [OF assms(1) _ c(2)] assms cycle_rotate [of _ xs "head # zs"]
    by (cases "zs = []") (auto simp: list_splice_def i e is_list_def)
  show "is_list (list_splice_tail h l head) head (xs @ zs)"
    using do_list_splice_cycle [OF assms(1) _ c(1)] assms
    by (cases "zs = []") (auto simp: list_splice_tail_def i e is_list_def)
qed

lemma list_splice_init_is:
  assumes "is_list h l zs" and "is_list h head xs" and "set (l # zs) \<inter> set (head # xs) = {}"
  shows "is_list (list_splice_init h l head) head (zs @ xs)" "is_list (list_splice_init h l head) l []"
    "is_list (list_splice_tail_init h l head) head (xs @ zs)" "is_list (list_splice_tail_init h l head) l []"
proof -
  have i: "list_empty h l \<longleftrightarrow> zs = []" using list_empty_iff [OF assms(1)] .
  have e: "list_splice_init h l head = (if zs = [] then h else INIT_LIST_HEAD (list_splice h l head) l)"
    "list_splice_tail_init h l head = (if zs = [] then h else INIT_LIST_HEAD (list_splice_tail h l head) l)"
    by (simp_all add: list_splice_init_def list_splice_tail_init_def list_splice_def list_splice_tail_def i)
  have l: "l \<notin> set (head # zs @ xs)" using assms(3) is_list_distinct [OF assms(1)] by auto
  show "is_list (list_splice_init h l head) head (zs @ xs)" "is_list (list_splice_tail_init h l head) head (xs @ zs)"
    using assms(2) l by (auto simp: e INIT_LIST_HEAD_def intro!: is_list_frame [OF list_splice_is(1) [OF assms]]
        is_list_frame [OF list_splice_is(2) [OF assms]])
  show "is_list (list_splice_init h l head) l []" "is_list (list_splice_tail_init h l head) l []"
    using assms(1) init_is_list by (auto simp: e)
qed

lemma list_cut_position_is:
  assumes "is_list h head (xs @ e # ys)" and "l \<notin> set (head # xs @ e # ys)"
  shows "is_list (list_cut_position h l head e) l (xs @ [e])" and "is_list (list_cut_position h l head e) head ys"
proof -
  let ?h = "list_cut_position h l head e"
  have d: "distinct (head # xs @ e # ys)" using is_list_distinct [OF assms(1)] .
  have c: "cycle h ((xs @ [e]) @ (ys @ [head]))"
    using assms(1) cycle_rotate [of h "[head]" "xs @ e # ys"] by (simp add: is_list_def)
  have nf: "l_next h e = hd (ys @ [head])" using c seg_append [of "xs @ [e]" "ys @ [head]" h] by (simp add: cycle_def)
  have ff: "l_next h head = hd (xs @ [e])" using c by (cases xs) (simp_all add: cycle_def)
  have cut: "?h = do_list_cut_position h l head e"
    using list_empty_iff [OF assms(1)] list_is_singular_iff [OF assms(1)] d ff
    by (auto simp: list_cut_position_def)
  have m: "hd (xs @ [e]) \<in> set (xs @ [e])" "hd (ys @ [head]) \<in> set (ys @ [head])" by (simp_all del: set_append)
  then have n: "hd (xs @ [e]) \<notin> set (l # head # ys)" "hd (ys @ [head]) \<notin> set (l # e # xs)"
    using d assms(2) by auto
  have f: "l_next ?h = (l_next h)(l := hd (xs @ [e]), e := l, head := hd (ys @ [head]))"
    "l_prev ?h = (l_prev h)(hd (xs @ [e]) := l, l := e, hd (ys @ [head]) := head)"
    using assms(2) d by (auto simp: cut do_list_cut_position_def Let_def nf ff)
  have "cycle ?h (ys @ [head])"
    by (rule cycle_split [OF c [THEN cycle_rotate [THEN iffD1]]]) (use n d assms(2) in \<open>auto simp: f\<close>)
  then show "is_list ?h head ys" using cycle_rotate [of ?h ys "[head]"] by (simp add: is_list_def)
  have "seg h (xs @ [e])" "distinct (xs @ [e])" using c d seg_append [of "xs @ [e]" "ys @ [head]" h]
    by (auto simp: cycle_def)
  then have "seg ?h (xs @ [e])"
    by (rule seg_frame) (use n d assms(2) in \<open>auto simp: f\<close>)
  moreover have "hd (xs @ [e]) \<noteq> hd (ys @ [head])" using n m by auto
  ultimately show "is_list ?h l (xs @ [e])"
    using n d assms(2) by (auto simp: is_list_def cycle_def seg_append [of "[l]" "xs @ [e]", simplified] f)
qed

section \<open>Lemmas: the loops end and visit every node\<close>

lemma list_walk_seg:
  "distinct (ps @ [z]) \<Longrightarrow> (\<And>i. i < length ps \<Longrightarrow> step (ps ! i) = (ps @ [z]) ! Suc i) \<Longrightarrow>
    list_walk step (hd (ps @ [z])) z = Some ps"
proof (induction ps)
  case Nil
  then show ?case by (simp add: list_walk.simps)
next
  case (Cons p ps)
  have "step p = hd (ps @ [z])" using Cons.prems(2) [of 0] by (cases ps) auto
  moreover have "list_walk step (hd (ps @ [z])) z = Some ps"
    by (rule Cons.IH) (use Cons.prems(1) Cons.prems(2) [of "Suc _"] in auto)
  ultimately show ?case using Cons.prems(1) by (simp add: list_walk.simps [of step p])
qed

lemma seg_nth:
  "seg h ps \<Longrightarrow> Suc i < length ps \<Longrightarrow> l_next h (ps ! i) = ps ! Suc i \<and> l_prev h (ps ! Suc i) = ps ! i"
proof (induction h ps arbitrary: i rule: seg.induct)
  case (3 h p q ps)
  then show ?case by (cases i) auto
qed auto

lemma is_list_seg: "is_list h head xs \<Longrightarrow> seg h (head # xs @ [head])"
  using seg_append [of "head # xs" "[head]" h] by (simp add: is_list_def cycle_def)

lemma list_for_each_all:
  assumes "is_list h head xs"
  shows "list_for_each h head = Some xs"
proof -
  have "list_walk (l_next h) (hd (xs @ [head])) head = Some xs"
  proof (rule list_walk_seg)
    show "distinct (xs @ [head])" using is_list_distinct [OF assms] by auto
    fix i assume "i < length xs"
    then show "l_next h (xs ! i) = (xs @ [head]) ! Suc i"
      using seg_nth [OF is_list_seg [OF assms], of "Suc i"] by (simp add: nth_append)
  qed
  then show ?thesis using is_list_ends(1) [OF assms] by (simp add: list_for_each_def)
qed

lemma list_for_each_prev_all:
  assumes "is_list h head xs"
  shows "list_for_each_prev h head = Some (rev xs)"
proof -
  have "list_walk (l_prev h) (hd (rev xs @ [head])) head = Some (rev xs)"
  proof (rule list_walk_seg)
    show "distinct (rev xs @ [head])" using is_list_distinct [OF assms] by auto
    fix i assume i: "i < length (rev xs)"
    then have "rev xs ! i = (head # xs @ [head]) ! Suc (length xs - Suc i)"
      by (auto simp: rev_nth nth_append)
    moreover have "(rev xs @ [head]) ! Suc i = (head # xs @ [head]) ! (length xs - Suc i)"
      using i by (auto simp: nth_append rev_nth nth_Cons split: nat.splits) (metis Suc_diff_Suc diff_Suc_Suc diff_Suc_1)
    ultimately show "l_prev h (rev xs ! i) = (rev xs @ [head]) ! Suc i"
      using seg_nth [OF is_list_seg [OF assms], of "length xs - Suc i"] i by simp
  qed
  moreover have "last (head # xs) = hd (rev xs @ [head])" by (cases xs rule: rev_cases) auto
  ultimately show ?thesis using is_list_ends(2) [OF assms] by (simp add: list_for_each_prev_def)
qed

lemma entry_walk_map:
  "list_walk step p head = Some ps \<Longrightarrow>
    entry_walk step off (list_entry p off) head = Some (map (\<lambda>q. list_entry q off) ps)"
proof (induction ps arbitrary: p)
  case Nil
  then have "p = head" by (auto simp: list_walk.simps [of step p] bind_eq_Some_conv split: if_splits)
  then show ?case by (simp add: entry_walk.simps [of step off "head - off"] list_entry_def container_of_def)
next
  case (Cons q ps)
  then have "q = p" "p \<noteq> head" "list_walk step (step p) head = Some ps"
    by (auto simp: list_walk.simps [of step p] bind_eq_Some_conv split: if_splits)
  with Cons.IH show ?case
    by (simp add: entry_walk.simps [of step off "p - off"] list_entry_def container_of_def)
qed

lemma list_for_each_entry_all:
  assumes "is_list h head xs"
  shows "list_for_each_entry h head off = Some (map (\<lambda>q. list_entry q off) xs)"
    and "list_for_each_entry_reverse h head off = Some (map (\<lambda>q. list_entry q off) (rev xs))"
  using list_for_each_all [OF assms] list_for_each_prev_all [OF assms]
  by (auto simp: list_for_each_entry_def list_for_each_entry_reverse_def list_for_each_def
      list_for_each_prev_def intro: entry_walk_map)

text \<open>A loop that deletes every node it visits ends with an empty list.\<close>

lemma list_walk_safe_del:
  assumes "is_list h head xs"
  shows "\<exists>h'. list_walk_safe l_next list_del h (hd (xs @ [head])) (l_next h (hd (xs @ [head]))) head = Some h' \<and>
    is_list h' head []"
  using assms
proof (induction xs arbitrary: h)
  case Nil
  then show ?case by (simp add: list_walk_safe.simps)
next
  case (Cons x xs)
  have d: "is_list (list_del h x) head xs" using list_del_is(1) [of h head "[]" x xs] Cons.prems by simp
  have "x \<noteq> head" using is_list_distinct [OF Cons.prems] by auto
  moreover have "l_next h x = hd (xs @ [head])"
    using seg_nth [OF is_list_seg [OF Cons.prems], of 1] by (cases xs) auto
  ultimately show ?case
    using Cons.IH [OF d] by (simp add: list_walk_safe.simps [of l_next list_del h x] Let_def)
qed

section \<open>Interface: intrusive lists\<close>

text \<open>
  What the hash table and the transaction list rely on, common to both kinds of intrusive lists:
  \<open>node\<close> says which addresses can be nodes.  An operation may fault on a null pointer; on a
  well-formed list it must not.
\<close>

fun each :: "('h \<Rightarrow> 'n \<Rightarrow> 'e + 'h) \<Rightarrow> 'n list \<Rightarrow> 'h \<Rightarrow> 'e + 'h" where
  "each f [] h = Inr h"
| "each f (n # ns) h = and_then (f h n) (each f ns)"

locale intrusive_list =
  fixes rep :: "'h \<Rightarrow> 'n \<Rightarrow> 'n list \<Rightarrow> bool" and node :: "'n \<Rightarrow> bool"
    and add :: "'h \<Rightarrow> 'n \<Rightarrow> 'n \<Rightarrow> fault + 'h" and del :: "'h \<Rightarrow> 'n \<Rightarrow> fault + 'h"
    and walk :: "'h \<Rightarrow> 'n \<Rightarrow> (fault + 'n list) option"
  assumes rep_add: "rep h head xs \<Longrightarrow> node n \<Longrightarrow> n \<notin> set (head # xs) \<Longrightarrow>
      \<exists>h'. add h n head = Inr h' \<and> rep h' head (n # xs)"
    and rep_del: "rep h head (xs @ e # ys) \<Longrightarrow> \<exists>h'. del h e = Inr h' \<and> rep h' head (xs @ ys)"
    and rep_walk: "rep h head xs \<Longrightarrow> walk h head = Some (Inr xs)"
    and rep_distinct: "rep h head xs \<Longrightarrow> distinct xs"
begin

lemma add_all:
  "rep h head xs \<Longrightarrow> distinct (head # ns @ xs) \<Longrightarrow> \<forall>n\<in>set ns. node n \<Longrightarrow>
    \<exists>h'. each (\<lambda>h n. add h n head) ns h = Inr h' \<and> rep h' head (rev ns @ xs)"
proof (induction ns arbitrary: h xs)
  case (Cons n ns)
  obtain h1 where h1: "add h n head = Inr h1" "rep h1 head (n # xs)"
    using rep_add [of h head xs n] Cons.prems by auto
  from Cons.IH [OF h1(2)] Cons.prems h1(1) show ?case by auto
qed simp

lemma walk_add_all:
  assumes "rep h head []" and "distinct (head # ns)" and "\<forall>n\<in>set ns. node n"
  shows "\<exists>h'. each (\<lambda>h n. add h n head) ns h = Inr h' \<and> walk h' head = Some (Inr (rev ns))"
  using add_all [of h head "[]" ns] assms rep_walk by auto

lemma del_remove1:
  assumes "rep h head xs" and "e \<in> set xs"
  shows "\<exists>h'. del h e = Inr h' \<and> rep h' head (remove1 e xs)"
proof -
  obtain ys zs where "xs = ys @ e # zs" "e \<notin> set ys" using split_list_first [OF assms(2)] by blast
  with rep_del [of h head ys e zs] assms(1) show ?thesis by (simp add: remove1_append)
qed

lemma del_all: "rep h head xs \<Longrightarrow> \<exists>h'. each del xs h = Inr h' \<and> rep h' head []"
proof (induction xs arbitrary: h)
  case (Cons x xs)
  then obtain h1 where "del h x = Inr h1" "rep h1 head xs" using rep_del [of h head "[]" x xs] by auto
  with Cons.IH show ?case by simp
qed simp

end

interpretation lh: intrusive_list is_list "\<lambda>_. True" "\<lambda>h n head. Inr (list_add h n head)"
    "\<lambda>h n. Inr (list_del h n)" "\<lambda>h head. map_option Inr (list_for_each h head)"
  by unfold_locales
    (auto simp: list_add_is list_del_is list_for_each_all dest: is_list_distinct)

text \<open>
  C38.  The circular lists refine sequences: on a well-formed list, \<open>list_add\<close> puts a fresh node at
  the front, \<open>list_add_tail\<close> at the back, \<open>list_del\<close> removes exactly its node and poisons it,
  \<open>list_empty\<close> tests for the empty list, and \<open>list_for_each\<close> ends and visits the nodes in order,
  \<open>list_for_each_prev\<close> in reverse.
\<close>

theorem list_head_refines:
  assumes "is_list h head (xs @ e # ys)" and "new \<notin> set (head # xs @ e # ys)"
  shows "is_list (list_add h new head) head (new # xs @ e # ys) \<and>
    is_list (list_add_tail h new head) head (xs @ e # ys @ [new]) \<and>
    is_list (list_del h e) head (xs @ ys) \<and> l_next (list_del h e) e = LIST_POISON1 \<and>
    \<not> list_empty h head \<and> list_for_each h head = Some (xs @ e # ys) \<and>
    list_for_each_prev h head = Some (rev ys @ e # rev xs)"
  using list_add_is [OF assms] list_add_tail_is [OF assms] list_del_is [OF assms(1)] list_empty_iff [OF assms(1)]
    list_for_each_all [OF assms(1)] list_for_each_prev_all [OF assms(1)] by simp

text \<open>
  Cutting a list behind a node and splicing the cut part back in front restores the list, and
  leaves the auxiliary list empty when it is reinitialised.
\<close>

theorem list_cut_splice:
  assumes "is_list h head (xs @ e # ys)" and "l \<notin> set (head # xs @ e # ys)"
    and "h1 = list_cut_position h l head e"
  shows "is_list h1 l (xs @ [e]) \<and> is_list h1 head ys \<and>
    is_list (list_splice_init h1 l head) head (xs @ e # ys) \<and> is_list (list_splice_init h1 l head) l []"
proof -
  note c = list_cut_position_is [OF assms(1,2), folded assms(3)]
  have "set (l # xs @ [e]) \<inter> set (head # ys) = {}"
    using is_list_distinct [OF assms(1)] assms(2) by auto
  from list_splice_init_is [OF c this] c show ?thesis by simp
qed

text \<open>
  \<open>list_for_each_safe\<close> survives a body that deletes the node it is given: the loop ends, and the
  list is empty afterwards.
\<close>

theorem list_for_each_safe_del:
  assumes "is_list h head xs"
  shows "\<exists>h'. list_for_each_safe list_del h head = Some h' \<and> list_empty h' head"
  using list_walk_safe_del [OF assms] is_list_ends(1) [OF assms] list_empty_iff
  by (auto simp: list_for_each_safe_def Let_def)

definition ex_lheap :: lheap where
  "ex_lheap = list_add_tail (list_add_tail (INIT_LIST_HEAD \<lparr>l_next = (\<lambda>_. 0), l_prev = (\<lambda>_. 0)\<rparr> 16) 32 16) 48 16"

lemma ex_lheap_list: "is_list ex_lheap 16 ([] @ 32 # [48])"
  using list_add_tail_is [OF list_add_tail_is [OF init_is_list, of 32 16], of 48] by (simp add: ex_lheap_def)

theorem list_head_refines_witness:
  "list_for_each_prev ex_lheap 16 = Some [48, 32] \<and> is_list (list_add ex_lheap 64 16) 16 [64, 32, 48]"
  using list_head_refines [OF ex_lheap_list, of 64] by simp

theorem list_cut_splice_witness:
  "is_list (list_splice_init (list_cut_position ex_lheap 64 16 32) 64 16) 16 [32, 48]"
  using list_cut_splice [OF ex_lheap_list, of 64] by simp

theorem list_for_each_safe_del_witness:
  "\<exists>h'. list_for_each_safe list_del ex_lheap 16 = Some h' \<and> list_empty h' 16"
  using list_for_each_safe_del [OF ex_lheap_list] .

end
