(* ===== verification/Uhlist.thy ===== *)
theory Uhlist
  imports Ulist
begin

text \<open>
  The hash chains of \<^verbatim>\<open>ulist.h\<close>.  \<open>pprev\<close> points to the pointer that points to the node: the \<open>first\<close>
  field of the head or the \<open>next\<close> field of the predecessor.  Both fields are at offset 0 of their
  structures, so one map from addresses to pointers, \<open>cell\<close>, holds them both.
\<close>

section \<open>Operations\<close>

record hheap =
  cell :: "ptr \<Rightarrow> ptr"
  h_pprev :: "ptr \<Rightarrow> ptr"

text \<open>Reading or writing a field of the structure at the null pointer is a fault.\<close>

definition get_cell :: "hheap \<Rightarrow> ptr \<Rightarrow> fault + ptr" where
  "get_cell h p = (if p = NULL then Inl BAD_POINTER else Inr (cell h p))"

definition get_pprev :: "hheap \<Rightarrow> ptr \<Rightarrow> fault + ptr" where
  "get_pprev h p = (if p = NULL then Inl BAD_POINTER else Inr (h_pprev h p))"

definition put_cell :: "hheap \<Rightarrow> ptr \<Rightarrow> ptr \<Rightarrow> fault + hheap" where
  "put_cell h p v = (if p = NULL then Inl BAD_POINTER else Inr (h\<lparr>cell := (cell h)(p := v)\<rparr>))"

definition put_pprev :: "hheap \<Rightarrow> ptr \<Rightarrow> ptr \<Rightarrow> fault + hheap" where
  "put_pprev h p v = (if p = NULL then Inl BAD_POINTER else Inr (h\<lparr>h_pprev := (h_pprev h)(p := v)\<rparr>))"

definition INIT_HLIST_HEAD :: "hheap \<Rightarrow> ptr \<Rightarrow> fault + hheap" where
  "INIT_HLIST_HEAD h p = put_cell h p NULL"

definition INIT_HLIST_NODE :: "hheap \<Rightarrow> ptr \<Rightarrow> fault + hheap" where
  "INIT_HLIST_NODE h n = and_then (put_cell h n NULL) (\<lambda>h1. put_pprev h1 n NULL)"

definition hlist_unhashed :: "hheap \<Rightarrow> ptr \<Rightarrow> fault + bool" where
  "hlist_unhashed h n = and_then (get_pprev h n) (\<lambda>pprev. Inr (pprev = NULL))"

definition hlist_empty :: "hheap \<Rightarrow> ptr \<Rightarrow> fault + bool" where
  "hlist_empty h head = and_then (get_cell h head) (\<lambda>first. Inr (first = NULL))"

definition do_hlist_del :: "hheap \<Rightarrow> ptr \<Rightarrow> fault + hheap" where
  "do_hlist_del h n =
     and_then (get_cell h n) (\<lambda>nxt.
     and_then (get_pprev h n) (\<lambda>pprev.
     and_then (put_cell h pprev nxt) (\<lambda>h1.
       if nxt \<noteq> NULL then put_pprev h1 nxt pprev else Inr h1)))"

definition hlist_del :: "hheap \<Rightarrow> ptr \<Rightarrow> fault + hheap" where
  "hlist_del h n =
     and_then (do_hlist_del h n) (\<lambda>h1.
     and_then (put_cell h1 n LIST_POISON1) (\<lambda>h2. put_pprev h2 n LIST_POISON2))"

definition hlist_del_init :: "hheap \<Rightarrow> ptr \<Rightarrow> fault + hheap" where
  "hlist_del_init h n =
     and_then (hlist_unhashed h n) (\<lambda>unhashed.
       if \<not> unhashed then and_then (do_hlist_del h n) (\<lambda>h1. INIT_HLIST_NODE h1 n) else Inr h)"

definition hlist_add_head :: "hheap \<Rightarrow> ptr \<Rightarrow> ptr \<Rightarrow> fault + hheap" where
  "hlist_add_head h n head =
     and_then (get_cell h head) (\<lambda>first.
     and_then (put_cell h n first) (\<lambda>h1.
     and_then (if first \<noteq> NULL then put_pprev h1 first n else Inr h1) (\<lambda>h2.
     and_then (put_cell h2 head n) (\<lambda>h3. put_pprev h3 n head))))"

definition hlist_add_before :: "hheap \<Rightarrow> ptr \<Rightarrow> ptr \<Rightarrow> fault + hheap" where
  "hlist_add_before h n nxt =
     and_then (get_pprev h nxt) (\<lambda>pprev.
     and_then (put_pprev h n pprev) (\<lambda>h1.
     and_then (put_cell h1 n nxt) (\<lambda>h2.
     and_then (put_pprev h2 nxt n) (\<lambda>h3.
     and_then (get_pprev h3 n) (\<lambda>np. put_cell h3 np n)))))"

definition hlist_add_after :: "hheap \<Rightarrow> ptr \<Rightarrow> ptr \<Rightarrow> fault + hheap" where
  "hlist_add_after h n nxt =
     and_then (get_cell h n) (\<lambda>follow.
     and_then (put_cell h nxt follow) (\<lambda>h1.
     and_then (put_cell h1 n nxt) (\<lambda>h2.
     and_then (put_pprev h2 nxt n) (\<lambda>h3.
     and_then (get_cell h3 nxt) (\<lambda>nn.
       if nn \<noteq> NULL then put_pprev h3 nn nxt else Inr h3)))))"

definition hlist_add_fake :: "hheap \<Rightarrow> ptr \<Rightarrow> fault + hheap" where
  "hlist_add_fake h n = put_pprev h n n"

definition hlist_move_list :: "hheap \<Rightarrow> ptr \<Rightarrow> ptr \<Rightarrow> fault + hheap" where
  "hlist_move_list h old new =
     and_then (get_cell h old) (\<lambda>first.
     and_then (put_cell h new first) (\<lambda>h1.
     and_then (get_cell h1 new) (\<lambda>nfirst.
     and_then (if nfirst \<noteq> NULL then put_pprev h1 nfirst new else Inr h1) (\<lambda>h2.
       put_cell h2 old NULL))))"

section \<open>Loops\<close>

partial_function (option) hlist_walk :: "hheap \<Rightarrow> ptr \<Rightarrow> ptr list option" where
  "hlist_walk h pos =
     (if pos = NULL then Some [] else Option.bind (hlist_walk h (cell h pos)) (\<lambda>ps. Some (pos # ps)))"

partial_function (option) hlist_walk_safe ::
  "(hheap \<Rightarrow> ptr \<Rightarrow> fault + hheap) \<Rightarrow> hheap \<Rightarrow> ptr \<Rightarrow> (fault + hheap) option" where
  "hlist_walk_safe body h pos =
     (if pos = NULL then Some (Inr h)
      else
        let n = cell h pos
        in case body h pos of Inl f \<Rightarrow> Some (Inl f) | Inr h1 \<Rightarrow> hlist_walk_safe body h1 n)"

definition hlist_for_each :: "hheap \<Rightarrow> ptr \<Rightarrow> (fault + ptr list) option" where
  "hlist_for_each h head =
     (case get_cell h head of Inl f \<Rightarrow> Some (Inl f) | Inr first \<Rightarrow> map_option Inr (hlist_walk h first))"

definition hlist_for_each_safe ::
  "(hheap \<Rightarrow> ptr \<Rightarrow> fault + hheap) \<Rightarrow> hheap \<Rightarrow> ptr \<Rightarrow> (fault + hheap) option" where
  "hlist_for_each_safe body h head =
     (case get_cell h head of Inl f \<Rightarrow> Some (Inl f) | Inr first \<Rightarrow> hlist_walk_safe body h first)"

definition hlist_entry :: "ptr \<Rightarrow> u64 \<Rightarrow> ptr" where
  "hlist_entry p off = container_of p off"

definition hlist_entry_safe :: "ptr \<Rightarrow> u64 \<Rightarrow> ptr" where
  "hlist_entry_safe p off = (if p \<noteq> NULL then hlist_entry p off else NULL)"

text \<open>The node of an entry is at offset \<open>off\<close>.\<close>

partial_function (option) hentry_walk :: "hheap \<Rightarrow> u64 \<Rightarrow> ptr \<Rightarrow> (fault + ptr list) option" where
  "hentry_walk h off pos =
     (if pos = NULL then Some (Inr [])
      else
        case get_cell h (pos + off) of
          Inl f \<Rightarrow> Some (Inl f)
        | Inr nxt \<Rightarrow>
            Option.bind (hentry_walk h off (hlist_entry_safe nxt off))
              (\<lambda>r. Some (and_then r (\<lambda>ps. Inr (pos # ps)))))"

definition hlist_for_each_entry :: "hheap \<Rightarrow> ptr \<Rightarrow> u64 \<Rightarrow> (fault + ptr list) option" where
  "hlist_for_each_entry h head off =
     (case get_cell h head of
        Inl f \<Rightarrow> Some (Inl f)
      | Inr first \<Rightarrow> hentry_walk h off (hlist_entry_safe first off))"

definition hlist_for_each_entry_continue :: "hheap \<Rightarrow> ptr \<Rightarrow> u64 \<Rightarrow> (fault + ptr list) option" where
  "hlist_for_each_entry_continue h pos off =
     (case get_cell h (pos + off) of
        Inl f \<Rightarrow> Some (Inl f)
      | Inr nxt \<Rightarrow> hentry_walk h off (hlist_entry_safe nxt off))"

definition hlist_for_each_entry_from :: "hheap \<Rightarrow> ptr \<Rightarrow> u64 \<Rightarrow> (fault + ptr list) option" where
  "hlist_for_each_entry_from h pos off = hentry_walk h off pos"

definition hlist_for_each_entry_safe ::
  "(hheap \<Rightarrow> ptr \<Rightarrow> fault + hheap) \<Rightarrow> hheap \<Rightarrow> ptr \<Rightarrow> u64 \<Rightarrow> (fault + hheap) option" where
  "hlist_for_each_entry_safe body h head off =
     (case get_cell h head of
        Inl f \<Rightarrow> Some (Inl f)
      | Inr first \<Rightarrow> hlist_walk_safe (\<lambda>h pos. body h (hlist_entry pos off)) h first)"

section \<open>The abstraction: chains\<close>

fun hseg :: "hheap \<Rightarrow> ptr list \<Rightarrow> bool" where
  "hseg h [] \<longleftrightarrow> True"
| "hseg h [p] \<longleftrightarrow> True"
| "hseg h (p # q # ps) \<longleftrightarrow> cell h p = q \<and> h_pprev h q = p \<and> hseg h (q # ps)"

definition is_hlist :: "hheap \<Rightarrow> ptr \<Rightarrow> ptr list \<Rightarrow> bool" where
  "is_hlist h head xs \<longleftrightarrow>
     distinct (head # xs) \<and> NULL \<notin> set (head # xs) \<and> hseg h (head # xs) \<and> cell h (last (head # xs)) = NULL"

section \<open>Lemmas\<close>

lemma hheap_access [simp]:
  "p \<noteq> NULL \<Longrightarrow> get_cell h p = Inr (cell h p)" "p \<noteq> NULL \<Longrightarrow> get_pprev h p = Inr (h_pprev h p)"
  "p \<noteq> NULL \<Longrightarrow> put_cell h p v = Inr (h\<lparr>cell := (cell h)(p := v)\<rparr>)"
  "p \<noteq> NULL \<Longrightarrow> put_pprev h p v = Inr (h\<lparr>h_pprev := (h_pprev h)(p := v)\<rparr>)"
  by (simp_all add: get_cell_def get_pprev_def put_cell_def put_pprev_def)

lemma hseg_append:
  "ps \<noteq> [] \<Longrightarrow> qs \<noteq> [] \<Longrightarrow> hseg h (ps @ qs) \<longleftrightarrow>
     hseg h ps \<and> cell h (last ps) = hd qs \<and> h_pprev h (hd qs) = last ps \<and> hseg h qs"
proof (induction h ps rule: hseg.induct)
  case (2 h p)
  then show ?case by (cases qs) auto
qed auto

lemma hseg_cong:
  "(\<And>p. p \<in> set (butlast ps) \<Longrightarrow> cell h' p = cell h p) \<Longrightarrow>
   (\<And>p. p \<in> set (tl ps) \<Longrightarrow> h_pprev h' p = h_pprev h p) \<Longrightarrow> hseg h' ps = hseg h ps"
  by (induction h ps rule: hseg.induct) auto

lemma hseg_frame:
  assumes "hseg h ps" and "distinct ps"
    and "\<And>p. p \<in> set ps \<Longrightarrow> p \<noteq> last ps \<Longrightarrow> cell h' p = cell h p"
    and "\<And>p. p \<in> set ps \<Longrightarrow> p \<noteq> hd ps \<Longrightarrow> h_pprev h' p = h_pprev h p"
  shows "hseg h' ps"
proof (subst hseg_cong [of ps h' h])
  fix p assume "p \<in> set (butlast ps)"
  then show "cell h' p = cell h p"
    using assms(2,3) last_notin_butlast [of ps] in_set_butlastD [of p ps] by metis
next
  fix p assume "p \<in> set (tl ps)"
  then show "h_pprev h' p = h_pprev h p"
    using assms(2,4) hd_notin_tl [of ps] list.set_sel(2) [of ps p] by (metis tl_Nil)
qed (rule assms(1))

text \<open>A chain from the predecessor \<open>a\<close> of a place on, and what an insertion or a removal there does.\<close>

lemma is_hlist_split:
  "is_hlist h head (xs @ ys) \<longleftrightarrow> distinct (head # xs @ ys) \<and> NULL \<notin> set (head # xs @ ys) \<and> hseg h (head # xs) \<and>
     cell h (last (head # xs)) = hd (ys @ [NULL]) \<and>
     (ys \<noteq> [] \<longrightarrow> h_pprev h (hd ys) = last (head # xs) \<and> hseg h ys \<and> cell h (last ys) = NULL)"
  using hseg_append [of "head # xs" ys h] by (cases "ys = []") (auto simp: is_hlist_def)

lemma hlist_insert:
  assumes "is_hlist h head (xs @ ys)" and "n \<notin> set (head # xs @ ys)" and "n \<noteq> NULL"
    and "\<And>p. p \<in> set (n # head # xs @ ys) \<Longrightarrow>
      cell h' p = (if p = last (head # xs) then n else if p = n then hd (ys @ [NULL]) else cell h p)"
    and "\<And>p. p \<in> set (n # head # xs @ ys) \<Longrightarrow>
      h_pprev h' p = (if p = n then last (head # xs) else if ys \<noteq> [] \<and> p = hd ys then n else h_pprev h p)"
  shows "is_hlist h' head (xs @ n # ys)"
proof -
  let ?a = "last (head # xs)"
  note s = assms(1) [unfolded is_hlist_split]
  have a: "?a \<in> set (head # xs)" by (rule last_in_set) simp
  then have a2: "?a \<notin> set ys" "?a \<noteq> n" using s assms(2) by auto
  have hy: "ys \<noteq> [] \<Longrightarrow> hd ys \<in> set ys" "ys \<noteq> [] \<Longrightarrow> last ys \<in> set ys" by simp_all
  then have y: "ys \<noteq> [] \<Longrightarrow> hd ys \<notin> set (n # head # xs) \<and> last ys \<notin> set (n # head # xs)"
    using s assms(2) by auto
  have ya: "ys \<noteq> [] \<longrightarrow> last ys \<noteq> ?a" using hy a2 by metis
  have c: "cell h' p = cell h p" if "p \<in> set (head # xs @ ys)" "p \<noteq> ?a" for p
    using that assms(2) assms(4) [of p] by auto
  have q: "h_pprev h' p = h_pprev h p" if "p \<in> set (head # xs @ ys)" "ys \<noteq> [] \<longrightarrow> p \<noteq> hd ys" for p
    using that assms(2) assms(5) [of p] by auto
  have "hseg h' (head # xs)"
    by (rule hseg_frame [of h]) (use s c q y in auto)
  moreover have "ys \<noteq> [] \<longrightarrow> hseg h' ys"
    using s c q a2 by (auto intro!: hseg_frame [of h ys])
  moreover have "cell h' ?a = n" "h_pprev h' n = ?a" "cell h' n = hd (ys @ [NULL])"
    using a a2 assms(4) [of ?a] assms(4) [of n] assms(5) [of n] by auto
  moreover have "ys \<noteq> [] \<longrightarrow> h_pprev h' (hd ys) = n \<and> cell h' (last ys) = NULL"
    using s y hy c [of "last ys"] ya assms(5) [of "hd ys"] by (auto simp del: last.simps)
  ultimately have "hseg h' (n # ys)" "cell h' (last (n # ys)) = NULL"
    using hseg_append [of "[n]" ys h'] by (cases "ys = []"; simp)+
  then show ?thesis
    using s assms(2,3) \<open>hseg h' (head # xs)\<close> \<open>cell h' ?a = n\<close> \<open>h_pprev h' n = ?a\<close>
    unfolding is_hlist_split [of h' head xs "n # ys"] by auto
qed

lemma hlist_remove:
  assumes "is_hlist h head (xs @ n # ys)"
    and "\<And>p. p \<in> set (head # xs @ ys) \<Longrightarrow>
      cell h' p = (if p = last (head # xs) then hd (ys @ [NULL]) else cell h p)"
    and "\<And>p. p \<in> set (head # xs @ ys) \<Longrightarrow>
      h_pprev h' p = (if ys \<noteq> [] \<and> p = hd ys then last (head # xs) else h_pprev h p)"
  shows "is_hlist h' head (xs @ ys)"
proof -
  let ?a = "last (head # xs)"
  note s = assms(1) [unfolded is_hlist_split]
  have sy: "ys \<noteq> [] \<longrightarrow> hseg h ys \<and> cell h (last ys) = NULL"
    using s hseg_append [of "[n]" ys h] by (cases "ys = []") auto
  have a: "?a \<in> set (head # xs)" by (rule last_in_set) simp
  then have a2: "?a \<notin> set ys" using s by auto
  have hy: "ys \<noteq> [] \<longrightarrow> hd ys \<in> set ys \<and> last ys \<in> set ys" by simp
  then have y: "ys \<noteq> [] \<longrightarrow> hd ys \<notin> set (head # xs) \<and> last ys \<notin> set (head # xs)" using s by auto
  have ya: "ys \<noteq> [] \<longrightarrow> last ys \<noteq> ?a" using hy a2 by metis
  have "hseg h' (head # xs)"
    by (rule hseg_frame [of h]) (use s y assms(2,3) in auto)
  moreover have "ys \<noteq> [] \<longrightarrow> hseg h' ys"
    using s sy assms(2,3) a2 by (auto intro!: hseg_frame [of h ys])
  moreover have "cell h' ?a = hd (ys @ [NULL])" using a assms(2) [of ?a] by auto
  moreover have "ys \<noteq> [] \<longrightarrow> h_pprev h' (hd ys) = ?a \<and> cell h' (last ys) = NULL"
    using sy hy ya assms(2) [of "last ys"] assms(3) [of "hd ys"] by (auto simp del: last.simps)
  ultimately show ?thesis using s unfolding is_hlist_split [of h' head xs ys] by auto
qed

lemma init_is_hlist: "p \<noteq> NULL \<Longrightarrow> \<exists>h'. INIT_HLIST_HEAD h p = Inr h' \<and> is_hlist h' p []"
  by (simp add: is_hlist_def INIT_HLIST_HEAD_def)

lemma is_hlist_first: "is_hlist h head xs \<Longrightarrow> cell h head = hd (xs @ [NULL])"
  by (cases xs) (auto simp: is_hlist_def)

lemma is_hlist_distinct: "is_hlist h head xs \<Longrightarrow> distinct (head # xs)"
  and is_hlist_NULL: "is_hlist h head xs \<Longrightarrow> NULL \<notin> set (head # xs)"
  by (simp_all add: is_hlist_def)

lemma hlist_node:
  assumes "is_hlist h head (xs @ n # ys)"
  shows "h_pprev h n = last (head # xs)" "cell h n = hd (ys @ [NULL])"
  using assms hseg_append [of "[n]" ys h] by (cases "ys = []"; auto simp: is_hlist_split)+

lemma is_hlist_last:
  assumes "is_hlist h head (xs @ ys)"
  shows "last (head # xs) \<noteq> NULL" "last (head # xs) \<notin> set ys"
  using is_hlist_NULL [OF assms] is_hlist_distinct [OF assms] last_in_set [of "head # xs"] by auto

lemma hlist_add_head_is:
  assumes "is_hlist h head xs" and "n \<notin> set (head # xs)" and "n \<noteq> NULL"
  shows "\<exists>h'. hlist_add_head h n head = Inr h' \<and> is_hlist h' head (n # xs)"
proof -
  let ?h = "h\<lparr>cell := (cell h)(n := hd (xs @ [NULL]), head := n),
    h_pprev := (if xs = [] then h_pprev h else (h_pprev h)(hd xs := n))(n := head)\<rparr>"
  have nz: "head \<noteq> NULL" "xs \<noteq> [] \<Longrightarrow> hd xs \<noteq> NULL \<and> hd xs \<noteq> n"
    using is_hlist_NULL [OF assms(1)] assms(2) by (cases xs; auto)+
  then have "hlist_add_head h n head = Inr ?h"
    using assms(3) is_hlist_first [OF assms(1)] by (cases xs) (auto simp: hlist_add_head_def)
  moreover have "is_hlist ?h head ([] @ n # xs)"
    using assms by (intro hlist_insert [of h]) auto
  ultimately show ?thesis by simp
qed

lemma do_hlist_del_eq:
  assumes "is_hlist h head (xs @ n # ys)"
  shows "do_hlist_del h n = Inr (h\<lparr>cell := (cell h)(last (head # xs) := hd (ys @ [NULL])),
    h_pprev := if ys = [] then h_pprev h else (h_pprev h)(hd ys := last (head # xs))\<rparr>)"
  using hlist_node [OF assms] is_hlist_NULL [OF assms] is_hlist_last(1) [OF assms]
  by (cases ys) (auto simp: do_hlist_del_def simp del: last.simps)

lemma do_hlist_del_is:
  assumes "is_hlist h head (xs @ n # ys)"
  shows "\<exists>h'. do_hlist_del h n = Inr h' \<and> is_hlist h' head (xs @ ys)"
  unfolding do_hlist_del_eq [OF assms]
  by (intro exI conjI refl hlist_remove [OF assms]) auto

lemma is_hlist_frame:
  assumes "is_hlist h head xs" and "\<And>p. p \<in> set (head # xs) \<Longrightarrow> cell h' p = cell h p"
    and "\<And>p. p \<in> set xs \<Longrightarrow> h_pprev h' p = h_pprev h p"
  shows "is_hlist h' head xs"
proof -
  have "hseg h' (head # xs)"
    by (rule hseg_frame [of h]) (use assms in \<open>auto simp: is_hlist_def\<close>)
  then show ?thesis using assms(1,2) last_in_set [of "head # xs"] by (auto simp: is_hlist_def simp del: last.simps)
qed

lemma hlist_node_outside:
  assumes "is_hlist h head (xs @ n # ys)"
  shows "n \<noteq> NULL" "n \<notin> set (head # xs @ ys)"
  using is_hlist_NULL [OF assms] is_hlist_distinct [OF assms] by auto

lemma hlist_del_is:
  assumes "is_hlist h head (xs @ n # ys)"
  shows "\<exists>h'. hlist_del h n = Inr h' \<and> is_hlist h' head (xs @ ys) \<and>
    cell h' n = LIST_POISON1 \<and> h_pprev h' n = LIST_POISON2"
proof -
  obtain h1 where "do_hlist_del h n = Inr h1" "is_hlist h1 head (xs @ ys)"
    using do_hlist_del_is [OF assms] by blast
  then show ?thesis
    using hlist_node_outside [OF assms] by (auto simp: hlist_del_def intro!: is_hlist_frame [of h1])
qed

lemma hlist_del_init_is:
  assumes "is_hlist h head (xs @ n # ys)"
  shows "\<exists>h'. hlist_del_init h n = Inr h' \<and> is_hlist h' head (xs @ ys) \<and> hlist_unhashed h' n = Inr True"
proof -
  obtain h1 where h1: "do_hlist_del h n = Inr h1" "is_hlist h1 head (xs @ ys)"
    using do_hlist_del_is [OF assms] by blast
  have "hlist_unhashed h n = Inr False"
    using hlist_node(1) [OF assms] is_hlist_last(1) [OF assms] hlist_node_outside(1) [OF assms]
    by (simp add: hlist_unhashed_def)
  then show ?thesis
    using h1 hlist_node_outside [OF assms]
    by (auto simp: hlist_del_init_def INIT_HLIST_NODE_def hlist_unhashed_def intro!: is_hlist_frame [of h1])
qed

lemma hlist_del_init_unhashed:
  "n \<noteq> NULL \<Longrightarrow> h_pprev h n = NULL \<Longrightarrow> hlist_del_init h n = Inr h"
  by (simp add: hlist_del_init_def hlist_unhashed_def)

lemma hlist_add_before_is:
  assumes "is_hlist h head (xs @ m # ys)" and "n \<notin> set (head # xs @ m # ys)" and "n \<noteq> NULL"
  shows "\<exists>h'. hlist_add_before h n m = Inr h' \<and> is_hlist h' head (xs @ n # m # ys)"
proof -
  let ?a = "last (head # xs)"
  let ?h = "h\<lparr>cell := (cell h)(n := m, ?a := n), h_pprev := (h_pprev h)(n := ?a, m := n)\<rparr>"
  have a: "?a \<noteq> NULL" "?a \<noteq> m" "?a \<noteq> n" "m \<noteq> NULL" "m \<noteq> n"
    using is_hlist_last [OF assms(1)] hlist_node_outside [OF assms(1)] assms(2) last_in_set [of "head # xs"]
    by auto
  then have "hlist_add_before h n m = Inr ?h"
    using hlist_node(1) [OF assms(1)] assms(3) by (simp add: hlist_add_before_def del: last.simps)
  moreover have "is_hlist ?h head (xs @ n # m # ys)"
    using assms(2,3) a by (intro hlist_insert [OF assms(1)]) (auto simp del: last.simps)
  ultimately show ?thesis by blast
qed

lemma hlist_add_after_is:
  assumes "is_hlist h head (xs @ m # ys)" and "n \<notin> set (head # xs @ m # ys)" and "n \<noteq> NULL"
  shows "\<exists>h'. hlist_add_after h m n = Inr h' \<and> is_hlist h' head (xs @ m # n # ys)"
proof -
  have l: "is_hlist h head ((xs @ [m]) @ ys)" using assms(1) by simp
  let ?h = "h\<lparr>cell := (cell h)(n := hd (ys @ [NULL]), m := n),
    h_pprev := (if ys = [] then (h_pprev h)(n := m) else (h_pprev h)(n := m, hd ys := n))\<rparr>"
  have "hlist_add_after h m n = Inr ?h"
    using hlist_node(2) [OF assms(1)] assms(2,3) is_hlist_NULL [OF assms(1)]
    by (cases ys) (auto simp: hlist_add_after_def)
  moreover have "is_hlist ?h head ((xs @ [m]) @ n # ys)"
    using assms(2,3) is_hlist_distinct [OF assms(1)] by (intro hlist_insert [OF l]) auto
  ultimately show ?thesis by simp
qed

lemma hlist_move_list_is:
  assumes "is_hlist h old xs" and "new \<notin> set (old # xs)" and "new \<noteq> NULL"
  shows "\<exists>h'. hlist_move_list h old new = Inr h' \<and> is_hlist h' new xs \<and> is_hlist h' old []"
proof -
  let ?h = "h\<lparr>cell := (cell h)(new := hd (xs @ [NULL]), old := NULL),
    h_pprev := (if xs = [] then h_pprev h else (h_pprev h)(hd xs := new))\<rparr>"
  have nz: "old \<noteq> NULL" "NULL \<notin> set xs" using is_hlist_NULL [OF assms(1)] by auto
  have "hlist_move_list h old new = Inr ?h"
    using nz assms(3) is_hlist_first [OF assms(1)] by (cases xs) (auto simp: hlist_move_list_def)
  moreover have "is_hlist ?h old []" using nz by (simp add: is_hlist_def)
  moreover have "is_hlist ?h new xs"
  proof (cases xs)
    case Nil
    then show ?thesis using assms(2,3) by (auto simp: is_hlist_def)
  next
    case (Cons x ys)
    have s: "hseg h (x # ys)" "cell h (last (x # ys)) = NULL" "distinct (old # x # ys)"
      using assms(1) Cons by (auto simp: is_hlist_def split: if_splits)
    have "hseg ?h (x # ys)"
      by (rule hseg_frame [OF s(1)]) (use s(3) assms(2) Cons in auto)
    moreover have "last (x # ys) \<notin> {old, new}"
      using s(3) assms(2) Cons last_in_set [of "x # ys"] by auto
    ultimately show ?thesis using s nz assms(2,3) Cons by (auto simp: is_hlist_def)
  qed
  ultimately show ?thesis by blast
qed

lemma hlist_empty_iff: "is_hlist h head xs \<Longrightarrow> hlist_empty h head = Inr (xs = [])"
  using is_hlist_first [of h head xs] is_hlist_NULL [of h head xs] by (cases xs) (auto simp: hlist_empty_def)

lemma hlist_walk_all:
  "hseg h xs \<Longrightarrow> NULL \<notin> set xs \<Longrightarrow> xs \<noteq> [] \<Longrightarrow> cell h (last xs) = NULL \<Longrightarrow> hlist_walk h (hd xs) = Some xs"
proof (induction h xs rule: hseg.induct)
  case (2 h p)
  then show ?case by (simp add: hlist_walk.simps [of h p] hlist_walk.simps [of h NULL])
next
  case (3 h p q ps)
  then show ?case by (simp add: hlist_walk.simps [of h p])
qed simp

lemma hlist_for_each_all:
  assumes "is_hlist h head xs"
  shows "hlist_for_each h head = Some (Inr xs)"
proof (cases xs)
  case Nil
  with assms show ?thesis by (simp add: hlist_for_each_def is_hlist_def hlist_walk.simps)
next
  case (Cons x ys)
  with assms have "hlist_walk h (hd xs) = Some xs"
    by (intro hlist_walk_all) (auto simp: is_hlist_def)
  with is_hlist_first [OF assms] is_hlist_NULL [OF assms] Cons show ?thesis by (simp add: hlist_for_each_def)
qed

interpretation hl: intrusive_list is_hlist "\<lambda>n. n \<noteq> NULL" hlist_add_head hlist_del hlist_for_each
proof unfold_locales
  show "\<exists>h'. hlist_del h e = Inr h' \<and> is_hlist h' head (xs @ ys)" if "is_hlist h head (xs @ e # ys)"
    for h head xs e ys using hlist_del_is [OF that] by blast
qed (auto simp: hlist_add_head_is hlist_for_each_all dest: is_hlist_distinct)

lemma hlist_walk_safe_del:
  assumes "is_hlist h head xs"
  shows "hlist_walk_safe hlist_del h (hd (xs @ [NULL])) = Some (each hlist_del xs h)"
  using assms
proof (induction xs arbitrary: h)
  case Nil
  then show ?case by (simp add: hlist_walk_safe.simps)
next
  case (Cons x xs)
  obtain h1 where h1: "hlist_del h x = Inr h1" "is_hlist h1 head xs"
    using hlist_del_is [of h head "[]" x xs] Cons.prems by auto
  have "x \<noteq> NULL" "cell h x = hd (xs @ [NULL])"
    using hlist_node_outside(1) [of h head "[]" x xs] hlist_node(2) [of h head "[]" x xs] Cons.prems by auto
  then show ?case
    using Cons.IH [OF h1(2)] h1(1) by (simp add: hlist_walk_safe.simps [of hlist_del h x])
qed

text \<open>
  C39.  The hash chains refine sequences, and on a well-formed chain, empty or not, no operation writes
  or reads through a null pointer (which the model makes a fault): \<open>hlist_add_head\<close> puts a fresh node
  in front, \<open>hlist_add_before\<close> and \<open>hlist_add_after\<close> put it at their place, \<open>hlist_del\<close> removes
  exactly its node, the last one included, without naming the chain it is on, and poisons it, the
  loop visits the nodes in order, and the deleting loop that \<open>adafs_exit_hook\<close> runs on every chain
  ends with an empty chain.  A null head makes the insertion fault.
\<close>

theorem hlist_refines:
  assumes "is_hlist h head xs" and "n \<notin> set (head # xs)" and "n \<noteq> NULL"
  shows "(\<exists>h'. hlist_add_head h n head = Inr h' \<and> is_hlist h' head (n # xs)) \<and>
    (\<forall>ys m zs. xs = ys @ m # zs \<longrightarrow>
      (\<exists>h'. hlist_add_before h n m = Inr h' \<and> is_hlist h' head (ys @ n # m # zs)) \<and>
      (\<exists>h'. hlist_add_after h m n = Inr h' \<and> is_hlist h' head (ys @ m # n # zs)) \<and>
      (\<exists>h'. hlist_del h m = Inr h' \<and> is_hlist h' head (ys @ zs) \<and>
         cell h' m = LIST_POISON1 \<and> h_pprev h' m = LIST_POISON2)) \<and>
    hlist_empty h head = Inr (xs = []) \<and> hlist_for_each h head = Some (Inr xs) \<and>
    (\<exists>h'. hlist_for_each_safe hlist_del h head = Some (Inr h') \<and> is_hlist h' head []) \<and>
    hlist_add_head h n NULL = Inl BAD_POINTER"
proof (intro conjI allI impI)
  show "\<exists>h'. hlist_for_each_safe hlist_del h head = Some (Inr h') \<and> is_hlist h' head []"
    using hlist_walk_safe_del [OF assms(1)] hl.del_all [OF assms(1)] is_hlist_first [OF assms(1)]
      is_hlist_NULL [OF assms(1)] by (auto simp: hlist_for_each_safe_def)
qed (use assms hlist_add_head_is hlist_add_before_is hlist_add_after_is hlist_del_is hlist_empty_iff
    hlist_for_each_all in \<open>simp_all add: hlist_add_head_def get_cell_def\<close>)

definition ex_hheap :: "fault + hheap" where
  "ex_hheap = and_then (INIT_HLIST_HEAD \<lparr>cell = (\<lambda>_. 0), h_pprev = (\<lambda>_. 0)\<rparr> 16)
     (each (\<lambda>h n. hlist_add_head h n 16) [48, 32])"

theorem hlist_refines_witness:
  "\<exists>h h1 h2. ex_hheap = Inr h \<and> hlist_for_each h 16 = Some (Inr [32, 48]) \<and>
     hlist_add_after h 32 64 = Inr h1 \<and> is_hlist h1 16 [32, 64, 48] \<and>
     hlist_del h 48 = Inr h2 \<and> is_hlist h2 16 [32]"
proof -
  obtain h0 where h0: "INIT_HLIST_HEAD \<lparr>cell = (\<lambda>_. 0), h_pprev = (\<lambda>_. 0)\<rparr> 16 = Inr h0" "is_hlist h0 16 []"
    using init_is_hlist [of 16] by auto
  with hl.add_all [of h0 16 "[]" "[48, 32]"] obtain h where h: "ex_hheap = Inr h" "is_hlist h 16 [32, 48]"
    by (auto simp: ex_hheap_def)
  have fresh: "(64 :: ptr) \<notin> set (16 # [32, 48])" "(64 :: ptr) \<noteq> NULL" by simp_all
  note r = hlist_refines [OF h(2) fresh]
  note split = r [THEN conjunct2, THEN conjunct1, rule_format]
  have a: "[32, 48] = [] @ (32 :: ptr) # [48]" "[32, 48] = [32] @ (48 :: ptr) # []" by simp_all
  from split [OF a(1)] obtain h1 where h1: "hlist_add_after h 32 64 = Inr h1" "is_hlist h1 16 [32, 64, 48]"
    by (auto simp only: append_Nil)
  from split [OF a(2)] obtain h2 where h2: "hlist_del h 48 = Inr h2" "is_hlist h2 16 [32]"
    by (auto simp only: append_Nil2)
  from r have "hlist_for_each h 16 = Some (Inr [32, 48])" by (elim conjE)
  with h(1) h1 h2 show ?thesis by blast
qed

end
