(* ===== verification/Uatomic.thy ===== *)
theory Uatomic
  imports Prelude
begin

text \<open>
  The atomic counters of the user-space build, \<^verbatim>\<open>uatomic.h\<close>.  A counter is a 32-bit \<open>int\<close>; each
  operation is one atomic step and returns the new counter.  The lemmas show that the operations
  are those of a 32-bit word and that a counter used for references is exact below \<open>2 ^ 31\<close>.
\<close>

record atomic_t =
  counter :: int

definition ATOMIC_INIT :: "int \<Rightarrow> atomic_t" where
  "ATOMIC_INIT i = \<lparr>counter = i\<rparr>"

definition atomic_read :: "atomic_t \<Rightarrow> int" where
  "atomic_read v = counter v"

definition atomic_set :: "atomic_t \<Rightarrow> int \<Rightarrow> atomic_t" where
  "atomic_set v i = v\<lparr>counter := i\<rparr>"

text \<open>The compiler's \<open>__sync_add_and_fetch\<close> and \<open>__sync_sub_and_fetch\<close> on a 32-bit \<open>int\<close>, which
  wrap around.\<close>

definition sync_add :: "int \<Rightarrow> atomic_t \<Rightarrow> int \<times> atomic_t" where
  "sync_add i v = (let r = wrap_int (counter v + i) in (r, v\<lparr>counter := r\<rparr>))"

definition sync_sub :: "int \<Rightarrow> atomic_t \<Rightarrow> int \<times> atomic_t" where
  "sync_sub i v = (let r = wrap_int (counter v - i) in (r, v\<lparr>counter := r\<rparr>))"

definition atomic_add :: "int \<Rightarrow> atomic_t \<Rightarrow> atomic_t" where
  "atomic_add i v = snd (sync_add i v)"

definition atomic_sub :: "int \<Rightarrow> atomic_t \<Rightarrow> atomic_t" where
  "atomic_sub i v = snd (sync_sub i v)"

definition atomic_sub_and_test :: "int \<Rightarrow> atomic_t \<Rightarrow> bool \<times> atomic_t" where
  "atomic_sub_and_test i v = (let (r, v') = sync_sub i v in (r = 0, v'))"

definition atomic_inc :: "atomic_t \<Rightarrow> atomic_t" where
  "atomic_inc v = snd (sync_add 1 v)"

definition atomic_dec :: "atomic_t \<Rightarrow> atomic_t" where
  "atomic_dec v = snd (sync_sub 1 v)"

definition atomic_dec_and_test :: "atomic_t \<Rightarrow> bool \<times> atomic_t" where
  "atomic_dec_and_test v = (let (r, v') = sync_sub 1 v in (r = 0, v'))"

definition atomic_inc_and_test :: "atomic_t \<Rightarrow> bool \<times> atomic_t" where
  "atomic_inc_and_test v = (let (r, v') = sync_add 1 v in (r = 0, v'))"

definition atomic_add_negative :: "int \<Rightarrow> atomic_t \<Rightarrow> bool \<times> atomic_t" where
  "atomic_add_negative i v = (let (r, v') = sync_add i v in (r < 0, v'))"

definition atomic_inc_return :: "atomic_t \<Rightarrow> int \<times> atomic_t" where
  "atomic_inc_return v = sync_add 1 v"

lemmas atomic_defs = atomic_read_def atomic_set_def atomic_add_def atomic_sub_def
  atomic_sub_and_test_def atomic_inc_def atomic_dec_def atomic_dec_and_test_def
  atomic_inc_and_test_def atomic_add_negative_def atomic_inc_return_def sync_add_def sync_sub_def
  Let_def split_def

section \<open>The counter as a 32-bit word\<close>

text \<open>A counter is the signed reading of a word, and every operation is the word's.\<close>

definition atomic_word :: "atomic_t \<Rightarrow> u32" where
  "atomic_word v = word_of_int (counter v)"

definition atomic_wf :: "atomic_t \<Rightarrow> bool" where
  "atomic_wf v \<longleftrightarrow> - (2 ^ 31) \<le> counter v \<and> counter v < 2 ^ 31"

lemma wrap_int_word [simp]: "(word_of_int (wrap_int x) :: u32) = word_of_int x"
  by (simp add: wrap_int_def)

lemma wrap_int_range: "- (2 ^ 31) \<le> wrap_int x \<and> wrap_int x < 2 ^ 31"
  using sint_range_size [of "word_of_int x :: u32"] by (simp add: wrap_int_def word_size)

lemma wrap_int_0_iff: "wrap_int x = 0 \<longleftrightarrow> (word_of_int x :: u32) = 0"
  unfolding wrap_int_def by (metis signed_0 signed_word_eqI)

lemma atomic_word_ops [simp]:
  "atomic_word (atomic_add i v) = atomic_word v + word_of_int i"
  "atomic_word (atomic_sub i v) = atomic_word v - word_of_int i"
  "atomic_word (atomic_inc v) = atomic_word v + 1"
  "atomic_word (atomic_dec v) = atomic_word v - 1"
  "atomic_word (snd (atomic_inc_return v)) = atomic_word v + 1"
  "atomic_word (snd (atomic_dec_and_test v)) = atomic_word v - 1"
  by (simp_all add: atomic_defs atomic_word_def)

lemma atomic_wf_ops [simp]:
  "atomic_wf (atomic_add i v)" "atomic_wf (atomic_sub i v)" "atomic_wf (atomic_inc v)"
  "atomic_wf (atomic_dec v)" "atomic_wf (snd (atomic_inc_return v))"
  "atomic_wf (snd (atomic_dec_and_test v))" "atomic_wf (snd (atomic_sub_and_test i v))"
  "atomic_wf (snd (atomic_inc_and_test v))" "atomic_wf (snd (atomic_add_negative i v))"
  using wrap_int_range by (simp_all add: atomic_defs atomic_wf_def)

lemma atomic_tests:
  "fst (atomic_dec_and_test v) \<longleftrightarrow> atomic_word v = 1"
  "fst (atomic_inc_and_test v) \<longleftrightarrow> atomic_word v = - 1"
  "fst (atomic_sub_and_test i v) \<longleftrightarrow> atomic_word v = word_of_int i"
  by (simp_all add: atomic_defs atomic_word_def wrap_int_0_iff eq_neg_iff_add_eq_0)

text \<open>A reference counter: as long as it stays below \<open>2 ^ 31\<close>, \<open>n\<close> gets and \<open>m\<close> puts, in any order
  that never puts more than was got, leave the exact difference, and only the last put reports
  zero.\<close>

datatype ref_op = Get | Put

fun ref_run :: "ref_op list \<Rightarrow> atomic_t \<Rightarrow> bool list \<times> atomic_t" where
  "ref_run [] v = ([], v)"
| "ref_run (Get # ops) v = ref_run ops (atomic_inc v)"
| "ref_run (Put # ops) v =
     (let (z, v') = atomic_dec_and_test v; (zs, w) = ref_run ops v' in (z # zs, w))"

fun ref_ok :: "int \<Rightarrow> ref_op list \<Rightarrow> bool" where
  "ref_ok n [] \<longleftrightarrow> 0 < n \<and> n < 2 ^ 31"
| "ref_ok n (Get # ops) \<longleftrightarrow> 0 < n \<and> n + 1 < 2 ^ 31 \<and> ref_ok (n + 1) ops"
| "ref_ok n (Put # ops) \<longleftrightarrow> 0 < n \<and> n < 2 ^ 31 \<and> (if ops = [] then True else ref_ok (n - 1) ops)"

lemma ref_run_counter:
  assumes "ref_ok (counter v) ops"
  shows "counter (snd (ref_run ops v)) =
           counter v + int (length (filter ((=) Get) ops)) - int (length (filter ((=) Put) ops))"
  using assms
proof (induction ops arbitrary: v)
  case (Cons a ops)
  show ?case
  proof (cases a)
    case Get
    then show ?thesis
      using Cons by (simp add: atomic_defs wrap_int_id)
  next
    case Put
    then show ?thesis
      using Cons by (cases ops) (auto simp: atomic_defs wrap_int_id)
  qed
qed simp

lemma ref_run_zero:
  assumes "ref_ok (counter v) (ops @ [Put])"
  shows "\<exists>z zs. fst (ref_run (ops @ [Put]) v) = zs @ [z] \<and>
           (\<forall>y \<in> set zs. \<not> y) \<and> (z \<longleftrightarrow> counter (snd (ref_run (ops @ [Put]) v)) = 0)"
  using assms
proof (induction ops arbitrary: v)
  case Nil
  then show ?case by (auto simp: atomic_defs wrap_int_id)
next
  case (Cons a ops)
  show ?case
  proof (cases a)
    case Get
    then show ?thesis
      using Cons.IH [of "atomic_inc v"] Cons.prems by (simp add: atomic_defs wrap_int_id)
  next
    case Put
    have ok: "ref_ok (counter v - 1) (ops @ [ref_op.Put])" and r: "0 < counter v" "counter v < 2 ^ 31"
      using Cons.prems Put by auto
    have pos: "counter v - 1 \<noteq> 0" using ok by (cases ops; cases "hd ops") auto
    have c: "wrap_int (counter v - 1) = counter v - 1" using r by (simp add: wrap_int_id)
    obtain z zs where "fst (ref_run (ops @ [ref_op.Put]) (snd (atomic_dec_and_test v))) = zs @ [z]"
      "\<forall>y \<in> set zs. \<not> y"
      "z \<longleftrightarrow> counter (snd (ref_run (ops @ [ref_op.Put]) (snd (atomic_dec_and_test v)))) = 0"
      using Cons.IH [of "snd (atomic_dec_and_test v)"] ok c by (auto simp: atomic_defs)
    then show ?thesis
      using Put c pos
      by (intro exI [of _ z] exI [of _ "False # zs"]) (simp add: atomic_defs)
  qed
qed

end
