(* ===== verification/Double.thy ===== *)
theory Double
  imports Prelude Complex_Main "HOL-Library.Log_Nat"
begin

text \<open>
  The \<open>double\<close> of C: a rational number with 53 significant bits.  An operation is the exact one
  followed by \<open>dbl\<close>, rounding to the nearest such number, to the even one of two equally near.  The
  exponent is not bounded, so overflow and underflow are not represented; a zero divisor gives
  an infinity or a NaN.  The lemmas show that \<open>dbl\<close> keeps the integers up to \<open>2 ^ 53\<close> and the order, and
  bound the error.
\<close>

type_synonym double = rat

section \<open>Definitions\<close>

text \<open>The exponent of the leading bit.\<close>

definition dexp :: "rat \<Rightarrow> int" where
  "dexp x =
     (let (p, q) = quotient_of \<bar>x\<bar>; k = bitlen p - bitlen q
      in if 2 powi k \<le> \<bar>x\<bar> then k else k - 1)"

text \<open>The nearest integer, the even one of two equally near.\<close>

definition nearest :: "rat \<Rightarrow> int" where
  "nearest y =
     (let f = \<lfloor>y\<rfloor>; d = y - of_int f
      in if d < 1 / 2 then f else if d > 1 / 2 then f + 1 else if even f then f else f + 1)"

definition dbl :: "rat \<Rightarrow> double" where
  "dbl x = (if x = 0 then 0 else let u = 2 powi (dexp x - 52) in of_int (nearest (x / u)) * u)"

text \<open>What a division gives.\<close>

datatype quot = Fin double | Inf bool | NaN

text \<open>The divisor of a zero divisor is \<open>+0\<close> wherever the programs divide, so that the sign of an infinity
  is the sign of the dividend.\<close>

definition quotient :: "double \<Rightarrow> double \<Rightarrow> quot" where
  "quotient a b = (if b \<noteq> 0 then Fin (dbl (a / b)) else if a = 0 then NaN else Inf (a > 0))"

text \<open>Comparisons with a NaN are false.\<close>

definition above :: "quot \<Rightarrow> double \<Rightarrow> bool" where
  "above a b = (case a of Fin v \<Rightarrow> v > b | Inf pos \<Rightarrow> pos | NaN \<Rightarrow> False)"

definition below :: "quot \<Rightarrow> double \<Rightarrow> bool" where
  "below a b = (case a of Fin v \<Rightarrow> v < b | Inf pos \<Rightarrow> \<not> pos | NaN \<Rightarrow> False)"

abbreviation dadd :: "double \<Rightarrow> double \<Rightarrow> double" where "dadd x y \<equiv> dbl (x + y)"
abbreviation dsub :: "double \<Rightarrow> double \<Rightarrow> double" where "dsub x y \<equiv> dbl (x - y)"
abbreviation dmul :: "double \<Rightarrow> double \<Rightarrow> double" where "dmul x y \<equiv> dbl (x * y)"
abbreviation ddiv :: "double \<Rightarrow> double \<Rightarrow> double" where "ddiv x y \<equiv> dbl (x / y)"

definition representable :: "rat \<Rightarrow> bool" where
  "representable x \<longleftrightarrow> dbl x = x"

section \<open>The nearest integer\<close>

lemma nearest_int [simp]: "nearest (of_int n) = n"
  by (simp add: nearest_def)

lemma nearest_error: "\<bar>of_int (nearest y) - y\<bar> \<le> 1 / 2"
proof -
  have "of_int \<lfloor>y\<rfloor> \<le> y" "y < of_int \<lfloor>y\<rfloor> + 1" by linarith+
  then show ?thesis unfolding nearest_def Let_def abs_le_iff by (simp split: if_splits) linarith
qed

lemma nearest_mono:
  assumes "x \<le> y"
  shows "nearest x \<le> nearest y"
proof -
  have f: "\<lfloor>x\<rfloor> \<le> \<lfloor>y\<rfloor>" using assms by (rule floor_mono)
  have g: "\<lfloor>z\<rfloor> \<le> nearest z" "nearest z \<le> \<lfloor>z\<rfloor> + 1" for z by (auto simp: nearest_def Let_def)
  show ?thesis
  proof (cases "\<lfloor>x\<rfloor> = \<lfloor>y\<rfloor>")
    case True
    then show ?thesis using assms by (auto simp: nearest_def Let_def)
  next
    case False
    then show ?thesis using f g(2) [of x] g(1) [of y] by linarith
  qed
qed

lemma nearest_minus: "nearest (- y) = - nearest y"
proof (cases "y = of_int \<lfloor>y\<rfloor>")
  case True
  then show ?thesis by (metis nearest_int of_int_minus)
next
  case False
  moreover have "of_int \<lfloor>y\<rfloor> \<le> y" "y < of_int \<lfloor>y\<rfloor> + 1" by linarith+
  ultimately have f: "\<lfloor>- y\<rfloor> = - \<lfloor>y\<rfloor> - 1" by (intro floor_unique) (unfold of_int_diff of_int_minus of_int_1, linarith+)
  show ?thesis unfolding nearest_def f Let_def by auto
qed

section \<open>The exponent\<close>

lemma bitlen_powi:
  assumes "0 < n"
  shows "2 powi (bitlen n - 1) \<le> (of_int n :: rat)" and "(of_int n :: rat) < 2 powi bitlen n"
proof -
  have b: "2 ^ nat (bitlen n - 1) \<le> n" "n < 2 ^ nat (bitlen n)" using bitlen_bounds [OF assms] by auto
  have "(2 ^ nat (bitlen n - 1) :: rat) \<le> of_int n" using b(1) by (metis of_int_le_iff of_int_numeral of_int_power)
  moreover have "(of_int n :: rat) < 2 ^ nat (bitlen n)" using b(2) by (metis of_int_less_iff of_int_numeral of_int_power)
  moreover have "1 \<le> bitlen n" using assms bitlen_nonneg [of n] bitlen_eq_zero_iff [of n] by linarith
  ultimately show "2 powi (bitlen n - 1) \<le> (of_int n :: rat)" and "(of_int n :: rat) < 2 powi bitlen n"
    by (simp_all add: power_int_def)
qed

lemma dexp_bounds:
  assumes "x \<noteq> 0"
  shows "2 powi dexp x \<le> \<bar>x\<bar>" and "\<bar>x\<bar> < 2 powi (dexp x + 1)"
proof -
  obtain p q where pq: "quotient_of \<bar>x\<bar> = (p, q)" by force
  have q: "0 < q" using quotient_of_denom_pos [OF pq] .
  have x: "\<bar>x\<bar> = of_int p / of_int q" using quotient_of_div [OF pq] .
  have "(0 :: rat) < of_int p / of_int q" using assms x by simp
  then have p: "0 < p" using q by (simp add: zero_less_divide_iff)
  let ?k = "bitlen p - bitlen q"
  have lo: "2 powi (?k - 1) \<le> \<bar>x\<bar>"
  proof -
    have "(2 :: rat) powi (?k - 1) = 2 powi (bitlen p - 1) / 2 powi bitlen q"
      by (simp add: power_int_diff)
    also have "\<dots> \<le> of_int p / of_int q"
      using bitlen_powi [OF p] bitlen_powi [OF q] q p by (intro frac_le) auto
    finally show ?thesis by (simp add: x)
  qed
  have hi: "\<bar>x\<bar> < 2 powi (?k + 1)"
  proof -
    have "of_int p / of_int q < (2 :: rat) powi bitlen p / 2 powi (bitlen q - 1)"
      using bitlen_powi [OF p] bitlen_powi [OF q] q p by (intro frac_less) auto
    also have "\<dots> = 2 powi (?k + 1)" by (simp add: power_int_diff power_int_add)
    finally show ?thesis by (simp add: x)
  qed
  show "2 powi dexp x \<le> \<bar>x\<bar>" and "\<bar>x\<bar> < 2 powi (dexp x + 1)"
    using lo hi pq by (auto simp: dexp_def Let_def)
qed

lemma powi_less_iff: "(2 :: rat) powi a < 2 powi b \<longleftrightarrow> a < b"
  using power_int_strict_increasing [of a b "2 :: rat"] power_int_increasing [of b a "2 :: rat"] by force

lemma powi_le_iff: "(2 :: rat) powi a \<le> 2 powi b \<longleftrightarrow> a \<le> b"
  using powi_less_iff [of b a] by linarith

lemma dexp_unique:
  assumes "2 powi e \<le> \<bar>x\<bar>" and "\<bar>x\<bar> < 2 powi (e + 1)"
  shows "dexp x = e"
proof -
  have "(0 :: rat) < 2 powi e" by simp
  then have x: "x \<noteq> 0" using assms(1) by linarith
  have "(2 :: rat) powi e < 2 powi (dexp x + 1)" "(2 :: rat) powi dexp x < 2 powi (e + 1)"
    using assms dexp_bounds [OF x] by linarith+
  then show ?thesis unfolding powi_less_iff by simp
qed

lemma dexp_mono: "x \<noteq> 0 \<Longrightarrow> \<bar>x\<bar> \<le> \<bar>y\<bar> \<Longrightarrow> dexp x \<le> dexp y"
  using dexp_bounds [of x] dexp_bounds [of y] powi_less_iff [of "dexp x" "dexp y + 1"] by fastforce

lemma dexp_minus [simp]: "dexp (- x) = dexp x"
  by (simp add: dexp_def)

section \<open>Rounding\<close>

lemma dbl_0 [simp]: "dbl 0 = 0"
  by (simp add: dbl_def)

lemma dbl_minus: "dbl (- x) = - dbl x"
  using nearest_minus [of "x / 2 powi (dexp x - 52)"] by (simp add: dbl_def Let_def)

text \<open>A multiple of a power of two with at most 53 bits is kept.\<close>

lemma dbl_scaled:
  assumes "\<bar>n\<bar> \<le> 2 ^ 53"
  shows "dbl (of_int n * 2 powi k) = of_int n * 2 powi k"
proof (cases "n = 0")
  case False
  let ?x = "of_int n * 2 powi k :: rat"
  define e where "e = dexp ?x"
  have x: "?x \<noteq> 0" using False by simp
  have a: "\<bar>?x\<bar> = of_int \<bar>n\<bar> * 2 powi k" by (simp add: abs_mult)
  have "\<exists>m. ?x / 2 powi (e - 52) = of_int m"
  proof (cases "\<bar>n\<bar> = 2 ^ 53")
    case True
    then have "\<bar>?x\<bar> = 2 powi (53 + k)" unfolding a by (simp add: power_int_add)
    then have "e = 53 + k" unfolding e_def by (intro dexp_unique) (simp_all add: power_int_add)
    then have "?x / 2 powi (e - 52) = of_int n / 2"
      by (simp add: power_int_add power_int_diff field_simps)
    moreover have "even n" using True by (metis dvd_abs_iff dvd_triv_left even_power even_numeral zero_less_numeral)
    ultimately show ?thesis by (metis dvd_def nonzero_mult_div_cancel_left of_int_mult of_int_numeral zero_neq_numeral)
  next
    case False
    then have "of_int \<bar>n\<bar> < (2 ^ 53 :: rat)" using assms by (metis of_int_less_iff of_int_numeral of_int_power order_less_le)
    then have "\<bar>?x\<bar> < 2 powi (53 + k)" unfolding a power_int_add [of "2 :: rat" 53 k, simplified]
      by (simp add: power_int_add)
    then have "(2 :: rat) powi e < 2 powi (53 + k)" using dexp_bounds(1) [OF x] unfolding e_def by linarith
    then have "0 \<le> k - (e - 52)" unfolding powi_less_iff by simp
    moreover have "?x / 2 powi (e - 52) = of_int n * 2 powi (k - (e - 52))" by (simp add: power_int_diff)
    ultimately have "?x / 2 powi (e - 52) = of_int (n * 2 ^ nat (k - (e - 52)))" by (simp add: power_int_def)
    then show ?thesis by blast
  qed
  then obtain m where m: "?x / 2 powi (e - 52) = of_int m" by blast
  then have "?x = of_int m * 2 powi (e - 52)" by (simp add: field_simps)
  then show ?thesis using x m unfolding dbl_def e_def Let_def by (simp only: nearest_int if_False)
qed simp

lemma dbl_int: "\<bar>n\<bar> \<le> 2 ^ 53 \<Longrightarrow> dbl (of_int n) = of_int n"
  using dbl_scaled [of n 0] by simp

lemma nearest_range:
  assumes "x \<noteq> 0"
  shows "2 ^ 52 \<le> \<bar>nearest (x / 2 powi (dexp x - 52))\<bar>" and "\<bar>nearest (x / 2 powi (dexp x - 52))\<bar> \<le> 2 ^ 53"
proof -
  let ?u = "2 powi (dexp x - 52) :: rat"
  have e: "(2 :: rat) powi dexp x = 2 ^ 52 * ?u" "(2 :: rat) powi (dexp x + 1) = 2 ^ 53 * ?u"
    by (simp_all add: power_int_diff power_int_add)
  have "of_int (2 ^ 52) \<le> \<bar>x / ?u\<bar>" "\<bar>x / ?u\<bar> \<le> of_int (2 ^ 53)"
    using dexp_bounds [OF assms] unfolding e by (simp_all add: field_simps abs_divide)
  then have "nearest (of_int (2 ^ 52)) \<le> nearest \<bar>x / ?u\<bar>" "nearest \<bar>x / ?u\<bar> \<le> nearest (of_int (2 ^ 53))"
    by (auto simp only: intro: nearest_mono)
  then have "2 ^ 52 \<le> nearest \<bar>x / ?u\<bar>" "nearest \<bar>x / ?u\<bar> \<le> 2 ^ 53" unfolding nearest_int .
  moreover have "\<bar>nearest (x / ?u)\<bar> = \<bar>nearest \<bar>x / ?u\<bar>\<bar>" by (metis abs_if abs_minus_cancel nearest_minus)
  ultimately show "2 ^ 52 \<le> \<bar>nearest (x / ?u)\<bar>" "\<bar>nearest (x / ?u)\<bar> \<le> 2 ^ 53" by (simp_all only: abs_if) simp_all
qed

lemma dbl_idem [simp]: "dbl (dbl x) = dbl x"
proof (cases "x = 0")
  case False
  then have "dbl x = of_int (nearest (x / 2 powi (dexp x - 52))) * 2 powi (dexp x - 52)" by (simp add: dbl_def Let_def)
  then show ?thesis using dbl_scaled [OF nearest_range(2) [OF False]] by simp
qed simp

lemma dbl_representable [simp]: "representable (dbl x)"
  by (simp add: representable_def)

text \<open>Half a unit in the last place.\<close>

lemma dbl_error: "\<bar>dbl x - x\<bar> \<le> \<bar>x\<bar> / 2 ^ 53"
proof (cases "x = 0")
  case False
  let ?u = "2 powi (dexp x - 52) :: rat" and ?n = "of_int (nearest (x / 2 powi (dexp x - 52))) :: rat"
  have "dbl x - x = (?n - x / ?u) * ?u" using False by (simp add: dbl_def Let_def left_diff_distrib)
  then have "\<bar>dbl x - x\<bar> = \<bar>?n - x / ?u\<bar> * ?u" by (simp add: abs_mult)
  also have "\<dots> \<le> 1 / 2 * ?u" by (intro mult_right_mono nearest_error) simp
  also have "\<dots> = 2 powi dexp x / 2 ^ 53" by (simp add: power_int_diff)
  also have "\<dots> \<le> \<bar>x\<bar> / 2 ^ 53" using dexp_bounds(1) [OF False] by (simp add: divide_right_mono)
  finally show ?thesis .
qed simp

lemma dbl_sign: "0 \<le> x \<Longrightarrow> 0 \<le> dbl x"
  using dbl_error [of x] by (cases "x = 0") (auto simp: abs_if field_simps split: if_splits)

lemma dbl_mono_pos:
  assumes "0 < x" and "x \<le> y"
  shows "dbl x \<le> dbl y"
proof (cases "dexp x = dexp y")
  case True
  have "x / 2 powi (dexp y - 52) \<le> y / 2 powi (dexp y - 52)" using assms by (simp add: divide_right_mono)
  then have "of_int (nearest (x / 2 powi (dexp y - 52))) \<le> (of_int (nearest (y / 2 powi (dexp y - 52))) :: rat)"
    using nearest_mono by simp
  then show ?thesis using assms True by (simp add: dbl_def Let_def)
next
  case False
  then have lt: "dexp x + 1 \<le> dexp y" using dexp_mono [of x y] assms by auto
  have nz: "x \<noteq> 0" "y \<noteq> 0" using assms by auto
  have pos: "0 \<le> dbl x" "0 \<le> dbl y" using assms by (auto intro: dbl_sign)
  have d: "\<bar>dbl z\<bar> = of_int \<bar>nearest (z / 2 powi (dexp z - 52))\<bar> * 2 powi (dexp z - 52)" if "z \<noteq> 0" for z
    using that by (simp add: dbl_def Let_def abs_mult)
  have b: "of_int (2 ^ 52) \<le> (of_int \<bar>nearest (y / 2 powi (dexp y - 52))\<bar> :: rat)"
    "of_int \<bar>nearest (x / 2 powi (dexp x - 52))\<bar> \<le> (of_int (2 ^ 53) :: rat)"
    using nearest_range nz unfolding of_int_le_iff by blast+
  have "dbl x \<le> 2 ^ 53 * 2 powi (dexp x - 52)"
    using d [OF nz(1)] pos(1) mult_right_mono [OF b(2), of "2 powi (dexp x - 52)"] by simp
  also have "\<dots> = 2 powi (dexp x + 1)" by (simp add: power_int_diff power_int_add)
  also have "\<dots> \<le> 2 powi dexp y" using lt by (simp add: powi_le_iff)
  also have "\<dots> = 2 ^ 52 * 2 powi (dexp y - 52)" by (simp add: power_int_diff)
  also have "\<dots> \<le> dbl y"
    using d [OF nz(2)] pos(2) mult_right_mono [OF b(1), of "2 powi (dexp y - 52)"] by simp
  finally show ?thesis .
qed

lemma dbl_mono: "x \<le> y \<Longrightarrow> dbl x \<le> dbl y"
  using dbl_mono_pos [of x y] dbl_mono_pos [of "- y" "- x"] dbl_sign [of y] dbl_sign [of "- x"]
  by (cases "0 < x"; cases "y < 0") (auto simp: dbl_minus)

section \<open>Grids\<close>

text \<open>The multiples of \<open>2 powi k\<close> with a factor of at most \<open>B\<close>; for \<open>k = 0\<close> they are integers.  Sums,
  differences and products of them are exact as long as the factor stays within \<open>2 ^ 53\<close>.\<close>

definition on_grid :: "int \<Rightarrow> int \<Rightarrow> rat \<Rightarrow> bool" where
  "on_grid k B x \<longleftrightarrow> (\<exists>n. x = of_int n * 2 powi k \<and> \<bar>n\<bar> \<le> B)"

lemma grid_0 [simp]: "0 \<le> B \<Longrightarrow> on_grid k B 0"
  by (auto simp: on_grid_def intro: exI [of _ 0])

lemma grid_mono: "on_grid k B x \<Longrightarrow> B \<le> C \<Longrightarrow> on_grid k C x"
  by (force simp: on_grid_def)

lemma grid_add: "on_grid k A x \<Longrightarrow> on_grid k B y \<Longrightarrow> on_grid k (A + B) (x + y)"
  unfolding on_grid_def by (elim exE conjE, rule_tac x = "n + na" in exI) (simp add: algebra_simps)

lemma grid_diff: "on_grid k A x \<Longrightarrow> on_grid k B y \<Longrightarrow> on_grid k (A + B) (x - y)"
  unfolding on_grid_def by (elim exE conjE, rule_tac x = "n - na" in exI) (simp add: algebra_simps)

lemma grid_mult: "on_grid k A x \<Longrightarrow> on_grid l B y \<Longrightarrow> on_grid (k + l) (A * B) (x * y)"
  unfolding on_grid_def
  by (elim exE conjE, rule_tac x = "n * na" in exI) (auto simp: power_int_add abs_mult intro: mult_mono)

lemma grid_dbl: "on_grid k B x \<Longrightarrow> B \<le> 2 ^ 53 \<Longrightarrow> dbl x = x"
  using dbl_scaled by (auto simp: on_grid_def)

lemma grid_sum:
  assumes "\<forall>x \<in> set xs. on_grid k B (f x)"
  shows "on_grid k (int (length xs) * B) (sum_list (map f xs))"
  using assms
proof (induction xs)
  case (Cons x xs)
  then show ?case using grid_add [of k B "f x" "int (length xs) * B" "sum_list (map f xs)"] by (simp add: algebra_simps)
qed simp

end
