(* ===== verification/Policy_Util.thy ===== *)
theory Policy_Util
  imports Double "HOL-Library.Multiset"
begin

text \<open>
  The helpers of the adaptive policy, \<^verbatim>\<open>ada_policy_util.h\<close>, and the program that compares two
  predictors with them, \<^verbatim>\<open>utrace/comp_int_pred.c\<close>: histories (a ring of the latest items with a
  running state), the incremental linear fit and the sums of intervals.  A \<open>double\<close> is that of
  \<^verbatim>\<open>Double\<close>, and every operation on doubles is rounded.  The last part shows that the ring is the window
  of the latest items, and that the running state is the state computed from the window as long as
  the sums are exact, and that otherwise it need not be.
\<close>

section \<open>Histories\<close>

record ('i, 's) history =
  fh_array :: "'i list"
  fh_seq :: u64
  fh_mask :: u64
  fh_stat :: 's

definition ADAFS_HISTORY_INIT :: "nat \<Rightarrow> 'i \<Rightarrow> 's \<Rightarrow> ('i, 's) history" where
  "ADAFS_HISTORY_INIT bits item st =
     \<lparr>fh_array = replicate (2 ^ bits) item, fh_seq = 0, fh_mask = push_bit bits 1 - 1, fh_stat = st\<rparr>"

definition fh_end :: "('i, 's) history \<Rightarrow> nat" where
  "fh_end fh = unat (fh_seq fh AND fh_mask fh)"

definition fh_len :: "('i, 's) history \<Rightarrow> u64" where
  "fh_len fh = (if fh_seq fh > fh_mask fh then fh_mask fh + 1 else fh_seq fh)"

definition fh_state :: "('i, 's) history \<Rightarrow> 's" where
  "fh_state fh = fh_stat fh"

definition fh_rewind :: "('i, 's) history \<Rightarrow> ('i, 's) history" where
  "fh_rewind fh = fh\<lparr>fh_seq := (fh_seq fh AND fh_mask fh) + fh_mask fh + 1\<rparr>"

definition fh_head_item :: "('i, 's) history \<Rightarrow> 'i" where
  "fh_head_item fh = fh_array fh ! fh_end fh"

definition fh_add :: "('i, 's) history \<Rightarrow> 'i \<Rightarrow> ('i, 's) history" where
  "fh_add fh v = fh\<lparr>fh_array := (fh_array fh)[fh_end fh := v], fh_seq := fh_seq fh + 1\<rparr>"

text \<open>The loops visit the array from its last element (or the last one under the limit) down.\<close>

definition for_each_history :: "('a \<Rightarrow> 'i \<Rightarrow> 'a) \<Rightarrow> 'a \<Rightarrow> ('i, 's) history \<Rightarrow> 'a" where
  "for_each_history body a fh = foldl body a (rev (take (unat (fh_mask fh) + 1) (fh_array fh)))"

definition for_each_history_limit ::
  "('a \<Rightarrow> 'i \<Rightarrow> 'a) \<Rightarrow> 'a \<Rightarrow> ('i, 's) history \<Rightarrow> nat \<Rightarrow> 'a" where
  "for_each_history_limit body a fh limit = foldl body a (rev (take limit (fh_array fh)))"

section \<open>Curves and intervals\<close>

record adafs_point =
  p_x :: double
  p_y :: double

definition ADAFS_POINT_ZERO :: adafs_point where
  "ADAFS_POINT_ZERO = \<lparr>p_x = 0, p_y = 0\<rparr>"

record adafs_line_state =
  s_x :: double
  s_y :: double
  s_x2 :: double
  s_xy :: double
  slope :: quot

definition ADAFS_LINE_STATE_ZERO :: adafs_line_state where
  "ADAFS_LINE_STATE_ZERO = \<lparr>s_x = 0, s_y = 0, s_x2 = 0, s_xy = 0, slope = Fin 0\<rparr>"

definition inc_fit_linear ::
  "adafs_point \<Rightarrow> adafs_point \<Rightarrow> adafs_line_state \<Rightarrow> double \<Rightarrow> quot \<times> adafs_line_state" where
  "inc_fit_linear op np st n =
     (let st1 = st\<lparr>s_x := dadd (s_x st) (dsub (p_x np) (p_x op))\<rparr>;
          st2 = st1\<lparr>s_y := dadd (s_y st1) (dsub (p_y np) (p_y op))\<rparr>;
          st3 = st2\<lparr>s_x2 := dadd (s_x2 st2) (dsub (dmul (p_x np) (p_x np)) (dmul (p_x op) (p_x op)))\<rparr>;
          st4 = st3\<lparr>s_xy := dadd (s_xy st3) (dsub (dmul (p_x np) (p_y np)) (dmul (p_x op) (p_y op)))\<rparr>
      in (quotient (dsub (dmul n (s_xy st4)) (dmul (s_x st4) (s_y st4)))
                   (dsub (dmul n (s_x2 st4)) (dmul (s_x st4) (s_x st4))), st4))"

type_synonym adafs_curve_history = "(adafs_point, adafs_line_state) history"
type_synonym adafs_interval_history = "(double, double) history"

definition fh_update_curve :: "adafs_curve_history \<Rightarrow> adafs_point \<Rightarrow> adafs_curve_history" where
  "fh_update_curve fh v =
     (let (sl, st) = inc_fit_linear (fh_head_item fh) v (fh_state fh)
                       (of_nat (unat (fh_mask fh + 1)))
      in fh_add (fh\<lparr>fh_stat := st\<lparr>slope := sl\<rparr>\<rparr>) v)"

definition fh_update_interval :: "adafs_interval_history \<Rightarrow> double \<Rightarrow> adafs_interval_history" where
  "fh_update_interval fh v =
     fh_add (fh\<lparr>fh_stat := dadd (fh_stat fh) (dsub v (fh_head_item fh))\<rparr>) v"

record adafs_touch_state =
  int_hist :: adafs_interval_history
  timer :: double

definition ADAFS_TOUCH_STATE_INIT :: "nat \<Rightarrow> adafs_touch_state" where
  "ADAFS_TOUCH_STATE_INIT LEN_BITS =
     \<lparr>int_hist = ADAFS_HISTORY_INIT LEN_BITS 0 0, timer = 0\<rparr>"

section \<open>Comparing two predictors\<close>

text \<open>\<^verbatim>\<open>comp_int_pred.c\<close>: the arrays indexed by \<open>TEST_MIN\<close> and \<open>TEST_AVG\<close>.\<close>

definition NUM_TESTS :: nat where
  "NUM_TESTS = 2"

definition TEST_MIN :: nat where
  "TEST_MIN = 0"

definition TEST_AVG :: nat where
  "TEST_AVG = 1"

record predictors =
  num_confl :: "int list"
  num_pred :: "int list"
  last_pred :: "double list"
  total_len :: "double list"

definition init_pred :: "double \<Rightarrow> predictors" where
  "init_pred pred =
     \<lparr>num_confl = replicate NUM_TESTS 0, num_pred = replicate NUM_TESTS 0,
      last_pred = replicate NUM_TESTS pred, total_len = replicate NUM_TESTS 0\<rparr>"

text \<open>The average divides by the number of intervals stored, at least one after the update.\<close>

definition update_pred ::
  "adafs_interval_history \<Rightarrow> double \<Rightarrow> predictors \<Rightarrow> adafs_interval_history \<times> predictors" where
  "update_pred hist x p =
     (let hist' = fh_update_interval hist x;
          mn = for_each_history (\<lambda>mn pos. if pos < mn then pos else mn) 1024 hist'
      in (hist', p\<lparr>last_pred := (last_pred p)
            [TEST_MIN := mn, TEST_AVG := ddiv (fh_state hist') (dbl (of_nat (unat (fh_len hist'))))]\<rparr>))"

definition update_stat :: "predictors \<Rightarrow> predictors" where
  "update_stat p =
     p\<lparr>num_pred := map (\<lambda>n. n + 1) (num_pred p),
       total_len := map2 dadd (total_len p) (last_pred p)\<rparr>"

definition check_pred :: "double \<Rightarrow> predictors \<Rightarrow> predictors" where
  "check_pred x p =
     p\<lparr>num_confl := map2 (\<lambda>c l. if l > x then c + 1 else c) (num_confl p) (last_pred p)\<rparr>"

definition print_stat :: "predictors \<Rightarrow> (int \<times> int \<times> double \<times> quot) list" where
  "print_stat p =
     map (\<lambda>i. (num_confl p ! i, num_pred p ! i, total_len p ! i,
                quotient (total_len p ! i) (of_int (num_pred p ! i)))) [0..<NUM_TESTS]"

text \<open>The loop of \<open>main\<close> on the intervals that \<open>scanf\<close> reads before it fails.\<close>

fun pred_loop ::
  "adafs_interval_history \<Rightarrow> predictors \<Rightarrow> double list \<Rightarrow> adafs_interval_history \<times> predictors" where
  "pred_loop hist p [] = (hist, p)"
| "pred_loop hist p (log_int # rest) =
     (let p1 = check_pred log_int p;
          (hist', p2) = update_pred hist log_int p1
      in pred_loop hist' (update_stat p2) rest)"

definition pred_main :: "int \<Rightarrow> double \<Rightarrow> double list \<Rightarrow> int + (int \<times> int \<times> double \<times> quot) list" where
  "pred_main argc thr_int input =
     (if argc \<noteq> 3 then Inl (- 1)
      else Inr (print_stat (snd (pred_loop (ADAFS_HISTORY_INIT 2 0 0) (init_pred thr_int) input))))"

section \<open>The ring is the window of the latest items\<close>

definition fh_window :: "('i, 's) history \<Rightarrow> 'i list" where
  "fh_window fh = rotate (fh_end fh) (fh_array fh)"

definition fh_wf :: "nat \<Rightarrow> ('i, 's) history \<Rightarrow> bool" where
  "fh_wf bits fh \<longleftrightarrow>
     bits < 31 \<and> fh_mask fh = Bit_Operations.mask bits \<and> length (fh_array fh) = 2 ^ bits"

lemma fh_end_mod:
  assumes "fh_wf bits fh"
  shows "fh_end fh = unat (fh_seq fh) mod 2 ^ bits"
proof -
  have "fh_end fh = unat (take_bit bits (fh_seq fh))"
    using assms by (simp add: fh_wf_def fh_end_def take_bit_eq_mask)
  then show ?thesis by (simp add: unsigned_take_bit_eq) (simp add: take_bit_eq_mod)
qed

lemma fh_end_less [simp]:
  assumes "fh_wf bits fh"
  shows "fh_end fh < length (fh_array fh)"
  using assms by (simp add: fh_end_mod) (simp add: fh_wf_def)

lemma fh_init_wf:
  assumes "bits < 31"
  shows "fh_wf bits (ADAFS_HISTORY_INIT bits item st)"
  using assms by (simp add: fh_wf_def ADAFS_HISTORY_INIT_def mask_eq_exp_minus_1 push_bit_eq_mult)

lemma fh_add_wf [simp]:
  assumes "fh_wf bits fh"
  shows "fh_wf bits (fh_add fh v)"
  using assms by (simp add: fh_wf_def fh_add_def)

lemma fh_stat_wf [simp]:
  "fh_wf bits (fh\<lparr>fh_stat := st\<rparr>) = fh_wf bits fh"
  by (simp add: fh_wf_def)

lemma unat_Suc_mod:
  fixes s :: u64
  assumes "bits < 31"
  shows "unat (s + 1) mod 2 ^ bits = Suc (unat s) mod 2 ^ bits"
proof -
  have "(2::nat) ^ bits dvd 2 ^ 64" using assms by (intro le_imp_power_dvd) simp
  then show ?thesis
    by (simp add: unat_word_ariths mod_mod_cancel)
qed

lemma fh_add_end:
  assumes "fh_wf bits fh"
  shows "fh_end (fh_add fh v) = Suc (fh_end fh) mod 2 ^ bits"
proof -
  have "fh_end (fh_add fh v) = unat (fh_seq fh + 1) mod 2 ^ bits"
    using fh_end_mod [OF fh_add_wf [OF assms]] by (simp add: fh_add_def)
  then show ?thesis
    using assms unat_Suc_mod [of bits "fh_seq fh"]
    by (simp add: fh_end_mod [OF assms] mod_Suc_eq) (simp add: fh_wf_def)
qed

lemma rotate_overwrite:
  assumes "e < length xs"
  shows "rotate (Suc e) (xs[e := v]) = tl (rotate e xs) @ [v]"
proof (rule nth_equalityI)
  show "length (rotate (Suc e) (xs[e := v])) = length (tl (rotate e xs) @ [v])"
    using assms by simp
next
  fix i assume "i < length (rotate (Suc e) (xs[e := v]))"
  then have i: "i < length xs" by simp
  have ne: "(Suc e + i) mod length xs \<noteq> e" if "Suc i < length xs"
  proof (cases "Suc e + i < length xs")
    case False
    then have "(Suc e + i) mod length xs = Suc e + i - length xs"
      using assms that by (simp add: mod_if)
    then show ?thesis using that False by simp
  qed simp
  show "rotate (Suc e) (xs[e := v]) ! i = (tl (rotate e xs) @ [v]) ! i"
  proof (cases "Suc i < length xs")
    case True
    then show ?thesis
      using ne i by (simp add: nth_rotate nth_append nth_tl less_diff_conv del: rotate_Suc)
  next
    case False
    then have "Suc i = length xs" using i by simp
    then have "(Suc e + i) mod length xs = e" using assms by (metis add_Suc add_Suc_right mod_add_self2 mod_less)
    then show ?thesis
      using i \<open>Suc i = length xs\<close> assms by (simp add: nth_rotate nth_append del: rotate_Suc) linarith
  qed
qed

lemma fh_add_window:
  assumes "fh_wf bits fh"
  shows "fh_window (fh_add fh v) = tl (fh_window fh) @ [v]"
proof -
  have "fh_window (fh_add fh v) = rotate (Suc (fh_end fh)) ((fh_array fh)[fh_end fh := v])"
    using assms
      rotate_conv_mod [of "Suc (fh_end fh)" "(fh_array fh)[fh_end fh := v]"]
    by (simp add: fh_window_def fh_add_end del: rotate_Suc)
       (simp add: fh_add_def fh_wf_def del: rotate_Suc)
  then show ?thesis
    using rotate_overwrite [of "fh_end fh" "fh_array fh" v] assms
    by (simp add: fh_window_def)
qed

lemma fh_window_head:
  assumes "fh_wf bits fh"
  shows "\<exists>rest. fh_window fh = fh_head_item fh # rest"
proof -
  have "fh_window fh \<noteq> []" using assms by (auto simp: fh_window_def fh_wf_def)
  moreover have "hd (fh_window fh) = fh_head_item fh"
    using fh_end_less [OF assms] hd_rotate_conv_nth [of "fh_array fh" "fh_end fh"]
    by (cases "fh_array fh = []") (simp_all add: fh_window_def fh_head_item_def)
  ultimately show ?thesis by (cases "fh_window fh") auto
qed

text \<open>The latest \<open>n\<close> items of a stream that began with \<open>n\<close> copies of the initial item.\<close>

definition latest :: "nat \<Rightarrow> 'i \<Rightarrow> 'i list \<Rightarrow> 'i list" where
  "latest n z vs = drop (length vs) (replicate n z @ vs)"

lemma latest_snoc:
  assumes "0 < n"
  shows "latest n z (vs @ [v]) = tl (latest n z vs) @ [v]"
proof -
  have "drop (Suc (length vs)) ((replicate n z @ vs) @ [v]) = drop (Suc (length vs)) (replicate n z @ vs) @ [v]"
    using assms by (subst drop_append) simp
  then show ?thesis
    by (simp add: latest_def drop_Suc tl_drop del: drop_append)
qed

section \<open>The running sums are the sums over the window\<close>

text \<open>The reference: the slope of the least-squares line through a list of points, a quotient of exact
  sums that is rounded once.\<close>

definition lsq_slope :: "adafs_point list \<Rightarrow> quot" where
  "lsq_slope ps =
     (let n = of_nat (length ps); sx = sum_list (map p_x ps); sy = sum_list (map p_y ps);
          sxx = sum_list (map (\<lambda>p. p_x p * p_x p) ps); sxy = sum_list (map (\<lambda>p. p_x p * p_y p) ps)
      in quotient (n * sxy - sx * sy) (n * sxx - sx * sx))"

text \<open>Points on a grid, and the grids on which every sum for \<open>n\<close> of them is exact.\<close>

definition point_on_grid :: "int \<Rightarrow> int \<Rightarrow> int \<Rightarrow> adafs_point \<Rightarrow> bool" where
  "point_on_grid k l B p \<longleftrightarrow> on_grid k B (p_x p) \<and> on_grid l B (p_y p)"

definition exact_bound :: "nat \<Rightarrow> int \<Rightarrow> bool" where
  "exact_bound n B \<longleftrightarrow> 0 \<le> B \<and> 2 * (int n * B) ^ 2 \<le> 2 ^ 53"

definition sums_exact :: "nat \<Rightarrow> adafs_curve_history \<Rightarrow> bool" where
  "sums_exact bits fh \<longleftrightarrow> fh_wf bits fh \<and>
     s_x (fh_stat fh) = sum_list (map p_x (fh_window fh)) \<and>
     s_y (fh_stat fh) = sum_list (map p_y (fh_window fh)) \<and>
     s_x2 (fh_stat fh) = sum_list (map (\<lambda>p. p_x p * p_x p) (fh_window fh)) \<and>
     s_xy (fh_stat fh) = sum_list (map (\<lambda>p. p_x p * p_y p) (fh_window fh))"

lemma fh_window_stat [simp]: "fh_window (fh\<lparr>fh_stat := st\<rparr>) = fh_window fh"
  by (simp add: fh_window_def fh_end_def)

lemma fh_add_stat [simp]: "fh_stat (fh_add fh v) = fh_stat fh"
  by (simp add: fh_add_def)

lemma length_fh_window [simp]: "length (fh_window fh) = length (fh_array fh)"
  by (simp add: fh_window_def)

lemma mask_Suc_unat:
  assumes "fh_wf bits fh"
  shows "unat (fh_mask fh + 1) = length (fh_array fh)"
proof -
  have "(2::nat) ^ bits < 2 ^ 64" using assms by (intro power_strict_increasing) (simp_all add: fh_wf_def)
  then have "unat (of_nat (2 ^ bits) :: u64) = 2 ^ bits" by (simp add: unat_of_nat del: of_nat_power)
  then show ?thesis
    using assms by (simp add: fh_wf_def mask_eq_exp_minus_1)
qed

lemma exact_bounds:
  assumes "exact_bound n B" and "0 < n"
  shows "2 * (int n * B) \<le> 2 ^ 53" and "2 * B \<le> 2 ^ 53" and "2 * (int n * (B * B)) \<le> 2 ^ 53"
    and "2 * (B * B) \<le> 2 ^ 53" and "2 * ((int n * B) * (int n * B)) \<le> 2 ^ 53"
proof -
  let ?m = "int n * B"
  have m: "0 \<le> ?m" "0 \<le> B" and n: "1 \<le> int n" using assms by (auto simp: exact_bound_def)
  have b: "2 * (?m * ?m) \<le> 2 ^ 53" using assms(1) by (simp add: exact_bound_def power2_eq_square)
  show "2 * (?m * ?m) \<le> 2 ^ 53" by (rule b)
  have bm: "B \<le> ?m" using mult_right_mono [OF n m(2)] by simp
  have sq: "x \<le> x * x" if "0 \<le> x" for x :: int using that by (cases "x = 0") (auto simp: mult_le_cancel_left1)
  have le: "int n * (B * B) \<le> ?m * ?m" "B * B \<le> int n * (B * B)"
    using mult_left_mono [OF bm m(1)] mult_right_mono [OF n, of "B * B"] m(2) by (auto simp: algebra_simps)
  show "2 * ?m \<le> 2 ^ 53" "2 * B \<le> 2 ^ 53" "2 * (int n * (B * B)) \<le> 2 ^ 53" "2 * (B * B) \<le> 2 ^ 53"
    using b bm le sq [OF m(1)] by linarith+
qed

text \<open>The sums over a list of points, and what the slope is made of, are exact.\<close>

lemma point_grids:
  assumes "point_on_grid k l B p"
  shows "on_grid k B (p_x p)" and "on_grid l B (p_y p)"
    and "on_grid (k + k) (B * B) (p_x p * p_x p)" and "on_grid (k + l) (B * B) (p_x p * p_y p)"
  using assms grid_mult unfolding point_on_grid_def by blast+

lemma grid_sums:
  assumes "\<forall>p \<in> set ps. point_on_grid k l B p"
  shows "on_grid k (int (length ps) * B) (sum_list (map p_x ps))" and "on_grid l (int (length ps) * B) (sum_list (map p_y ps))"
    and "on_grid (k + k) (int (length ps) * (B * B)) (\<Sum>p\<leftarrow>ps. p_x p * p_x p)"
    and "on_grid (k + l) (int (length ps) * (B * B)) (\<Sum>p\<leftarrow>ps. p_x p * p_y p)"
  by (rule grid_sum, use assms point_grids in blast)+

lemma lsq_exact:
  assumes "\<forall>p \<in> set ps. point_on_grid k l B p" and "exact_bound (length ps) B" and "ps \<noteq> []"
  defines "n \<equiv> of_nat (length ps)" and "sx \<equiv> sum_list (map p_x ps)" and "sy \<equiv> sum_list (map p_y ps)"
    and "sxx \<equiv> \<Sum>p\<leftarrow>ps. p_x p * p_x p" and "sxy \<equiv> \<Sum>p\<leftarrow>ps. p_x p * p_y p"
  shows "quotient (dsub (dmul n sxy) (dmul sx sy)) (dsub (dmul n sxx) (dmul sx sx)) = lsq_slope ps"
proof -
  let ?N = "int (length ps)" and ?M = "int (length ps) * B * (int (length ps) * B)"
  have b: "2 * ?M \<le> 2 ^ 53" and B: "0 \<le> B" using exact_bounds(5) [OF assms(2)] assms(2,3) by (auto simp: exact_bound_def)
  have "0 \<le> ?M" using B by simp
  then have b1: "?M \<le> 2 ^ 53" using b by linarith
  have n: "on_grid 0 ?N n" by (auto simp: on_grid_def n_def intro!: exI [of _ ?N])
  have m: "?N * (?N * (B * B)) = ?M" by (simp add: algebra_simps)
  note g = grid_sums [OF assms(1), folded sx_def sy_def sxx_def sxy_def]
  have p: "on_grid (k + l) ?M (n * sxy)" "on_grid (k + l) ?M (sx * sy)"
    "on_grid (k + k) ?M (n * sxx)" "on_grid (k + k) ?M (sx * sx)"
    using grid_mult [OF n g(4)] grid_mult [OF g(1,2)] grid_mult [OF n g(3)] grid_mult [OF g(1,1)] by (simp_all add: m)
  have d: "dmul n sxy = n * sxy" "dmul sx sy = sx * sy" "dmul n sxx = n * sxx" "dmul sx sx = sx * sx"
    using p b1 grid_dbl by blast+
  have "dsub (n * sxy) (sx * sy) = n * sxy - sx * sy" "dsub (n * sxx) (sx * sx) = n * sxx - sx * sx"
    using grid_dbl [OF grid_diff [OF p(1,2)]] grid_dbl [OF grid_diff [OF p(3,4)]] b by simp_all
  then show ?thesis unfolding d by (simp add: lsq_slope_def Let_def n_def sx_def sy_def sxx_def sxy_def)
qed

lemma fh_update_curve_window:
  "fh_wf bits fh \<Longrightarrow> fh_wf bits (fh_update_curve fh v) \<and> fh_window (fh_update_curve fh v) = tl (fh_window fh) @ [v]"
  using fh_add_window [of bits "fh\<lparr>fh_stat := _\<rparr>" v] by (simp add: fh_update_curve_def split_def Let_def)

text \<open>Replacing the oldest of the summands, if the sums are exact.\<close>

lemma shift_sum:
  assumes "\<forall>p \<in> set (a # rest @ [v]). on_grid k B (f p)" and "int (length (a # rest)) * B \<le> 2 ^ 53" and "2 * B \<le> 2 ^ 53"
  shows "dadd (sum_list (map f (a # rest))) (dsub (f v) (f a)) = sum_list (map f (rest @ [v]))"
proof -
  have "on_grid k (B + B) (f v - f a)" using assms(1) by (intro grid_diff) simp_all
  then have "dsub (f v) (f a) = f v - f a" by (rule grid_dbl) (use assms(3) in linarith)
  moreover have "on_grid k (int (length (rest @ [v])) * B) (sum_list (map f (rest @ [v])))"
    using assms(1) by (intro grid_sum) auto
  then have "dbl (sum_list (map f (rest @ [v]))) = sum_list (map f (rest @ [v]))"
    using assms(2) by (intro grid_dbl) simp_all
  ultimately show ?thesis by simp
qed

lemma fh_update_curve_step:
  assumes "sums_exact bits fh" and "\<forall>p \<in> set (fh_window fh @ [v]). point_on_grid k l B p" and "exact_bound (2 ^ bits) B"
  shows "sums_exact bits (fh_update_curve fh v)"
    and "slope (fh_stat (fh_update_curve fh v)) = lsq_slope (tl (fh_window fh) @ [v])"
proof -
  have wf: "fh_wf bits fh" using assms(1) by (simp add: sums_exact_def)
  obtain rest where w: "fh_window fh = fh_head_item fh # rest" using fh_window_head [OF wf] by auto
  let ?a = "fh_head_item fh"
  have len: "length (fh_array fh) = Suc (length rest)" "2 ^ bits = Suc (length rest)"
    using arg_cong [OF w, of length] wf by (simp_all add: fh_wf_def)
  have "0 < (2 :: nat) ^ bits" by simp
  note b = exact_bounds [OF assms(3) this, unfolded len(2)]
  have g: "\<forall>p \<in> set (?a # rest @ [v]). on_grid k B (p_x p)" "\<forall>p \<in> set (?a # rest @ [v]). on_grid l B (p_y p)"
    "\<forall>p \<in> set (?a # rest @ [v]). on_grid (k + k) (B * B) (p_x p * p_x p)"
    "\<forall>p \<in> set (?a # rest @ [v]). on_grid (k + l) (B * B) (p_x p * p_y p)"
    using assms(2) point_grids unfolding w append_Cons by blast+
  have B: "0 \<le> B" using assms(3) by (simp add: exact_bound_def)
  have c: "int (length (?a # rest)) * B \<le> 2 ^ 53" "2 * B \<le> 2 ^ 53" "int (length (?a # rest)) * (B * B) \<le> 2 ^ 53"
    "2 * (B * B) \<le> 2 ^ 53" "B * B \<le> 2 ^ 53"
    using b B mult_nonneg_nonneg [OF _ B, of "int (Suc (length rest))"]
      mult_nonneg_nonneg [of "int (Suc (length rest))" "B * B"] mult_nonneg_nonneg [OF B B]
    by (simp_all only: length_Cons)
  have sq: "dmul (p_x p) (p_x p) = p_x p * p_x p" "dmul (p_x p) (p_y p) = p_x p * p_y p" if "p \<in> {?a, v}" for p
  proof -
    have p: "p \<in> set (?a # rest @ [v])" using that by auto
    show "dmul (p_x p) (p_x p) = p_x p * p_x p" "dmul (p_x p) (p_y p) = p_x p * p_y p"
      by (rule grid_dbl [OF bspec [OF g(3) p] c(5)], rule grid_dbl [OF bspec [OF g(4) p] c(5)])
  qed
  have sums: "dadd (s_x (fh_stat fh)) (dsub (p_x v) (p_x ?a)) = sum_list (map p_x (rest @ [v]))"
    "dadd (s_y (fh_stat fh)) (dsub (p_y v) (p_y ?a)) = sum_list (map p_y (rest @ [v]))"
    "dadd (s_x2 (fh_stat fh)) (dsub (p_x v * p_x v) (p_x ?a * p_x ?a)) = (\<Sum>p\<leftarrow>rest @ [v]. p_x p * p_x p)"
    "dadd (s_xy (fh_stat fh)) (dsub (p_x v * p_y v) (p_x ?a * p_y ?a)) = (\<Sum>p\<leftarrow>rest @ [v]. p_x p * p_y p)"
    using shift_sum [OF g(1) c(1,2)] shift_sum [OF g(2) c(1,2)] shift_sum [OF g(3) c(3,4)] shift_sum [OF g(4) c(3,4)]
      assms(1) unfolding sums_exact_def w by simp_all
  have n: "of_nat (unat (fh_mask fh + 1)) = (of_nat (length (rest @ [v])) :: rat)"
    using mask_Suc_unat [OF wf] len by simp
  have gw: "\<forall>p \<in> set (rest @ [v]). point_on_grid k l B p" using assms(2) unfolding w by auto
  have eb: "exact_bound (length (rest @ [v])) B" using assms(3) len(2) by simp
  have win: "fh_wf bits (fh_update_curve fh v)" "fh_window (fh_update_curve fh v) = rest @ [v]"
    using fh_update_curve_window [OF wf] w by simp_all
  have st: "fh_stat (fh_update_curve fh v) =
      \<lparr>s_x = sum_list (map p_x (rest @ [v])), s_y = sum_list (map p_y (rest @ [v])),
       s_x2 = (\<Sum>p\<leftarrow>rest @ [v]. p_x p * p_x p), s_xy = (\<Sum>p\<leftarrow>rest @ [v]. p_x p * p_y p), slope = lsq_slope (rest @ [v])\<rparr>"
    unfolding fh_update_curve_def fh_state_def inc_fit_linear_def Let_def n
    using sq sums lsq_exact [OF gw eb] by simp
  show "sums_exact bits (fh_update_curve fh v)" using win st by (simp add: sums_exact_def)
  show "slope (fh_stat (fh_update_curve fh v)) = lsq_slope (tl (fh_window fh) @ [v])" using st w by simp
qed

lemma sum_list_replicate_0: "sum_list (map f (replicate n z)) = (0::rat)" if "f z = 0"
  using that by (induction n) auto

lemma window_init: "fh_window (ADAFS_HISTORY_INIT bits item st) = replicate (2 ^ bits) item"
  by (simp add: fh_window_def ADAFS_HISTORY_INIT_def fh_end_def)

lemma sums_exact_init:
  assumes "bits < 31"
  shows "sums_exact bits (ADAFS_HISTORY_INIT bits ADAFS_POINT_ZERO ADAFS_LINE_STATE_ZERO)"
  unfolding sums_exact_def window_init
  using assms
  by (simp add: fh_init_wf sum_list_replicate_0 ADAFS_POINT_ZERO_def del: map_replicate)
     (simp add: ADAFS_HISTORY_INIT_def ADAFS_LINE_STATE_ZERO_def)

lemma set_latest: "set (latest n z vs) \<subseteq> insert z (set vs)"
  unfolding latest_def using set_drop_subset [of "length vs" "replicate n z @ vs"] by auto

lemma grid_latest:
  assumes "\<forall>p \<in> set vs. point_on_grid k l B p" and "0 \<le> B"
  shows "\<forall>p \<in> set (latest n ADAFS_POINT_ZERO vs). point_on_grid k l B p"
  using set_latest [of n ADAFS_POINT_ZERO vs] assms by (auto simp: point_on_grid_def ADAFS_POINT_ZERO_def)

text \<open>The window holds the latest points whatever the rounding; on a grid the sums are exact.\<close>

lemma curve_window:
  assumes "bits < 31"
  shows "fh_wf bits (foldl fh_update_curve (ADAFS_HISTORY_INIT bits ADAFS_POINT_ZERO ADAFS_LINE_STATE_ZERO) vs) \<and>
     fh_window (foldl fh_update_curve (ADAFS_HISTORY_INIT bits ADAFS_POINT_ZERO ADAFS_LINE_STATE_ZERO) vs) =
       latest (2 ^ bits) ADAFS_POINT_ZERO vs"
proof (induction vs rule: rev_induct)
  case Nil
  then show ?case using assms by (simp add: fh_init_wf window_init latest_def)
next
  case (snoc v vs)
  then show ?case
    using fh_update_curve_window [of bits "foldl fh_update_curve (ADAFS_HISTORY_INIT bits ADAFS_POINT_ZERO ADAFS_LINE_STATE_ZERO) vs" v]
    by (simp add: latest_snoc)
qed

lemma curve_run:
  assumes "bits < 31" and "\<forall>p \<in> set vs. point_on_grid k l B p" and "exact_bound (2 ^ bits) B"
  defines "run \<equiv> \<lambda>vs. foldl fh_update_curve (ADAFS_HISTORY_INIT bits ADAFS_POINT_ZERO ADAFS_LINE_STATE_ZERO) vs"
  shows "sums_exact bits (run vs) \<and> (vs \<noteq> [] \<longrightarrow> slope (fh_stat (run vs)) = lsq_slope (latest (2 ^ bits) ADAFS_POINT_ZERO vs))"
  using assms(2)
proof (induction vs rule: rev_induct)
  case Nil
  then show ?case using sums_exact_init [OF assms(1)] by (simp add: run_def)
next
  case (snoc v vs)
  have w: "fh_window (run vs) = latest (2 ^ bits) ADAFS_POINT_ZERO vs" using curve_window [OF assms(1)] by (simp add: run_def)
  have "0 \<le> B" using assms(3) by (simp add: exact_bound_def)
  then have "\<forall>p \<in> set (fh_window (run vs) @ [v]). point_on_grid k l B p"
    using snoc.prems grid_latest [of vs k l B] unfolding w by auto
  moreover have "run (vs @ [v]) = fh_update_curve (run vs) v" by (simp add: run_def)
  ultimately show ?case
    using snoc fh_update_curve_step [of bits "run vs" v k l B] assms(3) unfolding w by (simp add: latest_snoc)
qed

lemma fh_update_interval_window:
  "fh_wf bits fh \<Longrightarrow> fh_wf bits (fh_update_interval fh v) \<and> fh_window (fh_update_interval fh v) = tl (fh_window fh) @ [v]"
  using fh_add_window [of bits "fh\<lparr>fh_stat := _\<rparr>" v] by (simp add: fh_update_interval_def)

lemma interval_window:
  assumes "bits < 31"
  shows "fh_wf bits (foldl fh_update_interval (ADAFS_HISTORY_INIT bits 0 0) xs) \<and>
     fh_window (foldl fh_update_interval (ADAFS_HISTORY_INIT bits 0 0) xs) = latest (2 ^ bits) 0 xs"
proof (induction xs rule: rev_induct)
  case Nil
  then show ?case using assms by (simp add: fh_init_wf window_init latest_def)
next
  case (snoc x xs)
  then show ?case
    using fh_update_interval_window [of bits "foldl fh_update_interval (ADAFS_HISTORY_INIT bits 0 0) xs" x]
    by (simp add: latest_snoc)
qed

lemma interval_run:
  assumes "bits < 31" and "\<forall>x \<in> set xs. on_grid k B x" and "exact_bound (2 ^ bits) B"
  defines "run \<equiv> \<lambda>xs. foldl fh_update_interval (ADAFS_HISTORY_INIT bits 0 0) xs"
  shows "fh_stat (run xs) = sum_list (latest (2 ^ bits) 0 xs)"
  using assms(2)
proof (induction xs rule: rev_induct)
  case Nil
  then show ?case by (simp add: run_def latest_def sum_list_replicate) (simp add: ADAFS_HISTORY_INIT_def)
next
  case (snoc v xs)
  have wf: "fh_wf bits (run xs)" and w: "fh_window (run xs) = latest (2 ^ bits) 0 xs"
    using interval_window [OF assms(1)] by (simp_all add: run_def)
  obtain rest where r: "fh_window (run xs) = fh_head_item (run xs) # rest" using fh_window_head [OF wf] by auto
  have len: "2 ^ bits = Suc (length rest)" using arg_cong [OF r, of length] wf by (simp add: fh_wf_def)
  have B: "0 \<le> B" using assms(3) by (simp add: exact_bound_def)
  have g: "\<forall>x \<in> set (fh_head_item (run xs) # rest @ [v]). on_grid k B (id x)"
    using snoc.prems set_latest [of "2 ^ bits" 0 xs] B unfolding w [symmetric] r by auto
  have "0 < (2 :: nat) ^ bits" by simp
  note b = exact_bounds [OF assms(3) this, unfolded len]
  have "int (length (fh_head_item (run xs) # rest)) * B \<le> 2 ^ 53"
    using b(1) mult_nonneg_nonneg [of "int (Suc (length rest))" B] B unfolding length_Cons by linarith
  then have "dadd (sum_list (fh_window (run xs))) (dsub v (fh_head_item (run xs))) = sum_list (rest @ [v])"
    using shift_sum [OF g _ b(2)] unfolding r by simp
  moreover have "run (xs @ [v]) = fh_update_interval (run xs) v" by (simp add: run_def)
  moreover have "fh_stat (run xs) = sum_list (fh_window (run xs))" using snoc w by simp
  moreover have "latest (2 ^ bits) 0 (xs @ [v]) = rest @ [v]" using latest_snoc [of "2 ^ bits" 0 xs v] r w by simp
  ultimately show ?case by (simp add: fh_update_interval_def)
qed

text \<open>On points of one line the reference slope is the line's.\<close>

lemma lsq_slope_line:
  assumes line: "\<And>p. p \<in> set ps \<Longrightarrow> p_y p = a * p_x p + b"
    and ne: "of_nat (length ps) * sum_list (map (\<lambda>p. p_x p * p_x p) ps) \<noteq>
             sum_list (map p_x ps) * sum_list (map p_x ps)"
  shows "lsq_slope ps = Fin (dbl a)"
proof -
  have sy: "sum_list (map p_y ps) = a * sum_list (map p_x ps) + of_nat (length ps) * b"
    using line by (induction ps) (auto simp: algebra_simps)
  have sxy: "sum_list (map (\<lambda>p. p_x p * p_y p) ps) =
      a * sum_list (map (\<lambda>p. p_x p * p_x p) ps) + b * sum_list (map p_x ps)"
    using line by (induction ps) (auto simp: algebra_simps)
  let ?d = "of_nat (length ps) * sum_list (map (\<lambda>p. p_x p * p_x p) ps) - sum_list (map p_x ps) * sum_list (map p_x ps)"
  have "of_nat (length ps) * sum_list (map (\<lambda>p. p_x p * p_y p) ps) - sum_list (map p_x ps) * sum_list (map p_y ps) = a * ?d"
    unfolding sy sxy by (simp add: algebra_simps)
  moreover have "?d \<noteq> 0" using ne by simp
  ultimately show ?thesis by (simp add: lsq_slope_def Let_def quotient_def)
qed

text \<open>Without the bound the running sum drifts: a long interval that has left the ring has taken the
  shorter ones out of the sum with it, and nothing recomputes it.\<close>

lemma sum_drifts:
  "(let ih = foldl fh_update_interval (ADAFS_HISTORY_INIT 2 0 0) [2 ^ 60, 1, 1, 1, 1]
    in fh_window ih = [1, 1, 1, 1] \<and> fh_state ih = 0)"
proof -
  have "fh_state (foldl fh_update_interval (ADAFS_HISTORY_INIT 2 0 0) [2 ^ 60, 1, 1, 1, 1]) = 0" by code_simp
  then show ?thesis using interval_window [of 2 "[2 ^ 60, 1, 1, 1, 1]"] by (simp add: Let_def latest_def)
qed

section \<open>The counters of the predictors\<close>

definition pred_inv :: "nat \<Rightarrow> predictors \<Rightarrow> bool" where
  "pred_inv k p \<longleftrightarrow>
     num_pred p = replicate NUM_TESTS (int k) \<and> length (num_confl p) = NUM_TESTS \<and>
     length (last_pred p) = NUM_TESTS \<and> length (total_len p) = NUM_TESTS \<and>
     (\<forall>c \<in> set (num_confl p). 0 \<le> c \<and> c \<le> int k)"

lemma pred_step:
  assumes "pred_inv k p"
  shows "pred_inv (Suc k) (update_stat (snd (update_pred hist x (check_pred x p))))"
  using assms
  by (auto simp: pred_inv_def update_stat_def update_pred_def check_pred_def NUM_TESTS_def Let_def
      numeral_2_eq_2 length_Suc_conv split: if_splits)

lemma pred_loop_counts:
  assumes "pred_inv k p"
  shows "pred_inv (k + length xs) (snd (pred_loop hist p xs))"
  using assms
proof (induction xs arbitrary: k p hist)
  case (Cons x xs)
  show ?case
    using Cons.IH [OF pred_step [OF Cons.prems, of hist x]]
    by (simp add: split_def Let_def)
qed simp

lemma init_pred_inv: "pred_inv 0 (init_pred thr)"
  by (simp add: pred_inv_def init_pred_def)

text \<open>The minimum that is predicted bounds every slot of the ring from below.\<close>

lemma min_fold_le:
  "foldl (\<lambda>mn pos. if pos < mn then pos else mn) a xs \<le> (a :: double) \<and>
   (\<forall>x \<in> set xs. foldl (\<lambda>mn pos. if pos < mn then pos else mn) a xs \<le> x)"
proof (induction xs rule: rev_induct)
  case (snoc y xs)
  then show ?case by auto
qed simp

lemma update_pred_min:
  assumes "fh_wf bits hist" and "length (last_pred p) = NUM_TESTS" and "x \<in> set (fh_window (fh_update_interval hist v))"
  shows "last_pred (snd (update_pred hist v p)) ! TEST_MIN \<le> x"
proof -
  let ?h = "fh_update_interval hist v"
  have wf: "fh_wf bits ?h" using assms(1) by (simp add: fh_update_interval_def)
  have "fh_mask ?h + 1 \<noteq> 0" using mask_Suc_unat [OF wf] wf by (auto simp: fh_wf_def)
  then have "unat (fh_mask ?h) + 1 = length (fh_array ?h)"
    using mask_Suc_unat [OF wf] by (simp add: unatSuc add.commute)
  moreover have "x \<in> set (fh_array ?h)" using assms(3) by (simp add: fh_window_def)
  ultimately show ?thesis
    using assms(2) min_fold_le [of 1024 "rev (fh_array ?h)"]
    by (simp add: update_pred_def Let_def for_each_history_def TEST_MIN_def TEST_AVG_def NUM_TESTS_def)
qed

text \<open>C21. The incremental fit against the fit from scratch, with rounded doubles.  After any stream of points the
  ring holds the latest \<open>2 ^ bits\<close> of them (the initial zero points before it has filled).  If the
  coordinates are multiples of powers of two with factors \<open>B\<close> such that \<open>2 * (2 ^ bits * B)\<^sup>2 \<le> 2 ^ 53\<close> (for
  sixteen points, integers up to \<open>2 ^ 22\<close>, say), the slope kept by \<open>inc_fit_linear\<close> from running sums is
  the least-squares slope of exactly those points, rounded once, and the state of an interval history
  is the sum of its latest intervals.  Beyond the bound the running sums drift (\<open>sum_drifts\<close>).\<close>

theorem fit_equals_batch:
  assumes "bits < 31"
  shows "(let fh = foldl fh_update_curve
                     (ADAFS_HISTORY_INIT bits ADAFS_POINT_ZERO ADAFS_LINE_STATE_ZERO) (vs @ [v])
          in fh_window fh = latest (2 ^ bits) ADAFS_POINT_ZERO (vs @ [v]) \<and>
             (exact_bound (2 ^ bits) B \<and> (\<forall>p \<in> set (vs @ [v]). point_on_grid k l B p) \<longrightarrow>
                slope (fh_state fh) = lsq_slope (latest (2 ^ bits) ADAFS_POINT_ZERO (vs @ [v])))) \<and>
         (let ih = foldl fh_update_interval (ADAFS_HISTORY_INIT bits 0 0) xs
          in fh_window ih = latest (2 ^ bits) 0 xs \<and>
             (exact_bound (2 ^ bits) B \<and> (\<forall>x \<in> set xs. on_grid k B x) \<longrightarrow>
                fh_state ih = sum_list (latest (2 ^ bits) 0 xs)))"
  unfolding Let_def fh_state_def
  using curve_window [OF assms, of "vs @ [v]"] curve_run [OF assms, of "vs @ [v]"] interval_window [OF assms, of xs]
    interval_run [OF assms, of xs] by blast

theorem fit_equals_batch_witness:
  "(let fh = foldl fh_update_curve (ADAFS_HISTORY_INIT 2 ADAFS_POINT_ZERO ADAFS_LINE_STATE_ZERO)
               ([\<lparr>p_x = 1, p_y = 3\<rparr>, \<lparr>p_x = 2, p_y = 5\<rparr>, \<lparr>p_x = 3, p_y = 7\<rparr>, \<lparr>p_x = 4, p_y = 9\<rparr>] @
                [\<lparr>p_x = 5, p_y = 11\<rparr>])
    in slope (fh_state fh) = Fin 2) \<and>
   fh_state (foldl fh_update_interval (ADAFS_HISTORY_INIT 2 0 0) [7, 1, 2, 3, 4]) = 10"
proof -
  have g: "on_grid 0 11 (numeral n)" if "numeral n \<le> (11 :: int)" for n
    using that by (auto simp: on_grid_def intro!: exI [of _ "numeral n"])
  have g1: "on_grid 0 11 1" by (auto simp: on_grid_def intro!: exI [of _ 1])
  have d: "dbl 2 = 2" by code_simp
  show ?thesis
    using fit_equals_batch [of 2 "[\<lparr>p_x = 1, p_y = 3\<rparr>, \<lparr>p_x = 2, p_y = 5\<rparr>, \<lparr>p_x = 3, p_y = 7\<rparr>, \<lparr>p_x = 4, p_y = 9\<rparr>]"
        "\<lparr>p_x = 5, p_y = 11\<rparr>" 11 0 0 "[7, 1, 2, 3, 4]"]
    by (simp add: latest_def lsq_slope_def quotient_def Let_def exact_bound_def point_on_grid_def g g1 d
        del: foldl_append foldl_Cons foldl_Nil)
qed

end
