(* ===== verification/Ramfs.thy ===== *)
theory Ramfs
  imports Prelude
begin

text \<open>
  The memory file system that hosts AdaFS, \<^verbatim>\<open>inode.c\<close> and \<^verbatim>\<open>file.c\<close>: making inodes and directory
  entries, mount options, filling the super block and the entry points of the module.  The state
  holds the fields that these files write; every call of a kernel function is appended to a list
  of calls, and what the kernel answers is an arbitrary function of that list, so the theorems
  hold for every behaviour of the kernel.
\<close>

unbundle bit_operations_syntax

section \<open>Calls and state\<close>

definition S_IFMT :: u32 where "S_IFMT = 0xF000"
definition S_IFREG :: u32 where "S_IFREG = 0x8000"
definition S_IFDIR :: u32 where "S_IFDIR = 0x4000"
definition S_IFLNK :: u32 where "S_IFLNK = 0xA000"
definition S_IRWXUGO :: u32 where "S_IRWXUGO = 0x1FF"
definition S_IALLUGO :: u32 where "S_IALLUGO = 0xFFF"

definition RAMFS_DEFAULT_MODE :: u32 where
  "RAMFS_DEFAULT_MODE = 0x1ED"

definition RAMFS_MAGIC :: u32 where
  "RAMFS_MAGIC = 0x858458F6"

text \<open>The operation tables of the kernel and of this file that an inode can point to.\<close>

datatype i_op = ramfs_file_inode_operations | ramfs_dir_inode_operations
  | page_symlink_inode_operations

datatype i_fop = ramfs_file_operations | simple_dir_operations

datatype a_ops = ramfs_aops

datatype bdi = ramfs_backing_dev_info

record inode =
  i_ino :: u64
  i_a_ops :: "a_ops option"
  i_bdi :: "bdi option"
  i_time :: "u64 option"
  i_op :: "i_op option"
  i_fop :: "i_fop option"

datatype s_op = ramfs_ops

definition MAX_LFS_FILESIZE :: u64 where
  "MAX_LFS_FILESIZE = 0x7FFFFFFFFFFFFFFF"

record super_block =
  s_fs_info :: ptr
  s_maxbytes :: u64
  s_blocksize :: u64
  s_blocksize_bits :: nat
  s_magic :: u32
  s_op :: "s_op option"
  s_time_gran :: u32
  s_root :: ptr

datatype call =
    New_inode
  | Get_next_ino
  | Inode_init_owner ptr ptr u32
  | Mapping_set_gfp_mask ptr
  | Mapping_set_unevictable ptr
  | Init_special_inode ptr u32 u32
  | Inc_nlink ptr
  | D_instantiate ptr ptr
  | Dget ptr
  | Page_symlink ptr string nat
  | Iput ptr
  | Save_mount_options "string option"
  | Kzalloc
  | Kfree ptr
  | D_alloc_root ptr
  | Kill_litter_super
  | Mount_nodev
  | Register_filesystem
  | Unregister_filesystem

text \<open>The kernel answers a call from the history of the calls made so far.  \<open>match_octal\<close> is
  \<open>None\<close> when it fails, and \<open>match_mode\<close> is the argument of an option that matches the pattern
  \<open>mode=%o\<close>.\<close>

record ramfs_env =
  r_new_inode :: "call list \<Rightarrow> ptr"
  r_get_next_ino :: "call list \<Rightarrow> u64"
  r_CURRENT_TIME :: "call list \<Rightarrow> u64"
  r_page_symlink :: "call list \<Rightarrow> int"
  r_kzalloc :: "call list \<Rightarrow> ptr"
  r_d_alloc_root :: "call list \<Rightarrow> ptr"
  r_register_filesystem :: "call list \<Rightarrow> int"
  match_mode :: "string \<Rightarrow> string option"
  match_octal :: "string \<Rightarrow> u32 option"

record world =
  w_calls :: "call list"
  w_inodes :: "ptr \<Rightarrow> inode"
  w_mode :: u32
  w_sb :: super_block

definition call :: "call \<Rightarrow> world \<Rightarrow> world" where
  "call c w = w\<lparr>w_calls := w_calls w @ [c]\<rparr>"

definition upd_inode :: "ptr \<Rightarrow> (inode \<Rightarrow> inode) \<Rightarrow> world \<Rightarrow> world" where
  "upd_inode p f w = w\<lparr>w_inodes := (w_inodes w)(p := f (w_inodes w p))\<rparr>"

section \<open>Inodes and directory entries\<close>

definition ramfs_get_inode ::
  "ramfs_env \<Rightarrow> ptr \<Rightarrow> u32 \<Rightarrow> u32 \<Rightarrow> world \<Rightarrow> ptr \<times> world" where
  "ramfs_get_inode E dir mode dev w0 =
     (let inode = r_new_inode E (w_calls w0);
          w1 = call New_inode w0
      in if inode \<noteq> NULL then
           let w2 = upd_inode inode (\<lambda>i. i\<lparr>i_ino := r_get_next_ino E (w_calls w1)\<rparr>)
                      (call Get_next_ino w1);
               w3 = call (Inode_init_owner inode dir mode) w2;
               w4 = upd_inode inode (\<lambda>i. i\<lparr>i_a_ops := Some ramfs_aops,
                      i_bdi := Some ramfs_backing_dev_info\<rparr>) w3;
               w5 = call (Mapping_set_unevictable inode) (call (Mapping_set_gfp_mask inode) w4);
               w6 = upd_inode inode (\<lambda>i. i\<lparr>i_time := Some (r_CURRENT_TIME E (w_calls w5))\<rparr>) w5;
               fmt = mode AND S_IFMT
           in (inode,
               if fmt = S_IFREG then
                 upd_inode inode (\<lambda>i. i\<lparr>i_op := Some ramfs_file_inode_operations,
                   i_fop := Some ramfs_file_operations\<rparr>) w6
               else if fmt = S_IFDIR then
                 call (Inc_nlink inode)
                   (upd_inode inode (\<lambda>i. i\<lparr>i_op := Some ramfs_dir_inode_operations,
                     i_fop := Some simple_dir_operations\<rparr>) w6)
               else if fmt = S_IFLNK then
                 upd_inode inode (\<lambda>i. i\<lparr>i_op := Some page_symlink_inode_operations\<rparr>) w6
               else call (Init_special_inode inode mode dev) w6)
         else (inode, w1))"

definition ramfs_mknod ::
  "ramfs_env \<Rightarrow> ptr \<Rightarrow> ptr \<Rightarrow> u32 \<Rightarrow> u32 \<Rightarrow> world \<Rightarrow> int \<times> world" where
  "ramfs_mknod E dir dentry mode dev w0 =
     (let (inode, w1) = ramfs_get_inode E dir mode dev w0
      in if inode \<noteq> NULL then
           let w2 = call (Dget dentry) (call (D_instantiate dentry inode) w1)
           in (0, upd_inode dir (\<lambda>i. i\<lparr>i_time := Some (r_CURRENT_TIME E (w_calls w2))\<rparr>) w2)
         else (- ENOSPC, w1))"

definition ramfs_mkdir :: "ramfs_env \<Rightarrow> ptr \<Rightarrow> ptr \<Rightarrow> u32 \<Rightarrow> world \<Rightarrow> int \<times> world" where
  "ramfs_mkdir E dir dentry mode w =
     (let (retval, w1) = ramfs_mknod E dir dentry (mode OR S_IFDIR) 0 w
      in (retval, if retval = 0 then call (Inc_nlink dir) w1 else w1))"

definition ramfs_create :: "ramfs_env \<Rightarrow> ptr \<Rightarrow> ptr \<Rightarrow> u32 \<Rightarrow> world \<Rightarrow> int \<times> world" where
  "ramfs_create E dir dentry mode w = ramfs_mknod E dir dentry (mode OR S_IFREG) 0 w"

definition ramfs_symlink :: "ramfs_env \<Rightarrow> ptr \<Rightarrow> ptr \<Rightarrow> string \<Rightarrow> world \<Rightarrow> int \<times> world" where
  "ramfs_symlink E dir dentry symname w0 =
     (let (inode, w1) = ramfs_get_inode E dir (S_IFLNK OR S_IRWXUGO) 0 w0
      in if inode \<noteq> NULL then
           let l = length symname + 1;
               err = r_page_symlink E (w_calls w1);
               w2 = call (Page_symlink inode symname l) w1
           in if err = 0 then
                let w3 = call (Dget dentry) (call (D_instantiate dentry inode) w2)
                in (err, upd_inode dir (\<lambda>i. i\<lparr>i_time := Some (r_CURRENT_TIME E (w_calls w3))\<rparr>) w3)
              else (err, call (Iput inode) w2)
         else (- ENOSPC, w1))"

text \<open>The directory's table: the operations of this file; the others are the kernel's.\<close>

datatype dir_request = Create u32 | Symlink string | Mkdir u32 | Mknod u32 u32
  | Lookup | Link | Unlink | Rmdir | Rename

definition ramfs_dir_op ::
  "ramfs_env \<Rightarrow> (dir_request \<Rightarrow> ptr \<Rightarrow> ptr \<Rightarrow> world \<Rightarrow> int \<times> world) \<Rightarrow>
   dir_request \<Rightarrow> ptr \<Rightarrow> ptr \<Rightarrow> world \<Rightarrow> int \<times> world" where
  "ramfs_dir_op E simple req dir dentry w =
     (case req of
        Create mode \<Rightarrow> ramfs_create E dir dentry mode w
      | Symlink name \<Rightarrow> ramfs_symlink E dir dentry name w
      | Mkdir mode \<Rightarrow> ramfs_mkdir E dir dentry mode w
      | Mknod mode dev \<Rightarrow> ramfs_mknod E dir dentry mode dev w
      | _ \<Rightarrow> simple req dir dentry w)"

section \<open>Mounting\<close>

text \<open>\<open>strsep\<close> at a comma: the token and what is left of the string, none after the last token.\<close>

fun strsep :: "string \<Rightarrow> string \<times> string option" where
  "strsep [] = ([], None)"
| "strsep (c # cs) =
     (if c = CHR '','' then ([], Some cs) else let (t, r) = strsep cs in (c # t, r))"

lemma strsep_shorter: "strsep cs = (t, Some r) \<Longrightarrow> length r < length cs"
  by (induction cs arbitrary: t r) (auto split: if_splits prod.splits)

text \<open>The loop over the options; the flag is the function's result, the word the mode.\<close>

function parse_loop :: "ramfs_env \<Rightarrow> string option \<Rightarrow> u32 \<Rightarrow> int \<times> u32" where
  "parse_loop E None mode = (0, mode)"
| "parse_loop E (Some data) mode =
     (let (p, rest) = strsep data
      in if p = [] then parse_loop E rest mode
         else case match_mode E p of
                Some arg \<Rightarrow>
                  (case match_octal E arg of
                     None \<Rightarrow> (- EINVAL, mode)
                   | Some opt \<Rightarrow> parse_loop E rest (opt AND S_IALLUGO))
              | None \<Rightarrow> parse_loop E rest mode)"
  by pat_completeness auto
termination
  by (relation "measure (\<lambda>(E, d, m). case d of None \<Rightarrow> 0 | Some s \<Rightarrow> Suc (length s))")
     (auto dest: strsep_shorter [OF sym] split: option.splits)

definition ramfs_parse_options :: "ramfs_env \<Rightarrow> string option \<Rightarrow> int \<times> u32" where
  "ramfs_parse_options E data = parse_loop E data RAMFS_DEFAULT_MODE"

definition fill_fail :: "ptr \<Rightarrow> ptr \<Rightarrow> int \<Rightarrow> world \<Rightarrow> int \<times> world" where
  "fill_fail fsi inode err w =
     (let w1 = call (Kfree fsi) w;
          w2 = w1\<lparr>w_sb := (w_sb w1)\<lparr>s_fs_info := NULL\<rparr>\<rparr>
      in (err, call (Iput inode) w2))"

definition ramfs_fill_super :: "ramfs_env \<Rightarrow> string option \<Rightarrow> world \<Rightarrow> int \<times> world" where
  "ramfs_fill_super E data w0 =
     (let w1 = call (Save_mount_options data) w0;
          fsi = r_kzalloc E (w_calls w1);
          w2 = call Kzalloc w1;
          w3 = w2\<lparr>w_sb := (w_sb w2)\<lparr>s_fs_info := fsi\<rparr>\<rparr>
      in if fsi = NULL then fill_fail fsi NULL (- ENOMEM) w3
         else
           let (err, mode) = ramfs_parse_options E data;
               w4 = w3\<lparr>w_mode := mode\<rparr>
           in if err \<noteq> 0 then fill_fail fsi NULL err w4
              else
                let w5 = w4\<lparr>w_sb := (w_sb w4)\<lparr>s_maxbytes := MAX_LFS_FILESIZE, s_blocksize := 4096,
                           s_blocksize_bits := 12, s_magic := RAMFS_MAGIC, s_op := Some ramfs_ops,
                           s_time_gran := 1\<rparr>\<rparr>;
                    (inode, w6) = ramfs_get_inode E NULL (S_IFDIR OR mode) 0 w5
                in if inode = NULL then fill_fail fsi inode (- ENOMEM) w6
                   else
                     let root = r_d_alloc_root E (w_calls w6);
                         w7 = call (D_alloc_root inode) w6;
                         w8 = w7\<lparr>w_sb := (w_sb w7)\<lparr>s_root := root\<rparr>\<rparr>
                     in if root = NULL then fill_fail fsi inode (- ENOMEM) w8
                        else (0, w8))"

definition ramfs_kill_sb :: "world \<Rightarrow> world" where
  "ramfs_kill_sb w = call Kill_litter_super (call (Kfree (s_fs_info (w_sb w))) w)"

text \<open>\<open>mount_nodev\<close> makes a super block and calls the function it is given on it.\<close>

definition ramfs_mount ::
  "ramfs_env \<Rightarrow> ((world \<Rightarrow> int \<times> world) \<Rightarrow> world \<Rightarrow> ptr \<times> world) \<Rightarrow> string option \<Rightarrow> world \<Rightarrow>
   ptr \<times> world" where
  "ramfs_mount E mount_nodev data w = mount_nodev (ramfs_fill_super E data) (call Mount_nodev w)"

text \<open>The module's entry points; the hooks' own start and stop are their arguments.\<close>

definition init_ramfs_fs :: "ramfs_env \<Rightarrow> (world \<Rightarrow> int \<times> world) \<Rightarrow> world \<Rightarrow> int \<times> world" where
  "init_ramfs_fs E init_hook w0 =
     (let (err, w1) = init_hook w0
      in if err \<noteq> 0 then (err, w1)
         else (r_register_filesystem E (w_calls w1), call Register_filesystem w1))"

definition exit_ramfs_fs :: "(world \<Rightarrow> world) \<Rightarrow> world \<Rightarrow> world" where
  "exit_ramfs_fs exit_hook w = call Unregister_filesystem (exit_hook w)"

section \<open>Dirty pages\<close>

text \<open>\<^verbatim>\<open>file.c\<close>: the flag of a page is read, and then set by an atomic test-and-set that returns the
  old flag; another processor may set it in between.\<close>

definition set_page_dirty_no_writeback :: "bool \<Rightarrow> bool \<Rightarrow> int \<times> bool" where
  "set_page_dirty_no_writeback PageDirty raced =
     (if \<not> PageDirty then let old = raced in (if \<not> old then 1 else 0, True) else (0, PageDirty))"

section \<open>Directory operations\<close>

lemma call_simps [simp]:
  "w_calls (call c w) = w_calls w @ [c]" "w_inodes (call c w) = w_inodes w"
  "w_sb (call c w) = w_sb w" "w_mode (call c w) = w_mode w"
  by (simp_all add: call_def)

lemma upd_inode_simps [simp]:
  "w_calls (upd_inode p f w) = w_calls w" "w_sb (upd_inode p f w) = w_sb w"
  "w_mode (upd_inode p f w) = w_mode w"
  "w_inodes (upd_inode p f w) q = (if q = p then f (w_inodes w p) else w_inodes w q)"
  by (simp_all add: upd_inode_def)

text \<open>The tables that the type bits of a mode select.\<close>

definition ops_of :: "u32 \<Rightarrow> i_op option \<times> i_fop option \<Rightarrow> i_op option \<times> i_fop option" where
  "ops_of mode old =
     (if mode AND S_IFMT = S_IFREG then (Some ramfs_file_inode_operations, Some ramfs_file_operations)
      else if mode AND S_IFMT = S_IFDIR
        then (Some ramfs_dir_inode_operations, Some simple_dir_operations)
      else if mode AND S_IFMT = S_IFLNK then (Some page_symlink_inode_operations, snd old)
      else old)"

lemma get_inode_view:
  assumes "ramfs_get_inode E dir mode dev w = (p, w')"
  shows "p = r_new_inode E (w_calls w)"
    and "w_sb w' = w_sb w"
    and "\<exists>cs. w_calls w' = w_calls w @ New_inode # cs \<and>
           (\<forall>c \<in> set cs. p \<noteq> NULL \<and> c \<in> {Get_next_ino, Inode_init_owner p dir mode,
              Mapping_set_gfp_mask p, Mapping_set_unevictable p, Init_special_inode p mode dev, Inc_nlink p}) \<and>
           (p \<noteq> NULL \<longrightarrow> Inode_init_owner p dir mode \<in> set cs)"
    and "p \<noteq> NULL \<Longrightarrow> (i_op (w_inodes w' p), i_fop (w_inodes w' p)) =
           ops_of mode (i_op (w_inodes w p), i_fop (w_inodes w p))"
    and "q \<noteq> p \<Longrightarrow> w_inodes w' q = w_inodes w q"
  using assms
  by (auto simp: ramfs_get_inode_def Let_def ops_of_def S_IFREG_def S_IFDIR_def S_IFLNK_def
      split: if_splits)

text \<open>The effect that a creating operation promises: on success one fresh inode is bound to the
  entry and the entry is pinned, on failure nothing is bound and the inode, if there was one, is
  dropped.\<close>

definition made :: "ptr \<Rightarrow> int \<Rightarrow> call list \<Rightarrow> ptr \<Rightarrow> bool" where
  "made dentry ret cs inode \<longleftrightarrow>
     (if ret = 0
      then inode \<noteq> NULL \<and> filter (\<lambda>c. \<exists>d i. c = D_instantiate d i) cs = [D_instantiate dentry inode] \<and>
           Dget dentry \<in> set cs \<and> (\<forall>p. Iput p \<notin> set cs)
      else (\<forall>d i. D_instantiate d i \<notin> set cs) \<and> (\<forall>d. Dget d \<notin> set cs) \<and>
           (inode \<noteq> NULL \<longrightarrow> Iput inode \<in> set cs))"

lemma filter_none: "(\<And>x. x \<in> set xs \<Longrightarrow> \<not> P x) \<Longrightarrow> filter P xs = []"
  by (induction xs) auto

lemma mknod_made:
  assumes "ramfs_mknod E dir dentry mode dev w = (ret, w')"
  shows "\<exists>cs. w_calls w' = w_calls w @ cs \<and> made dentry ret cs (r_new_inode E (w_calls w))"
    and "ret = 0 \<or> ret = - ENOSPC"
    and "ret = 0 \<Longrightarrow> dir \<noteq> r_new_inode E (w_calls w) \<Longrightarrow>
         (let p = r_new_inode E (w_calls w) in (i_op (w_inodes w' p), i_fop (w_inodes w' p)) =
           ops_of mode (i_op (w_inodes w p), i_fop (w_inodes w p)))"
proof -
  obtain p w1 where g: "ramfs_get_inode E dir mode dev w = (p, w1)" by fastforce
  note v = get_inode_view [OF g]
  obtain cs where cs: "w_calls w1 = w_calls w @ New_inode # cs"
    "\<forall>c \<in> set cs. p \<noteq> NULL \<and> c \<in> {Get_next_ino, Inode_init_owner p dir mode,
        Mapping_set_gfp_mask p, Mapping_set_unevictable p, Init_special_inode p mode dev, Inc_nlink p}"
    using v(3) by blast
  have no: "filter (\<lambda>c. \<exists>d i. c = D_instantiate d i) cs = []"
    using cs(2) by (intro filter_none) fastforce
  have no': "\<forall>d i. D_instantiate d i \<notin> set cs" "\<forall>d. Dget d \<notin> set cs" "\<forall>q. Iput q \<notin> set cs"
    using cs(2) by fastforce+
  show "\<exists>cs. w_calls w' = w_calls w @ cs \<and> made dentry ret cs (r_new_inode E (w_calls w))"
    using assms g cs(1) no no' v(1)
    by (auto simp: ramfs_mknod_def Let_def made_def split: if_splits)
  show "ret = 0 \<or> ret = - ENOSPC"
    using assms g by (auto simp: ramfs_mknod_def Let_def split: if_splits)
  show "ret = 0 \<Longrightarrow> dir \<noteq> r_new_inode E (w_calls w) \<Longrightarrow>
         (let p = r_new_inode E (w_calls w) in (i_op (w_inodes w' p), i_fop (w_inodes w' p)) =
           ops_of mode (i_op (w_inodes w p), i_fop (w_inodes w p)))"
    using assms g v by (auto simp: ramfs_mknod_def Let_def split: if_splits)
qed

lemma type_bits_or:
  fixes m :: u32
  assumes "m AND S_IFMT = 0" and "t AND S_IFMT = t"
  shows "(m OR t) AND S_IFMT = t"
  using assms by (simp add: bit.conj_disj_distrib2)

lemma symlink_made:
  assumes "ramfs_symlink E dir dentry name w = (ret, w')"
  shows "\<exists>cs. w_calls w' = w_calls w @ cs \<and> made dentry ret cs (r_new_inode E (w_calls w))"
    and "ret = 0 \<Longrightarrow> dir \<noteq> r_new_inode E (w_calls w) \<Longrightarrow>
         i_op (w_inodes w' (r_new_inode E (w_calls w))) = Some page_symlink_inode_operations"
proof -
  let ?m = "S_IFLNK OR S_IRWXUGO"
  have m: "?m AND S_IFMT = S_IFLNK" by (simp add: S_IFLNK_def S_IRWXUGO_def S_IFMT_def)
  obtain p w1 where g: "ramfs_get_inode E dir ?m 0 w = (p, w1)" by fastforce
  note v = get_inode_view [OF g]
  obtain cs where cs: "w_calls w1 = w_calls w @ New_inode # cs"
    "\<forall>c \<in> set cs. p \<noteq> NULL \<and> c \<in> {Get_next_ino, Inode_init_owner p dir ?m,
        Mapping_set_gfp_mask p, Mapping_set_unevictable p, Init_special_inode p ?m 0, Inc_nlink p}"
    using v(3) by blast
  have no: "filter (\<lambda>c. \<exists>d i. c = D_instantiate d i) cs = []"
    using cs(2) by (intro filter_none) fastforce
  have no': "\<forall>d i. D_instantiate d i \<notin> set cs" "\<forall>d. Dget d \<notin> set cs" "\<forall>q. Iput q \<notin> set cs"
    using cs(2) by fastforce+
  show "\<exists>cs. w_calls w' = w_calls w @ cs \<and> made dentry ret cs (r_new_inode E (w_calls w))"
    using assms g cs(1) no no' v(1)
    by (auto simp: ramfs_symlink_def Let_def made_def split: if_splits)
  show "ret = 0 \<Longrightarrow> dir \<noteq> r_new_inode E (w_calls w) \<Longrightarrow>
         i_op (w_inodes w' (r_new_inode E (w_calls w))) = Some page_symlink_inode_operations"
    using assms g v m
    by (auto simp: ramfs_symlink_def Let_def ops_of_def S_IFLNK_def S_IFREG_def S_IFDIR_def
        split: if_splits)
qed

text \<open>The table of inode operations a request asks for, and modes without type bits.\<close>

fun req_op :: "dir_request \<Rightarrow> i_op option" where
  "req_op (Create m) = Some ramfs_file_inode_operations"
| "req_op (Symlink n) = Some page_symlink_inode_operations"
| "req_op (Mkdir m) = Some ramfs_dir_inode_operations"
| "req_op _ = None"

fun plain_mode :: "dir_request \<Rightarrow> bool" where
  "plain_mode (Create m) \<longleftrightarrow> m AND S_IFMT = 0"
| "plain_mode (Mkdir m) \<longleftrightarrow> m AND S_IFMT = 0"
| "plain_mode _ \<longleftrightarrow> True"

lemma mkdir_mknod:
  assumes "ramfs_mkdir E dir dentry mode w = (ret, w')"
  obtains w1 where "ramfs_mknod E dir dentry (mode OR S_IFDIR) 0 w = (ret, w1)"
    and "w' = (if ret = 0 then call (Inc_nlink dir) w1 else w1)"
  using assms by (auto simp: ramfs_mkdir_def Let_def split: prod.splits)

lemma made_snoc_inc [simp]:
  "made dentry ret (cs @ [Inc_nlink d]) p = made dentry ret cs p"
  by (simp add: made_def)

lemma mkdir_made:
  assumes "ramfs_mkdir E dir dentry mode w = (ret, w')"
  shows "\<exists>cs. w_calls w' = w_calls w @ cs \<and> made dentry ret cs (r_new_inode E (w_calls w))"
    and "ret = 0 \<Longrightarrow> Inc_nlink dir \<in> set (w_calls w')"
    and "ret = 0 \<Longrightarrow> dir \<noteq> r_new_inode E (w_calls w) \<Longrightarrow>
         (let p = r_new_inode E (w_calls w) in (i_op (w_inodes w' p), i_fop (w_inodes w' p)) =
           ops_of (mode OR S_IFDIR) (i_op (w_inodes w p), i_fop (w_inodes w p)))"
proof -
  obtain w1 where w1: "ramfs_mknod E dir dentry (mode OR S_IFDIR) 0 w = (ret, w1)"
    and w': "w' = (if ret = 0 then call (Inc_nlink dir) w1 else w1)"
    using mkdir_mknod [OF assms] by blast
  obtain cs where cs: "w_calls w1 = w_calls w @ cs" "made dentry ret cs (r_new_inode E (w_calls w))"
    using mknod_made(1) [OF w1] by blast
  show "\<exists>cs. w_calls w' = w_calls w @ cs \<and> made dentry ret cs (r_new_inode E (w_calls w))"
    using cs w' by (intro exI [of _ "if ret = 0 then cs @ [Inc_nlink dir] else cs"]) auto
  show "ret = 0 \<Longrightarrow> Inc_nlink dir \<in> set (w_calls w')" using w' by simp
  show "ret = 0 \<Longrightarrow> dir \<noteq> r_new_inode E (w_calls w) \<Longrightarrow>
         (let p = r_new_inode E (w_calls w) in (i_op (w_inodes w' p), i_fop (w_inodes w' p)) =
           ops_of (mode OR S_IFDIR) (i_op (w_inodes w p), i_fop (w_inodes w p)))"
    using mknod_made(3) [OF w1] w' by simp
qed

section \<open>Mounting\<close>

lemma parse_loop_range:
  "mode AND S_IALLUGO = mode \<Longrightarrow>
     (fst (parse_loop E data mode) = 0 \<or> fst (parse_loop E data mode) = - EINVAL) \<and>
     snd (parse_loop E data mode) AND S_IALLUGO = snd (parse_loop E data mode)"
  by (induction E data mode rule: parse_loop.induct)
     (auto simp: Let_def and.assoc split: option.splits prod.splits)

lemma parse_options_range:
  assumes "ramfs_parse_options E data = (err, m)"
  shows "err = 0 \<or> err = - EINVAL" and "(S_IFDIR OR m) AND S_IFMT = S_IFDIR"
proof -
  have r: "(err = 0 \<or> err = - EINVAL) \<and> m AND S_IALLUGO = m"
    using parse_loop_range [of RAMFS_DEFAULT_MODE E data] assms
    by (simp add: ramfs_parse_options_def RAMFS_DEFAULT_MODE_def S_IALLUGO_def)
  then show "err = 0 \<or> err = - EINVAL" by simp
  have "m AND S_IFMT = m AND (S_IALLUGO AND S_IFMT)" using r by (metis and.assoc)
  then have "m AND S_IFMT = 0" by (simp add: S_IALLUGO_def S_IFMT_def)
  then show "(S_IFDIR OR m) AND S_IFMT = S_IFDIR"
    by (simp add: bit.conj_disj_distrib2) (simp add: S_IFDIR_def S_IFMT_def)
qed

text \<open>No option that is not \<open>mode=\<close> changes anything, and without options the mode is the default.\<close>

lemma parse_ignores:
  assumes "\<And>p. match_mode E p = None"
  shows "parse_loop E data mode = (0, mode)"
  using assms
  by (induction E data mode rule: parse_loop.induct) (auto simp: Let_def split: prod.splits)

definition no_release :: "call list \<Rightarrow> bool" where
  "no_release cs \<longleftrightarrow> (\<forall>p. Kfree p \<notin> set cs \<and> Iput p \<notin> set cs)"

definition mounted :: "world \<Rightarrow> call list \<Rightarrow> world \<Rightarrow> bool" where
  "mounted w cs w' \<longleftrightarrow>
     s_fs_info (w_sb w') \<noteq> NULL \<and> s_root (w_sb w') \<noteq> NULL \<and> s_magic (w_sb w') = RAMFS_MAGIC \<and>
     s_blocksize (w_sb w') = 2 ^ s_blocksize_bits (w_sb w') \<and> no_release cs \<and>
     (\<exists>root mode. Inode_init_owner root NULL mode \<in> set cs \<and> mode AND S_IFMT = S_IFDIR \<and>
        D_alloc_root root \<in> set cs \<and>
        i_op (w_inodes w' root) = Some ramfs_dir_inode_operations)"

definition unwound :: "ptr \<Rightarrow> ptr \<Rightarrow> call list \<Rightarrow> world \<Rightarrow> bool" where
  "unwound fsi inode cs w' \<longleftrightarrow>
     s_fs_info (w_sb w') = NULL \<and>
     (\<exists>cs'. cs = cs' @ [Kfree fsi, Iput inode] \<and> no_release cs' \<and>
        (inode = NULL \<longrightarrow> (\<forall>p d m. Inode_init_owner p d m \<notin> set cs')) \<and>
        (inode \<noteq> NULL \<longrightarrow> (\<exists>m. Inode_init_owner inode NULL m \<in> set cs')))"

lemma fill_fail_unwound:
  assumes "fill_fail fsi inode e w1 = (err, w')" and "w_calls w1 = w_calls w @ cs"
    and "no_release cs"
    and "inode = NULL \<Longrightarrow> \<forall>p d m. Inode_init_owner p d m \<notin> set cs"
    and "inode \<noteq> NULL \<Longrightarrow> \<exists>m. Inode_init_owner inode NULL m \<in> set cs"
  shows "err = e \<and> (\<exists>cs. w_calls w' = w_calls w @ cs \<and> unwound fsi inode cs w')"
proof -
  have "err = e" "w_calls w' = w_calls w @ (cs @ [Kfree fsi, Iput inode])"
    "s_fs_info (w_sb w') = NULL"
    using assms(1,2) by (auto simp: fill_fail_def Let_def)
  moreover have "unwound fsi inode (cs @ [Kfree fsi, Iput inode]) w'"
    using assms(3-5) \<open>s_fs_info (w_sb w') = NULL\<close> unfolding unwound_def by blast
  ultimately show ?thesis by blast
qed

lemma no_release_simps [simp]:
  "no_release []" "no_release (cs @ ds) = (no_release cs \<and> no_release ds)"
  "no_release (c # cs) = ((\<forall>p. c \<noteq> Kfree p \<and> c \<noteq> Iput p) \<and> no_release cs)"
  by (auto simp: no_release_def)

lemma fill_super_outcome:
  assumes "ramfs_fill_super E data w = (err, w')"
  shows "\<exists>cs. w_calls w' = w_calls w @ cs \<and>
           (if err = 0 then mounted w cs w'
            else (err = - ENOMEM \<or> err = - EINVAL) \<and>
                 (\<exists>inode. unwound (r_kzalloc E (w_calls w @ [Save_mount_options data])) inode cs w'))"
proof -
  let ?fsi = "r_kzalloc E (w_calls w @ [Save_mount_options data])"
  obtain e m where o: "ramfs_parse_options E data = (e, m)" by fastforce
  note range = parse_options_range [OF o]
  define w5 where "w5 = w\<lparr>w_calls := w_calls w @ [Save_mount_options data, Kzalloc], w_mode := m,
    w_sb := (w_sb w)\<lparr>s_fs_info := ?fsi, s_maxbytes := MAX_LFS_FILESIZE, s_blocksize := 4096,
      s_blocksize_bits := 12, s_magic := RAMFS_MAGIC, s_op := Some ramfs_ops, s_time_gran := 1\<rparr>\<rparr>"
  obtain p w6 where g: "ramfs_get_inode E NULL (S_IFDIR OR m) 0 w5 = (p, w6)" by fastforce
  note v = get_inode_view [OF g]
  obtain gs where gs: "w_calls w6 = w_calls w5 @ New_inode # gs"
    "\<forall>c \<in> set gs. p \<noteq> NULL \<and> c \<in> {Get_next_ino, Inode_init_owner p NULL (S_IFDIR OR m),
        Mapping_set_gfp_mask p, Mapping_set_unevictable p, Init_special_inode p (S_IFDIR OR m) 0,
        Inc_nlink p}"
    "p \<noteq> NULL \<longrightarrow> Inode_init_owner p NULL (S_IFDIR OR m) \<in> set gs"
    using v(3) by blast
  have nr: "no_release gs" using gs(2) by (fastforce simp: no_release_def)
  have noin: "p = NULL \<Longrightarrow> gs = []" using gs(2) by (cases gs) auto
  have op: "p \<noteq> NULL \<Longrightarrow> i_op (w_inodes w6 p) = Some ramfs_dir_inode_operations"
    using v(4) range(2) by (simp add: ops_of_def) (simp add: S_IFREG_def S_IFDIR_def)
  have step: "ramfs_fill_super E data w =
     (if ?fsi = NULL then fill_fail NULL NULL (- ENOMEM)
           (w\<lparr>w_calls := w_calls w @ [Save_mount_options data, Kzalloc], w_sb := (w_sb w)\<lparr>s_fs_info := ?fsi\<rparr>\<rparr>)
      else if e \<noteq> 0 then fill_fail ?fsi NULL e
           (w\<lparr>w_calls := w_calls w @ [Save_mount_options data, Kzalloc], w_sb := (w_sb w)\<lparr>s_fs_info := ?fsi\<rparr>,
              w_mode := m\<rparr>)
      else if p = NULL then fill_fail ?fsi p (- ENOMEM) w6
      else let root = r_d_alloc_root E (w_calls w6);
               w8 = (call (D_alloc_root p) w6)\<lparr>w_sb := (w_sb w6)\<lparr>s_root := root\<rparr>\<rparr>
           in if root = NULL then fill_fail ?fsi p (- ENOMEM) w8 else (0, w8))"
    using o g by (simp add: ramfs_fill_super_def Let_def w5_def call_def)
  show ?thesis
  proof (cases "?fsi = NULL \<or> e \<noteq> 0 \<or> p = NULL \<or> r_d_alloc_root E (w_calls w6) = NULL")
    case False
    then show ?thesis
      using assms step gs(1,3) nr op v(2) range(2)
      by (auto simp: w5_def mounted_def Let_def
          intro!: exI [of _ "[Save_mount_options data, Kzalloc, New_inode] @ gs @ [D_alloc_root p]"]
            exI [of _ p] exI [of _ "S_IFDIR OR m"])
  next
    case True
    have b: "no_release [Save_mount_options data, Kzalloc]"
      "\<forall>p d m. Inode_init_owner p d m \<notin> set [Save_mount_options data, Kzalloc]" by auto
    let ?cs = "[Save_mount_options data, Kzalloc, New_inode] @ gs"
    have c6: "w_calls w6 = w_calls w @ ?cs" using gs(1) by (simp add: w5_def)
    consider "?fsi = NULL" | "?fsi \<noteq> NULL" "e \<noteq> 0" | "?fsi \<noteq> NULL" "e = 0" "p = NULL"
      | "?fsi \<noteq> NULL" "e = 0" "p \<noteq> NULL" "r_d_alloc_root E (w_calls w6) = NULL"
      using True by blast
    then obtain inode e' w1 cs where f: "fill_fail ?fsi inode e' w1 = (err, w')"
      "e' = - ENOMEM \<or> e' = - EINVAL" "w_calls w1 = w_calls w @ cs" "no_release cs"
      "inode = NULL \<longrightarrow> (\<forall>p d m. Inode_init_owner p d m \<notin> set cs)"
      "inode \<noteq> NULL \<longrightarrow> (\<exists>m. Inode_init_owner inode NULL m \<in> set cs)"
    proof cases
      case 1
      show thesis
        by (rule that [of NULL _ _ "[Save_mount_options data, Kzalloc]", OF _ _ _ b(1)])
           (use assms step 1 in \<open>auto\<close>)
    next
      case 2
      show thesis
        by (rule that [of NULL e _ "[Save_mount_options data, Kzalloc]", OF _ _ _ b(1)])
           (use assms step 2 range(1) in \<open>auto\<close>)
    next
      case 3
      show thesis
        by (rule that [of NULL _ w6 ?cs])
           (use assms step 3 c6 noin in \<open>auto\<close>)
    next
      case 4
      show thesis
        by (rule that [of p _ "(call (D_alloc_root p) w6)\<lparr>w_sb := (w_sb w6)\<lparr>s_root := NULL\<rparr>\<rparr>"
              "?cs @ [D_alloc_root p]"])
           (use assms step 4 c6 gs(3) nr in \<open>auto\<close>)
    qed
    show ?thesis
      using fill_fail_unwound [OF f(1,3,4)] f(2,5,6) by auto
  qed
qed

section \<open>Properties\<close>

text \<open>C23. The type of a new file follows the request: when \<open>create\<close>, \<open>mkdir\<close> or \<open>symlink\<close> is asked for
  with permission bits only, it either succeeds and binds exactly one new inode, of the kind
  that was asked for, to the entry, which stays pinned, or fails, binds nothing and drops the
  inode it had made.\<close>

theorem ramfs_creates:
  assumes "req_op req = Some ops" and "plain_mode req"
    and "dir \<noteq> r_new_inode E (w_calls w)"
    and "ramfs_dir_op E simple req dir dentry w = (ret, w')"
  shows "(\<exists>cs. w_calls w' = w_calls w @ cs \<and> made dentry ret cs (r_new_inode E (w_calls w))) \<and>
         (ret = 0 \<longrightarrow> i_op (w_inodes w' (r_new_inode E (w_calls w))) = Some ops)"
proof (cases req)
  case (Create m)
  have "(m OR S_IFREG) AND S_IFMT = S_IFREG"
    using assms(2) Create by (intro type_bits_or) (simp_all add: S_IFREG_def S_IFMT_def)
  moreover have "ramfs_mknod E dir dentry (m OR S_IFREG) 0 w = (ret, w')"
    using assms(4) Create by (simp add: ramfs_dir_op_def ramfs_create_def)
  ultimately show ?thesis
    using mknod_made [of E dir dentry "m OR S_IFREG" 0 w ret w'] assms(1,3) Create
    by (simp add: ops_of_def Let_def)
next
  case (Mkdir m)
  have "(m OR S_IFDIR) AND S_IFMT = S_IFDIR"
    using assms(2) Mkdir by (intro type_bits_or) (simp_all add: S_IFDIR_def S_IFMT_def)
  moreover have "ramfs_mkdir E dir dentry m w = (ret, w')"
    using assms(4) Mkdir by (simp add: ramfs_dir_op_def)
  moreover have "S_IFDIR \<noteq> S_IFREG" by (simp add: S_IFDIR_def S_IFREG_def)
  ultimately show ?thesis
    using mkdir_made [of E dir dentry m w ret w'] assms(1,3) Mkdir
    by (simp add: ops_of_def Let_def)
next
  case (Symlink n)
  then show ?thesis
    using symlink_made [of E dir dentry n w ret w'] assms
    by (simp add: ramfs_dir_op_def)
qed (use assms in simp_all)

text \<open>C24. Mounting is all or nothing: \<open>ramfs_fill_super\<close> either returns 0 with the private data,
  the root and a root inode that is a directory whatever mode the options give, releasing nothing,
  or returns \<open>-ENOMEM\<close> or \<open>-EINVAL\<close> after freeing the private data it allocated, clearing the
  super block's pointer to it and dropping the root inode if one was made.\<close>

theorem fill_super_unwinds:
  "case ramfs_fill_super E data w of (err, w') \<Rightarrow>
     \<exists>cs. w_calls w' = w_calls w @ cs \<and>
       (if err = 0 then mounted w cs w'
        else (err = - ENOMEM \<or> err = - EINVAL) \<and>
             (\<exists>inode. unwound (r_kzalloc E (w_calls w @ [Save_mount_options data])) inode cs w'))"
  using fill_super_outcome [of E data w] by (cases "ramfs_fill_super E data w") blast

text \<open>A kernel that gives an inode at address 16, memory at 32 and a root at 48, and that reads
  \<open>mode=\<close> followed by any text as the octal number 1777.\<close>

definition ex_env :: ramfs_env where
  "ex_env = \<lparr>r_new_inode = (\<lambda>_. 16), r_get_next_ino = (\<lambda>_. 5), r_CURRENT_TIME = (\<lambda>_. 0),
     r_page_symlink = (\<lambda>_. 0), r_kzalloc = (\<lambda>_. 32), r_d_alloc_root = (\<lambda>_. 48),
     r_register_filesystem = (\<lambda>_. 0),
     match_mode = (\<lambda>p. if take 5 p = ''mode='' then Some (drop 5 p) else None),
     match_octal = (\<lambda>_. Some 0x3FF)\<rparr>"

definition ex_world :: world where
  "ex_world = \<lparr>w_calls = [],
     w_inodes = (\<lambda>_. \<lparr>i_ino = 0, i_a_ops = None, i_bdi = None, i_time = None, i_op = None, i_fop = None\<rparr>),
     w_mode = 0,
     w_sb = \<lparr>s_fs_info = 0, s_maxbytes = 0, s_blocksize = 0, s_blocksize_bits = 0, s_magic = 0,
       s_op = None, s_time_gran = 0, s_root = 0\<rparr>\<rparr>"

theorem ramfs_creates_witness:
  "fst (ramfs_dir_op ex_env (\<lambda>_ _ _ w. (0, w)) (Mkdir 0x1ED) 64 80 ex_world) = 0 \<and>
   i_op (w_inodes (snd (ramfs_dir_op ex_env (\<lambda>_ _ _ w. (0, w)) (Mkdir 0x1ED) 64 80 ex_world)) 16) =
     Some ramfs_dir_inode_operations"
proof -
  let ?r = "ramfs_dir_op ex_env (\<lambda>_ _ _ w. (0, w)) (Mkdir 0x1ED) 64 80 ex_world"
  have z: "fst ?r = 0"
    by (simp add: ramfs_dir_op_def ramfs_mkdir_def ramfs_mknod_def ramfs_get_inode_def ex_env_def
        Let_def split_def)
  show ?thesis
    using ramfs_creates [of "Mkdir 0x1ED" ramfs_dir_inode_operations 64 ex_env ex_world
        "\<lambda>_ _ _ w. (0, w)" 80 "fst ?r" "snd ?r"] z
    by (simp add: ex_env_def S_IFMT_def)
qed

lemma parse_mode_example:
  "ramfs_parse_options ex_env (Some ''quiet,mode=1777'') = (0, 0x3FF)"
  by (simp add: ramfs_parse_options_def ex_env_def S_IALLUGO_def)

end
