(* ===== verification/Ext4_Journal.thy ===== *)
theory Ext4_Journal
  imports Prelude
begin

text \<open>
  The interface of ext4 to the journal: \<^verbatim>\<open>ext4/ext4_jbd2.h\<close>, \<^verbatim>\<open>ext4/ext4_jbd2.c\<close> and the functions of
  \<^verbatim>\<open>ext4/super.c\<close> that start and stop transactions and that record and handle errors.  The state of
  one mounted file system is the record \<open>efs\<close>; the journalling layer (jbd2) and the block layer are
  the functions of the record \<open>jbd2\<close>, which may change any part of that state.
\<close>

abbreviation EROFS :: int where "EROFS \<equiv> 30"

section \<open>State\<close>

record buffer_head =
  b_size :: u32
  b_blocknr :: u64
  b_page :: ptr
  b_count :: int
  b_mapped :: bool
  b_freed :: bool
  b_dirty :: bool
  b_uptodate :: bool
  b_delay :: bool
  b_unwritten :: bool
  b_uninit :: bool
  b_req :: bool
  b_private :: ptr
  b_end_io :: bool

record handle =
  h_err :: int
  h_sync :: bool
  h_tid :: u32
  h_buffer_credits :: int

record error_info =
  e_time :: u32
  e_func :: string
  e_line :: u32
  e_ino :: u32
  e_block :: u64

record einode =
  i_number :: u64
  i_isreg :: bool
  i_journal_data :: bool
  i_extents :: bool
  i_needs_sync :: bool
  i_jdata_state :: bool
  i_newentry :: bool
  i_sync_tid :: u32
  i_datasync_tid :: u32
  i_completed_io :: "ptr list"
  i_aiodio_unwritten :: int
  i_ioend_count :: int

record ext4_io_page =
  iop_page :: ptr
  iop_count :: int

record ext4_io_end =
  io_inode :: ptr
  io_page :: ptr
  io_offset :: u64
  io_size :: u32
  io_unwritten :: bool
  io_iocb :: bool
  io_pages :: "ptr list"

record epage =
  pg_index :: u64
  pg_inode :: ptr
  pg_count :: int
  pg_checked :: bool
  pg_locked :: bool
  pg_bufs :: "ptr list"

datatype data_flags = NO_DATA_FLAGS | JOURNAL_DATA | ORDERED_DATA | WRITEBACK_DATA

text \<open>What the mount fixes.\<close>

record econf =
  s_journal :: ptr
  s_sbh :: ptr
  opt_data_flags :: data_flags
  opt_delalloc :: bool
  opt_dioread_nolock :: bool
  opt_errors_cont :: bool
  opt_errors_ro :: bool
  opt_errors_panic :: bool

record 'k efs =
  f_rdonly :: bool
  f_fs_aborted :: bool
  f_mount_state_error :: bool
  f_state_error :: bool
  f_dirt :: bool
  f_error_count :: u32
  f_first_error :: error_info
  f_last_error :: error_info
  f_journal_info :: ptr
  f_handles :: "ptr \<Rightarrow> handle"
  f_bhs :: "ptr \<Rightarrow> buffer_head"
  f_pages :: "ptr \<Rightarrow> epage"
  f_inodes :: "ptr \<Rightarrow> einode"
  f_ios :: "ptr \<Rightarrow> ext4_io_end"
  f_io_pages :: "ptr \<Rightarrow> ext4_io_page"
  f_kst :: 'k

text \<open>The journalling layer and the other kernel functions that this code calls.\<close>

record 'k jbd2 =
  jbd2_journal_start :: "int \<Rightarrow> 'k efs \<Rightarrow> ptr \<times> 'k efs"
  jbd2_journal_stop :: "ptr \<Rightarrow> 'k efs \<Rightarrow> int \<times> 'k efs"
  jbd2_journal_get_write_access :: "ptr \<Rightarrow> ptr \<Rightarrow> 'k efs \<Rightarrow> int \<times> 'k efs"
  jbd2_journal_get_create_access :: "ptr \<Rightarrow> ptr \<Rightarrow> 'k efs \<Rightarrow> int \<times> 'k efs"
  jbd2_journal_dirty_metadata :: "ptr \<Rightarrow> ptr \<Rightarrow> 'k efs \<Rightarrow> int \<times> 'k efs"
  jbd2_journal_forget :: "ptr \<Rightarrow> ptr \<Rightarrow> 'k efs \<Rightarrow> int \<times> 'k efs"
  jbd2_journal_revoke :: "ptr \<Rightarrow> u64 \<Rightarrow> ptr \<Rightarrow> 'k efs \<Rightarrow> int \<times> 'k efs"
  jbd2_journal_release_buffer :: "ptr \<Rightarrow> ptr \<Rightarrow> 'k efs \<Rightarrow> 'k efs"
  jbd2_journal_extend :: "ptr \<Rightarrow> int \<Rightarrow> 'k efs \<Rightarrow> int \<times> 'k efs"
  jbd2_journal_restart :: "ptr \<Rightarrow> int \<Rightarrow> 'k efs \<Rightarrow> int \<times> 'k efs"
  jbd2_journal_file_inode :: "ptr \<Rightarrow> ptr \<Rightarrow> 'k efs \<Rightarrow> int \<times> 'k efs"
  jbd2_journal_force_commit :: "'k efs \<Rightarrow> int \<times> 'k efs"
  jbd2_journal_abort :: "int \<Rightarrow> 'k efs \<Rightarrow> 'k efs"
  jbd2_journal_abort_handle :: "ptr \<Rightarrow> 'k efs \<Rightarrow> 'k efs"
  jbd2_journal_blocks_per_page :: "ptr \<Rightarrow> int"
  is_journal_aborted :: "'k efs \<Rightarrow> bool"
  is_handle_aborted :: "ptr \<Rightarrow> 'k efs \<Rightarrow> bool"
  vfs_check_frozen :: "'k efs \<Rightarrow> 'k efs"
  get_seconds :: "'k efs \<Rightarrow> u32"
  start_err_report :: "'k efs \<Rightarrow> 'k efs"
  ext4_commit_super :: "'k efs \<Rightarrow> 'k efs"
  bforget :: "ptr \<Rightarrow> 'k efs \<Rightarrow> 'k efs"
  mark_buffer_dirty :: "ptr \<Rightarrow> 'k efs \<Rightarrow> 'k efs"
  mark_buffer_dirty_inode :: "ptr \<Rightarrow> ptr \<Rightarrow> 'k efs \<Rightarrow> 'k efs"
  sync_dirty_buffer :: "ptr \<Rightarrow> 'k efs \<Rightarrow> 'k efs"

definition ERR_PTR :: "int \<Rightarrow> ptr" where
  "ERR_PTR e = word_of_int e"

definition upd_handle :: "ptr \<Rightarrow> (handle \<Rightarrow> handle) \<Rightarrow> 'k efs \<Rightarrow> 'k efs" where
  "upd_handle p f s = s\<lparr>f_handles := (f_handles s)(p := f (f_handles s p))\<rparr>"

definition upd_bh :: "ptr \<Rightarrow> (buffer_head \<Rightarrow> buffer_head) \<Rightarrow> 'k efs \<Rightarrow> 'k efs" where
  "upd_bh p f s = s\<lparr>f_bhs := (f_bhs s)(p := f (f_bhs s p))\<rparr>"

definition upd_einode :: "ptr \<Rightarrow> (einode \<Rightarrow> einode) \<Rightarrow> 'k efs \<Rightarrow> 'k efs" where
  "upd_einode p f s = s\<lparr>f_inodes := (f_inodes s)(p := f (f_inodes s p))\<rparr>"

definition upd_page :: "ptr \<Rightarrow> (epage \<Rightarrow> epage) \<Rightarrow> 'k efs \<Rightarrow> 'k efs" where
  "upd_page p f s = s\<lparr>f_pages := (f_pages s)(p := f (f_pages s p))\<rparr>"

definition upd_io :: "ptr \<Rightarrow> (ext4_io_end \<Rightarrow> ext4_io_end) \<Rightarrow> 'k efs \<Rightarrow> 'k efs" where
  "upd_io p f s = s\<lparr>f_ios := (f_ios s)(p := f (f_ios s p))\<rparr>"

section \<open>Handles\<close>

definition EXT4_NOJOURNAL_MAX_REF_COUNT :: u64 where
  "EXT4_NOJOURNAL_MAX_REF_COUNT = 4096"

definition ext4_handle_valid :: "ptr \<Rightarrow> bool" where
  "ext4_handle_valid handle = (if handle < EXT4_NOJOURNAL_MAX_REF_COUNT then False else True)"

definition ext4_handle_sync :: "ptr \<Rightarrow> 'k efs \<Rightarrow> 'k efs" where
  "ext4_handle_sync handle s =
     (if ext4_handle_valid handle then upd_handle handle (\<lambda>h. h\<lparr>h_sync := True\<rparr>) s else s)"

definition ext4_handle_release_buffer :: "'k jbd2 \<Rightarrow> ptr \<Rightarrow> ptr \<Rightarrow> 'k efs \<Rightarrow> 'k efs" where
  "ext4_handle_release_buffer K handle bh s =
     (if ext4_handle_valid handle then jbd2_journal_release_buffer K handle bh s else s)"

definition ext4_handle_is_aborted :: "'k jbd2 \<Rightarrow> ptr \<Rightarrow> 'k efs \<Rightarrow> bool" where
  "ext4_handle_is_aborted K handle s =
     (if ext4_handle_valid handle then is_handle_aborted K handle s else False)"

definition ext4_handle_has_enough_credits :: "ptr \<Rightarrow> int \<Rightarrow> 'k efs \<Rightarrow> bool" where
  "ext4_handle_has_enough_credits handle needed s =
     (if ext4_handle_valid handle \<and> h_buffer_credits (f_handles s handle) < needed then False else True)"

definition ext4_get_nojournal :: "'k efs \<Rightarrow> fault + ptr \<times> 'k efs" where
  "ext4_get_nojournal s =
     (let ref_cnt = f_journal_info s
      in if ref_cnt \<ge> EXT4_NOJOURNAL_MAX_REF_COUNT then Inl BUG
         else Inr (ref_cnt + 1, s\<lparr>f_journal_info := ref_cnt + 1\<rparr>))"

definition ext4_put_nojournal :: "ptr \<Rightarrow> 'k efs \<Rightarrow> fault + 'k efs" where
  "ext4_put_nojournal handle s =
     (if handle = 0 then Inl BUG else Inr (s\<lparr>f_journal_info := handle - 1\<rparr>))"

definition ext4_journal_current_handle :: "'k efs \<Rightarrow> ptr" where
  "ext4_journal_current_handle s = f_journal_info s"

section \<open>Recording errors\<close>

definition save_error_info_core :: "'k jbd2 \<Rightarrow> string \<Rightarrow> u32 \<Rightarrow> 'k efs \<Rightarrow> 'k efs" where
  "save_error_info_core K func line s0 =
     (let s1 = s0\<lparr>f_mount_state_error := True, f_state_error := True\<rparr>;
          le = (f_last_error s1)\<lparr>e_time := get_seconds K s1, e_func := take 32 func, e_line := line\<rparr>;
          s2 = s1\<lparr>f_last_error := le\<rparr>;
          s3 = (if e_time (f_first_error s2) = 0
                then s2\<lparr>f_first_error := \<lparr>e_time = e_time le, e_func = take 32 func, e_line = line,
                          e_ino = e_ino le, e_block = e_block le\<rparr>\<rparr>
                else s2);
          s4 = (if f_error_count s3 = 0 then start_err_report K s3 else s3)
      in s4\<lparr>f_error_count := f_error_count s4 + 1\<rparr>)"

definition save_error_info :: "'k jbd2 \<Rightarrow> string \<Rightarrow> u32 \<Rightarrow> 'k efs \<Rightarrow> 'k efs" where
  "save_error_info K func line s = ext4_commit_super K (save_error_info_core K func line s)"

text \<open>A panic stops the machine, as \<open>BUG\<close> does.\<close>

definition ext4_handle_error :: "'k jbd2 \<Rightarrow> econf \<Rightarrow> 'k efs \<Rightarrow> fault + 'k efs" where
  "ext4_handle_error K C s0 =
     (if f_rdonly s0 then Inr s0
      else
        let s1 = (if \<not> opt_errors_cont C
                  then let s = s0\<lparr>f_fs_aborted := True\<rparr>
                       in if s_journal C \<noteq> NULL then jbd2_journal_abort K (- EIO) s else s
                  else s0);
            s2 = (if opt_errors_ro C then s1\<lparr>f_rdonly := True\<rparr> else s1)
        in if opt_errors_panic C then Inl BUG else Inr s2)"

datatype errstr = IO_failure | Out_of_memory | Journal_has_aborted | Readonly_filesystem | Number int

definition ext4_decode_error :: "'k jbd2 \<Rightarrow> econf option \<Rightarrow> int \<Rightarrow> 'k efs \<Rightarrow> errstr" where
  "ext4_decode_error K sb errno s =
     (if errno = - EIO then IO_failure
      else if errno = - ENOMEM then Out_of_memory
      else if errno = - EROFS then
        (case sb of None \<Rightarrow> Journal_has_aborted
         | Some C \<Rightarrow> if s_journal C \<noteq> NULL \<and> is_journal_aborted K s then Journal_has_aborted
                     else Readonly_filesystem)
      else Number (- errno))"

definition ext4_error_inode :: "'k jbd2 \<Rightarrow> econf \<Rightarrow> ptr \<Rightarrow> string \<Rightarrow> u32 \<Rightarrow> u64 \<Rightarrow> 'k efs \<Rightarrow> fault + 'k efs" where
  "ext4_error_inode K C inode func line block s =
     (let le = (f_last_error s)\<lparr>e_ino := ucast (i_number (f_inodes s inode)), e_block := block\<rparr>
      in ext4_handle_error K C (save_error_info K func line (s\<lparr>f_last_error := le\<rparr>)))"

definition ext4_std_error :: "'k jbd2 \<Rightarrow> econf \<Rightarrow> string \<Rightarrow> u32 \<Rightarrow> int \<Rightarrow> 'k efs \<Rightarrow> fault + 'k efs" where
  "ext4_std_error K C func line errno s =
     (if errno = - EROFS \<and> ext4_journal_current_handle s = NULL \<and> f_rdonly s then Inr s
      else ext4_handle_error K C (save_error_info K func line s))"

definition ext4_abort :: "'k jbd2 \<Rightarrow> econf \<Rightarrow> string \<Rightarrow> u32 \<Rightarrow> 'k efs \<Rightarrow> fault + 'k efs" where
  "ext4_abort K C func line s0 =
     (let s1 = save_error_info K func line s0;
          s2 = (if \<not> f_rdonly s1 then
                  let a = s1\<lparr>f_rdonly := True, f_fs_aborted := True\<rparr>;
                      b = (if s_journal C \<noteq> NULL then jbd2_journal_abort K (- EIO) a else a)
                  in save_error_info K func line b
                else s1)
      in if opt_errors_panic C then Inl BUG else Inr s2)"

definition ext4_journal_abort_handle :: "'k jbd2 \<Rightarrow> ptr \<Rightarrow> int \<Rightarrow> 'k efs \<Rightarrow> fault + 'k efs" where
  "ext4_journal_abort_handle K handle err s0 =
     (if \<not> ext4_handle_valid handle then Inl BUG
      else
        let s1 = (if h_err (f_handles s0 handle) = 0
                  then upd_handle handle (\<lambda>h. h\<lparr>h_err := err\<rparr>) s0 else s0)
        in if is_handle_aborted K handle s1 then Inr s1
           else Inr (jbd2_journal_abort_handle K handle s1))"

section \<open>Transactions\<close>

definition ext4_journal_start_sb :: "'k jbd2 \<Rightarrow> econf \<Rightarrow> int \<Rightarrow> 'k efs \<Rightarrow> fault + ptr \<times> 'k efs" where
  "ext4_journal_start_sb K C nblocks s0 =
     (if f_rdonly s0 then Inr (ERR_PTR (- EROFS), s0)
      else
        let handle = ext4_journal_current_handle s0;
            s1 = (if handle = NULL then vfs_check_frozen K s0 else s0)
        in if s_journal C = NULL then ext4_get_nojournal s1
           else if is_journal_aborted K s1 then
             and_then (ext4_abort K C ''ext4_journal_start_sb'' 299 s1)
               (\<lambda>s2. Inr (ERR_PTR (- EROFS), s2))
           else Inr (jbd2_journal_start K nblocks s1))"

definition ext4_journal_start :: "'k jbd2 \<Rightarrow> econf \<Rightarrow> int \<Rightarrow> 'k efs \<Rightarrow> fault + ptr \<times> 'k efs" where
  "ext4_journal_start K C nblocks s = ext4_journal_start_sb K C nblocks s"

definition ext4_journal_stop ::
  "'k jbd2 \<Rightarrow> econf \<Rightarrow> string \<Rightarrow> u32 \<Rightarrow> ptr \<Rightarrow> 'k efs \<Rightarrow> fault + int \<times> 'k efs" where
  "ext4_journal_stop K C func line handle s0 =
     (if \<not> ext4_handle_valid handle
      then and_then (ext4_put_nojournal handle s0) (\<lambda>s1. Inr (0, s1))
      else
        let err = h_err (f_handles s0 handle);
            (rc, s1) = jbd2_journal_stop K handle s0;
            err' = (if err = 0 then rc else err)
        in if err' \<noteq> 0
           then and_then (ext4_std_error K C func line err' s1) (\<lambda>s2. Inr (err', s2))
           else Inr (err', s1))"

definition abort_on :: "'k jbd2 \<Rightarrow> ptr \<Rightarrow> int \<times> 'k efs \<Rightarrow> fault + int \<times> 'k efs" where
  "abort_on K handle r =
     (let (err, s) = r
      in if err \<noteq> 0 then and_then (ext4_journal_abort_handle K handle err s) (\<lambda>s1. Inr (err, s1))
         else Inr (err, s))"

definition ext4_journal_get_write_access ::
  "'k jbd2 \<Rightarrow> ptr \<Rightarrow> ptr \<Rightarrow> 'k efs \<Rightarrow> fault + int \<times> 'k efs" where
  "ext4_journal_get_write_access K handle bh s =
     (if ext4_handle_valid handle
      then abort_on K handle (jbd2_journal_get_write_access K handle bh s)
      else Inr (0, s))"

definition ext4_journal_get_create_access ::
  "'k jbd2 \<Rightarrow> ptr \<Rightarrow> ptr \<Rightarrow> 'k efs \<Rightarrow> fault + int \<times> 'k efs" where
  "ext4_journal_get_create_access K handle bh s =
     (if ext4_handle_valid handle
      then abort_on K handle (jbd2_journal_get_create_access K handle bh s)
      else Inr (0, s))"

definition ext4_handle_dirty_metadata ::
  "'k jbd2 \<Rightarrow> econf \<Rightarrow> string \<Rightarrow> u32 \<Rightarrow> ptr \<Rightarrow> ptr \<Rightarrow> ptr \<Rightarrow> 'k efs \<Rightarrow> fault + int \<times> 'k efs" where
  "ext4_handle_dirty_metadata K C func line handle inode bh s0 =
     (if ext4_handle_valid handle
      then abort_on K handle (jbd2_journal_dirty_metadata K handle bh s0)
      else
        let s1 = (if inode \<noteq> NULL then mark_buffer_dirty_inode K bh inode s0
                  else mark_buffer_dirty K bh s0)
        in if inode \<noteq> NULL \<and> i_needs_sync (f_inodes s1 inode) then
             let s2 = sync_dirty_buffer K bh s1
             in if b_req (f_bhs s2 bh) \<and> \<not> b_uptodate (f_bhs s2 bh) then
                  let blk = b_blocknr (f_bhs s2 bh);
                      s3 = s2\<lparr>f_last_error := (f_last_error s2)\<lparr>e_block := blk\<rparr>\<rparr>
                  in and_then (ext4_error_inode K C inode func line blk s3)
                       (\<lambda>s4. Inr (- EIO, s4))
                else Inr (0, s2)
           else Inr (0, s1))"

definition ext4_handle_dirty_super :: "'k jbd2 \<Rightarrow> econf \<Rightarrow> ptr \<Rightarrow> 'k efs \<Rightarrow> fault + int \<times> 'k efs" where
  "ext4_handle_dirty_super K C handle s =
     (if ext4_handle_valid handle
      then abort_on K handle (jbd2_journal_dirty_metadata K handle (s_sbh C) s)
      else Inr (0, s\<lparr>f_dirt := True\<rparr>))"

definition ext4_journal_extend :: "'k jbd2 \<Rightarrow> ptr \<Rightarrow> int \<Rightarrow> 'k efs \<Rightarrow> int \<times> 'k efs" where
  "ext4_journal_extend K handle nblocks s =
     (if ext4_handle_valid handle then jbd2_journal_extend K handle nblocks s else (0, s))"

definition ext4_journal_restart :: "'k jbd2 \<Rightarrow> ptr \<Rightarrow> int \<Rightarrow> 'k efs \<Rightarrow> int \<times> 'k efs" where
  "ext4_journal_restart K handle nblocks s =
     (if ext4_handle_valid handle then jbd2_journal_restart K handle nblocks s else (0, s))"

definition ext4_journal_blocks_per_page :: "'k jbd2 \<Rightarrow> econf \<Rightarrow> ptr \<Rightarrow> int" where
  "ext4_journal_blocks_per_page K C inode =
     (if s_journal C \<noteq> NULL then jbd2_journal_blocks_per_page K inode else 0)"

definition ext4_journal_force_commit :: "'k jbd2 \<Rightarrow> ptr \<Rightarrow> 'k efs \<Rightarrow> int \<times> 'k efs" where
  "ext4_journal_force_commit K journal s =
     (if journal \<noteq> NULL then jbd2_journal_force_commit K s else (0, s))"

definition ext4_force_commit :: "'k jbd2 \<Rightarrow> econf \<Rightarrow> 'k efs \<Rightarrow> int \<times> 'k efs" where
  "ext4_force_commit K C s =
     (if f_rdonly s then (0, s)
      else if s_journal C \<noteq> NULL
        then ext4_journal_force_commit K (s_journal C) (vfs_check_frozen K s)
        else (0, s))"

definition ext4_jbd2_file_inode :: "'k jbd2 \<Rightarrow> ptr \<Rightarrow> ptr \<Rightarrow> 'k efs \<Rightarrow> int \<times> 'k efs" where
  "ext4_jbd2_file_inode K handle inode s =
     (if ext4_handle_valid handle then jbd2_journal_file_inode K handle inode s else (0, s))"

definition ext4_update_inode_fsync_trans :: "ptr \<Rightarrow> ptr \<Rightarrow> bool \<Rightarrow> 'k efs \<Rightarrow> 'k efs" where
  "ext4_update_inode_fsync_trans handle inode datasync s0 =
     (if ext4_handle_valid handle then
        let tid = h_tid (f_handles s0 handle);
            s1 = upd_einode inode (\<lambda>i. i\<lparr>i_sync_tid := tid\<rparr>) s0
        in if datasync then upd_einode inode (\<lambda>i. i\<lparr>i_datasync_tid := tid\<rparr>) s1 else s1
      else s0)"

section \<open>Journalling modes\<close>

definition EXT4_INODE_JOURNAL_DATA_MODE :: u32 where "EXT4_INODE_JOURNAL_DATA_MODE = 1"
definition EXT4_INODE_ORDERED_DATA_MODE :: u32 where "EXT4_INODE_ORDERED_DATA_MODE = 2"
definition EXT4_INODE_WRITEBACK_DATA_MODE :: u32 where "EXT4_INODE_WRITEBACK_DATA_MODE = 4"

definition ext4_inode_journal_mode :: "econf \<Rightarrow> einode \<Rightarrow> fault + u32" where
  "ext4_inode_journal_mode C inode =
     (if s_journal C = NULL then Inr EXT4_INODE_WRITEBACK_DATA_MODE
      else if \<not> i_isreg inode \<or> opt_data_flags C = JOURNAL_DATA then Inr EXT4_INODE_JOURNAL_DATA_MODE
      else if i_journal_data inode \<and> \<not> opt_delalloc C then Inr EXT4_INODE_JOURNAL_DATA_MODE
      else if opt_data_flags C = ORDERED_DATA then Inr EXT4_INODE_ORDERED_DATA_MODE
      else if opt_data_flags C = WRITEBACK_DATA then Inr EXT4_INODE_WRITEBACK_DATA_MODE
      else Inl BUG)"

definition ext4_should_journal_data :: "econf \<Rightarrow> einode \<Rightarrow> fault + bool" where
  "ext4_should_journal_data C inode =
     and_then (ext4_inode_journal_mode C inode)
       (\<lambda>m. Inr (m AND EXT4_INODE_JOURNAL_DATA_MODE \<noteq> 0))"

definition ext4_should_order_data :: "econf \<Rightarrow> einode \<Rightarrow> fault + bool" where
  "ext4_should_order_data C inode =
     and_then (ext4_inode_journal_mode C inode)
       (\<lambda>m. Inr (m AND EXT4_INODE_ORDERED_DATA_MODE \<noteq> 0))"

definition ext4_should_writeback_data :: "econf \<Rightarrow> einode \<Rightarrow> fault + bool" where
  "ext4_should_writeback_data C inode =
     and_then (ext4_inode_journal_mode C inode)
       (\<lambda>m. Inr (m AND EXT4_INODE_WRITEBACK_DATA_MODE \<noteq> 0))"

definition ext4_should_dioread_nolock :: "econf \<Rightarrow> einode \<Rightarrow> fault + bool" where
  "ext4_should_dioread_nolock C inode =
     (if \<not> opt_dioread_nolock C then Inr False
      else if \<not> i_isreg inode then Inr False
      else if \<not> i_extents inode then Inr False
      else and_then (ext4_should_journal_data C inode) (\<lambda>j. Inr (\<not> j)))"

definition ext4_forget ::
  "'k jbd2 \<Rightarrow> econf \<Rightarrow> string \<Rightarrow> u32 \<Rightarrow> ptr \<Rightarrow> bool \<Rightarrow> ptr \<Rightarrow> ptr \<Rightarrow> u64 \<Rightarrow> 'k efs \<Rightarrow>
   fault + int \<times> 'k efs" where
  "ext4_forget K C func line handle is_metadata inode bh blocknr s =
     (if \<not> ext4_handle_valid handle then Inr (0, bforget K bh s)
      else
        and_then
          (if opt_data_flags C = JOURNAL_DATA then Inr True
           else if is_metadata then Inr False
           else and_then (ext4_should_journal_data C (f_inodes s inode)) (\<lambda>j. Inr (\<not> j)))
          (\<lambda>skip_revoke.
             if skip_revoke then
               (if bh \<noteq> NULL then abort_on K handle (jbd2_journal_forget K handle bh s)
                else Inr (0, s))
             else
               let (err, s1) = jbd2_journal_revoke K handle blocknr bh s
               in if err \<noteq> 0 then
                    and_then (ext4_journal_abort_handle K handle err s1) (\<lambda>s2.
                      and_then (ext4_abort K C func line s2) (\<lambda>s3. Inr (err, s3)))
                  else Inr (err, s1)))"

section \<open>Properties\<close>

text \<open>Exactly one of the three modes holds of an inode, and none only under a data flag that the
  mount never sets.\<close>

lemma one_mode:
  assumes "ext4_inode_journal_mode C inode = Inr m"
  shows "\<exists>j ord wb. ext4_should_journal_data C inode = Inr j \<and> ext4_should_order_data C inode = Inr ord \<and>
           ext4_should_writeback_data C inode = Inr wb \<and>
           [j, ord, wb] \<in> {[True, False, False], [False, True, False], [False, False, True]}"
  using assms
  by (auto simp: ext4_should_journal_data_def ext4_should_order_data_def ext4_should_writeback_data_def
      ext4_inode_journal_mode_def EXT4_INODE_JOURNAL_DATA_MODE_def EXT4_INODE_ORDERED_DATA_MODE_def
      EXT4_INODE_WRITEBACK_DATA_MODE_def split: if_splits)

lemma mode_total:
  assumes "opt_data_flags C \<noteq> NO_DATA_FLAGS"
  shows "\<exists>m. ext4_inode_journal_mode C inode = Inr m"
  using assms by (cases "opt_data_flags C") (auto simp: ext4_inode_journal_mode_def)

text \<open>Without a journal the handle is a counter: starts and stops nest, and each stop restores the
  counter that the matching start saw.\<close>

lemma nojournal_start_stop:
  assumes "\<not> f_rdonly s" and "s_journal C = NULL" and "f_journal_info s < 4095"
    and "f_journal_info s \<noteq> 0 \<or> vfs_check_frozen K s = s"
  shows "\<exists>h s1. ext4_journal_start K C n s = Inr (h, s1) \<and> \<not> ext4_handle_valid h \<and>
           ext4_journal_stop K C w l h s1 = Inr (0, s)"
proof -
  let ?x = "f_journal_info s"
  have u: "unat (?x + 1) = unat ?x + 1"
    using assms(3) by (simp add: word_less_nat_alt unat_word_ariths)
  have ne: "?x + 1 \<noteq> 0" using u by (metis add_is_0 unat_0 zero_neq_one)
  have lt: "?x < 4096" "?x + 1 < 4096" using assms(3) u by (simp_all add: word_less_nat_alt)
  show ?thesis
    using assms(1,2,4) lt lt(1) [unfolded not_le [symmetric]] ne
    by (auto simp: ext4_journal_start_def ext4_journal_start_sb_def ext4_get_nojournal_def
        ext4_journal_current_handle_def ext4_journal_stop_def ext4_handle_valid_def
        EXT4_NOJOURNAL_MAX_REF_COUNT_def ext4_put_nojournal_def Let_def)
qed

text \<open>The first error of a handle is kept and is what its stop returns, whatever the journal
  answers later.\<close>

lemma abort_handle_first_error:
  assumes "ext4_journal_abort_handle K handle err s = Inr s'"
    and "\<And>h s. f_handles (jbd2_journal_abort_handle K h s) = f_handles s"
  shows "h_err (f_handles s' handle) =
           (if h_err (f_handles s handle) = 0 then err else h_err (f_handles s handle))"
  using assms
  by (auto simp: ext4_journal_abort_handle_def upd_handle_def Let_def split: if_splits)

lemma stop_reports_error:
  assumes "ext4_handle_valid handle" and "h_err (f_handles s handle) = e" and "e \<noteq> 0"
    and "ext4_journal_stop K C w l handle s = Inr (err, s')"
  shows "err = e"
  using assms
  by (auto simp: ext4_journal_stop_def Let_def and_then_Inr split: prod.splits if_splits)

end
