(* ===== verification/Ext4_Adafs.thy ===== *)
theory Ext4_Adafs
  imports Hooks Ext4_Journal
begin

text \<open>
  AdaFS on ext4, \<^verbatim>\<open>ext4/ext4-adafs.c\<close>: the table of flush operations that writes a logged page, begins
  and ends a transaction and waits for its commit, with the functions of ext4 that it calls, of
  \<^verbatim>\<open>ext4/inode.c\<close> (walking the buffers of a page, journal access, end of I/O), \<^verbatim>\<open>ext4/page-io.c\<close> and
  \<^verbatim>\<open>ext4/fsync.c\<close>, and the paths of ext4 that AdaFS cuts short.  The last part shows what the walks
  visit and that the references they take are dropped.
\<close>

section \<open>The block layer\<close>

text \<open>The functions of the block layer, of the page cache and of the parts of ext4 that map blocks.\<close>

record 'k blk =
  ext4_convert_unwritten_extents :: "ptr \<Rightarrow> u64 \<Rightarrow> u32 \<Rightarrow> 'k efs \<Rightarrow> int \<times> 'k efs"
  aio_complete :: "ptr \<Rightarrow> 'k efs \<Rightarrow> 'k efs"
  wake_up_ioend :: "ptr \<Rightarrow> 'k efs \<Rightarrow> 'k efs"
  zalloc_io_end :: "'k efs \<Rightarrow> ptr \<times> 'k efs"
  free_io_page_memory :: "ptr \<Rightarrow> 'k efs \<Rightarrow> 'k efs"
  end_page_writeback :: "ptr \<Rightarrow> 'k efs \<Rightarrow> 'k efs"
  free_io_end_memory :: "ptr \<Rightarrow> 'k efs \<Rightarrow> 'k efs"
  schedule :: "'k efs \<Rightarrow> 'k efs"
  queue_io_work :: "ptr \<Rightarrow> 'k efs \<Rightarrow> 'k efs"
  sb_active :: "'k efs \<Rightarrow> bool"
  end_buffer_async_write :: "ptr \<Rightarrow> bool \<Rightarrow> 'k efs \<Rightarrow> 'k efs"
  block_write_begin :: "ptr \<Rightarrow> u32 \<Rightarrow> 'k efs \<Rightarrow> int \<times> 'k efs"
  block_commit_write :: "ptr \<Rightarrow> u32 \<Rightarrow> 'k efs \<Rightarrow> 'k efs"
  block_write_full_page :: "ptr \<Rightarrow> 'k efs \<Rightarrow> int \<times> 'k efs"
  block_write_full_page_endio :: "ptr \<Rightarrow> 'k efs \<Rightarrow> int \<times> 'k efs"
  redirty_page_for_writepage :: "ptr \<Rightarrow> 'k efs \<Rightarrow> 'k efs"
  ext4_writepage_trans_blocks :: "ptr \<Rightarrow> int"
  j_barrier :: "'k efs \<Rightarrow> bool"
  trans_will_send_data_barrier :: "u32 \<Rightarrow> 'k efs \<Rightarrow> bool"
  log_start_commit :: "u32 \<Rightarrow> 'k efs \<Rightarrow> 'k efs"
  log_wait_commit :: "u32 \<Rightarrow> 'k efs \<Rightarrow> int \<times> 'k efs"
  blkdev_issue_flush :: "'k efs \<Rightarrow> 'k efs"

definition returns :: "(fault + 'a) option \<Rightarrow> fault + 'a" where
  "returns r = (case r of Some x \<Rightarrow> x | None \<Rightarrow> Inl HANG)"

section \<open>Buffers of a page\<close>

text \<open>The ring of the buffers of a page is the list of them, from the head on.  The loop visits
  each once, until the callback fails.\<close>

fun walk_buffers ::
  "(ptr \<Rightarrow> 'k efs \<Rightarrow> fault + int \<times> 'k efs) \<Rightarrow> u32 \<Rightarrow> u32 \<Rightarrow> u32 \<Rightarrow> ptr list \<Rightarrow> u32 \<Rightarrow> bool option \<Rightarrow>
   'k efs \<Rightarrow> fault + (int \<times> bool option) \<times> 'k efs" where
  "walk_buffers fn blocksize from to [] block_start partial s = Inr ((0, partial), s)"
| "walk_buffers fn blocksize from to (bh # rest) block_start partial s =
     (let block_end = block_start + blocksize
      in if block_end \<le> from \<or> block_start \<ge> to then
           walk_buffers fn blocksize from to rest block_end
             (if partial \<noteq> None \<and> \<not> b_uptodate (f_bhs s bh) then Some True else partial) s
         else
           and_then (fn bh s) (\<lambda>(err, s1).
             if err \<noteq> 0 then Inr ((err, partial), s1)
             else walk_buffers fn blocksize from to rest block_end partial s1))"

definition walk_page_buffers ::
  "ptr list \<Rightarrow> u32 \<Rightarrow> u32 \<Rightarrow> (ptr \<Rightarrow> 'k efs \<Rightarrow> fault + int \<times> 'k efs) \<Rightarrow> 'k efs \<Rightarrow>
   fault + int \<times> 'k efs" where
  "walk_page_buffers bufs from to fn s =
     and_then (walk_buffers fn (b_size (f_bhs s (hd bufs))) from to bufs 0 None s)
       (\<lambda>((err, _), s1). Inr (err, s1))"

definition page_buffers :: "ptr \<Rightarrow> 'k efs \<Rightarrow> fault + ptr list" where
  "page_buffers page s = (if pg_bufs (f_pages s page) = [] then Inl BUG else Inr (pg_bufs (f_pages s page)))"

definition do_journal_get_write_access ::
  "'k jbd2 \<Rightarrow> econf \<Rightarrow> ptr \<Rightarrow> ptr \<Rightarrow> 'k efs \<Rightarrow> fault + int \<times> 'k efs" where
  "do_journal_get_write_access K C handle bh s0 =
     (let b = f_bhs s0 bh; dirty = b_dirty b
      in if \<not> b_mapped b \<or> b_freed b then Inr (0, s0)
         else
           let s1 = (if dirty then upd_bh bh (\<lambda>b. b\<lparr>b_dirty := False\<rparr>) s0 else s0)
           in and_then (ext4_journal_get_write_access K handle bh s1) (\<lambda>(ret, s2).
                if ret = 0 \<and> dirty
                then ext4_handle_dirty_metadata K C ''do_journal_get_write_access'' 1603 handle NULL bh s2
                else Inr (ret, s2)))"

definition write_end_fn ::
  "'k jbd2 \<Rightarrow> econf \<Rightarrow> ptr \<Rightarrow> ptr \<Rightarrow> 'k efs \<Rightarrow> fault + int \<times> 'k efs" where
  "write_end_fn K C handle bh s =
     (if \<not> b_mapped (f_bhs s bh) \<or> b_freed (f_bhs s bh) then Inr (0, s)
      else ext4_handle_dirty_metadata K C ''write_end_fn'' 1711 handle NULL bh
             (upd_bh bh (\<lambda>b. b\<lparr>b_uptodate := True\<rparr>) s))"

definition ext4_bh_delay_or_unwritten :: "ptr \<Rightarrow> 'k efs \<Rightarrow> fault + int \<times> 'k efs" where
  "ext4_bh_delay_or_unwritten bh s =
     (let b = f_bhs s bh
      in Inr (if (b_delay b \<or> b_unwritten b) \<and> b_dirty b then 1 else 0, s))"

definition bget_one :: "ptr \<Rightarrow> 'k efs \<Rightarrow> fault + int \<times> 'k efs" where
  "bget_one bh s = Inr (0, upd_bh bh (\<lambda>b. b\<lparr>b_count := b_count b + 1\<rparr>) s)"

definition bput_one :: "ptr \<Rightarrow> 'k efs \<Rightarrow> fault + int \<times> 'k efs" where
  "bput_one bh s = Inr (0, upd_bh bh (\<lambda>b. b\<lparr>b_count := b_count b - 1\<rparr>) s)"

section \<open>Completed I/O\<close>

definition ext4_init_io_end :: "'k blk \<Rightarrow> ptr \<Rightarrow> 'k efs \<Rightarrow> ptr \<times> 'k efs" where
  "ext4_init_io_end B inode s0 =
     (let (io, s1) = zalloc_io_end B s0
      in if io \<noteq> NULL then
           (io, upd_io io (\<lambda>_. \<lparr>io_inode = inode, io_page = NULL, io_offset = 0, io_size = 0,
                                io_unwritten = False, io_iocb = False, io_pages = []\<rparr>)
                  (upd_einode inode (\<lambda>i. i\<lparr>i_ioend_count := i_ioend_count i + 1\<rparr>) s1))
         else (io, s1))"

text \<open>The retry loop of \<open>ext4_set_bh_endio\<close> runs until an allocation succeeds.\<close>

partial_function (option) init_io_end_retry :: "'k blk \<Rightarrow> ptr \<Rightarrow> 'k efs \<Rightarrow> (ptr \<times> 'k efs) option" where
  "init_io_end_retry B inode s =
     (let (io, s1) = ext4_init_io_end B inode s
      in if io = NULL then init_io_end_retry B inode (schedule B s1) else Some (io, s1))"

definition ext4_set_bh_endio :: "'k blk \<Rightarrow> ptr \<Rightarrow> ptr \<Rightarrow> 'k efs \<Rightarrow> (int \<times> 'k efs) option" where
  "ext4_set_bh_endio B bh inode s0 =
     (let page = b_page (f_bhs s0 bh);
          offset = push_bit 12 (pg_index (f_pages s0 page));
          sz = b_size (f_bhs s0 bh)
      in case init_io_end_retry B inode s0 of
           None \<Rightarrow> None
         | Some (io, s1) \<Rightarrow>
             let s2 = upd_io io (\<lambda>i. i\<lparr>io_offset := offset, io_size := sz, io_page := page\<rparr>) s1;
                 s3 = upd_page page (\<lambda>p. p\<lparr>pg_count := pg_count p + 1\<rparr>) s2
             in Some (0, upd_bh bh (\<lambda>b. b\<lparr>b_private := io, b_end_io := True\<rparr>) s3))"

definition ext4_end_io_nolock :: "'k blk \<Rightarrow> ptr \<Rightarrow> 'k efs \<Rightarrow> int \<times> 'k efs" where
  "ext4_end_io_nolock B io s0 =
     (let inode = io_inode (f_ios s0 io)
      in if io \<notin> set (i_completed_io (f_inodes s0 inode)) then (0, s0)
         else if \<not> io_unwritten (f_ios s0 io) then (0, s0)
         else
           let (ret, s1) = ext4_convert_unwritten_extents B inode (io_offset (f_ios s0 io))
                             (io_size (f_ios s0 io)) s0
           in if ret < 0 then (ret, s1)
              else
                let s2 = (if io_iocb (f_ios s1 io) then aio_complete B io s1 else s1)
                in if io_unwritten (f_ios s2 io) then
                     let s3 = upd_io io (\<lambda>i. i\<lparr>io_unwritten := False\<rparr>) s2;
                         n = i_aiodio_unwritten (f_inodes s3 inode) - 1;
                         s4 = upd_einode inode (\<lambda>i. i\<lparr>i_aiodio_unwritten := n\<rparr>) s3
                     in (ret, if n = 0 then wake_up_ioend B inode s4 else s4)
                   else (ret, s2))"

partial_function (option) completed_loop ::
  "'k blk \<Rightarrow> ptr \<Rightarrow> int \<Rightarrow> 'k efs \<Rightarrow> (int \<times> 'k efs) option" where
  "completed_loop B inode ret2 s =
     (case i_completed_io (f_inodes s inode) of
        [] \<Rightarrow> Some (ret2, s)
      | io # _ \<Rightarrow>
          let (ret, s1) = ext4_end_io_nolock B io s
          in if ret < 0 then completed_loop B inode ret s1
             else completed_loop B inode ret2
                    (upd_einode inode (\<lambda>i. i\<lparr>i_completed_io := remove1 io (i_completed_io i)\<rparr>) s1))"

definition ext4_flush_completed_IO :: "'k blk \<Rightarrow> ptr \<Rightarrow> 'k efs \<Rightarrow> (int \<times> 'k efs) option" where
  "ext4_flush_completed_IO B inode s =
     (if i_completed_io (f_inodes s inode) = [] then Some (0, s)
      else case completed_loop B inode 0 s of
             None \<Rightarrow> None
           | Some (ret2, s1) \<Rightarrow> Some (if ret2 < 0 then ret2 else 0, s1))"

definition put_page_ref :: "ptr \<Rightarrow> 'k efs \<Rightarrow> 'k efs" where
  "put_page_ref page s = upd_page page (\<lambda>p. p\<lparr>pg_count := pg_count p - 1\<rparr>) s"

definition put_io_page :: "'k blk \<Rightarrow> ptr \<Rightarrow> 'k efs \<Rightarrow> 'k efs" where
  "put_io_page B iop s0 =
     (let n = iop_count (f_io_pages s0 iop) - 1;
          s1 = s0\<lparr>f_io_pages := (f_io_pages s0)(iop := (f_io_pages s0 iop)\<lparr>iop_count := n\<rparr>)\<rparr>
      in if n = 0 then
           let page = iop_page (f_io_pages s1 iop)
           in free_io_page_memory B iop (put_page_ref page (end_page_writeback B page s1))
         else s1)"

definition ext4_free_io_end :: "'k blk \<Rightarrow> ptr \<Rightarrow> 'k efs \<Rightarrow> fault + 'k efs" where
  "ext4_free_io_end B io s0 =
     (if io = NULL then Inl BUG
      else
        let page = io_page (f_ios s0 io);
            s1 = (if page \<noteq> NULL then put_page_ref page s0 else s0);
            s2 = foldl (\<lambda>s iop. put_io_page B iop s) s1 (io_pages (f_ios s1 io));
            s3 = upd_io io (\<lambda>i. i\<lparr>io_pages := []\<rparr>) s2;
            inode = io_inode (f_ios s3 io);
            n = i_ioend_count (f_inodes s3 inode) - 1;
            s4 = upd_einode inode (\<lambda>i. i\<lparr>i_ioend_count := n\<rparr>) s3;
            s5 = (if n = 0 then wake_up_ioend B inode s4 else s4)
        in Inr (free_io_end_memory B io s5))"

definition ext4_end_io_buffer_write :: "'k blk \<Rightarrow> ptr \<Rightarrow> bool \<Rightarrow> 'k efs \<Rightarrow> fault + 'k efs" where
  "ext4_end_io_buffer_write B bh uptodate s0 =
     (let io = b_private (f_bhs s0 bh); uninit = b_uninit (f_bhs s0 bh);
          s1 = upd_bh bh (\<lambda>b. b\<lparr>b_uninit := False\<rparr>) s0;
          out = (\<lambda>s. Inr (end_buffer_async_write B bh uptodate
                   (upd_bh bh (\<lambda>b. b\<lparr>b_private := NULL, b_end_io := False, b_uninit := False\<rparr>) s)))
      in if \<not> uninit \<or> io = NULL then out s1
         else if \<not> sb_active B s1 then and_then (ext4_free_io_end B io s1) out
         else
           let inode = io_inode (f_ios s1 io);
               s2 = (if \<not> io_unwritten (f_ios s1 io) then
                       upd_einode inode (\<lambda>i. i\<lparr>i_aiodio_unwritten := i_aiodio_unwritten i + 1\<rparr>)
                         (upd_io io (\<lambda>i. i\<lparr>io_unwritten := True\<rparr>) s1)
                     else s1);
               s3 = upd_einode inode (\<lambda>i. i\<lparr>i_completed_io := i_completed_io i @ [io]\<rparr>) s2
           in out (queue_io_work B io s3))"

section \<open>Writing a page\<close>

definition journalled_buffers ::
  "'k jbd2 \<Rightarrow> econf \<Rightarrow> ptr \<Rightarrow> ptr list \<Rightarrow> u32 \<Rightarrow> 'k efs \<Rightarrow> fault + int \<times> 'k efs" where
  "journalled_buffers K C handle bufs len s =
     and_then (walk_page_buffers bufs 0 len (do_journal_get_write_access K C handle) s) (\<lambda>(ret, s1).
     and_then (walk_page_buffers bufs 0 len (write_end_fn K C handle) s1) (\<lambda>(err, s2).
       Inr (if ret = 0 then err else ret, s2)))"

definition adafs_journalled_writepage ::
  "'k jbd2 \<Rightarrow> econf \<Rightarrow> ptr \<Rightarrow> ptr \<Rightarrow> u32 \<Rightarrow> 'k efs \<Rightarrow> fault + int \<times> 'k efs" where
  "adafs_journalled_writepage K C handle page len s0 =
     (let inode = pg_inode (f_pages s0 page);
          s1 = upd_page page (\<lambda>p. p\<lparr>pg_checked := False\<rparr>) s0
      in and_then (page_buffers page s1) (\<lambda>bufs.
         and_then (walk_page_buffers bufs 0 len bget_one s1) (\<lambda>(_, s2).
           let s3 = upd_page page (\<lambda>p. p\<lparr>pg_locked := False\<rparr>) s2
           in if \<not> ext4_handle_valid handle then Inl BUG
              else
                and_then (journalled_buffers K C handle bufs len s3) (\<lambda>(ret, s4).
                and_then (walk_page_buffers bufs 0 len bput_one s4) (\<lambda>(_, s5).
                  Inr (ret, upd_einode inode (\<lambda>i. i\<lparr>i_jdata_state := True\<rparr>) s5))))))"

definition redirty_page :: "'k blk \<Rightarrow> ptr \<Rightarrow> 'k efs \<Rightarrow> fault + int \<times> 'k efs" where
  "redirty_page B page s =
     Inr (- EIO, upd_page page (\<lambda>p. p\<lparr>pg_locked := False\<rparr>) (redirty_page_for_writepage B page s))"

definition write_mapped ::
  "'k jbd2 \<Rightarrow> 'k blk \<Rightarrow> econf \<Rightarrow> ptr \<Rightarrow> ptr \<Rightarrow> ptr list \<Rightarrow> u32 \<Rightarrow> 'k efs \<Rightarrow> fault + int \<times> 'k efs" where
  "write_mapped K B C handle page bufs len s =
     (let inode = pg_inode (f_pages s page)
      in and_then
           (if pg_checked (f_pages s page) then ext4_should_journal_data C (f_inodes s inode)
            else Inr False)
           (\<lambda>journalled.
              if journalled then adafs_journalled_writepage K C handle page len s
              else if b_uninit (f_bhs s (hd bufs)) then
                returns (case ext4_set_bh_endio B (hd bufs) inode s of
                           None \<Rightarrow> None
                         | Some (_, s1) \<Rightarrow> Some (Inr (block_write_full_page_endio B page s1)))
              else Inr (block_write_full_page B page s)))"

definition adafs_writepage ::
  "'k jbd2 \<Rightarrow> 'k blk \<Rightarrow> econf \<Rightarrow> ptr \<Rightarrow> ptr \<Rightarrow> u32 \<Rightarrow> 'k efs \<Rightarrow> fault + int \<times> 'k efs" where
  "adafs_writepage K B C handle page len s0 =
     (let (failed, commit_write, s1) =
        (if pg_bufs (f_pages s0 page) = [] then
           let (err, s) = block_write_begin B page len s0
           in if err \<noteq> 0 then (True, False, s) else (False, True, s)
         else (False, False, s0))
      in if failed then redirty_page B page s1
         else
           and_then (page_buffers page s1) (\<lambda>bufs.
           and_then (walk_page_buffers bufs 0 len ext4_bh_delay_or_unwritten s1) (\<lambda>(unmapped, s2).
             if unmapped \<noteq> 0 then redirty_page B page s2
             else write_mapped K B C handle page bufs len
                    (if commit_write then block_commit_write B page len s2 else s2))))"

section \<open>Transactions and commits\<close>

definition adafs_sync_file ::
  "'k jbd2 \<Rightarrow> 'k blk \<Rightarrow> econf \<Rightarrow> ptr \<Rightarrow> u32 \<Rightarrow> 'k efs \<Rightarrow> fault + int \<times> 'k efs" where
  "adafs_sync_file K B C inode commit_tid s0 =
     (if ext4_journal_current_handle s0 \<noteq> NULL then Inl BUG
      else if f_rdonly s0 then Inr (0, s0)
      else
        case ext4_flush_completed_IO B inode s0 of
          None \<Rightarrow> Inl HANG
        | Some (ret, s1) \<Rightarrow>
            if ret < 0 then Inr (ret, s1)
            else if s_journal C = NULL then Inl BUG
            else
              and_then (ext4_should_journal_data C (f_inodes s1 inode)) (\<lambda>journalled.
                if journalled then Inr (ext4_force_commit K C s1)
                else
                  let needs_barrier = (j_barrier B s1 \<and> \<not> trans_will_send_data_barrier B commit_tid s1);
                      (ret, s2) = log_wait_commit B commit_tid (log_start_commit B commit_tid s1)
                  in Inr (ret, if needs_barrier then blkdev_issue_flush B s2 else s2)))"

definition adafs_trans_begin ::
  "'k jbd2 \<Rightarrow> econf \<Rightarrow> ptr \<Rightarrow> int \<Rightarrow> 'k efs \<Rightarrow> fault + ptr \<times> 'k efs" where
  "adafs_trans_begin K C inode nles s =
     (let blocks_per_page = jbd2_journal_blocks_per_page K inode;
          nblocks = wrap_int (nles * blocks_per_page)
      in ext4_journal_start K C nblocks s)"

definition adafs_entry_flush ::
  "'k jbd2 \<Rightarrow> 'k blk \<Rightarrow> econf \<Rightarrow> ptr \<Rightarrow> log_entry \<Rightarrow> 'k efs \<Rightarrow> fault + int \<times> 'k efs" where
  "adafs_entry_flush K B C handle le s =
     adafs_writepage K B C handle (le_page le) (ucast (le_len le)) s"

definition adafs_trans_end :: "'k jbd2 \<Rightarrow> econf \<Rightarrow> ptr \<Rightarrow> 'k efs \<Rightarrow> fault + int \<times> 'k efs" where
  "adafs_trans_end K C handle s =
     (if \<not> ext4_handle_valid handle then Inl BUG
      else ext4_journal_stop K C ''adafs_trans_end'' 207 handle s)"

definition adafs_wait_sync ::
  "'k jbd2 \<Rightarrow> 'k blk \<Rightarrow> econf \<Rightarrow> ptr \<Rightarrow> u32 \<Rightarrow> 'k efs \<Rightarrow> fault + int \<times> 'k efs" where
  "adafs_wait_sync K B C inode commit_tid s = adafs_sync_file K B C inode commit_tid s"

definition adafs_fops :: "'k jbd2 \<Rightarrow> 'k blk \<Rightarrow> econf \<Rightarrow> 'k efs flush_operations" where
  "adafs_fops K B C =
     \<lparr>trans_begin = Some (adafs_trans_begin K C), entry_flush = Some (adafs_entry_flush K B C),
      trans_end = Some (adafs_trans_end K C), wait_sync = Some (adafs_wait_sync K B C)\<rparr>"

section \<open>The file system's own write path\<close>

definition ext4_journalled_writepage ::
  "'k jbd2 \<Rightarrow> 'k blk \<Rightarrow> econf \<Rightarrow> ptr \<Rightarrow> u32 \<Rightarrow> 'k efs \<Rightarrow> fault + int \<times> 'k efs" where
  "ext4_journalled_writepage K B C page len s0 =
     (let inode = pg_inode (f_pages s0 page);
          s1 = upd_page page (\<lambda>p. p\<lparr>pg_checked := False\<rparr>) s0
      in and_then (page_buffers page s1) (\<lambda>bufs.
         and_then (walk_page_buffers bufs 0 len bget_one s1) (\<lambda>(_, s2).
           let s3 = upd_page page (\<lambda>p. p\<lparr>pg_locked := False\<rparr>) s2
           in and_then (ext4_journal_start K C (ext4_writepage_trans_blocks B inode) s3) (\<lambda>(handle, s4).
                if ERR_PTR (- 4095) \<le> handle then Inr (sint handle, s4)
                else if \<not> ext4_handle_valid handle then Inl BUG
                else
                  and_then (journalled_buffers K C handle bufs len s4) (\<lambda>(ret, s5).
                  and_then (ext4_journal_stop K C ''__ext4_journalled_writepage'' 2604 handle s5) (\<lambda>(err, s6).
                  and_then (walk_page_buffers bufs 0 len bput_one s6) (\<lambda>(_, s7).
                    Inr (if ret = 0 then err else ret,
                         upd_einode inode (\<lambda>i. i\<lparr>i_jdata_state := True\<rparr>) s7))))))))"

definition page_len :: "u64 \<Rightarrow> u64 \<Rightarrow> u32" where
  "page_len index sz =
     (if index = drop_bit PAGE_CACHE_SHIFT sz
      then ucast (sz AND (PAGE_CACHE_SIZE - 1)) else ucast PAGE_CACHE_SIZE)"

definition ext4_writepage ::
  "'k jbd2 \<Rightarrow> 'k blk \<Rightarrow> econf \<Rightarrow> (ptr \<Rightarrow> inode) \<Rightarrow> (ptr \<Rightarrow> u64) \<Rightarrow> ptr \<Rightarrow> 'k efs \<Rightarrow> fault + int \<times> 'k efs" where
  "ext4_writepage K B C vfs_inode i_size_read page s0 =
     (let inode = pg_inode (f_pages s0 page);
          unlock_page = (\<lambda>page. upd_page page (\<lambda>p. p\<lparr>pg_locked := False\<rparr>));
          (cut, s1) = adafs_writepage_cut (redirty_page_for_writepage B) unlock_page
                        (vfs_inode inode) page s0
      in if cut \<noteq> 0 then Inr (0, s1)
         else
           let len = page_len (pg_index (f_pages s1 page)) (i_size_read inode);
               redirty = (\<lambda>s. Inr (0, unlock_page page (redirty_page_for_writepage B page s)));
               (failed, commit_write, s2) =
                 (if pg_bufs (f_pages s1 page) = [] then
                    let (err, s) = block_write_begin B page len s1
                    in if err \<noteq> 0 then (True, False, s) else (False, True, s)
                  else (False, False, s1))
           in if failed then redirty s2
              else
                and_then (page_buffers page s2) (\<lambda>bufs.
                and_then (walk_page_buffers bufs 0 len ext4_bh_delay_or_unwritten s2) (\<lambda>(unmapped, s3).
                  if unmapped \<noteq> 0 then redirty s3
                  else
                    let s4 = (if commit_write then block_commit_write B page len s3 else s3)
                    in and_then
                         (if pg_checked (f_pages s4 page)
                          then ext4_should_journal_data C (f_inodes s4 inode) else Inr False)
                         (\<lambda>journalled.
                            if journalled then ext4_journalled_writepage K B C page len s4
                            else if b_uninit (f_bhs s4 (hd bufs)) then
                              returns (case ext4_set_bh_endio B (hd bufs) inode s4 of
                                         None \<Rightarrow> None
                                       | Some (_, s5) \<Rightarrow> Some (Inr (block_write_full_page_endio B page s5)))
                            else Inr (block_write_full_page B page s4)))))"

text \<open>The parents of a new file: the entry's parent inode, if any, is what \<open>parent_of\<close> gives;
  \<open>sync_mapping\<close> and \<open>sync_inode\<close> write its buffers and itself.\<close>

partial_function (option) ext4_sync_parent ::
  "(ptr \<Rightarrow> ptr option) \<Rightarrow> (ptr \<Rightarrow> 'k efs \<Rightarrow> int \<times> 'k efs) \<Rightarrow> (ptr \<Rightarrow> 'k efs \<Rightarrow> int \<times> 'k efs) \<Rightarrow>
   ptr \<Rightarrow> int \<Rightarrow> 'k efs \<Rightarrow> (int \<times> 'k efs) option" where
  "ext4_sync_parent parent_of sync_mapping sync_inode inode ret s0 =
     (if inode \<noteq> NULL \<and> i_newentry (f_inodes s0 inode) then
        let s1 = upd_einode inode (\<lambda>i. i\<lparr>i_newentry := False\<rparr>) s0
        in case parent_of inode of
             None \<Rightarrow> Some (ret, s1)
           | Some parent \<Rightarrow>
               let (ret1, s2) = sync_mapping parent s1
               in if ret1 \<noteq> 0 then Some (ret1, s2)
                  else
                    let (ret2, s3) = sync_inode parent s2
                    in if ret2 \<noteq> 0 then Some (ret2, s3)
                       else ext4_sync_parent parent_of sync_mapping sync_inode parent ret2 s3
      else Some (ret, s0))"

definition ext4_sync_file ::
  "'k jbd2 \<Rightarrow> 'k blk \<Rightarrow> econf \<Rightarrow> (ptr \<Rightarrow> inode) \<Rightarrow> (bool \<Rightarrow> 'k efs \<Rightarrow> int \<times> 'k efs) \<Rightarrow>
   (ptr \<Rightarrow> int \<Rightarrow> 'k efs \<Rightarrow> (int \<times> 'k efs) option) \<Rightarrow> bool \<Rightarrow> ptr \<Rightarrow> bool \<Rightarrow> 'k efs \<Rightarrow>
   fault + int \<times> 'k efs" where
  "ext4_sync_file K B C vfs_inode generic_file_fsync sync_parent has_dentry inode datasync s0 =
     (if ext4_journal_current_handle s0 \<noteq> NULL then Inl BUG
      else if adafs_sync_file_cut (vfs_inode inode) \<noteq> 0 then Inr (0, s0)
      else if f_rdonly s0 then Inr (0, s0)
      else
        case ext4_flush_completed_IO B inode s0 of
          None \<Rightarrow> Inl HANG
        | Some (ret, s1) \<Rightarrow>
            if ret < 0 then Inr (ret, s1)
            else if s_journal C = NULL then
              let (ret, s2) = generic_file_fsync datasync s1
              in if ret = 0 \<and> has_dentry
                 then returns (map_option Inr (sync_parent inode ret s2))
                 else Inr (ret, s2)
            else
              and_then (ext4_should_journal_data C (f_inodes s1 inode)) (\<lambda>journalled.
                if journalled then Inr (ext4_force_commit K C s1)
                else
                  let tid = (if datasync then i_datasync_tid (f_inodes s1 inode)
                             else i_sync_tid (f_inodes s1 inode));
                      needs_barrier = (j_barrier B s1 \<and> \<not> trans_will_send_data_barrier B tid s1);
                      (ret, s2) = log_wait_commit B tid (log_start_commit B tid s1)
                  in Inr (ret, if needs_barrier then blkdev_issue_flush B s2 else s2)))"

section \<open>Buffer walks\<close>

text \<open>The buffers that a walk hands to its callback.\<close>

fun selected :: "u32 \<Rightarrow> u32 \<Rightarrow> u32 \<Rightarrow> ptr list \<Rightarrow> u32 \<Rightarrow> ptr list" where
  "selected blocksize from to [] block_start = []"
| "selected blocksize from to (bh # rest) block_start =
     (if block_start + blocksize \<le> from \<or> block_start \<ge> to
      then selected blocksize from to rest (block_start + blocksize)
      else bh # selected blocksize from to rest (block_start + blocksize))"

lemma walk_total_callback:
  assumes "\<And>b s. fn b s = Inr (0, g b s)"
  shows "\<exists>p. walk_buffers fn bs from to bufs start partial s =
           Inr ((0, p), foldl (\<lambda>s b. g b s) s (selected bs from to bufs start))"
proof (induction bufs arbitrary: start partial s)
  case (Cons b bufs)
  then show ?case by (simp add: Let_def assms)
qed simp

lemma walk_page_total:
  assumes "\<And>b s. fn b s = Inr (0, g b s)"
  shows "walk_page_buffers bufs from to fn s =
           Inr (0, foldl (\<lambda>s b. g b s) s (selected (b_size (f_bhs s (hd bufs))) from to bufs 0))"
  using walk_total_callback [of fn g "b_size (f_bhs s (hd bufs))" "from" to bufs 0 None s] assms
  by (auto simp: walk_page_buffers_def)

lemma walk_search:
  assumes "\<And>b s. fn b s = Inr (if P (f_bhs s b) then 1 else 0, s)"
  shows "\<exists>p. walk_buffers fn bs from to bufs start partial s =
           Inr ((if \<exists>b \<in> set (selected bs from to bufs start). P (f_bhs s b) then 1 else 0, p), s)"
proof (induction bufs arbitrary: start partial)
  case (Cons b bufs)
  then show ?case by (auto simp: Let_def assms)
qed simp

lemma delay_walk:
  "walk_page_buffers bufs from to ext4_bh_delay_or_unwritten s =
     Inr (if \<exists>b \<in> set (selected (b_size (f_bhs s (hd bufs))) from to bufs 0).
               (b_delay (f_bhs s b) \<or> b_unwritten (f_bhs s b)) \<and> b_dirty (f_bhs s b) then 1 else 0, s)"
  using walk_search [of ext4_bh_delay_or_unwritten
      "\<lambda>b. (b_delay b \<or> b_unwritten b) \<and> b_dirty b" "b_size (f_bhs s (hd bufs))" "from" to bufs 0 None s]
  by (auto simp: walk_page_buffers_def ext4_bh_delay_or_unwritten_def Let_def)

lemma foldl_count:
  "b_count (f_bhs (foldl (\<lambda>s b. upd_bh b (\<lambda>h. h\<lparr>b_count := b_count h + k\<rparr>) s) s bs) b) =
     b_count (f_bhs s b) + k * int (count_list bs b)"
  by (induction bs arbitrary: s) (simp_all add: upd_bh_def algebra_simps)

lemma foldl_size:
  "b_size (f_bhs (foldl (\<lambda>s b. upd_bh b (\<lambda>h. h\<lparr>b_count := b_count h + k\<rparr>) s) s bs) b) =
     b_size (f_bhs s b)"
  by (induction bs arbitrary: s) (simp_all add: upd_bh_def)

lemma bget_walk:
  "walk_page_buffers bufs from to bget_one s =
     Inr (0, foldl (\<lambda>s b. upd_bh b (\<lambda>h. h\<lparr>b_count := b_count h + 1\<rparr>) s) s
            (selected (b_size (f_bhs s (hd bufs))) from to bufs 0))"
  using walk_page_total [of bget_one "\<lambda>b s. upd_bh b (\<lambda>h. h\<lparr>b_count := b_count h + 1\<rparr>) s"]
  by (simp add: bget_one_def)

lemma bput_walk:
  "walk_page_buffers bufs from to bput_one s =
     Inr (0, foldl (\<lambda>s b. upd_bh b (\<lambda>h. h\<lparr>b_count := b_count h + (- 1)\<rparr>) s) s
            (selected (b_size (f_bhs s (hd bufs))) from to bufs 0))"
  using walk_page_total [of bput_one "\<lambda>b s. upd_bh b (\<lambda>h. h\<lparr>b_count := b_count h + (- 1)\<rparr>) s"]
  by (simp add: bput_one_def)

section \<open>References of the buffers\<close>

text \<open>The journal may take references of its own on a buffer, but it never changes its size.\<close>

definition keeps_size :: "('k efs \<Rightarrow> 'k efs) \<Rightarrow> bool" where
  "keeps_size f \<longleftrightarrow> (\<forall>s b. b_size (f_bhs (f s) b) = b_size (f_bhs s b))"

definition journal_law :: "'k jbd2 \<Rightarrow> bool" where
  "journal_law K \<longleftrightarrow>
     (\<forall>h b. keeps_size (\<lambda>s. snd (jbd2_journal_get_write_access K h b s))) \<and>
     (\<forall>h b. keeps_size (\<lambda>s. snd (jbd2_journal_dirty_metadata K h b s))) \<and>
     (\<forall>h. keeps_size (jbd2_journal_abort_handle K h))"

lemma upd_size [simp]:
  "b_size (f_bhs (upd_handle p f s) b) = b_size (f_bhs s b)"
  "b_size (f_bhs (upd_page p g s) b) = b_size (f_bhs s b)"
  "b_size (f_bhs (upd_einode p i s) b) = b_size (f_bhs s b)"
  "b_count (f_bhs (upd_page p g s) b) = b_count (f_bhs s b)"
  "b_count (f_bhs (upd_einode p i s) b) = b_count (f_bhs s b)"
  by (simp_all add: upd_handle_def upd_page_def upd_einode_def)

lemma abort_on_size:
  assumes "journal_law K" and "abort_on K handle (e, s) = Inr (err, s')"
  shows "b_size (f_bhs s' b) = b_size (f_bhs s b)"
  using assms
  by (auto simp: abort_on_def Let_def and_then_Inr ext4_journal_abort_handle_def journal_law_def
      keeps_size_def split: if_splits)

lemma get_write_access_size:
  assumes "journal_law K" and "ext4_journal_get_write_access K handle bh s = Inr (err, s')"
  shows "b_size (f_bhs s' b) = b_size (f_bhs s b)"
  using assms abort_on_size [OF assms(1), of handle "fst (jbd2_journal_get_write_access K handle bh s)"
      "snd (jbd2_journal_get_write_access K handle bh s)" err s' b]
  by (auto simp: ext4_journal_get_write_access_def journal_law_def keeps_size_def split: if_splits)

lemma dirty_metadata_size:
  assumes "journal_law K" and "ext4_handle_valid handle"
    and "ext4_handle_dirty_metadata K C w l handle inode bh s = Inr (err, s')"
  shows "b_size (f_bhs s' b) = b_size (f_bhs s b)"
  using assms abort_on_size [OF assms(1), of handle "fst (jbd2_journal_dirty_metadata K handle bh s)"
      "snd (jbd2_journal_dirty_metadata K handle bh s)" err s' b]
  by (auto simp: ext4_handle_dirty_metadata_def journal_law_def keeps_size_def)

lemma upd_bh_size:
  assumes "\<And>h. b_size (f h) = b_size h"
  shows "b_size (f_bhs (upd_bh p f s) b) = b_size (f_bhs s b)"
  using assms by (simp add: upd_bh_def)

lemma write_access_size:
  assumes "journal_law K" and "ext4_handle_valid handle"
    and "do_journal_get_write_access K C handle bh s = Inr (err, s')"
  shows "b_size (f_bhs s' b) = b_size (f_bhs s b)"
proof (cases "\<not> b_mapped (f_bhs s bh) \<or> b_freed (f_bhs s bh)")
  case True
  then show ?thesis using assms(3) by (simp add: do_journal_get_write_access_def Let_def)
next
  case False
  define s1 where "s1 = (if b_dirty (f_bhs s bh) then upd_bh bh (\<lambda>b. b\<lparr>b_dirty := False\<rparr>) s else s)"
  have s1: "b_size (f_bhs s1 b) = b_size (f_bhs s b)" for b
    by (simp add: s1_def upd_bh_size)
  obtain r s2 where a: "ext4_journal_get_write_access K handle bh s1 = Inr (r, s2)"
    and rest: "(if r = 0 \<and> b_dirty (f_bhs s bh)
       then ext4_handle_dirty_metadata K C ''do_journal_get_write_access'' 1603 handle NULL bh s2
       else Inr (r, s2)) = Inr (err, s')"
    using assms(3) False
    by (auto simp: do_journal_get_write_access_def Let_def s1_def [symmetric] and_then_Inr)
  have "b_size (f_bhs s' b) = b_size (f_bhs s2 b)"
    using rest dirty_metadata_size [OF assms(1,2)] by (auto split: if_splits)
  then show ?thesis
    using get_write_access_size [OF assms(1) a] s1 by simp
qed

lemma write_end_size:
  assumes "journal_law K" and "ext4_handle_valid handle"
    and "write_end_fn K C handle bh s = Inr (err, s')"
  shows "b_size (f_bhs s' b) = b_size (f_bhs s b)"
  using assms(3) dirty_metadata_size [OF assms(1,2), of C "''write_end_fn''" 1711 NULL bh
      "upd_bh bh (\<lambda>b. b\<lparr>b_uptodate := True\<rparr>) s" err s' b]
  by (auto simp: write_end_fn_def upd_bh_size split: if_splits)

lemma walk_size:
  assumes "\<And>bh s err s'. fn bh s = Inr (err, s') \<Longrightarrow> b_size (f_bhs s' b) = b_size (f_bhs s b)"
    and "walk_buffers fn bs from to bufs start partial s = Inr (r, s')"
  shows "b_size (f_bhs s' b) = b_size (f_bhs s b)"
  using assms(2)
proof (induction bufs arbitrary: start partial s)
  case (Cons bh bufs)
  show ?case
  proof (cases "start + bs \<le> from \<or> start \<ge> to")
    case True
    then show ?thesis using Cons by (simp add: Let_def)
  next
    case False
    then obtain err s1 where f: "fn bh s = Inr (err, s1)"
      and "(if err \<noteq> 0 then Inr ((err, partial), s1)
            else walk_buffers fn bs from to bufs (start + bs) partial s1) = Inr (r, s')"
      using Cons.prems by (auto simp: Let_def and_then_Inr)
    then have "b_size (f_bhs s' b) = b_size (f_bhs s1 b)"
      using Cons.IH by (auto split: if_splits)
    then show ?thesis using assms(1) [OF f] by simp
  qed
qed simp

lemma walk_page_size:
  assumes "\<And>bh s err s'. fn bh s = Inr (err, s') \<Longrightarrow> b_size (f_bhs s' b) = b_size (f_bhs s b)"
    and "walk_page_buffers bufs from to fn s = Inr (r, s')"
  shows "b_size (f_bhs s' b) = b_size (f_bhs s b)"
  using assms(2) walk_size [OF assms(1)]
  by (auto simp: walk_page_buffers_def and_then_Inr)

lemma journalled_buffers_size:
  assumes "journal_law K" and "ext4_handle_valid handle"
    and "journalled_buffers K C handle bufs len s = Inr (ret, s')"
  shows "b_size (f_bhs s' b) = b_size (f_bhs s b)"
proof -
  obtain r1 s1 r2 where
    a: "walk_page_buffers bufs 0 len (do_journal_get_write_access K C handle) s = Inr (r1, s1)"
    and b: "walk_page_buffers bufs 0 len (write_end_fn K C handle) s1 = Inr (r2, s')"
    using assms(3) by (auto simp: journalled_buffers_def and_then_Inr)
  show ?thesis
    using walk_page_size [OF write_access_size [OF assms(1,2)] a]
      walk_page_size [OF write_end_size [OF assms(1,2)] b] by simp
qed

text \<open>Writing a page through the journal leaves each buffer with the references it had, plus those
  that the journal itself took: the references that protect the buffers after the page is unlocked
  are all dropped, also when a step of the walk fails half-way.\<close>

lemma journalled_refs:
  assumes "journal_law K"
    and "adafs_journalled_writepage K C handle page len s = Inr (ret, s')"
  shows "\<exists>bufs s3 s4. pg_bufs (f_pages s page) = bufs \<and> bufs \<noteq> [] \<and>
           journalled_buffers K C handle bufs len s3 = Inr (ret, s4) \<and>
           (\<forall>b. b_count (f_bhs s3 b) = b_count (f_bhs s b) +
              int (count_list (selected (b_size (f_bhs s (hd bufs))) 0 len bufs 0) b)) \<and>
           (\<forall>b. b_count (f_bhs s' b) - b_count (f_bhs s b) =
              b_count (f_bhs s4 b) - b_count (f_bhs s3 b))"
proof -
  define s1 where "s1 = upd_page page (\<lambda>p. p\<lparr>pg_checked := False\<rparr>) s"
  define bufs where "bufs = pg_bufs (f_pages s page)"
  define sel where "sel = selected (b_size (f_bhs s (hd bufs))) 0 len bufs 0"
  define s2 where "s2 = foldl (\<lambda>s b. upd_bh b (\<lambda>h. h\<lparr>b_count := b_count h + 1\<rparr>) s) s1 sel"
  define s3 where "s3 = upd_page page (\<lambda>p. p\<lparr>pg_locked := False\<rparr>) s2"
  have bufs1: "pg_bufs (f_pages s1 page) = bufs" by (simp add: s1_def bufs_def upd_page_def)
  have ne: "bufs \<noteq> []" and valid: "ext4_handle_valid handle"
    using assms(2) bufs1
    by (auto simp: adafs_journalled_writepage_def s1_def [symmetric] Let_def page_buffers_def
        bget_walk split: if_splits)
  have sel1: "selected (b_size (f_bhs s1 (hd bufs))) 0 len bufs 0 = sel"
    by (simp add: sel_def s1_def)
  obtain s4 where j: "journalled_buffers K C handle bufs len s3 = Inr (ret, s4)"
    and s': "s' = upd_einode (pg_inode (f_pages s page)) (\<lambda>i. i\<lparr>i_jdata_state := True\<rparr>)
       (foldl (\<lambda>s b. upd_bh b (\<lambda>h. h\<lparr>b_count := b_count h + (- 1)\<rparr>) s) s4
         (selected (b_size (f_bhs s4 (hd bufs))) 0 len bufs 0))"
    using assms(2) bufs1 ne valid sel1
    by (auto simp: adafs_journalled_writepage_def s1_def [symmetric] Let_def page_buffers_def
        bget_walk bput_walk s2_def [symmetric] s3_def [symmetric] and_then_Inr)
  have c3: "b_count (f_bhs s3 b) = b_count (f_bhs s b) + int (count_list sel b)" for b
    by (simp add: s3_def s2_def foldl_count s1_def)
  have "b_size (f_bhs s4 (hd bufs)) = b_size (f_bhs s (hd bufs))"
    using journalled_buffers_size [OF assms(1) valid j] by (simp add: s3_def s2_def foldl_size s1_def)
  then have "b_count (f_bhs s' b) = b_count (f_bhs s4 b) - int (count_list sel b)" for b
    unfolding s' upd_size foldl_count sel_def by simp
  then have fin: "b_count (f_bhs s' b) - b_count (f_bhs s b) = b_count (f_bhs s4 b) - b_count (f_bhs s3 b)" for b
    by (simp add: c3)
  show ?thesis
    using j c3 fin ne unfolding sel_def bufs_def by blast
qed

end
