(* ===== verification/Ext4_Correct.thy ===== *)
theory Ext4_Correct
  imports Ext4_Adafs Flush_Correct
begin

text \<open>
  What the log sees of ext4: when a flush can succeed at all, which pages are refused, and when
  waiting for a commit returns.
\<close>

section \<open>Completed I/O is converted\<close>

text \<open>What the conversion relies on: it succeeds and leaves the lists of completed I/O alone.\<close>

definition completed_kept :: "('k efs \<Rightarrow> 'k efs) \<Rightarrow> bool" where
  "completed_kept f \<longleftrightarrow> (\<forall>s i. i_completed_io (f_inodes (f s) i) = i_completed_io (f_inodes s i))"

definition conversion_works :: "'k blk \<Rightarrow> bool" where
  "conversion_works B \<longleftrightarrow>
     (\<forall>i o' z s. 0 \<le> fst (ext4_convert_unwritten_extents B i o' z s)) \<and>
     (\<forall>i o' z. completed_kept (\<lambda>s. snd (ext4_convert_unwritten_extents B i o' z s))) \<and>
     (\<forall>io. completed_kept (aio_complete B io)) \<and> (\<forall>i. completed_kept (wake_up_ioend B i))"

lemma upd_completed [simp]:
  "i_completed_io (f_inodes (upd_io p f s) i) = i_completed_io (f_inodes s i)"
  "i_completed_io (f_inodes (upd_einode p (\<lambda>i. i\<lparr>i_aiodio_unwritten := n\<rparr>) s) i) = i_completed_io (f_inodes s i)"
  by (simp_all add: upd_io_def upd_einode_def)

lemma end_io_nolock_works:
  assumes "conversion_works B" and "ext4_end_io_nolock B io s = (ret, s')"
  shows "0 \<le> ret" and "i_completed_io (f_inodes s' i) = i_completed_io (f_inodes s i)"
proof -
  let ?c = "ext4_convert_unwritten_extents B (io_inode (f_ios s io)) (io_offset (f_ios s io))
              (io_size (f_ios s io)) s"
  have c: "0 \<le> fst ?c" "\<And>j. i_completed_io (f_inodes (snd ?c) j) = i_completed_io (f_inodes s j)"
    "\<And>t j. i_completed_io (f_inodes (aio_complete B io t) j) = i_completed_io (f_inodes t j)"
    "\<And>t j k. i_completed_io (f_inodes (wake_up_ioend B k t) j) = i_completed_io (f_inodes t j)"
    using assms(1) by (simp_all add: conversion_works_def completed_kept_def)
  show "0 \<le> ret"
    using assms(2) c(1)
    by (cases ?c) (auto simp: ext4_end_io_nolock_def Let_def split: if_splits)
  show "i_completed_io (f_inodes s' i) = i_completed_io (f_inodes s i)"
    using assms(2) c
    by (cases ?c) (auto simp: ext4_end_io_nolock_def Let_def split: if_splits)
qed

lemma completed_loop_works:
  assumes "conversion_works B"
  shows "\<exists>s'. completed_loop B inode r s = Some (r, s') \<and> i_completed_io (f_inodes s' inode) = []"
proof (induction "length (i_completed_io (f_inodes s inode))" arbitrary: s)
  case 0
  then show ?case by (simp add: completed_loop.simps)
next
  case (Suc n)
  then obtain io ios where l: "i_completed_io (f_inodes s inode) = io # ios" "n = length ios"
    by (cases "i_completed_io (f_inodes s inode)") auto
  obtain ret s1 where e: "ext4_end_io_nolock B io s = (ret, s1)" by fastforce
  let ?s2 = "upd_einode inode (\<lambda>i. i\<lparr>i_completed_io := remove1 io (i_completed_io i)\<rparr>) s1"
  have "i_completed_io (f_inodes ?s2 inode) = ios"
    using end_io_nolock_works(2) [OF assms e] l by (simp add: upd_einode_def)
  then obtain s' where "completed_loop B inode r ?s2 = Some (r, s')" "i_completed_io (f_inodes s' inode) = []"
    using Suc.hyps(1) [of ?s2] l(2) by auto
  then show ?case
    using l e end_io_nolock_works(1) [OF assms e]
    by (subst completed_loop.simps) (simp add: Let_def)
qed

text \<open>A record at the head whose conversion keeps failing.\<close>

definition stuck :: "'k blk \<Rightarrow> ptr \<Rightarrow> 'k efs \<Rightarrow> bool" where
  "stuck B inode s \<longleftrightarrow>
     (\<exists>io ios. i_completed_io (f_inodes s inode) = io # ios \<and> io_inode (f_ios s io) = inode \<and>
        io_unwritten (f_ios s io))"

definition conversion_fails :: "'k blk \<Rightarrow> bool" where
  "conversion_fails B \<longleftrightarrow>
     (\<forall>i o' z s. fst (ext4_convert_unwritten_extents B i o' z s) < 0 \<and>
        f_inodes (snd (ext4_convert_unwritten_extents B i o' z s)) = f_inodes s \<and>
        f_ios (snd (ext4_convert_unwritten_extents B i o' z s)) = f_ios s)"

lemma end_io_nolock_stuck:
  assumes "conversion_fails B" and "stuck B inode s"
    and "i_completed_io (f_inodes s inode) = io # ios" and "ext4_end_io_nolock B io s = (ret, s')"
  shows "ret < 0" and "stuck B inode s'"
proof -
  let ?c = "ext4_convert_unwritten_extents B inode (io_offset (f_ios s io)) (io_size (f_ios s io)) s"
  have c: "fst ?c < 0" "f_inodes (snd ?c) = f_inodes s" "f_ios (snd ?c) = f_ios s"
    using assms(1) by (simp_all add: conversion_fails_def)
  have io: "io_inode (f_ios s io) = inode" "io_unwritten (f_ios s io)"
    using assms(2,3) by (auto simp: stuck_def)
  have "(ret, s') = ?c"
    using assms(3,4) c io by (cases ?c) (simp add: ext4_end_io_nolock_def Let_def)
  then have r: "ret = fst ?c" "s' = snd ?c" by (metis fst_conv, metis snd_conv)
  show "ret < 0" using c(1) r(1) by simp
  show "stuck B inode s'" using assms(2) c unfolding r stuck_def by simp
qed

lemma completed_loop_hangs:
  assumes "conversion_fails B" and "stuck B inode s"
  shows "completed_loop B inode r s = None"
proof (rule ccontr)
  assume "completed_loop B inode r s \<noteq> None"
  then obtain y where y: "completed_loop B inode r s = Some y" by auto
  have "conversion_fails B \<longrightarrow> \<not> stuck B inode s"
  proof (rule completed_loop.raw_induct [OF _ y], intro impI notI)
    fix loop B inode r s y
    assume IH: "\<And>B inode r s y. loop B inode r s = Some y \<Longrightarrow> conversion_fails B \<longrightarrow> \<not> stuck B inode s"
      and body: "(case i_completed_io (f_inodes s inode) of
           [] \<Rightarrow> Some (r, s)
         | io # _ \<Rightarrow>
             let (ret, s1) = ext4_end_io_nolock B io s
             in if ret < 0 then loop B inode ret s1
                else loop B inode r
                       (upd_einode inode (\<lambda>i. i\<lparr>i_completed_io := remove1 io (i_completed_io i)\<rparr>) s1)) =
           Some y"
      and cf: "conversion_fails B" and st: "stuck B inode s"
    obtain io ios where l: "i_completed_io (f_inodes s inode) = io # ios"
      using st by (auto simp: stuck_def)
    obtain ret s1 where e: "ext4_end_io_nolock B io s = (ret, s1)" by fastforce
    have "loop B inode ret s1 = Some y"
      using body l e end_io_nolock_stuck(1) [OF cf st l e] by simp
    then show False
      using IH cf end_io_nolock_stuck(2) [OF cf st l e] by blast
  qed
  then show False using assms by blast
qed

section \<open>Faults of a flush\<close>

lemma err_ptr_rofs: "ERR_PTR (- 4095) \<le> ERR_PTR (- EROFS)"
  by (simp add: ERR_PTR_def)

lemma trans_begin_rdonly:
  assumes "f_rdonly s"
  shows "adafs_trans_begin K C inode nles s = Inr (ERR_PTR (- EROFS), s)"
  using assms
  by (simp add: adafs_trans_begin_def ext4_journal_start_def ext4_journal_start_sb_def Let_def)

lemma trans_begin_nojournal:
  assumes "\<not> f_rdonly s" and "s_journal C = NULL" and "f_journal_info s = NULL"
    and "f_journal_info (vfs_check_frozen K s) = NULL"
  shows "adafs_trans_begin K C inode nles s =
           Inr (1, (vfs_check_frozen K s)\<lparr>f_journal_info := 1\<rparr>)"
  using assms
  by (simp add: adafs_trans_begin_def ext4_journal_start_def ext4_journal_start_sb_def Let_def
      ext4_journal_current_handle_def ext4_get_nojournal_def EXT4_NOJOURNAL_MAX_REF_COUNT_def)

lemma trans_end_nojournal: "adafs_trans_end K C 1 s = Inl BUG"
  by (simp add: adafs_trans_end_def ext4_handle_valid_def EXT4_NOJOURNAL_MAX_REF_COUNT_def)

text \<open>C12. AdaFS needs a writable ext4 with a journal.  On a file system that is read-only, be it
  mounted so or turned so after an error, the transaction that a flush begins is an error pointer;
  without a journal it is a counter that ending the transaction rejects.  In both cases no group of
  log entries can be flushed: \<open>flush_group\<close> always ends in a fault.\<close>

theorem flush_needs_journal:
  assumes "f_rdonly (s_dev st) \<or> s_journal C = NULL"
    and "f_journal_info (s_dev st) = NULL"
    and "f_journal_info (vfs_check_frozen K (s_dev st)) = NULL"
    and "\<forall>p. IS_ERR Kl p \<longleftrightarrow> ERR_PTR (- 4095) \<le> p"
  shows "\<exists>f. flush_group Kl (adafs_fops K B C) st b e = Inl f"
proof (cases "flush_group Kl (adafs_fops K B C) st b e")
  case (Inr r)
  let ?ops = "adafs_fops K B C"
  obtain inode nles handle d1 d2 err d3 where
    start: "do_trans_begin ?ops inode nles (s_dev st) = Inr (handle, d1)"
    and ok: "\<not> IS_ERR Kl handle" "handle \<noteq> NULL"
    and ending: "do_trans_end ?ops handle d2 = Inr (err, d3)"
    using Inr
    by (auto simp: flush_group_def Let_def and_then_Inr split: option.splits if_splits prod.splits)
  have "adafs_trans_begin K C inode nles (s_dev st) = Inr (handle, d1)"
    using start ok(2) by (auto simp: do_trans_begin_def adafs_fops_def split: if_splits)
  then have "handle = 1"
    using assms ok(1) err_ptr_rofs trans_begin_rdonly [of "s_dev st" K C inode nles]
      trans_begin_nojournal [of "s_dev st" C K inode nles]
    by (cases "f_rdonly (s_dev st)") auto
  then show ?thesis
    using ending trans_end_nojournal [of K C d2] by (simp add: do_trans_end_def adafs_fops_def)
qed blast

text \<open>C13. A page that still waits for its blocks is not written: when a buffer under the logged
  length is dirty and delayed or unwritten, handing the entry to ext4 returns \<open>-EIO\<close> and does
  nothing but mark the page dirty again and unlock it.\<close>

theorem delayed_page_refused:
  assumes "handle \<noteq> NULL" and "r_pages rs (le_page le) \<noteq> None"
    and "\<not> PageWriteback Kl (le_page le) (lock_page Kl (le_page le) d)"
    and "pg_bufs (f_pages (lock_page Kl (le_page le) d) (le_page le)) = bufs" and "bufs \<noteq> []"
    and "b \<in> set (selected (b_size (f_bhs (lock_page Kl (le_page le) d) (hd bufs))) 0
                   (ucast (le_len le)) bufs 0)"
    and "b_delay (f_bhs (lock_page Kl (le_page le) d) b) \<or>
         b_unwritten (f_bhs (lock_page Kl (le_page le) d) b)"
    and "b_dirty (f_bhs (lock_page Kl (le_page le) d) b)"
  shows "do_le_flush Kl (adafs_fops K B C) handle le rs d =
           Inr (- EIO, upd_page (le_page le) (\<lambda>p. p\<lparr>pg_locked := False\<rparr>)
             (redirty_page_for_writepage B (le_page le) (lock_page Kl (le_page le) d)))"
proof -
  let ?p = "le_page le" let ?s = "lock_page Kl (le_page le) d"
  have "walk_page_buffers bufs 0 (ucast (le_len le)) ext4_bh_delay_or_unwritten ?s = Inr (1, ?s)"
    using assms(6-8) unfolding delay_walk by auto
  then have "adafs_writepage K B C handle ?p (ucast (le_len le)) ?s = redirty_page B ?p ?s"
    using assms(4,5) by (simp add: adafs_writepage_def page_buffers_def)
  then show ?thesis
    using assms(1-3)
    by (simp add: do_le_flush_def adafs_fops_def adafs_entry_flush_def Let_def redirty_page_def)
qed

text \<open>C15. Waiting for completed I/O: if converting unwritten extents works, \<open>ext4_flush_completed_IO\<close>
  returns 0 with the list of the inode empty.  If the conversion of the first record keeps failing,
  the record stays at the head of the list and the loop never returns, so neither does the
  \<open>wait_sync\<close> of a flush.\<close>

theorem completed_io_returns:
  "(conversion_works B \<longrightarrow>
      (\<exists>s'. ext4_flush_completed_IO B inode s = Some (0, s') \<and>
            i_completed_io (f_inodes s' inode) = [])) \<and>
   (conversion_fails B \<and> stuck B inode s \<and> ext4_journal_current_handle s = NULL \<and> \<not> f_rdonly s \<longrightarrow>
      do_wait_sync (adafs_fops K B C) inode tid s = Inl HANG)"
proof (intro conjI impI)
  assume "conversion_works B"
  then show "\<exists>s'. ext4_flush_completed_IO B inode s = Some (0, s') \<and>
      i_completed_io (f_inodes s' inode) = []"
    using completed_loop_works [of B inode 0 s] by (auto simp: ext4_flush_completed_IO_def)
next
  assume a: "conversion_fails B \<and> stuck B inode s \<and> ext4_journal_current_handle s = NULL \<and> \<not> f_rdonly s"
  then have "ext4_flush_completed_IO B inode s = None"
    using completed_loop_hangs [of B inode s 0]
    by (auto simp: ext4_flush_completed_IO_def stuck_def)
  then show "do_wait_sync (adafs_fops K B C) inode tid s = Inl HANG"
    using a by (simp add: do_wait_sync_def adafs_fops_def adafs_wait_sync_def adafs_sync_file_def)
qed

section \<open>Examples\<close>

text \<open>A journal and a block layer that always succeed, or whose conversion returns \<open>conv\<close>.\<close>

definition ex_jbd2 :: "unit jbd2" where
  "ex_jbd2 = \<lparr>jbd2_journal_start = (\<lambda>_ s. (8192, s)), jbd2_journal_stop = (\<lambda>_ s. (0, s)),
     jbd2_journal_get_write_access = (\<lambda>_ _ s. (0, s)), jbd2_journal_get_create_access = (\<lambda>_ _ s. (0, s)),
     jbd2_journal_dirty_metadata = (\<lambda>_ _ s. (0, s)), jbd2_journal_forget = (\<lambda>_ _ s. (0, s)),
     jbd2_journal_revoke = (\<lambda>_ _ _ s. (0, s)), jbd2_journal_release_buffer = (\<lambda>_ _ s. s),
     jbd2_journal_extend = (\<lambda>_ _ s. (0, s)), jbd2_journal_restart = (\<lambda>_ _ s. (0, s)),
     jbd2_journal_file_inode = (\<lambda>_ _ s. (0, s)), jbd2_journal_force_commit = (\<lambda>s. (0, s)),
     jbd2_journal_abort = (\<lambda>_ s. s), jbd2_journal_abort_handle = (\<lambda>_ s. s),
     jbd2_journal_blocks_per_page = (\<lambda>_. 1), is_journal_aborted = (\<lambda>_. False),
     is_handle_aborted = (\<lambda>_ _. False), vfs_check_frozen = (\<lambda>s. s), get_seconds = (\<lambda>_. 1),
     start_err_report = (\<lambda>s. s), ext4_commit_super = (\<lambda>s. s), bforget = (\<lambda>_ s. s),
     mark_buffer_dirty = (\<lambda>_ s. s), mark_buffer_dirty_inode = (\<lambda>_ _ s. s),
     sync_dirty_buffer = (\<lambda>_ s. s)\<rparr>"

definition ex_blk :: "int \<Rightarrow> unit blk" where
  "ex_blk conv = \<lparr>ext4_convert_unwritten_extents = (\<lambda>_ _ _ s. (conv, s)), aio_complete = (\<lambda>_ s. s),
     wake_up_ioend = (\<lambda>_ s. s), zalloc_io_end = (\<lambda>s. (64, s)), free_io_page_memory = (\<lambda>_ s. s),
     end_page_writeback = (\<lambda>_ s. s), free_io_end_memory = (\<lambda>_ s. s), schedule = (\<lambda>s. s),
     queue_io_work = (\<lambda>_ s. s), sb_active = (\<lambda>_. True), end_buffer_async_write = (\<lambda>_ _ s. s),
     block_write_begin = (\<lambda>_ _ s. (0, s)), block_commit_write = (\<lambda>_ _ s. s),
     block_write_full_page = (\<lambda>_ s. (0, s)), block_write_full_page_endio = (\<lambda>_ s. (0, s)),
     redirty_page_for_writepage = (\<lambda>_ s. s), ext4_writepage_trans_blocks = (\<lambda>_. 1),
     j_barrier = (\<lambda>_. False), trans_will_send_data_barrier = (\<lambda>_ _. False),
     log_start_commit = (\<lambda>_ s. s), log_wait_commit = (\<lambda>_ s. (0, s)), blkdev_issue_flush = (\<lambda>s. s)\<rparr>"

definition ex_conf :: "ptr \<Rightarrow> econf" where
  "ex_conf journal = \<lparr>s_journal = journal, s_sbh = 0, opt_data_flags = ORDERED_DATA, opt_delalloc = True,
     opt_dioread_nolock = False, opt_errors_cont = True, opt_errors_ro = False, opt_errors_panic = False\<rparr>"

text \<open>The page at 4096 has one delayed, dirty buffer, and inode 7 has one unconverted record.\<close>

definition ex_efs :: "unit efs" where
  "ex_efs = (let e = \<lparr>e_time = 0, e_func = [], e_line = 0, e_ino = 0, e_block = 0\<rparr> in
     \<lparr>f_rdonly = False, f_fs_aborted = False, f_mount_state_error = False, f_state_error = False,
      f_dirt = False, f_error_count = 0, f_first_error = e, f_last_error = e, f_journal_info = 0,
      f_handles = (\<lambda>_. \<lparr>h_err = 0, h_sync = False, h_tid = 1, h_buffer_credits = 8\<rparr>),
      f_bhs = (\<lambda>_. \<lparr>b_size = 4096, b_blocknr = 0, b_page = 4096, b_count = 1, b_mapped = True,
        b_freed = False, b_dirty = True, b_uptodate = True, b_delay = True, b_unwritten = False,
        b_uninit = False, b_req = False, b_private = 0, b_end_io = False\<rparr>),
      f_pages = (\<lambda>_. \<lparr>pg_index = 1, pg_inode = 7, pg_count = 1, pg_checked = False, pg_locked = True,
        pg_bufs = [32]\<rparr>),
      f_inodes = (\<lambda>_. \<lparr>i_number = 7, i_isreg = True, i_journal_data = False, i_extents = True,
        i_needs_sync = False, i_jdata_state = False, i_newentry = False, i_sync_tid = 1,
        i_datasync_tid = 1, i_completed_io = [16], i_aiodio_unwritten = 1, i_ioend_count = 1\<rparr>),
      f_ios = (\<lambda>_. \<lparr>io_inode = 7, io_page = 4096, io_offset = 0, io_size = 4096, io_unwritten = True,
        io_iocb = False, io_pages = []\<rparr>),
      f_io_pages = (\<lambda>_. \<lparr>iop_page = 0, iop_count = 1\<rparr>), f_kst = ()\<rparr>)"

definition ex_ekernel :: "unit efs kernel" where
  "ex_ekernel = \<lparr>hash_32 = (\<lambda>_ _. 0), mapping_host = (\<lambda>m. m), IS_ERR = (\<lambda>p. ERR_PTR (- 4095) \<le> p),
     handle_tid = (\<lambda>_ _. 1), lock_page = (\<lambda>_ d. d), PageWriteback = (\<lambda>_ _. False),
     wait_on_page_writeback = (\<lambda>_ d. d)\<rparr>"

definition ex_est :: "unit efs fstate" where
  "ex_est = \<lparr>s_log = s_log (ex_st ex_data), s_stack = [], s_rs = s_rs (ex_st ex_data), s_dev = ex_efs\<rparr>"

theorem flush_needs_journal_witness:
  "\<exists>f. flush_group ex_ekernel (adafs_fops ex_jbd2 (ex_blk 0) (ex_conf NULL)) ex_est 0 1 = Inl f"
  by (rule flush_needs_journal)
     (simp_all add: ex_conf_def ex_est_def ex_efs_def ex_jbd2_def ex_ekernel_def Let_def)

theorem delayed_page_refused_witness:
  "\<exists>d'. do_le_flush ex_ekernel (adafs_fops ex_jbd2 (ex_blk 0) (ex_conf 1024)) 8192 ex_data
          (ex_rs\<lparr>r_pages := [4096 \<mapsto> ex_page]\<rparr>) ex_efs = Inr (- EIO, d') \<and>
        \<not> pg_locked (f_pages d' 4096)"
proof -
  have len: "le_len ex_data = 100" and pg: "le_page ex_data = 4096"
    by (simp_all add: le_len_def le_page_def ex_data_def LE_LEN_MASK_def LE_LEN_SIZE_def LE_FLAG_MASK_def
        PAGE_CACHE_SIZE_def PAGE_CACHE_SHIFT_def LE_FLAGS_SHIFT_def)
  have "do_le_flush ex_ekernel (adafs_fops ex_jbd2 (ex_blk 0) (ex_conf 1024)) 8192 ex_data
      (ex_rs\<lparr>r_pages := [4096 \<mapsto> ex_page]\<rparr>) ex_efs =
    Inr (- EIO, upd_page 4096 (\<lambda>p. p\<lparr>pg_locked := False\<rparr>) ex_efs)"
    using delayed_page_refused [of 8192 "ex_rs\<lparr>r_pages := [4096 \<mapsto> ex_page]\<rparr>" ex_data ex_ekernel
        ex_efs "[32]" 32 ex_jbd2 "ex_blk 0" "ex_conf 1024"]
    by (simp add: pg len ex_ekernel_def ex_efs_def ex_blk_def Let_def)
  then show ?thesis by (simp add: upd_page_def)
qed

theorem completed_io_returns_witness:
  "(\<exists>s'. ext4_flush_completed_IO (ex_blk 0) 7 ex_efs = Some (0, s') \<and>
         i_completed_io (f_inodes s' 7) = []) \<and>
   do_wait_sync (adafs_fops ex_jbd2 (ex_blk (- EIO)) (ex_conf 1024)) 7 1 ex_efs = Inl HANG"
proof -
  have "conversion_works (ex_blk 0)" "conversion_fails (ex_blk (- EIO))"
    "stuck (ex_blk (- EIO)) 7 ex_efs" "ext4_journal_current_handle ex_efs = NULL" "\<not> f_rdonly ex_efs"
    by (simp_all add: conversion_works_def conversion_fails_def completed_kept_def ex_blk_def stuck_def
        ex_efs_def Let_def ext4_journal_current_handle_def)
  then show ?thesis
    using completed_io_returns [of "ex_blk 0" 7 ex_efs ex_jbd2 "ex_conf 1024" 1]
      completed_io_returns [of "ex_blk (- EIO)" 7 ex_efs ex_jbd2 "ex_conf 1024" 1] by blast
qed

section \<open>A flush through ext4\<close>

text \<open>
  The protocol of a flush on the operations of ext4, with a journal whose handle is the current one from the
  start of a transaction to its end, and on a disk on which nothing is delayed.
\<close>

definition ex_journal :: "unit jbd2" where
  "ex_journal = ex_jbd2\<lparr>jbd2_journal_start := (\<lambda>_ s. (8192, s\<lparr>f_journal_info := 8192\<rparr>)),
     jbd2_journal_stop := (\<lambda>_ s. (0, s\<lparr>f_journal_info := NULL\<rparr>))\<rparr>"

definition ex_disk :: "ptr \<Rightarrow> unit efs" where
  "ex_disk handle = ex_efs\<lparr>f_journal_info := handle, f_bhs := (\<lambda>b. (f_bhs ex_efs b)\<lparr>b_delay := False\<rparr>),
     f_inodes := (\<lambda>i. (f_inodes ex_efs i)\<lparr>i_completed_io := []\<rparr>)\<rparr>"

abbreviation ex_ops :: "unit efs flush_operations" where
  "ex_ops \<equiv> adafs_fops ex_journal (ex_blk 0) (ex_conf 1024)"

definition ex_protocol :: "phase \<times> unit efs \<Rightarrow> bool" where
  "ex_protocol c \<longleftrightarrow>
     (case c of (Open inode handle tid, s) \<Rightarrow> handle = 8192 \<and> s = ex_disk 8192 | (_, s) \<Rightarrow> s = ex_disk NULL)"

lemma ex_disk_fields [simp]:
  "\<not> f_rdonly (ex_disk h)" "f_journal_info (ex_disk h) = h" "pg_bufs (f_pages (ex_disk h) p) = [32]"
  "\<not> pg_checked (f_pages (ex_disk h) p)" "\<not> b_delay (f_bhs (ex_disk h) b)" "\<not> b_unwritten (f_bhs (ex_disk h) b)"
  "\<not> b_uninit (f_bhs (ex_disk h) b)" "i_completed_io (f_inodes (ex_disk h) i) = []"
  "i_isreg (f_inodes (ex_disk h) i)" "\<not> i_journal_data (f_inodes (ex_disk h) i)"
  "h_err (f_handles (ex_disk h) p) = 0" "ex_disk h\<lparr>f_journal_info := k\<rparr> = ex_disk k"
  by (simp_all add: ex_disk_def ex_efs_def Let_def)

lemma ex_begin: "0 < n \<Longrightarrow> do_trans_begin ex_ops inode n (ex_disk NULL) = Inr (8192, ex_disk 8192)"
  by (simp add: do_trans_begin_def adafs_fops_def adafs_trans_begin_def ext4_journal_start_def
      ext4_journal_start_sb_def Let_def ext4_journal_current_handle_def)
    (simp add: ex_conf_def ex_journal_def ex_jbd2_def)

lemma ex_entry: "adafs_entry_flush ex_journal (ex_blk 0) (ex_conf 1024) handle le (ex_disk h) = Inr (0, ex_disk h)"
  by (simp add: adafs_entry_flush_def adafs_writepage_def page_buffers_def delay_walk write_mapped_def Let_def)
    (simp add: ex_blk_def)

lemma ex_end_ext4: "do_trans_end ex_ops 8192 (ex_disk 8192) = Inr (0, ex_disk NULL)"
  by (simp add: do_trans_end_def adafs_fops_def adafs_trans_end_def ext4_handle_valid_def
      EXT4_NOJOURNAL_MAX_REF_COUNT_def ext4_journal_stop_def Let_def)
    (simp add: ex_journal_def)

lemma ex_sync: "do_wait_sync ex_ops inode tid (ex_disk NULL) = Inr (0, ex_disk NULL)"
proof -
  have "ext4_should_journal_data (ex_conf 1024) (f_inodes (ex_disk NULL) inode) = Inr False"
    by (simp add: ext4_should_journal_data_def ext4_inode_journal_mode_def)
      (simp add: ex_conf_def EXT4_INODE_ORDERED_DATA_MODE_def EXT4_INODE_JOURNAL_DATA_MODE_def)
  then show ?thesis
    by (simp add: do_wait_sync_def adafs_fops_def adafs_wait_sync_def adafs_sync_file_def
        ext4_journal_current_handle_def ext4_flush_completed_IO_def Let_def)
      (simp add: ex_conf_def ex_blk_def)
qed

lemma ex_ekernel_fields [simp]:
  "lock_page ex_ekernel p d = d" "\<not> PageWriteback ex_ekernel p d" "wait_on_page_writeback ex_ekernel p d = d"
  "\<not> IS_ERR ex_ekernel 8192" "hash_32 ex_ekernel = hash_32 ex_kernel"
  by (simp_all add: ex_ekernel_def ERR_PTR_def ex_kernel_def fun_eq_iff ex_hash_def)

lemma ex_flush_op: "entry_flush ex_ops = Some (adafs_entry_flush ex_journal (ex_blk 0) (ex_conf 1024))"
  by (simp add: adafs_fops_def)

lemma ex_protocol_step: "ex_protocol c \<Longrightarrow> dev_step ex_ekernel ex_ops P c c' \<Longrightarrow> ex_protocol c'"
  by (erule dev_stepE)
    (auto simp: ex_protocol_def ex_begin ex_end_ext4 ex_sync ex_entry ex_flush_op split: phase.splits)

lemma ex_protocol_safe: "ex_protocol c \<Longrightarrow> \<not> dev_fails ex_ekernel ex_ops P c f"
  by (auto elim!: dev_failsE simp: ex_protocol_def ex_begin ex_end_ext4 ex_sync ex_entry ex_flush_op)

theorem log_flush_progress_witness:
  "\<exists>err st'. log_flush ex_ekernel ex_ops (ex_est\<lparr>s_dev := ex_disk NULL\<rparr>) 5 = Inr (err, st') \<and>
     log_inv (s_log st') \<and> l_begin (s_log st') = 1 \<and> rl_look (hash_32 ex_ekernel) (s_rs st') 4096 = None"
proof -
  let ?st = "ex_est\<lparr>s_dev := ex_disk NULL\<rparr>"
  have f: "flushable ex_ekernel ?st 5 0 1 (s_log (ex_st ex_data)\<lparr>l_trans := [new_tran]\<rparr>)"
    using ex_flushable by (simp add: flushable_def ex_est_def ex_st_log(1))
  have safe: "\<not> dev_faults ex_ekernel ex_ops P (Idle, ex_disk NULL) f" for P f
    by (rule dev_safe [of ex_protocol, OF _ ex_protocol_step ex_protocol_safe]) (simp_all add: ex_protocol_def)
  have "4096 \<in> window_pages (s_log ?st) 0 1"
    by (simp add: window_pages_def ex_est_def ex_st_log(3)) (simp add: le_page_def ex_data_def)
  with log_flush_progress [OF f, of ex_ops] safe show ?thesis by (auto split: sum.splits)
qed

end
