(* ===== verification/Btr_Adafs.thy ===== *)
theory Btr_Adafs
  imports Log_Flush
begin

text \<open>
  The stub of AdaFS for btrfs, \<^verbatim>\<open>btrfs/btr-adafs.c\<close>: a transaction that is never begun and entries that
  are never written.  The file is written for an earlier table of operations (its entry function is
  called \<open>ent_flush\<close> and the begin function takes no inode); it is modelled as the table it would be
  today.
\<close>

definition btr_trans_begin :: "int \<Rightarrow> 'd \<Rightarrow> fault + ptr \<times> 'd" where
  "btr_trans_begin npages d = Inr (0, d)"

definition btr_ent_flush :: "ptr \<Rightarrow> log_entry \<Rightarrow> 'd \<Rightarrow> fault + int \<times> 'd" where
  "btr_ent_flush handle le d = Inr (0, d)"

definition btr_trans_end :: "ptr \<Rightarrow> 'd \<Rightarrow> fault + int \<times> 'd" where
  "btr_trans_end handle d = (let err = 0 in Inr (err, d))"

definition btr_fops :: "'d flush_operations" where
  "btr_fops = \<lparr>trans_begin = Some (\<lambda>_. btr_trans_begin), entry_flush = Some btr_ent_flush,
     trans_end = Some btr_trans_end, wait_sync = None\<rparr>"

text \<open>The handle is always null, and \<open>__merge_flush\<close> reads the transaction number through it: with
  this table no group of log entries is ever flushed.\<close>

lemma btr_begin_null: "do_trans_begin btr_fops inode nles d = Inr (NULL, d)"
  by (simp add: do_trans_begin_def btr_fops_def btr_trans_begin_def)

lemma btr_never_flushes: "\<exists>f. flush_group K btr_fops st b e = Inl f"
proof (cases "flush_group K btr_fops st b e")
  case (Inr r)
  then show ?thesis
    by (auto simp: flush_group_def Let_def and_then_Inr btr_begin_null
        split: option.splits if_splits prod.splits)
qed blast

end
