(* ===== verification/Ext4_Hash.thy ===== *)
theory Ext4_Hash
  imports Prelude
begin

text \<open>
  The directory hashes of ext4, \<^verbatim>\<open>ext4/hash.c\<close>: the TEA rounds, the legacy hash, packing a name into
  words and \<open>ext4fs_dirhash\<close>.  A name is a list of bytes; the kernel library function
  \<open>half_md4_transform\<close> is a parameter.  The lemmas show that packing is group-wise, that the signed
  and unsigned versions agree on seven-bit names and that the hash stays clear of the end marker.
\<close>

section \<open>Definitions\<close>

definition DELTA :: u32 where
  "DELTA = 0x9E3779B9"

text \<open>The sixteen rounds; the arguments are the rounds left, the sum and the two halves.\<close>

fun TEA_rounds :: "nat \<Rightarrow> u32 \<Rightarrow> u32 \<Rightarrow> u32 \<Rightarrow> u32 \<Rightarrow> u32 \<Rightarrow> u32 \<Rightarrow> u32 \<Rightarrow> u32 \<times> u32" where
  "TEA_rounds 0 sm b0 b1 a b c d = (b0, b1)"
| "TEA_rounds (Suc n) sm b0 b1 a b c d =
     (let sm1 = sm + DELTA;
          b0' = b0 + ((push_bit 4 b1 + a) XOR (b1 + sm1) XOR (drop_bit 5 b1 + b));
          b1' = b1 + ((push_bit 4 b0' + c) XOR (b0' + sm1) XOR (drop_bit 5 b0' + d))
      in TEA_rounds n sm1 b0' b1' a b c d)"

definition TEA_transform :: "u32 list \<Rightarrow> u32 list \<Rightarrow> u32 list" where
  "TEA_transform buf inp =
     (let (b0, b1) = TEA_rounds 16 0 (buf ! 0) (buf ! 1) (inp ! 0) (inp ! 1) (inp ! 2) (inp ! 3)
      in buf[0 := buf ! 0 + b0, 1 := buf ! 1 + b1])"

text \<open>A byte read as an \<open>unsigned char\<close> and as a \<open>signed char\<close>.\<close>

definition ucp :: "u8 \<Rightarrow> int" where
  "ucp c = uint c"

definition scp :: "u8 \<Rightarrow> int" where
  "scp c = sint c"

fun dx_hack_loop :: "(u8 \<Rightarrow> int) \<Rightarrow> u8 list \<Rightarrow> u32 \<Rightarrow> u32 \<Rightarrow> u32" where
  "dx_hack_loop rd [] hash0 hash1 = push_bit 1 hash0"
| "dx_hack_loop rd (c # cs) hash0 hash1 =
     (let hash = hash1 + (hash0 XOR word_of_int (rd c * 7152373));
          hash' = (if hash AND 0x80000000 \<noteq> 0 then hash - 0x7FFFFFFF else hash)
      in dx_hack_loop rd cs hash' hash0)"

definition dx_hack_hash_unsigned :: "u8 list \<Rightarrow> nat \<Rightarrow> u32" where
  "dx_hack_hash_unsigned name len = dx_hack_loop ucp (take len name) 0x12A3FE2D 0x37ABE8F9"

definition dx_hack_hash_signed :: "u8 list \<Rightarrow> nat \<Rightarrow> u32" where
  "dx_hack_hash_signed name len = dx_hack_loop scp (take len name) 0x12A3FE2D 0x37ABE8F9"

text \<open>The loop over the characters: the index, the word being built, the words left and those
  written.\<close>

fun hashbuf_loop ::
  "(u8 \<Rightarrow> int) \<Rightarrow> u32 \<Rightarrow> u8 list \<Rightarrow> nat \<Rightarrow> u32 \<Rightarrow> int \<Rightarrow> u32 list \<Rightarrow> u32 \<times> int \<times> u32 list" where
  "hashbuf_loop rd pad [] i val num buf = (val, num, buf)"
| "hashbuf_loop rd pad (c # cs) i val num buf =
     (let val0 = (if i mod 4 = 0 then pad else val);
          val1 = word_of_int (rd c) + push_bit 8 val0
      in if i mod 4 = 3 then hashbuf_loop rd pad cs (i + 1) pad (num - 1) (buf @ [val1])
         else hashbuf_loop rd pad cs (i + 1) val1 num buf)"

definition hash_pad :: "nat \<Rightarrow> u32" where
  "hash_pad len =
     (let l = of_nat len :: u32; p = l OR push_bit 8 l in p OR push_bit 16 p)"

definition str2hashbuf :: "(u8 \<Rightarrow> int) \<Rightarrow> u8 list \<Rightarrow> nat \<Rightarrow> nat \<Rightarrow> u32 list" where
  "str2hashbuf rd msg len num =
     (let pad = hash_pad len;
          len' = (if len > num * 4 then num * 4 else len);
          (val, left, buf) = hashbuf_loop rd pad (take len' msg) 0 pad (int num) [];
          buf' = (if left - 1 \<ge> 0 then buf @ [val] else buf)
      in buf' @ replicate (nat (left - 1)) pad)"

definition str2hashbuf_signed :: "u8 list \<Rightarrow> nat \<Rightarrow> nat \<Rightarrow> u32 list" where
  "str2hashbuf_signed msg len num = str2hashbuf scp msg len num"

definition str2hashbuf_unsigned :: "u8 list \<Rightarrow> nat \<Rightarrow> nat \<Rightarrow> u32 list" where
  "str2hashbuf_unsigned msg len num = str2hashbuf ucp msg len num"

definition DX_HASH_LEGACY :: int where "DX_HASH_LEGACY = 0"
definition DX_HASH_HALF_MD4 :: int where "DX_HASH_HALF_MD4 = 1"
definition DX_HASH_TEA :: int where "DX_HASH_TEA = 2"
definition DX_HASH_LEGACY_UNSIGNED :: int where "DX_HASH_LEGACY_UNSIGNED = 3"
definition DX_HASH_HALF_MD4_UNSIGNED :: int where "DX_HASH_HALF_MD4_UNSIGNED = 4"
definition DX_HASH_TEA_UNSIGNED :: int where "DX_HASH_TEA_UNSIGNED = 5"

definition EXT4_HTREE_EOF :: u32 where
  "EXT4_HTREE_EOF = 0x7FFFFFFF"

lemmas dx_hash_versions = DX_HASH_LEGACY_def DX_HASH_HALF_MD4_def DX_HASH_TEA_def
  DX_HASH_LEGACY_UNSIGNED_def DX_HASH_HALF_MD4_UNSIGNED_def DX_HASH_TEA_UNSIGNED_def

record dx_hash_info =
  dx_hash :: u32
  dx_minor_hash :: u32
  dx_hash_version :: int
  dx_seed :: "u32 list option"

definition dirhash_seed :: "dx_hash_info \<Rightarrow> u32 list" where
  "dirhash_seed hinfo =
     (let buf = [0x67452301, 0xEFCDAB89, 0x98BADCFE, 0x10325476]
      in case dx_seed hinfo of
           None \<Rightarrow> buf
         | Some seed \<Rightarrow> if \<exists>i \<in> set [0..<4]. seed ! i \<noteq> 0 then take 4 seed else buf)"

text \<open>The loops over the blocks of the name: \<open>step\<close> characters at a time go through the transform.\<close>

function dirhash_blocks ::
  "(u32 list \<Rightarrow> u32 list \<Rightarrow> u32 list) \<Rightarrow> (u8 list \<Rightarrow> nat \<Rightarrow> nat \<Rightarrow> u32 list) \<Rightarrow> nat \<Rightarrow>
   u8 list \<Rightarrow> int \<Rightarrow> u32 list \<Rightarrow> u32 list" where
  "dirhash_blocks transform s2h words p len buf =
     (if len > 0 \<and> words > 0 then
        dirhash_blocks transform s2h words (drop (4 * words) p) (len - 4 * int words)
          (transform buf (s2h p (nat len) words))
      else buf)"
  by pat_completeness auto
termination
  by (relation "measure (\<lambda>(t, s, w, p, len, b). nat len)") auto

declare dirhash_blocks.simps [simp del]

definition dirhash_fix :: "u32 \<Rightarrow> u32" where
  "dirhash_fix hash =
     (let h = hash AND NOT 1
      in if h = push_bit 1 EXT4_HTREE_EOF then push_bit 1 (EXT4_HTREE_EOF - 1) else h)"

definition ext4fs_dirhash ::
  "(u32 list \<Rightarrow> u32 list \<Rightarrow> u32 list) \<Rightarrow> u8 list \<Rightarrow> nat \<Rightarrow> dx_hash_info \<Rightarrow> int \<times> dx_hash_info" where
  "ext4fs_dirhash half_md4_transform name len hinfo =
     (let seed = dirhash_seed hinfo; v = dx_hash_version hinfo;
          fin = (\<lambda>hash minor. (0, hinfo\<lparr>dx_hash := dirhash_fix hash, dx_minor_hash := minor\<rparr>));
          md4 = (\<lambda>s2h. let buf = dirhash_blocks half_md4_transform s2h 8 name (int len) seed
                       in fin (buf ! 1) (buf ! 2));
          tea = (\<lambda>s2h. let buf = dirhash_blocks TEA_transform s2h 4 name (int len) seed
                       in fin (buf ! 0) (buf ! 1))
      in if v = DX_HASH_LEGACY_UNSIGNED then fin (dx_hack_hash_unsigned name len) 0
         else if v = DX_HASH_LEGACY then fin (dx_hack_hash_signed name len) 0
         else if v = DX_HASH_HALF_MD4_UNSIGNED then md4 str2hashbuf_unsigned
         else if v = DX_HASH_HALF_MD4 then md4 str2hashbuf_signed
         else if v = DX_HASH_TEA_UNSIGNED then tea str2hashbuf_unsigned
         else if v = DX_HASH_TEA then tea str2hashbuf_signed
         else (- 1, hinfo\<lparr>dx_hash := 0\<rparr>))"

section \<open>Filling the hash buffer\<close>

text \<open>The reference: word \<open>k\<close> packs the characters of the \<open>k\<close>-th group of four over the padding.\<close>

definition hash_word :: "(u8 \<Rightarrow> int) \<Rightarrow> u32 \<Rightarrow> u8 list \<Rightarrow> u32" where
  "hash_word rd pad cs = foldl (\<lambda>val c. word_of_int (rd c) + push_bit 8 val) pad cs"

lemma hashbuf_loop_short:
  assumes "i mod 4 = 0" and "length cs < 4"
  shows "hashbuf_loop rd pad cs i pad num buf = (hash_word rd pad cs, num, buf)"
proof -
  have m: "Suc i mod 4 = 1" "Suc (Suc i) mod 4 = 2" using assms(1) by presburger+
  consider "cs = []" | a where "cs = [a]" | a b where "cs = [a, b]" | a b c where "cs = [a, b, c]"
    using assms(2) by (auto simp: less_Suc_eq numeral_eq_Suc length_Suc_conv)
  then show ?thesis
    by cases (simp_all add: assms(1) m hash_word_def Let_def)
qed

lemma hashbuf_loop_four:
  assumes "i mod 4 = 0" and "length cs = 4"
  shows "hashbuf_loop rd pad (cs @ ds) i pad num buf =
           hashbuf_loop rd pad ds (Suc (Suc (Suc (Suc i)))) pad (num - 1) (buf @ [hash_word rd pad cs])"
proof -
  have m: "Suc i mod 4 = 1" "Suc (Suc i) mod 4 = 2" "(3 + i) mod 4 = 3"
    using assms(1) by presburger+
  obtain a b c d where "cs = [a, b, c, d]"
    using assms(2) by (auto simp: numeral_eq_Suc length_Suc_conv)
  then show ?thesis by (simp add: assms(1) m hash_word_def Let_def)
qed

lemma hashbuf_loop_words:
  assumes "i mod 4 = 0" and "length cs \<le> 4 * n"
  shows "(let (val, left, b) = hashbuf_loop rd pad cs i pad (int n) buf;
              b' = (if left - 1 \<ge> 0 then b @ [val] else b)
          in b' @ replicate (nat (left - 1)) pad) =
         buf @ map (\<lambda>k. hash_word rd pad (take 4 (drop (4 * k) cs))) [0..<n]"
  using assms
proof (induction n arbitrary: i cs buf)
  case 0
  then show ?case by simp
next
  case (Suc n)
  have shift: "map (\<lambda>k. hash_word rd pad (take 4 (drop (4 * k) cs))) [0..<Suc n] =
      hash_word rd pad (take 4 cs) #
      map (\<lambda>k. hash_word rd pad (take 4 (drop (4 * k) (drop 4 cs)))) [0..<n]"
    by (simp add: upt_conv_Cons map_Suc_upt [symmetric] add.commute del: upt_Suc)
  show ?case
  proof (cases "length cs < 4")
    case True
    then have "drop 4 cs = []" by simp
    moreover have "map (\<lambda>k. pad) [0..<n] = replicate n pad" by (simp add: map_replicate_const)
    ultimately show ?thesis
      unfolding shift
      by (simp add: hashbuf_loop_short [OF Suc.prems(1) True] hash_word_def True)
  next
    case False
    have "hashbuf_loop rd pad cs i pad (int (Suc n)) buf =
        hashbuf_loop rd pad (drop 4 cs) (Suc (Suc (Suc (Suc i)))) pad (int n) (buf @ [hash_word rd pad (take 4 cs)])"
      using hashbuf_loop_four [OF Suc.prems(1), of "take 4 cs" rd pad "drop 4 cs" "int (Suc n)" buf] False
      by simp
    moreover have "Suc (Suc (Suc (Suc i))) mod 4 = 0" using Suc.prems(1) by presburger
    ultimately show ?thesis
      using Suc.IH [of "Suc (Suc (Suc (Suc i)))" "drop 4 cs" "buf @ [hash_word rd pad (take 4 cs)]"] Suc.prems
      unfolding shift by simp
  qed
qed

lemma str2hashbuf_words:
  "str2hashbuf rd msg len num =
     map (\<lambda>k. hash_word rd (hash_pad len) (take 4 (drop (4 * k) (take (min len (4 * num)) msg)))) [0..<num]"
proof -
  have "(if len > num * 4 then num * 4 else len) = min len (4 * num)" by simp
  then show ?thesis
    using hashbuf_loop_words [of 0 "take (min len (4 * num)) msg" num rd "hash_pad len" "[]"]
    by (simp add: str2hashbuf_def Let_def del: hashbuf_loop.simps)
qed

lemma str2hashbuf_length [simp]: "length (str2hashbuf rd msg len num) = num"
  by (simp add: str2hashbuf_words)

section \<open>Signed and unsigned characters\<close>

text \<open>On names of seven-bit characters both readings agree, so the signed and the unsigned version
  of each hash give the same value.\<close>

definition ascii :: "u8 list \<Rightarrow> bool" where
  "ascii cs \<longleftrightarrow> (\<forall>c \<in> set cs. c < 128)"

lemma scp_ucp: "c < 128 \<Longrightarrow> scp c = ucp c"
proof -
  assume "c < 128"
  then have "uint c < 128" by (simp add: word_less_def)
  moreover have "- 128 \<le> uint c" using uint_ge_0 [of c] by linarith
  ultimately show ?thesis
    using signed_take_bit_int_eq_self [of 7 "uint c"] by (simp add: scp_def ucp_def sint_uint)
qed

lemma dx_hack_loop_ascii: "ascii cs \<Longrightarrow> dx_hack_loop scp cs h0 h1 = dx_hack_loop ucp cs h0 h1"
  by (induction cs arbitrary: h0 h1) (simp_all add: ascii_def scp_ucp)

lemma hash_word_ascii: "ascii cs \<Longrightarrow> hash_word scp pad cs = hash_word ucp pad cs"
  unfolding hash_word_def
  by (induction cs arbitrary: pad) (simp_all add: ascii_def scp_ucp)

lemma ascii_take_drop: "ascii cs \<Longrightarrow> ascii (take n cs)" "ascii cs \<Longrightarrow> ascii (drop n cs)"
  by (auto simp: ascii_def dest: in_set_takeD in_set_dropD)

lemma str2hashbuf_ascii: "ascii msg \<Longrightarrow> str2hashbuf scp msg len num = str2hashbuf ucp msg len num"
  by (simp add: str2hashbuf_words hash_word_ascii ascii_take_drop)

lemma dirhash_blocks_cong:
  assumes "\<And>p n. ascii p \<Longrightarrow> f p n w = g p n w" and "ascii p"
  shows "dirhash_blocks t f w p len buf = dirhash_blocks t g w p len buf"
  using assms(2)
proof (induction "nat len" arbitrary: p len buf rule: less_induct)
  case less
  show ?case
  proof (cases "len > 0 \<and> w > 0")
    case True
    then have "dirhash_blocks t f w (drop (4 * w) p) (len - 4 * int w) (t buf (f p (nat len) w)) =
        dirhash_blocks t g w (drop (4 * w) p) (len - 4 * int w) (t buf (f p (nat len) w))"
      using less by (intro less.hyps) (auto intro: ascii_take_drop)
    then show ?thesis
      using True assms(1) [OF less.prems]
      by (simp add: dirhash_blocks.simps [of _ _ _ p])
  next
    case False
    then show ?thesis by (subst (1 2) dirhash_blocks.simps) auto
  qed
qed

text \<open>The unsigned version of a hash.\<close>

definition unsigned_version :: "int \<Rightarrow> int" where
  "unsigned_version v =
     (if v = DX_HASH_LEGACY then DX_HASH_LEGACY_UNSIGNED
      else if v = DX_HASH_HALF_MD4 then DX_HASH_HALF_MD4_UNSIGNED
      else if v = DX_HASH_TEA then DX_HASH_TEA_UNSIGNED else v)"

lemma dirhash_ascii:
  assumes "ascii name"
  shows "ext4fs_dirhash md4 name len (hinfo\<lparr>dx_hash_version := unsigned_version v\<rparr>) =
           (let (r, h) = ext4fs_dirhash md4 name len (hinfo\<lparr>dx_hash_version := v\<rparr>)
            in (r, h\<lparr>dx_hash_version := unsigned_version v\<rparr>))"
proof -
  have l: "dx_hack_hash_signed name len = dx_hack_hash_unsigned name len"
    using dx_hack_loop_ascii [OF ascii_take_drop(1) [OF assms]]
    by (simp add: dx_hack_hash_signed_def dx_hack_hash_unsigned_def)
  have b: "dirhash_blocks t str2hashbuf_signed w name n buf =
      dirhash_blocks t str2hashbuf_unsigned w name n buf" for t w n buf
    using assms
    by (intro dirhash_blocks_cong) (simp_all add: str2hashbuf_signed_def str2hashbuf_unsigned_def str2hashbuf_ascii)
  have s: "dirhash_seed (hinfo\<lparr>dx_hash_version := u\<rparr>) = dirhash_seed hinfo" for u
    by (simp add: dirhash_seed_def)
  show ?thesis
    by (simp add: ext4fs_dirhash_def Let_def s l b unsigned_version_def dx_hash_versions)
qed

section \<open>The range of the hash\<close>

lemma dirhash_fix_range:
  "dirhash_fix h AND 1 = 0" "dirhash_fix h \<le> 0xFFFFFFFC"
proof -
  let ?m = "h AND NOT 1"
  have even: "?m AND 1 = 0" by (simp add: and.assoc)
  show "dirhash_fix h AND 1 = 0"
    using even by (simp add: dirhash_fix_def Let_def EXT4_HTREE_EOF_def)
  show "dirhash_fix h \<le> 0xFFFFFFFC"
  proof (cases "?m = 0xFFFFFFFE")
    case True
    then show ?thesis by (simp add: dirhash_fix_def Let_def EXT4_HTREE_EOF_def)
  next
    case False
    have "?m \<noteq> 0xFFFFFFFF" "?m \<noteq> 0xFFFFFFFD" using even by auto
    moreover have "uint ?m < 2 ^ 32" using unsigned_less [of ?m] by simp
    ultimately have "uint ?m \<le> 0xFFFFFFFC"
      using False by (simp add: word_uint_eq_iff)
    then show ?thesis
      using False by (simp add: dirhash_fix_def Let_def EXT4_HTREE_EOF_def word_le_def)
  qed
qed

text \<open>C30. The hash of a name never collides with the end marker of a directory: for every supported
  version \<open>ext4fs_dirhash\<close> returns 0 with an even hash below \<open>EXT4_HTREE_EOF << 1\<close>, whatever the
  name, its length and the seed, and with a minor hash of 0 for the 32-bit versions; for any other
  version it returns -1 and the hash 0.  On seven-bit names the signed and the unsigned version of
  a hash agree.\<close>

theorem dirhash_range:
  "(case ext4fs_dirhash md4 name len hinfo of (r, h) \<Rightarrow>
      (if dx_hash_version hinfo \<in> {0..5}
       then r = 0 \<and> dx_hash h AND 1 = 0 \<and> dx_hash h < push_bit 1 EXT4_HTREE_EOF \<and>
            (dx_hash_version hinfo \<in> {0, 3} \<longrightarrow> dx_minor_hash h = 0)
       else r = - 1 \<and> dx_hash h = 0)) \<and>
   (ascii name \<longrightarrow>
      dx_hash (snd (ext4fs_dirhash md4 name len (hinfo\<lparr>dx_hash_version := unsigned_version v\<rparr>))) =
      dx_hash (snd (ext4fs_dirhash md4 name len (hinfo\<lparr>dx_hash_version := v\<rparr>))))"
proof (intro conjI impI)
  have lt: "dirhash_fix h < push_bit 1 EXT4_HTREE_EOF" for h
    using dirhash_fix_range(2) [of h] by (simp add: EXT4_HTREE_EOF_def word_le_def word_less_def)
  have v: "dx_hash_version hinfo \<in> {0..5} \<longleftrightarrow> dx_hash_version hinfo \<in> {0, 1, 2, 3, 4, 5}" by auto
  show "case ext4fs_dirhash md4 name len hinfo of (r, h) \<Rightarrow>
      (if dx_hash_version hinfo \<in> {0..5}
       then r = 0 \<and> dx_hash h AND 1 = 0 \<and> dx_hash h < push_bit 1 EXT4_HTREE_EOF \<and>
            (dx_hash_version hinfo \<in> {0, 3} \<longrightarrow> dx_minor_hash h = 0)
       else r = - 1 \<and> dx_hash h = 0)"
    unfolding v using lt dirhash_fix_range(1)
    by (auto simp: ext4fs_dirhash_def Let_def dx_hash_versions)
next
  assume "ascii name"
  then show "dx_hash (snd (ext4fs_dirhash md4 name len (hinfo\<lparr>dx_hash_version := unsigned_version v\<rparr>))) =
      dx_hash (snd (ext4fs_dirhash md4 name len (hinfo\<lparr>dx_hash_version := v\<rparr>)))"
    by (simp add: dirhash_ascii split_def Let_def)
qed

theorem dirhash_range_witness:
  "dx_hash (snd (ext4fs_dirhash (\<lambda>b _. b) [102, 111, 111] 3
     \<lparr>dx_hash = 0, dx_minor_hash = 0, dx_hash_version = 2, dx_seed = None\<rparr>)) < push_bit 1 EXT4_HTREE_EOF \<and>
   dx_hash (snd (ext4fs_dirhash (\<lambda>b _. b) [102, 111, 111] 3
     \<lparr>dx_hash = 0, dx_minor_hash = 0, dx_hash_version = 5, dx_seed = None\<rparr>)) =
   dx_hash (snd (ext4fs_dirhash (\<lambda>b _. b) [102, 111, 111] 3
     \<lparr>dx_hash = 0, dx_minor_hash = 0, dx_hash_version = 2, dx_seed = None\<rparr>))"
proof -
  let ?i = "\<lparr>dx_hash = 0, dx_minor_hash = 0, dx_hash_version = 2, dx_seed = None\<rparr>"
  have a: "ascii [102, 111, 111]" by (simp add: ascii_def)
  have u: "unsigned_version 2 = 5" by (simp add: unsigned_version_def dx_hash_versions)
  show ?thesis
    using dirhash_range [of ?i "\<lambda>b _. b" "[102, 111, 111]" 3 2] a
    by (simp add: u split_def)
qed

end
