(* ===== verification/Rb_Tree.thy ===== *)
theory Rb_Tree
  imports Prelude "HOL-Library.Tree"
begin

text \<open>
  The balanced trees of the kernel as ext4 and btrfs use them: the kernel library gives rebalancing,
  erasing and the neighbours of a node, which are parameters with the law they are documented to
  obey; the walk from the root and the place where a new node is linked are loops of the file
  systems and are defined here once for all of them.
\<close>

declare set_inorder [simp del]

section \<open>The kernel's tree functions\<close>

record rb =
  rb_insert_color :: "ptr tree \<Rightarrow> ptr tree"
  rb_erase :: "ptr \<Rightarrow> ptr tree \<Rightarrow> ptr tree"
  rb_next :: "ptr \<Rightarrow> ptr tree \<Rightarrow> ptr option"
  rb_prev :: "ptr \<Rightarrow> ptr tree \<Rightarrow> ptr option"

text \<open>What the functions promise, in terms of the nodes in order: rebalancing keeps the order,
  erasing takes one node out, and the neighbours are those in the order.\<close>

definition rb_law :: "rb \<Rightarrow> bool" where
  "rb_law R \<longleftrightarrow>
     (\<forall>t. inorder (rb_insert_color R t) = inorder t) \<and>
     (\<forall>p t. distinct (inorder t) \<longrightarrow> inorder (rb_erase R p t) = remove1 p (inorder t)) \<and>
     (\<forall>p t as bs. distinct (inorder t) \<longrightarrow> inorder t = as @ p # bs \<longrightarrow>
        rb_next R p t = (if bs = [] then None else Some (hd bs)) \<and>
        rb_prev R p t = (if as = [] then None else Some (last as)))"

lemma rb_insert_inorder: "rb_law R \<Longrightarrow> inorder (rb_insert_color R t) = inorder t"
  by (simp add: rb_law_def)

lemma rb_erase_inorder:
  assumes "rb_law R" and "inorder t = as @ p # bs" and "distinct (inorder t)"
  shows "inorder (rb_erase R p t) = as @ bs"
  using assms by (auto simp: rb_law_def remove1_append)

lemma rb_neighbours:
  assumes "rb_law R" and "inorder t = as @ p # bs" and "distinct (inorder t)"
  shows "rb_next R p t = (if bs = [] then None else Some (hd bs))"
    and "rb_prev R p t = (if as = [] then None else Some (last as))"
  using assms unfolding rb_law_def by blast+

section \<open>Searching and linking\<close>

text \<open>The loops that walk down from the root: at each node a test says where to go.\<close>

datatype dir = Left | Right | Here

fun rb_descend :: "(ptr \<Rightarrow> dir) \<Rightarrow> ptr tree \<Rightarrow> ptr option" where
  "rb_descend test \<langle>\<rangle> = None"
| "rb_descend test \<langle>l, n, r\<rangle> =
     (case test n of Left \<Rightarrow> rb_descend test l | Right \<Rightarrow> rb_descend test r | Here \<Rightarrow> Some n)"

text \<open>\<open>rb_link_node\<close> at the empty place that such a walk reaches.\<close>

fun rb_link :: "(ptr \<Rightarrow> dir) \<Rightarrow> ptr \<Rightarrow> ptr tree \<Rightarrow> ptr tree" where
  "rb_link test new \<langle>\<rangle> = \<langle>\<langle>\<rangle>, new, \<langle>\<rangle>\<rangle>"
| "rb_link test new \<langle>l, n, r\<rangle> =
     (case test n of Left \<Rightarrow> \<langle>rb_link test new l, n, r\<rangle> | Right \<Rightarrow> \<langle>l, n, rb_link test new r\<rangle>
      | Here \<Rightarrow> \<langle>l, n, r\<rangle>)"

text \<open>A test agrees with an order of the nodes: first those left behind, then at most one hit, then
  those ahead.\<close>

definition splits_at :: "(ptr \<Rightarrow> dir) \<Rightarrow> ptr list \<Rightarrow> ptr option \<Rightarrow> ptr list \<Rightarrow> ptr list \<Rightarrow> bool" where
  "splits_at test as m bs ps \<longleftrightarrow>
     ps = as @ (case m of None \<Rightarrow> [] | Some p \<Rightarrow> [p]) @ bs \<and>
     (\<forall>a \<in> set as. test a = Right) \<and> (\<forall>b \<in> set bs. test b = Left) \<and>
     (\<forall>p. m = Some p \<longrightarrow> test p = Here)"

lemma Cons_split_right:
  assumes "xs @ n # ys = k @ bs" and "n \<notin> set k"
  shows "\<exists>us. bs = us @ n # ys \<and> xs = k @ us"
  using assms by (auto simp: append_eq_append_conv2 Cons_eq_append_conv)

lemma Cons_split_left:
  assumes "xs @ n # ys = as @ k" and "n \<notin> set k"
  shows "\<exists>us. as = xs @ n # us \<and> ys = us @ k"
  using assms by (auto simp: append_eq_append_conv2 Cons_eq_append_conv)

definition hit :: "ptr option \<Rightarrow> ptr list" where
  "hit m = (case m of None \<Rightarrow> [] | Some p \<Rightarrow> [p])"

lemma hit_simps [simp]: "hit None = []" "hit (Some p) = [p]"
  by (simp_all add: hit_def)

lemma splits_Left:
  assumes "splits_at test as m bs (xs @ n # ys)" and "test n = Left"
  shows "\<exists>bs1. bs = bs1 @ n # ys \<and> splits_at test as m bs1 xs"
proof -
  have e: "xs @ n # ys = (as @ hit m) @ bs" and k: "n \<notin> set (as @ hit m)"
    using assms by (cases m; auto simp: splits_at_def)+
  obtain us where "bs = us @ n # ys" "xs = (as @ hit m) @ us"
    using Cons_split_right [OF e k] by auto
  then show ?thesis
    using assms(1) by (intro exI [of _ us]) (auto simp: splits_at_def hit_def)
qed

lemma splits_Right:
  assumes "splits_at test as m bs (xs @ n # ys)" and "test n = Right"
  shows "\<exists>as2. as = xs @ n # as2 \<and> splits_at test as2 m bs ys"
proof -
  have e: "xs @ n # ys = as @ (hit m @ bs)" and k: "n \<notin> set (hit m @ bs)"
    using assms by (cases m; auto simp: splits_at_def)+
  obtain us where "as = xs @ n # us" "ys = us @ hit m @ bs"
    using Cons_split_left [OF e k] by auto
  then show ?thesis
    using assms(1) by (intro exI [of _ us]) (auto simp: splits_at_def hit_def)
qed

text \<open>A test that turns left once it has not turned right fits every order it is monotone along.\<close>

lemma prefix_split: "\<exists>as rest. ps = as @ rest \<and> (\<forall>a \<in> set as. P a) \<and> (rest = [] \<or> \<not> P (hd rest))"
proof (induction ps)
  case (Cons p ps)
  then obtain as rest where "ps = as @ rest" "\<forall>a \<in> set as. P a" "rest = [] \<or> \<not> P (hd rest)" by blast
  then show ?case
  proof (cases "P p")
    case True
    then show ?thesis
      using \<open>ps = as @ rest\<close> \<open>\<forall>a \<in> set as. P a\<close> \<open>rest = [] \<or> \<not> P (hd rest)\<close>
      by (intro exI [of _ "p # as"] exI [of _ rest]) simp
  next
    case False
    then show ?thesis by (intro exI [of _ "[]"] exI [of _ "p # ps"]) simp
  qed
qed simp

lemma splits_exists:
  assumes "sorted_wrt (\<lambda>p q. test p \<noteq> Right \<longrightarrow> test q = Left) ps"
  shows "\<exists>as m bs. splits_at test as m bs ps"
proof -
  obtain as rest where e: "ps = as @ rest" "\<forall>a \<in> set as. test a = Right"
    "rest = [] \<or> test (hd rest) \<noteq> Right"
    using prefix_split [of ps "\<lambda>p. test p = Right"] by blast
  show ?thesis
  proof (cases rest)
    case Nil
    then have "splits_at test as None [] ps" using e by (simp add: splits_at_def)
    then show ?thesis by blast
  next
    case (Cons q qs)
    have q: "test q \<noteq> Right" and qs: "\<forall>b \<in> set qs. test b = Left"
      using e Cons assms by (auto simp: sorted_wrt_append)
    then have "splits_at test as (Some q) qs ps \<or> splits_at test as None (q # qs) ps"
      using e(1,2) Cons by (cases "test q") (auto simp: splits_at_def)
    then show ?thesis by blast
  qed
qed

lemma rb_descend_split:
  assumes "splits_at test as m bs (inorder t)"
  shows "rb_descend test t = m"
  using assms
proof (induction t arbitrary: as bs)
  case Leaf
  then show ?case by (auto simp: splits_at_def split: option.splits)
next
  case (Node l n r)
  show ?case
  proof (cases "test n")
    case Left
    then show ?thesis using splits_Left [of test as m bs "inorder l" n "inorder r"] Node by auto
  next
    case Right
    then show ?thesis using splits_Right [of test as m bs "inorder l" n "inorder r"] Node by auto
  next
    case Here
    have "inorder l @ n # inorder r = as @ hit m @ bs"
      using Node.prems by (simp add: splits_at_def hit_def)
    then have "n \<in> set (as @ hit m @ bs)" by (metis in_set_conv_decomp)
    then have "m = Some n"
      using Node.prems Here by (cases m) (auto simp: splits_at_def)
    then show ?thesis using Here by simp
  qed
qed

lemma rb_link_split:
  assumes "splits_at test as None bs (inorder t)"
  shows "inorder (rb_link test new t) = as @ new # bs"
  using assms
proof (induction t arbitrary: as bs)
  case Leaf
  then show ?case by (simp add: splits_at_def)
next
  case (Node l n r)
  show ?case
  proof (cases "test n")
    case Left
    then show ?thesis using splits_Left [of test as None bs "inorder l" n "inorder r"] Node by auto
  next
    case Right
    then show ?thesis using splits_Right [of test as None bs "inorder l" n "inorder r"] Node by auto
  next
    case Here
    have "inorder l @ n # inorder r = as @ bs" using Node.prems by (simp add: splits_at_def)
    then have "n \<in> set (as @ bs)" by (metis in_set_conv_decomp)
    then show ?thesis using Node.prems Here by (auto simp: splits_at_def)
  qed
qed

text \<open>An instance that satisfies the law: no rebalancing, and erasing rebuilds the tree.\<close>

fun chain :: "ptr list \<Rightarrow> ptr tree" where
  "chain [] = \<langle>\<rangle>"
| "chain (p # ps) = \<langle>\<langle>\<rangle>, p, chain ps\<rangle>"

fun nxt :: "ptr \<Rightarrow> ptr list \<Rightarrow> ptr option" where
  "nxt p (x # y # ys) = (if x = p then Some y else nxt p (y # ys))"
| "nxt p _ = None"

definition plain_rb :: rb where
  "plain_rb = \<lparr>rb_insert_color = (\<lambda>t. t), rb_erase = (\<lambda>p t. chain (remove1 p (inorder t))),
     rb_next = (\<lambda>p t. nxt p (inorder t)), rb_prev = (\<lambda>p t. nxt p (rev (inorder t)))\<rparr>"

lemma chain_inorder [simp]: "inorder (chain ps) = ps"
  by (induction ps) simp_all

lemma nxt_split:
  "distinct (as @ p # bs) \<Longrightarrow> nxt p (as @ p # bs) = (if bs = [] then None else Some (hd bs))"
proof (induction as)
  case Nil
  then show ?case by (cases bs) auto
next
  case (Cons a as)
  then show ?case by (cases as) auto
qed

lemma plain_rb_law: "rb_law plain_rb"
proof -
  have "nxt p (rev (as @ p # bs)) = (if as = [] then None else Some (last as))"
    if "distinct (as @ p # bs)" for p as bs
    using nxt_split [of "rev bs" p "rev as"] that by (simp add: hd_rev Int_commute)
  note prv = this
  have "nxt p (inorder t) = (if bs = [] then None else Some (hd bs))"
    "nxt p (rev (inorder t)) = (if as = [] then None else Some (last as))"
    if "distinct (inorder t)" "inorder t = as @ p # bs" for p t as bs
    using nxt_split prv that(1) unfolding that(2) by blast+
  then show ?thesis
    unfolding rb_law_def plain_rb_def rb.select_convs chain_inorder by blast
qed

end
