(* ===== verification/Ext4_Layout.thy ===== *)
theory Ext4_Layout
  imports Prelude
begin

text \<open>
  Numbers that ext4 turns into positions and back: the path of offsets to a block of a file
  (\<open>ext4_block_to_path\<close> of \<open>src/ext4/inode.c\<close>), block groups and their super block copies
  (\<open>src/ext4/balloc.c\<close>), and the record lengths and time stamps that \<open>src/ext4/ext4.h\<close> packs
  into fewer bits; with the check of a directory entry (\<open>src/ext4/dir.c\<close>).  The lemmas show
  which of these conversions are inverse to each other and where they are not.
\<close>

section \<open>Definitions\<close>

subsection \<open>The path to a block\<close>

definition EXT4_NDIR_BLOCKS :: u32 where "EXT4_NDIR_BLOCKS = 12"
definition EXT4_IND_BLOCK :: u32 where "EXT4_IND_BLOCK = EXT4_NDIR_BLOCKS"
definition EXT4_DIND_BLOCK :: u32 where "EXT4_DIND_BLOCK = EXT4_IND_BLOCK + 1"
definition EXT4_TIND_BLOCK :: u32 where "EXT4_TIND_BLOCK = EXT4_DIND_BLOCK + 1"

text \<open>The offsets (their number is the function's result) and the value stored through \<open>boundary\<close>.
  \<open>b\<close> is \<open>EXT4_ADDR_PER_BLOCK_BITS\<close>.\<close>

definition ext4_block_to_path :: "nat \<Rightarrow> u32 \<Rightarrow> u32 list \<times> int" where
  "ext4_block_to_path b i0 =
     (let ptrs = push_bit b 1; double_blocks = push_bit (b * 2) 1;
          fin = (\<lambda>offsets final i. (offsets, uint final - 1 - uint (i AND (ptrs - 1))))
      in if i0 < EXT4_NDIR_BLOCKS then fin [i0] EXT4_NDIR_BLOCKS i0
         else let i1 = i0 - EXT4_NDIR_BLOCKS
         in if i1 < ptrs then fin [EXT4_IND_BLOCK, i1] ptrs i1
         else let i2 = i1 - ptrs
         in if i2 < double_blocks
            then fin [EXT4_DIND_BLOCK, drop_bit b i2, i2 AND (ptrs - 1)] ptrs i2
         else let i3 = i2 - double_blocks
         in if drop_bit (b * 2) i3 < ptrs
            then fin [EXT4_TIND_BLOCK, drop_bit (b * 2) i3, drop_bit b i3 AND (ptrs - 1), i3 AND (ptrs - 1)] ptrs i3
            else fin [] 0 i3)"

subsection \<open>Block groups\<close>

record group_layout =
  s_first_data_block :: u32
  s_blocks_per_group :: u32
  sparse_super :: bool
  meta_bg :: bool
  s_desc_per_block :: u32
  s_first_meta_bg :: u32
  s_gdb_count :: u64

definition ext4_get_group_no_and_offset :: "group_layout \<Rightarrow> u64 \<Rightarrow> u32 \<times> u32" where
  "ext4_get_group_no_and_offset gl blocknr =
     (let rel = blocknr - ucast (s_first_data_block gl);
          offset = ucast (rel mod ucast (s_blocks_per_group gl))
      in (ucast (rel div ucast (s_blocks_per_group gl)), offset))"

definition ext4_group_first_block_no :: "group_layout \<Rightarrow> u32 \<Rightarrow> u64" where
  "ext4_group_first_block_no gl group_no =
     ucast group_no * ucast (s_blocks_per_group gl) + ucast (s_first_data_block gl)"

definition ext4_block_in_group :: "group_layout \<Rightarrow> u64 \<Rightarrow> u32 \<Rightarrow> bool" where
  "ext4_block_in_group gl block block_group \<longleftrightarrow> fst (ext4_get_group_no_and_offset gl block) = block_group"

partial_function (option) test_root_loop :: "u32 \<Rightarrow> u32 \<Rightarrow> u32 \<Rightarrow> bool option" where
  "test_root_loop a b num = (if a > num then test_root_loop a b (num * b) else Some (num = a))"

definition test_root :: "u32 \<Rightarrow> u32 \<Rightarrow> bool option" where
  "test_root a b = test_root_loop a b b"

definition ext4_group_sparse :: "u32 \<Rightarrow> bool option" where
  "ext4_group_sparse g =
     (if g \<le> 1 then Some True
      else if g AND 1 = 0 then Some False
      else case test_root g 7 of
             None \<Rightarrow> None
           | Some True \<Rightarrow> Some True
           | Some False \<Rightarrow>
               (case test_root g 5 of
                  None \<Rightarrow> None
                | Some True \<Rightarrow> Some True
                | Some False \<Rightarrow> test_root g 3))"

definition ext4_bg_has_super :: "group_layout \<Rightarrow> u32 \<Rightarrow> bool option" where
  "ext4_bg_has_super gl g =
     (if sparse_super gl then ext4_group_sparse g else Some True)"

definition ext4_bg_num_gdb_meta :: "group_layout \<Rightarrow> u32 \<Rightarrow> u64" where
  "ext4_bg_num_gdb_meta gl g =
     (let metagroup = g div s_desc_per_block gl;
          first = metagroup * s_desc_per_block gl;
          lst = first + s_desc_per_block gl - 1
      in if g = first \<or> g = first + 1 \<or> g = lst then 1 else 0)"

definition ext4_bg_num_gdb_nometa :: "group_layout \<Rightarrow> u32 \<Rightarrow> u64 option" where
  "ext4_bg_num_gdb_nometa gl g =
     (case ext4_bg_has_super gl g of
        None \<Rightarrow> None
      | Some has \<Rightarrow> Some (if \<not> has then 0 else if meta_bg gl then ucast (s_first_meta_bg gl) else s_gdb_count gl))"

definition ext4_bg_num_gdb :: "group_layout \<Rightarrow> u32 \<Rightarrow> u64 option" where
  "ext4_bg_num_gdb gl g =
     (if \<not> meta_bg gl \<or> g div s_desc_per_block gl < s_first_meta_bg gl
      then ext4_bg_num_gdb_nometa gl g else Some (ext4_bg_num_gdb_meta gl g))"

subsection \<open>Directory records\<close>

definition EXT4_MAX_REC_LEN :: u32 where "EXT4_MAX_REC_LEN = 65535"

text \<open>\<open>big\<close> is the configuration \<open>PAGE_CACHE_SIZE >= 65536\<close>.\<close>

definition ext4_rec_len_from_disk :: "bool \<Rightarrow> 16 word \<Rightarrow> u32 \<Rightarrow> u32" where
  "ext4_rec_len_from_disk big dlen blocksize =
     (let len = ucast dlen
      in if big then
           if len = EXT4_MAX_REC_LEN \<or> len = 0 then blocksize
           else (len AND 65532) OR push_bit 16 (len AND 3)
         else len)"

definition ext4_rec_len_to_disk :: "bool \<Rightarrow> u32 \<Rightarrow> u32 \<Rightarrow> fault + 16 word" where
  "ext4_rec_len_to_disk big len blocksize =
     (if len > blocksize \<or> blocksize > push_bit 18 1 \<or> len AND 3 \<noteq> 0 then Inl BUG
      else if big then
        if len < 65536 then Inr (ucast len)
        else if len = blocksize then
          if blocksize = 65536 then Inr (ucast EXT4_MAX_REC_LEN) else Inr 0
        else Inr (ucast ((len AND 65532) OR (drop_bit 16 len AND 3)))
      else Inr (ucast len))"

definition EXT4_DIR_REC_LEN :: "u32 \<Rightarrow> u32" where
  "EXT4_DIR_REC_LEN name_len = (name_len + 8 + 3) AND NOT 3"

record dir_entry =
  de_inode :: u32
  de_rec_len :: "16 word"
  de_name_len :: u8

text \<open>The message of the first check that fails; \<open>at\<close> is the position in the block.\<close>

definition ext4_check_dir_entry ::
  "bool \<Rightarrow> u32 \<Rightarrow> u32 \<Rightarrow> dir_entry \<Rightarrow> u64 \<Rightarrow> string option" where
  "ext4_check_dir_entry big blocksize inodes_count de at =
     (let rlen = ext4_rec_len_from_disk big (de_rec_len de) blocksize
      in if rlen < EXT4_DIR_REC_LEN 1 then Some ''rec_len is smaller than minimal''
         else if rlen mod 4 \<noteq> 0 then Some ''rec_len % 4 != 0''
         else if rlen < EXT4_DIR_REC_LEN (ucast (de_name_len de)) then Some ''rec_len is too small for name_len''
         else if at + ucast rlen > ucast blocksize then Some ''directory entry across blocks''
         else if de_inode de > inodes_count then Some ''inode out of bounds''
         else None)"

subsection \<open>Times\<close>

definition EXT4_EPOCH_MASK :: u64 where "EXT4_EPOCH_MASK = push_bit 2 1 - 1"
definition EXT4_NSEC_MASK :: u64 where "EXT4_NSEC_MASK = push_bit 2 (NOT 0)"

record timespec =
  tv_sec :: u64
  tv_nsec :: u64

definition ext4_encode_extra_time :: "timespec \<Rightarrow> u32" where
  "ext4_encode_extra_time t =
     ucast ((signed_drop_bit 32 (tv_sec t) AND EXT4_EPOCH_MASK) OR (push_bit 2 (tv_nsec t) AND EXT4_NSEC_MASK))"

definition ext4_decode_extra_time :: "timespec \<Rightarrow> u32 \<Rightarrow> timespec" where
  "ext4_decode_extra_time t extra =
     t\<lparr>tv_sec := tv_sec t OR push_bit 32 (ucast extra AND EXT4_EPOCH_MASK),
       tv_nsec := drop_bit 2 (ucast extra AND EXT4_NSEC_MASK)\<rparr>"

text \<open>The two fields of the raw inode; \<open>fits\<close> says that the second one exists.\<close>

definition EXT4_INODE_SET_XTIME :: "bool \<Rightarrow> timespec \<Rightarrow> u32 \<times> u32 option" where
  "EXT4_INODE_SET_XTIME fits t = (ucast (tv_sec t), if fits then Some (ext4_encode_extra_time t) else None)"

definition EXT4_INODE_GET_XTIME :: "u32 \<times> u32 option \<Rightarrow> timespec" where
  "EXT4_INODE_GET_XTIME raw =
     (let t = \<lparr>tv_sec = scast (fst raw), tv_nsec = 0\<rparr>
      in case snd raw of Some extra \<Rightarrow> ext4_decode_extra_time t extra | None \<Rightarrow> t\<lparr>tv_nsec := 0\<rparr>)"

section \<open>Paths and blocks\<close>

text \<open>The reference: the block that a path leads to, for paths of the right shape.\<close>

definition path_block :: "nat \<Rightarrow> nat list \<Rightarrow> nat option" where
  "path_block b p =
     (case p of
        [i] \<Rightarrow> if i < 12 then Some i else None
      | [t, i] \<Rightarrow> if t = 12 \<and> i < 2 ^ b then Some (12 + i) else None
      | [t, j, i] \<Rightarrow> if t = 13 \<and> j < 2 ^ b \<and> i < 2 ^ b then Some (12 + 2 ^ b + (j * 2 ^ b + i)) else None
      | [t, k, j, i] \<Rightarrow>
          if t = 14 \<and> k < 2 ^ b \<and> j < 2 ^ b \<and> i < 2 ^ b
          then Some (12 + 2 ^ b + 2 ^ (b * 2) + (k * 2 ^ (b * 2) + (j * 2 ^ b + i))) else None
      | _ \<Rightarrow> None)"

definition max_blocks :: "nat \<Rightarrow> nat" where
  "max_blocks b = 12 + 2 ^ b + 2 ^ (b * 2) + 2 ^ (b * 3)"

lemma unat_push:
  assumes "n < 32"
  shows "unat (push_bit n 1 :: u32) = 2 ^ n"
proof -
  have "(2::nat) ^ n < 2 ^ 32" using assms by (intro power_strict_increasing) simp_all
  then have "unat (of_nat (2 ^ n) :: u32) = 2 ^ n" by (simp add: unat_of_nat del: of_nat_power)
  then show ?thesis by (simp add: push_bit_eq_mult)
qed

lemma unat_low_bits: "unat (i AND (push_bit n 1 - 1) :: u32) = unat i mod 2 ^ n"
proof -
  have "i AND (push_bit n 1 - 1) = take_bit n i" by (simp add: take_bit_eq_mask mask_eq_exp_minus_1 push_bit_eq_mult)
  then show ?thesis by (simp add: unsigned_take_bit_eq) (simp add: take_bit_eq_mod)
qed

lemma unat_high_bits:
  assumes "n < 32"
  shows "unat (drop_bit n i :: u32) = unat i div 2 ^ n"
proof -
  have "(2 :: u32) ^ n = push_bit n 1" by (simp add: push_bit_eq_mult)
  then show ?thesis using unat_push [OF assms] by (simp only: drop_bit_eq_div unat_div)
qed

text \<open>The same function on natural numbers.\<close>

definition nat_path :: "nat \<Rightarrow> nat \<Rightarrow> nat list \<times> int" where
  "nat_path P n =
     (if n < 12 then ([n], 11 - int (n mod P))
      else if n < 12 + P then ([12, n - 12], int P - 1 - int ((n - 12) mod P))
      else if n < 12 + P + P * P
      then let m = n - 12 - P in ([13, m div P, m mod P], int P - 1 - int (m mod P))
      else let m = n - 12 - P - P * P
           in if m div (P * P) < P
              then ([14, m div (P * P), m div P mod P, m mod P], int P - 1 - int (m mod P))
              else ([], - 1 - int (m mod P)))"

lemma block_to_path_nat:
  fixes i0 :: u32
  assumes "b \<le> 14"
  shows "map_prod (map unat) id (ext4_block_to_path b i0) = nat_path (2 ^ b) (unat i0)"
proof -
  define p d where "p = (push_bit b 1 :: u32)" and "d = (push_bit (b * 2) 1 :: u32)"
  have P: "unat p = 2 ^ b" "unat d = 2 ^ b * 2 ^ b"
    using assms unat_push [of b] unat_push [of "b * 2"] by (simp_all add: p_def d_def power_mult power2_eq_square)
  have L: "uint (i AND (p - 1)) = int (unat i mod 2 ^ b)" "unat (i AND (p - 1)) = unat i mod 2 ^ b" for i
    using unat_low_bits [of i b] by (simp_all only: p_def uint_nat)
  have H: "unat (drop_bit b i) = unat i div 2 ^ b" "unat (drop_bit (b * 2) i) = unat i div (2 ^ b * 2 ^ b)" for i :: u32
    using assms unat_high_bits [of b i] unat_high_bits [of "b * 2" i] by (simp_all add: power_mult power2_eq_square)
  have c: "unat EXT4_NDIR_BLOCKS = 12" "unat EXT4_IND_BLOCK = 12" "unat EXT4_DIND_BLOCK = 13" "unat EXT4_TIND_BLOCK = 14"
    "uint EXT4_NDIR_BLOCKS = 12" "uint p = int (2 ^ b)"
    using P by (simp_all add: uint_nat EXT4_NDIR_BLOCKS_def EXT4_IND_BLOCK_def EXT4_DIND_BLOCK_def EXT4_TIND_BLOCK_def)
  have i1: "unat (i0 - EXT4_NDIR_BLOCKS) = unat i0 - 12" if "12 \<le> unat i0"
    using that c by (simp add: unat_sub word_le_nat_alt)
  have i2: "unat (i0 - EXT4_NDIR_BLOCKS - p) = unat i0 - 12 - 2 ^ b" if "12 + 2 ^ b \<le> unat i0"
    using that P i1 by (simp add: unat_sub word_le_nat_alt)
  have i3: "unat (i0 - EXT4_NDIR_BLOCKS - p - d) = unat i0 - 12 - 2 ^ b - 2 ^ b * 2 ^ b" if "12 + 2 ^ b + 2 ^ b * 2 ^ b \<le> unat i0"
    using that P i2 by (simp add: unat_sub word_le_nat_alt)
  note def = ext4_block_to_path_def [of b i0, unfolded Let_def, folded p_def d_def] nat_path_def Let_def
  note nat = L H c P word_less_nat_alt
  consider "unat i0 < 12" | "12 \<le> unat i0" "unat i0 < 12 + 2 ^ b"
    | "12 + 2 ^ b \<le> unat i0" "unat i0 < 12 + 2 ^ b + 2 ^ b * 2 ^ b" | "12 + 2 ^ b + 2 ^ b * 2 ^ b \<le> unat i0" by linarith
  then show ?thesis
  proof cases
    case 1
    then show ?thesis by (simp add: def nat)
  next
    case 2
    then show ?thesis using i1 by (simp add: def nat)
  next
    case 3
    then show ?thesis using i1 i2 by (simp add: def nat) linarith
  next
    case 4
    then show ?thesis using i1 i2 i3 by (simp add: def nat) linarith
  qed
qed

lemma digits:
  fixes n p :: nat
  shows "n div (p * p) * (p * p) + (n div p mod p * p + n mod p) = n"
proof -
  have "n div (p * p) * p + n div p mod p = n div p" by (simp add: div_mult2_eq)
  moreover have "n div (p * p) * (p * p) + (n div p mod p * p + n mod p) = (n div (p * p) * p + n div p mod p) * p + n mod p"
    by (simp add: algebra_simps)
  ultimately show ?thesis by simp
qed

lemma nat_path_block:
  fixes b n :: nat
  defines "P \<equiv> 2 ^ b"
  shows "path_block b (fst (nat_path P n)) = (if n < max_blocks b then Some n else None)"
    and "fst (nat_path P n) = [] \<longleftrightarrow> max_blocks b \<le> n"
    and "fst (nat_path P n) \<noteq> [] \<Longrightarrow> 8 \<le> b \<Longrightarrow> snd (nat_path P n) =
           (if length (fst (nat_path P n)) = 1 then 12 else int P) - 1 - int (last (fst (nat_path P n)))"
proof -
  have P: "0 < P" "(2::nat) ^ (b * 2) = P * P" "(2::nat) ^ (b * 3) = P * P * P"
    by (simp_all add: P_def power_mult power2_eq_square power3_eq_cube)
  have mx: "max_blocks b = 12 + P + P * P + P * P * P" by (simp add: max_blocks_def P(2,3) P_def)
  have lt: "m div P < P" if "m < P * P" for m using that P(1) by (simp add: less_mult_imp_div_less)
  have le: "m div (P * P) < P \<longleftrightarrow> m < P * P * P" for m
    using P(1) by (simp add: div_less_iff_less_mult mult.assoc mult.left_commute)
  note pb = path_block_def P(2) P_def [symmetric]
  consider "n < 12" | "12 \<le> n" "n < 12 + P" | "12 + P \<le> n" "n < 12 + P + P * P" | "12 + P + P * P \<le> n"
    by linarith
  then show "path_block b (fst (nat_path P n)) = (if n < max_blocks b then Some n else None)"
  proof cases
    case 3
    then obtain m where m: "n = 12 + P + m" "m < P * P" by (metis add_less_cancel_left le_iff_add)
    then show ?thesis using P(1) lt by (simp add: nat_path_def Let_def pb mx)
  next
    case 4
    then obtain m where m: "n = 12 + P + P * P + m" by (metis le_iff_add)
    then show ?thesis using P(1) le [of m] digits [of m P] by (auto simp: nat_path_def Let_def pb mx)
  qed (simp_all add: nat_path_def pb mx)
  show "fst (nat_path P n) = [] \<longleftrightarrow> max_blocks b \<le> n"
    using le [of "n - 12 - P - P * P"] by (auto simp: nat_path_def Let_def mx not_less split: if_splits)
  show "snd (nat_path P n) = (if length (fst (nat_path P n)) = 1 then 12 else int P) - 1 - int (last (fst (nat_path P n)))"
    if "fst (nat_path P n) \<noteq> []" "8 \<le> b"
  proof -
    have "(2::nat) ^ 8 \<le> 2 ^ b" using that(2) by (intro power_increasing) simp_all
    then have "12 < P" by (simp add: P_def)
    then show ?thesis using that(1) by (auto simp: nat_path_def Let_def split: if_splits)
  qed
qed

text \<open>C31. The path to a block.  For the block sizes of ext4, the offsets that \<open>ext4_block_to_path\<close> stores
  lead back to the block they were made for, with every offset inside its table, for exactly the
  blocks that a file can have; for the others the result is 0.  The value stored through \<open>boundary\<close>
  is the number of entries that follow the last offset in its table.  So it is 0 for the last block
  of a table, the one likely to be followed by an indirect block (block 11, say), and not 0 for the
  others: the comment above the function says the opposite.\<close>

theorem block_path_roundtrip:
  assumes "8 \<le> b" and "b \<le> 14"
  shows "path_block b (map unat (fst (ext4_block_to_path b i))) = (if unat i < max_blocks b then Some (unat i) else None) \<and>
         (fst (ext4_block_to_path b i) = [] \<longleftrightarrow> max_blocks b \<le> unat i) \<and>
         (unat i < max_blocks b \<longrightarrow> snd (ext4_block_to_path b i) =
            (if length (fst (ext4_block_to_path b i)) = 1 then 12 else 2 ^ b) - 1 -
            int (unat (last (fst (ext4_block_to_path b i)))))"
proof -
  obtain offs bd where r: "ext4_block_to_path b i = (offs, bd)" by force
  have n: "nat_path (2 ^ b) (unat i) = (map unat offs, bd)" using block_to_path_nat [OF assms(2), of i] r by simp
  note f = nat_path_block [of b "unat i", unfolded n fst_conv snd_conv]
  show ?thesis using f assms(1) by (auto simp: r last_map)
qed

theorem block_path_roundtrip_witness:
  "path_block 10 (map unat (fst (ext4_block_to_path 10 5000))) = Some 5000"
  using block_path_roundtrip [of 10 5000] by (simp add: max_blocks_def)

section \<open>Block groups\<close>

lemma unat_ucast_up: "unat (ucast (x :: u32) :: u64) = unat x"
proof -
  have "unat x < 2 ^ LENGTH(32)" by (rule unsigned_less)
  then show ?thesis by (simp add: unsigned_ucast_eq take_bit_nat_eq_self)
qed

lemma ucast_down_up: "ucast (ucast (x :: u32) :: u64) = x"
  by transfer simp

lemma group_block_roundtrip:
  assumes "0 < unat (s_blocks_per_group gl)" and "unat off < unat (s_blocks_per_group gl)"
  shows "ext4_get_group_no_and_offset gl (ext4_group_first_block_no gl g + ucast off) = (g, off)"
proof -
  let ?n = "s_blocks_per_group gl"
  let ?rel = "ext4_group_first_block_no gl g + ucast off - ucast (s_first_data_block gl) :: u64"
  have rel: "?rel = ucast g * ucast ?n + ucast off" by (simp add: ext4_group_first_block_no_def)
  have "unat g < 2 ^ LENGTH(32)" "unat ?n < 2 ^ LENGTH(32)" "unat off < 2 ^ LENGTH(32)" by (rule unsigned_less)+
  then have g: "unat g \<le> 2 ^ 32 - 1" and n: "unat ?n \<le> 2 ^ 32 - 1" and o: "unat off \<le> 2 ^ 32 - 1" by simp_all
  have "unat g * unat ?n \<le> (2 ^ 32 - 1) * (2 ^ 32 - 1)" by (rule mult_le_mono [OF g n])
  then have "unat g * unat ?n + unat off < 2 ^ 64" using o by simp
  then have u: "unat ?rel = unat g * unat ?n + unat off"
    unfolding rel unat_word_ariths unat_ucast_up by simp
  have "unat (?rel div ucast ?n) = unat g" "unat (?rel mod ucast ?n) = unat off"
    using assms(2) unfolding unat_div unat_mod u unat_ucast_up by simp_all
  then have "?rel div ucast ?n = ucast g" "?rel mod ucast ?n = ucast off"
    by (simp_all add: word_unat_eq_iff unat_ucast_up)
  then show ?thesis by (simp add: ext4_get_group_no_and_offset_def Let_def ucast_down_up)
qed

section \<open>Sparse super blocks\<close>

lemma test_root_loop_power:
  assumes "unat a \<le> b ^ (j + k)" and "b ^ (j + k) < 2 ^ 32" and "0 < b" and "0 < j"
  shows "test_root_loop a (of_nat b) (of_nat (b ^ j)) = Some (\<exists>i. j \<le> i \<and> i \<le> j + k \<and> unat a = b ^ i)"
  using assms
proof (induction k arbitrary: j)
  case 0
  have u: "unat (of_nat (b ^ j) :: u32) = b ^ j" using 0 by (simp add: unat_of_nat del: of_nat_power)
  then show ?case
    using 0(1) by (subst test_root_loop.simps) (auto simp: word_less_nat_alt word_unat_eq_iff simp del: of_nat_power)
next
  case (Suc k)
  have "b ^ j \<le> b ^ (j + Suc k)" using Suc.prems(3) by (intro power_increasing) simp_all
  then have u: "unat (of_nat (b ^ j) :: u32) = b ^ j" using Suc.prems(2) by (simp add: unat_of_nat del: of_nat_power)
  show ?case
  proof (cases "unat a > b ^ j")
    case True
    have "test_root_loop a (of_nat b) (of_nat (b ^ j)) = test_root_loop a (of_nat b) (of_nat (b ^ Suc j))"
      using True u by (subst test_root_loop.simps) (simp add: word_less_nat_alt mult.commute)
    also have "\<dots> = Some (\<exists>i. Suc j \<le> i \<and> i \<le> Suc j + k \<and> unat a = b ^ i)"
      using Suc.IH [of "Suc j"] Suc.prems by simp
    also have "(\<exists>i. Suc j \<le> i \<and> i \<le> Suc j + k \<and> unat a = b ^ i) \<longleftrightarrow> (\<exists>i. j \<le> i \<and> i \<le> j + Suc k \<and> unat a = b ^ i)"
      using True by (metis Suc_leD add_Suc add_Suc_right le_antisym less_irrefl not_less_eq_eq)
    finally show ?thesis .
  next
    case False
    have "b ^ j \<le> b ^ i" if "j \<le> i" for i using that Suc.prems(3) by (intro power_increasing) simp_all
    then have "(\<exists>i. j \<le> i \<and> i \<le> j + Suc k \<and> unat a = b ^ i) \<longleftrightarrow> unat a = b ^ j"
      using False by (auto intro: le_antisym)
    then show ?thesis
      using False u by (subst test_root_loop.simps) (auto simp: word_less_nat_alt word_unat_eq_iff simp del: of_nat_power)
  qed
qed

text \<open>Up to \<open>5 ^ 13\<close> groups the loop returns; a larger number of groups would let the product wrap.\<close>

lemma test_root_power:
  assumes "unat a \<le> 5 ^ 13" and "b \<in> {3, 5, 7}"
  shows "test_root a (of_nat b) = Some (\<exists>i > 0. unat a = b ^ i)"
proof -
  obtain k where k: "unat a \<le> b ^ (1 + k)" "b ^ (1 + k) < 2 ^ 32" "5 ^ 13 \<le> b ^ (1 + k)"
  proof -
    have "(5::nat) ^ 13 \<le> 3 ^ (1 + 19)" "(3::nat) ^ (1 + 19) < 2 ^ 32" "(5::nat) ^ (1 + 12) < 2 ^ 32"
      "(5::nat) ^ 13 \<le> 7 ^ (1 + 10)" "(7::nat) ^ (1 + 10) < 2 ^ 32" by simp_all
    then show thesis using assms that [of 19] that [of 12] that [of 10] by (elim insertE) simp_all
  qed
  have pos: "1 < b" using assms(2) by auto
  have "test_root a (of_nat b) = Some (\<exists>i. 1 \<le> i \<and> i \<le> 1 + k \<and> unat a = b ^ i)"
    using test_root_loop_power [of a b 1 k] k(1,2) pos by (simp add: test_root_def)
  also have "(\<exists>i. 1 \<le> i \<and> i \<le> 1 + k \<and> unat a = b ^ i) \<longleftrightarrow> (\<exists>i > 0. unat a = b ^ i)"
  proof -
    have "i \<le> 1 + k" if "unat a = b ^ i" for i
      using k(1) that pos by (simp add: power_increasing_iff del: power_Suc)
    then show ?thesis by (metis One_nat_def Suc_leI Suc_le_lessD)
  qed
  finally show ?thesis .
qed

lemma group_sparse_powers:
  assumes "unat g \<le> 5 ^ 13"
  shows "ext4_group_sparse g = Some (unat g \<le> 1 \<or> (\<exists>b \<in> {3, 5, 7}. \<exists>i > 0. unat g = b ^ i))"
proof -
  have r: "test_root g 7 = Some (\<exists>i > 0. unat g = 7 ^ i)" "test_root g 5 = Some (\<exists>i > 0. unat g = 5 ^ i)"
    "test_root g 3 = Some (\<exists>i > 0. unat g = 3 ^ i)"
    using test_root_power [OF assms, of 7] test_root_power [OF assms, of 5] test_root_power [OF assms, of 3] by simp_all
  have one: "g \<le> 1 \<longleftrightarrow> unat g \<le> 1" by (simp add: word_le_nat_alt)
  have "unat (g AND 1) = unat g mod 2" using unat_low_bits [of g 1] by simp
  then have par: "g AND 1 = 0 \<longleftrightarrow> even (unat g)" by (simp add: word_unat_eq_iff even_iff_mod_2_eq_zero)
  have "odd (unat g)" if "\<exists>b \<in> {3, 5, 7}. \<exists>i > 0. unat g = b ^ i" using that by auto
  moreover define q where "q b = (\<exists>i > 0. unat g = b ^ i)" for b
  ultimately show ?thesis
    unfolding ext4_group_sparse_def one par r q_def [symmetric]
    by (cases "q 7"; cases "q 5"; cases "q 3") auto
qed


section \<open>Directory records\<close>

lemma rec_len_masks: "(65532 :: u32) = push_bit 2 (mask 14)" "(3 :: u32) = mask 2"
  by (simp_all add: mask_eq_exp_minus_1 push_bit_eq_mult)

lemma rec_len_low: "bit (65532 :: u32) n \<longleftrightarrow> 2 \<le> n \<and> n < 16"
  unfolding rec_len_masks by (auto simp: bit_simps)

lemma rec_len_high: "bit (3 :: u32) n \<longleftrightarrow> n < 2"
  unfolding rec_len_masks by (auto simp: bit_simps)

lemma high_bits_clear:
  assumes "unat (w :: u32) < 2 ^ k" and "k \<le> n"
  shows "\<not> bit w n"
proof -
  have "(2::nat) ^ k \<le> 2 ^ n" using assms(2) by (intro power_increasing) simp_all
  then have "unat w < 2 ^ n" using assms(1) by linarith
  then have "unat w div 2 ^ n = 0" by simp
  then have "\<not> bit (unat w) n" by (simp add: bit_iff_odd)
  then show ?thesis by (simp add: bit_unsigned_iff)
qed

text \<open>The packed form of a length of 64 KiB or more.\<close>

lemma packed_rec_len:
  fixes len :: u32
  assumes "unat len < 2 ^ 18" and "len AND 3 = 0"
  defines "v \<equiv> (len AND 65532) OR (drop_bit 16 len AND 3)"
  shows "ucast (ucast v :: 16 word) = v" and "(v AND 65532) OR push_bit 16 (v AND 3) = len"
proof -
  have low: "\<not> bit len n" if "n < 2" for n
  proof -
    have "bit (len AND 3) n \<longleftrightarrow> bit len n" using that unfolding bit_and_iff rec_len_high by simp
    then show ?thesis using assms(2) by simp
  qed
  have high: "\<not> bit len n" if "18 \<le> n" for n by (rule high_bits_clear [OF assms(1) that])
  have v: "bit v n \<longleftrightarrow> (if n < 2 then bit len (16 + n) else n < 16 \<and> bit len n)" for n
    unfolding v_def bit_or_iff bit_and_iff bit_drop_bit_eq comp_def rec_len_low rec_len_high
    using low high by auto
  show "ucast (ucast v :: 16 word) = v"
    by (rule bit_word_eqI) (auto simp: bit_simps v)
  show "(v AND 65532) OR push_bit 16 (v AND 3) = len"
  proof (rule bit_word_eqI)
    fix n assume "n < LENGTH(32)"
    show "bit ((v AND 65532) OR push_bit 16 (v AND 3)) n \<longleftrightarrow> bit len n"
      unfolding bit_or_iff bit_and_iff bit_push_bit_iff rec_len_low rec_len_high v
      using low [of n] high [of n] \<open>n < LENGTH(32)\<close> by (cases "n < 16") auto
  qed
qed

lemma short_rec_len:
  fixes len :: u32
  assumes "unat len < 2 ^ 16" and "len AND 3 = 0"
  shows "ucast (ucast len :: 16 word) = len" and "len AND 65532 = len" and "len \<noteq> 65535"
proof -
  have high: "n < 16" if "bit len n" for n using high_bits_clear [OF assms(1), of n] that by (meson not_less)
  show "ucast (ucast len :: 16 word) = len"
    by (rule bit_word_eqI) (use high in \<open>auto simp: bit_simps\<close>)
  have low: "\<not> bit len n" if "n < 2" for n
  proof -
    have "bit (len AND 3) n \<longleftrightarrow> bit len n" using that unfolding bit_and_iff rec_len_high by simp
    then show ?thesis using assms(2) by simp
  qed
  show "len AND 65532 = len"
    by (rule bit_word_eqI, unfold bit_and_iff rec_len_low) (use low [of _] high [of _] in \<open>auto simp flip: not_less\<close>)
  show "len \<noteq> 65535" using assms(2) by auto
qed

lemma rec_len_roundtrip:
  assumes "0 < unat len" and "unat len \<le> unat bs" and "unat bs \<le> 2 ^ 18" and "len AND 3 = 0"
    and "\<not> big \<Longrightarrow> unat bs < 2 ^ 16" and "big \<Longrightarrow> len \<noteq> 262140"
  obtains d where "ext4_rec_len_to_disk big len bs = Inr d" and "ext4_rec_len_from_disk big d bs = len"
proof -
  have ok: "\<not> (len > bs \<or> bs > push_bit 18 1 \<or> len AND 3 \<noteq> 0)"
    using assms(2-4) unat_push [of 18] by (simp add: word_less_nat_alt)
  note to = ext4_rec_len_to_disk_def [of big len bs, unfolded if_not_P [OF ok]]
  have nz: "len \<noteq> 0" using assms(1) by auto
  consider (small) "\<not> big" | (short) "big" "len < 65536" | (whole) "big" "\<not> len < 65536" "len = bs"
    | (packed) "big" "\<not> len < 65536" "len \<noteq> bs" by blast
  then show thesis
  proof cases
    case small
    have "unat len < 2 ^ 16" using assms(2,5) small by simp
    then show thesis
      using that [of "ucast len"] to small short_rec_len [OF _ assms(4)] by (simp add: ext4_rec_len_from_disk_def)
  next
    case short
    have "unat len < 2 ^ 16" using short(2) by (simp add: word_less_nat_alt)
    then show thesis
      using that [of "ucast len"] to short nz short_rec_len [OF _ assms(4)] assms(4)
      by (simp add: ext4_rec_len_from_disk_def EXT4_MAX_REC_LEN_def)
  next
    case whole
    then show thesis
      using that [of "if bs = 65536 then ucast EXT4_MAX_REC_LEN else 0"] to
      by (simp add: ext4_rec_len_from_disk_def EXT4_MAX_REC_LEN_def)
  next
    case packed
    define v where "v = (len AND 65532) OR (drop_bit 16 len AND 3)"
    have "unat len \<noteq> unat bs" using packed(3) by (simp add: word_unat_eq_iff)
    then have "unat len < 2 ^ 18" using assms(2,3) by simp
    note r = packed_rec_len [OF this assms(4), folded v_def]
    have ne: "v \<noteq> 65535" "v \<noteq> 0" using r(2) assms(6) packed(1) nz by auto
    have "ext4_rec_len_to_disk big len bs = Inr (ucast v)" using to packed by (simp add: v_def)
    moreover have "ext4_rec_len_from_disk big (ucast v) bs = len"
      unfolding ext4_rec_len_from_disk_def Let_def r EXT4_MAX_REC_LEN_def using ne packed(1) by simp
    ultimately show thesis by (rule that)
  qed
qed

text \<open>The one length that does not survive: it is stored as the mark of a whole block.\<close>

lemma rec_len_262140:
  "ext4_rec_len_to_disk True 262140 262144 = Inr 65535 \<and> ext4_rec_len_from_disk True 65535 262144 = 262144"
  by code_simp

text \<open>An entry that passes the check lies in its block and leaves room for its name, so that a walk
  over the entries of a block advances.\<close>

lemma checked_entry:
  assumes "ext4_check_dir_entry big bs cnt de at = None" and "unat at + unat (ext4_rec_len_from_disk big (de_rec_len de) bs) < 2 ^ 64"
  shows "12 \<le> unat (ext4_rec_len_from_disk big (de_rec_len de) bs)"
    and "unat at + unat (ext4_rec_len_from_disk big (de_rec_len de) bs) \<le> unat bs"
proof -
  let ?r = "ext4_rec_len_from_disk big (de_rec_len de) bs"
  have m: "EXT4_DIR_REC_LEN 1 = 12" by (simp add: EXT4_DIR_REC_LEN_def)
  have "\<not> ?r < 12" "\<not> at + ucast ?r > ucast bs"
    using assms(1) by (auto simp: ext4_check_dir_entry_def Let_def m split: if_splits)
  moreover have "unat (at + ucast ?r) = unat at + unat ?r"
    using assms(2) unfolding unat_word_ariths unat_ucast_up by simp
  ultimately show "12 \<le> unat ?r" "unat at + unat ?r \<le> unat bs"
    by (simp_all add: word_less_nat_alt unat_ucast_up)
qed

section \<open>Times\<close>

lemma epoch_bits: "bit EXT4_EPOCH_MASK n \<longleftrightarrow> n < 2" "bit EXT4_NSEC_MASK n \<longleftrightarrow> 2 \<le> n \<and> n < 64"
proof -
  have "EXT4_EPOCH_MASK = mask 2" by (simp add: EXT4_EPOCH_MASK_def mask_eq_exp_minus_1 push_bit_eq_mult)
  show "bit EXT4_EPOCH_MASK n \<longleftrightarrow> n < 2" unfolding \<open>EXT4_EPOCH_MASK = mask 2\<close> by (auto simp: bit_mask_iff)
  show "bit EXT4_NSEC_MASK n \<longleftrightarrow> 2 \<le> n \<and> n < 64"
    unfolding EXT4_NSEC_MASK_def bit_push_bit_iff by (auto simp: bit_not_iff)
qed

lemma extra_bits:
  assumes "n < 32"
  shows "bit (ext4_encode_extra_time t) n \<longleftrightarrow> (if n < 2 then bit (tv_sec t) (32 + n) else bit (tv_nsec t) (n - 2))"
  using assms unfolding ext4_encode_extra_time_def bit_unsigned_iff bit_or_iff bit_and_iff epoch_bits
  by (auto simp: bit_simps epoch_bits)

lemma time_bits:
  assumes "n < 64"
  shows "bit (tv_sec (EXT4_INODE_GET_XTIME (EXT4_INODE_SET_XTIME True t))) n \<longleftrightarrow>
           (if n < 32 then bit (tv_sec t) n else bit (tv_sec t) 31 \<or> (n < 34 \<and> bit (tv_sec t) n))"
    and "bit (tv_nsec (EXT4_INODE_GET_XTIME (EXT4_INODE_SET_XTIME True t))) n \<longleftrightarrow> n < 30 \<and> bit (tv_nsec t) n"
proof -
  let ?x = "ext4_encode_extra_time t"
  have get: "EXT4_INODE_GET_XTIME (EXT4_INODE_SET_XTIME True t) =
      \<lparr>tv_sec = scast (ucast (tv_sec t) :: u32) OR push_bit 32 (ucast ?x AND EXT4_EPOCH_MASK),
       tv_nsec = drop_bit 2 (ucast ?x AND EXT4_NSEC_MASK)\<rparr>"
    by (simp add: EXT4_INODE_GET_XTIME_def EXT4_INODE_SET_XTIME_def ext4_decode_extra_time_def)
  have lo: "bit (scast (ucast (tv_sec t) :: u32) :: u64) n \<longleftrightarrow> bit (tv_sec t) (min 31 n)"
    using assms by (simp add: bit_signed_iff bit_unsigned_iff min_def)
  have mn: "min 31 n = (if n < 32 then n else 31)" by (simp add: min_def)
  have hi: "bit (push_bit 32 (ucast ?x AND EXT4_EPOCH_MASK) :: u64) n \<longleftrightarrow> 32 \<le> n \<and> n < 34 \<and> bit (tv_sec t) n"
    using assms extra_bits [of "n - 32" t]
    unfolding bit_push_bit_iff bit_and_iff epoch_bits bit_unsigned_iff by auto
  show "bit (tv_sec (EXT4_INODE_GET_XTIME (EXT4_INODE_SET_XTIME True t))) n \<longleftrightarrow>
           (if n < 32 then bit (tv_sec t) n else bit (tv_sec t) 31 \<or> (n < 34 \<and> bit (tv_sec t) n))"
    unfolding get timespec.select_convs bit_or_iff lo hi mn by auto
  show "bit (tv_nsec (EXT4_INODE_GET_XTIME (EXT4_INODE_SET_XTIME True t))) n \<longleftrightarrow> n < 30 \<and> bit (tv_nsec t) n"
    using assms extra_bits [of "n + 2" t] bit_imp_le_length [of ?x "n + 2"]
    unfolding get timespec.select_convs bit_drop_bit_eq comp_def bit_and_iff epoch_bits bit_unsigned_iff
    by (auto simp: add.commute)
qed

lemma high_bits_clear64:
  assumes "unat (w :: u64) < 2 ^ k" and "k \<le> n"
  shows "\<not> bit w n"
proof -
  have "(2::nat) ^ k \<le> 2 ^ n" using assms(2) by (intro power_increasing) simp_all
  then have "unat w < 2 ^ n" using assms(1) by linarith
  then have "\<not> bit (unat w) n" by (simp add: bit_iff_odd)
  then show ?thesis by (simp add: bit_unsigned_iff)
qed

lemma nsec_roundtrip:
  assumes "unat (tv_nsec t) < 2 ^ 30"
  shows "tv_nsec (EXT4_INODE_GET_XTIME (EXT4_INODE_SET_XTIME True t)) = tv_nsec t"
proof (rule bit_word_eqI)
  fix n assume "n < LENGTH(64)"
  then show "bit (tv_nsec (EXT4_INODE_GET_XTIME (EXT4_INODE_SET_XTIME True t))) n \<longleftrightarrow> bit (tv_nsec t) n"
    using time_bits(2) [of n t] high_bits_clear64 [OF assms, of n] by (cases "n < 30") auto
qed

definition time_fits :: "u64 \<Rightarrow> bool" where
  "time_fits s \<longleftrightarrow> (\<forall>n \<in> {32..<64}. bit s 31 \<longrightarrow> bit s n) \<and> (\<forall>n \<in> {34..<64}. bit s n \<longrightarrow> bit s 31)"

lemma sec_roundtrip_iff:
  "tv_sec (EXT4_INODE_GET_XTIME (EXT4_INODE_SET_XTIME True t)) = tv_sec t \<longleftrightarrow> time_fits (tv_sec t)"
  (is "?s = _ \<longleftrightarrow> _")
proof
  assume eq: "?s = tv_sec t"
  note b = time_bits(1) [of _ t, unfolded eq]
  show "time_fits (tv_sec t)" unfolding time_fits_def
  proof (intro conjI ballI impI)
    fix n assume "n \<in> {32..<64::nat}" "bit (tv_sec t) 31"
    then show "bit (tv_sec t) n" using b [of n] by simp
  next
    fix n assume "n \<in> {34..<64::nat}" "bit (tv_sec t) n"
    then show "bit (tv_sec t) 31" using b [of n] by simp
  qed
next
  assume R: "time_fits (tv_sec t)"
  show "?s = tv_sec t"
  proof (rule bit_word_eqI)
    fix n assume n: "n < LENGTH(64)"
    note F = R [unfolded time_fits_def]
    have A: "n < 32 \<or> (bit (tv_sec t) 31 \<longrightarrow> bit (tv_sec t) n)"
      using bspec [OF conjunct1 [OF F], of n] n by (cases "n < 32") simp_all
    have B: "n < 34 \<or> (bit (tv_sec t) n \<longrightarrow> bit (tv_sec t) 31)"
      using bspec [OF conjunct2 [OF F], of n] n by (cases "n < 34") simp_all
    have n64: "n < 64" using n by simp
    show "bit ?s n \<longleftrightarrow> bit (tv_sec t) n"
      unfolding time_bits(1) [OF n64] using A B by argo
  qed
qed

lemma sec_2038:
  "tv_sec (EXT4_INODE_GET_XTIME (EXT4_INODE_SET_XTIME True \<lparr>tv_sec = 2 ^ 31, tv_nsec = 0\<rparr>)) = - (2 ^ 31)"
  by code_simp

section \<open>Properties\<close>

text \<open>What is written to disk is read back.  A block is found in the group and at the offset it was
  computed from; a record length survives its 16-bit form, with 64 KiB pages and without, except
  the one length that is stored as the mark of a whole block; the nanoseconds of a time survive,
  and its seconds exactly if the two epoch bits suffice and bit 31 is not lost to sign extension,
  so that a time between 2038 and 2106 is read back as one before 1970.\<close>

theorem disk_roundtrip:
  assumes "unat off < unat (s_blocks_per_group gl)"
    and "0 < unat len" and "unat len \<le> unat bs" and "unat bs \<le> 2 ^ 18" and "len AND 3 = 0"
    and "\<not> big \<longrightarrow> unat bs < 2 ^ 16" and "big \<longrightarrow> len \<noteq> 262140" and "unat (tv_nsec t) < 2 ^ 30"
  shows "ext4_get_group_no_and_offset gl (ext4_group_first_block_no gl g + ucast off) = (g, off) \<and>
         (\<exists>d. ext4_rec_len_to_disk big len bs = Inr d \<and> ext4_rec_len_from_disk big d bs = len) \<and>
         tv_nsec (EXT4_INODE_GET_XTIME (EXT4_INODE_SET_XTIME True t)) = tv_nsec t \<and>
         (tv_sec (EXT4_INODE_GET_XTIME (EXT4_INODE_SET_XTIME True t)) = tv_sec t \<longleftrightarrow> time_fits (tv_sec t))"
proof -
  have "0 < unat (s_blocks_per_group gl)" using assms(1) by simp
  moreover obtain d where "ext4_rec_len_to_disk big len bs = Inr d" "ext4_rec_len_from_disk big d bs = len"
    using rec_len_roundtrip [OF assms(2-5)] assms(6,7) by blast
  ultimately show ?thesis
    using group_block_roundtrip [OF _ assms(1)] nsec_roundtrip [OF assms(8)] sec_roundtrip_iff by blast
qed

definition ex_groups :: group_layout where
  "ex_groups = \<lparr>s_first_data_block = 1, s_blocks_per_group = 8192, sparse_super = True, meta_bg = False,
     s_desc_per_block = 32, s_first_meta_bg = 0, s_gdb_count = 1\<rparr>"

theorem disk_roundtrip_witness:
  "ext4_get_group_no_and_offset ex_groups (ext4_group_first_block_no ex_groups 5 + ucast (17 :: u32)) = (5, 17) \<and>
   (\<exists>d. ext4_rec_len_to_disk True 131072 262144 = Inr d \<and> ext4_rec_len_from_disk True d 262144 = 131072) \<and>
   tv_nsec (EXT4_INODE_GET_XTIME (EXT4_INODE_SET_XTIME True \<lparr>tv_sec = 2 ^ 31, tv_nsec = 5\<rparr>)) = 5"
  using disk_roundtrip [of 17 ex_groups 131072 262144 True "\<lparr>tv_sec = 2 ^ 31, tv_nsec = 5\<rparr>" 5]
  by (simp add: ex_groups_def)

end
