(* ===== verification/Ext4_Zones.thy ===== *)
theory Ext4_Zones
  imports Rb_Tree Ext4_Layout
begin

text \<open>
  The system zones of ext4, \<^verbatim>\<open>ext4/block_validity.c\<close>: the ranges of metadata blocks that no file may
  use, kept in a tree and merged when they touch.  The lemmas show that the tree is a set of blocks,
  that setting it up protects the bitmaps and the inode tables of every group and, if the allocator never
  fails, the copies of the super block and of the descriptors that the code selects, and that the check
  accepts exactly the ranges outside it, and where that fails.
\<close>

section \<open>Definitions\<close>

record ext4_system_zone =
  start_blk :: u64
  zcount :: u32

record zstate =
  z_tree :: "ptr tree"
  z_heap :: "ptr \<Rightarrow> ext4_system_zone"
  z_last_error_block :: u64

definition zone_end :: "ext4_system_zone \<Rightarrow> u64" where
  "zone_end z = start_blk z + ucast (zcount z)"

definition can_merge :: "ext4_system_zone \<Rightarrow> ext4_system_zone \<Rightarrow> bool" where
  "can_merge entry1 entry2 = (if zone_end entry1 = start_blk entry2 then True else False)"

definition zone_test :: "zstate \<Rightarrow> u64 \<Rightarrow> ptr \<Rightarrow> dir" where
  "zone_test st blk p =
     (if blk < start_blk (z_heap st p) then Left
      else if blk \<ge> zone_end (z_heap st p) then Right else Here)"

definition merge_left :: "rb \<Rightarrow> ptr \<Rightarrow> zstate \<Rightarrow> zstate" where
  "merge_left R p st =
     (case rb_prev R p (z_tree st) of
        None \<Rightarrow> st
      | Some q \<Rightarrow>
          let entry = z_heap st q; new_entry = z_heap st p
          in if can_merge entry new_entry
             then st\<lparr>z_heap := (z_heap st)(p := \<lparr>start_blk = start_blk entry,
                       zcount = zcount new_entry + zcount entry\<rparr>),
                     z_tree := rb_erase R q (z_tree st)\<rparr>
             else st)"

definition merge_right :: "rb \<Rightarrow> ptr \<Rightarrow> zstate \<Rightarrow> zstate" where
  "merge_right R p st =
     (case rb_next R p (z_tree st) of
        None \<Rightarrow> st
      | Some q \<Rightarrow>
          let entry = z_heap st q; new_entry = z_heap st p
          in if can_merge new_entry entry
             then st\<lparr>z_heap := (z_heap st)(p := new_entry\<lparr>zcount := zcount new_entry + zcount entry\<rparr>),
                     z_tree := rb_erase R q (z_tree st)\<rparr>
             else st)"

text \<open>\<open>new\<close> is what the allocator returns if it is asked.\<close>

definition add_system_zone :: "rb \<Rightarrow> ptr \<Rightarrow> u64 \<Rightarrow> u32 \<Rightarrow> zstate \<Rightarrow> int \<times> zstate" where
  "add_system_zone R new start cnt st =
     (case rb_descend (zone_test st start) (z_tree st) of
        Some p \<Rightarrow>
          let entry = z_heap st p;
              entry' = (if start + ucast cnt > zone_end entry
                        then entry\<lparr>zcount := ucast (start + ucast cnt - start_blk entry)\<rparr> else entry)
          in (0, merge_right R p (merge_left R p (st\<lparr>z_heap := (z_heap st)(p := entry')\<rparr>)))
      | None \<Rightarrow>
          if new = NULL then (- ENOMEM, st)
          else
            let st1 = st\<lparr>z_heap := (z_heap st)(new := \<lparr>start_blk = start, zcount = cnt\<rparr>),
                         z_tree := rb_insert_color R (rb_link (zone_test st start) new (z_tree st))\<rparr>
            in (0, merge_right R new (merge_left R new st1)))"

definition valid_test :: "zstate \<Rightarrow> u64 \<Rightarrow> u32 \<Rightarrow> ptr \<Rightarrow> dir" where
  "valid_test st start cnt p =
     (if start + ucast cnt - 1 < start_blk (z_heap st p) then Left
      else if start \<ge> zone_end (z_heap st p) then Right else Here)"

definition ext4_data_block_valid ::
  "u64 \<Rightarrow> u64 \<Rightarrow> u64 \<Rightarrow> u32 \<Rightarrow> zstate \<Rightarrow> bool \<times> zstate" where
  "ext4_data_block_valid first_data blocks_count start cnt st =
     (if start \<le> first_data \<or> start + ucast cnt < start \<or> start + ucast cnt > blocks_count
      then (False, st\<lparr>z_last_error_block := start\<rparr>)
      else
        case rb_descend (valid_test st start cnt) (z_tree st) of
          Some p \<Rightarrow> (False, st\<lparr>z_last_error_block := start\<rparr>)
        | None \<Rightarrow> (True, st))"

text \<open>The loop frees the children of a node before the node.\<close>

fun release_order :: "ptr tree \<Rightarrow> ptr list" where
  "release_order \<langle>\<rangle> = []"
| "release_order \<langle>l, n, r\<rangle> = release_order l @ release_order r @ [n]"

definition ext4_release_system_zone :: "zstate \<Rightarrow> ptr list \<times> zstate" where
  "ext4_release_system_zone st = (release_order (z_tree st), st\<lparr>z_tree := \<langle>\<rangle>\<rparr>)"

text \<open>A group's descriptor says where its bitmaps and its inode table are; where it starts and whether
  it has copies of the super block and of the descriptors follows from its number.\<close>

record zone_layout =
  zl_groups :: group_layout
  ext4_block_bitmap :: "u32 \<Rightarrow> u64"
  ext4_inode_bitmap :: "u32 \<Rightarrow> u64"
  ext4_inode_table :: "u32 \<Rightarrow> u64"
  s_itb_per_group :: u32
  ext4_flex_bg_size :: u32

definition near_super :: "zone_layout \<Rightarrow> u32 \<Rightarrow> bool" where
  "near_super G i \<longleftrightarrow> i < 5 \<or> i mod ext4_flex_bg_size G = 0"

text \<open>\<open>alloc i k st\<close> is what the slab allocator returns if the \<open>k\<close>-th zone added for group \<open>i\<close> needs a
  node: the calls fail or succeed each on its own.\<close>

type_synonym zone_alloc = "u32 \<Rightarrow> nat \<Rightarrow> zstate \<Rightarrow> ptr"

text \<open>The copies of the super block are added whatever comes of it.\<close>

definition setup_super ::
  "rb \<Rightarrow> zone_alloc \<Rightarrow> zone_layout \<Rightarrow> u32 \<Rightarrow> zstate \<Rightarrow> zstate option" where
  "setup_super R alloc G i st =
     (case ext4_bg_has_super (zl_groups G) i of
        None \<Rightarrow> None
      | Some has \<Rightarrow>
          if has \<and> near_super G i then
            (case ext4_bg_num_gdb (zl_groups G) i of
               None \<Rightarrow> None
             | Some n \<Rightarrow>
                 Some (snd (add_system_zone R (alloc i 0 st) (ext4_group_first_block_no (zl_groups G) i)
                   (ucast (n + 1)) st)))
          else Some st)"

definition setup_group ::
  "rb \<Rightarrow> zone_alloc \<Rightarrow> zone_layout \<Rightarrow> u32 \<Rightarrow> zstate \<Rightarrow> (int \<times> zstate) option" where
  "setup_group R alloc G i st0 =
     (let add = (\<lambda>k blk cnt st. add_system_zone R (alloc i k st) blk cnt st)
      in case setup_super R alloc G i st0 of
           None \<Rightarrow> None
         | Some st1 \<Rightarrow>
             let (ret2, st2) = add 1 (ext4_block_bitmap G i) 1 st1
             in if ret2 \<noteq> 0 then Some (ret2, st2)
                else
                  let (ret3, st3) = add 2 (ext4_inode_bitmap G i) 1 st2
                  in if ret3 \<noteq> 0 then Some (ret3, st3)
                     else Some (add 3 (ext4_inode_table G i) (s_itb_per_group G) st3))"

fun setup_groups ::
  "rb \<Rightarrow> zone_alloc \<Rightarrow> zone_layout \<Rightarrow> u32 list \<Rightarrow> zstate \<Rightarrow> (int \<times> zstate) option" where
  "setup_groups R alloc G [] st = Some (0, st)"
| "setup_groups R alloc G (i # is) st =
     (case setup_group R alloc G i st of
        None \<Rightarrow> None
      | Some (ret, st1) \<Rightarrow> if ret \<noteq> 0 then Some (ret, st1) else setup_groups R alloc G is st1)"

definition ext4_setup_system_zone ::
  "rb \<Rightarrow> zone_alloc \<Rightarrow> zone_layout \<Rightarrow> bool \<Rightarrow> u32 \<Rightarrow> zstate \<Rightarrow> (int \<times> zstate) option" where
  "ext4_setup_system_zone R alloc G block_validity ngroups st =
     (if \<not> block_validity
      then Some (0, if z_tree st \<noteq> \<langle>\<rangle> then snd (ext4_release_system_zone st) else st)
      else if z_tree st \<noteq> \<langle>\<rangle> then Some (0, st)
      else setup_groups R alloc G (map of_nat [0..<unat ngroups]) st)"

section \<open>Zones as sets of blocks\<close>

abbreviation zlo :: "ext4_system_zone \<Rightarrow> nat" where
  "zlo z \<equiv> unat (start_blk z)"

abbreviation zlen :: "ext4_system_zone \<Rightarrow> nat" where
  "zlen z \<equiv> unat (zcount z)"

definition zspan :: "ext4_system_zone \<Rightarrow> nat set" where
  "zspan z = {zlo z ..< zlo z + zlen z}"

definition zones :: "zstate \<Rightarrow> ext4_system_zone list" where
  "zones st = map (z_heap st) (inorder (z_tree st))"

definition zblocks :: "zstate \<Rightarrow> nat set" where
  "zblocks st = (\<Union>z \<in> set (zones st). zspan z)"

definition zwf :: "ext4_system_zone \<Rightarrow> bool" where
  "zwf z \<longleftrightarrow> 0 < zlen z \<and> zlo z + zlen z < 2 ^ 64"

definition zsorted :: "ext4_system_zone list \<Rightarrow> bool" where
  "zsorted zs \<longleftrightarrow> (\<forall>z \<in> set zs. zwf z) \<and> sorted_wrt (\<lambda>a b. zlo a + zlen a \<le> zlo b) zs"

definition ztotal :: "zstate \<Rightarrow> nat" where
  "ztotal st = sum_list (map zlen (zones st))"

definition zinv :: "zstate \<Rightarrow> bool" where
  "zinv st \<longleftrightarrow> distinct (inorder (z_tree st)) \<and> NULL \<notin> set (inorder (z_tree st)) \<and> zsorted (zones st)"

lemma unat_ucast_32_64 [simp]: "unat (ucast (c :: u32) :: u64) = unat c"
proof -
  have "unat c < 2 ^ LENGTH(32)" by (rule unsigned_less)
  then have "unat c < 2 ^ 64" by simp
  then show ?thesis by (simp add: unsigned_ucast_eq take_bit_nat_eq_self)
qed

lemma unat_zone_end:
  assumes "zwf z"
  shows "unat (zone_end z) = zlo z + zlen z"
  using assms by (simp add: zone_end_def zwf_def unat_word_ariths)

lemma can_merge_iff:
  assumes "zwf a"
  shows "can_merge a b \<longleftrightarrow> zlo a + zlen a = zlo b"
  using unat_zone_end [OF assms] by (auto simp: can_merge_def word_unat_eq_iff)

section \<open>Merging neighbours\<close>

text \<open>The state seen from one node: the zones before it, its own and those after it.\<close>

definition zview :: "zstate \<Rightarrow> ptr list \<Rightarrow> ptr \<Rightarrow> ptr list \<Rightarrow> bool" where
  "zview st as p bs \<longleftrightarrow> inorder (z_tree st) = as @ p # bs \<and> zinv st \<and> ztotal st < 2 ^ 32"

lemma zview_zones:
  assumes "zview st as p bs"
  shows "zones st = map (z_heap st) as @ z_heap st p # map (z_heap st) bs"
  using assms by (simp add: zview_def zones_def)

lemma zjoin:
  assumes "zwf a" "zwf b" "zlo a + zlen a = zlo b" "zlen a + zlen b < 2 ^ 32"
    and "start_blk c = start_blk a" "zcount c = zcount b + zcount a \<or> zcount c = zcount a + zcount b"
  shows "zlen c = zlen a + zlen b" "zwf c" "zspan c = zspan a \<union> zspan b"
    "zlo c + zlen c = zlo b + zlen b"
proof -
  have c: "zcount c = zcount a + zcount b" using assms(6) by (auto simp: add.commute)
  have "zlen c = (zlen a + zlen b) mod 2 ^ LENGTH(32)" unfolding c by (rule unat_word_ariths(1))
  then show len: "zlen c = zlen a + zlen b" using assms(4) by simp
  have lo: "zlo c = zlo a" using assms(5) by simp
  show "zwf c" using assms(1-3) len lo unfolding zwf_def by linarith
  show "zspan c = zspan a \<union> zspan b"
    using len lo ivl_disj_un_two(3) [of "zlo a" "zlo a + zlen a" "zlo a + zlen a + zlen b"]
    unfolding zspan_def assms(3) [symmetric] by (simp add: add.assoc)
  show "zlo c + zlen c = zlo b + zlen b" using assms(3) len lo by linarith
qed

lemma zsorted_join:
  assumes "zsorted (xs @ a # b # ys)" "zwf c" "start_blk c = start_blk a" "zlo c + zlen c = zlo b + zlen b"
  shows "zsorted (xs @ c # ys)"
  using assms by (auto simp: zsorted_def sorted_wrt_append)

lemma ztotal_two:
  assumes "zones st = xs @ a # b # ys" "ztotal st < 2 ^ 32"
  shows "zlen a + zlen b < 2 ^ 32"
  using assms by (simp add: ztotal_def)

text \<open>Replacing two adjacent zones by their union.\<close>

lemma zview_join:
  assumes "rb_law R" and "zview st as p bs"
    and "inorder (z_tree st') = as' @ p # bs'"
    and "zones st = xs @ a # b # ys" and "zones st' = xs @ c # ys"
    and "zlo a + zlen a = zlo b" and "start_blk c = start_blk a"
    and "zcount c = zcount b + zcount a \<or> zcount c = zcount a + zcount b"
    and "set (as' @ p # bs') \<subseteq> set (as @ p # bs)" and "distinct (as' @ p # bs')"
  shows "zview st' as' p bs' \<and> zblocks st' = zblocks st"
proof -
  have inv: "zinv st" "ztotal st < 2 ^ 32" using assms(2) by (simp_all add: zview_def)
  have wf: "zwf a" "zwf b" and sorted: "zsorted (xs @ a # b # ys)"
    using inv(1) assms(4) by (auto simp: zinv_def zsorted_def)
  note j = zjoin [OF wf assms(6) ztotal_two [OF assms(4) inv(2)] assms(7,8)]
  have "zsorted (zones st')" unfolding assms(5) by (rule zsorted_join [OF sorted j(2) assms(7) j(4)])
  moreover have "ztotal st' = ztotal st" using j(1) by (simp add: ztotal_def assms(4,5))
  moreover have "zblocks st' = zblocks st" using j(3) by (auto simp: zblocks_def assms(4,5))
  moreover have "NULL \<notin> set (as' @ p # bs')"
    using assms(2,9) by (auto simp: zview_def zinv_def)
  ultimately show ?thesis
    using assms(3,10) inv(2) by (simp add: zview_def zinv_def)
qed

lemma merge_left_view:
  assumes "rb_law R" and "zview st as p bs"
  shows "\<exists>as'. zview (merge_left R p st) as' p bs \<and> zblocks (merge_left R p st) = zblocks st"
proof (cases "as = [] \<or> \<not> can_merge (z_heap st (last as)) (z_heap st p)")
  case True
  have "rb_prev R p (z_tree st) = (if as = [] then None else Some (last as))"
    using rb_neighbours(2) [OF assms(1), of "z_tree st" as p bs] assms(2) unfolding zview_def zinv_def by blast
  then have "merge_left R p st = st"
    using True by (auto simp: merge_left_def Let_def)
  then show ?thesis using assms(2) by auto
next
  case False
  then obtain as' q where as: "as = as' @ [q]" and m: "can_merge (z_heap st q) (z_heap st p)"
    by (cases as rule: rev_cases) auto
  have t: "inorder (z_tree st) = as' @ q # p # bs"
    using assms(2) as by (simp add: zview_def)
  moreover have "distinct (inorder (z_tree st))" using assms(2) unfolding zview_def zinv_def by blast
  ultimately have d: "distinct (as' @ q # p # bs)" by simp
  have "rb_prev R p (z_tree st) = Some q"
    using rb_neighbours(2) [OF assms(1), of "z_tree st" "as' @ [q]" p bs] t d by simp
  let ?c = "\<lparr>start_blk = start_blk (z_heap st q), zcount = zcount (z_heap st p) + zcount (z_heap st q)\<rparr>"
  let ?s = "merge_left R p st"
  have s: "?s = st\<lparr>z_heap := (z_heap st)(p := ?c), z_tree := rb_erase R q (z_tree st)\<rparr>"
    using \<open>rb_prev R p (z_tree st) = Some q\<close> m by (simp add: merge_left_def Let_def)
  have t': "inorder (z_tree ?s) = as' @ p # bs"
    using rb_erase_inorder [OF assms(1), of "z_tree st" as' q "p # bs"] t d s by simp
  have z: "zones st = map (z_heap st) as' @ z_heap st q # z_heap st p # map (z_heap st) bs"
    using t by (simp add: zones_def)
  have z': "zones ?s = map (z_heap st) as' @ ?c # map (z_heap st) bs"
    using d t' s by (simp add: zones_def)
  have wf: "zwf (z_heap st q)" using assms(2) z by (simp add: zview_def zinv_def zsorted_def)
  show ?thesis
    using zview_join [OF assms t' z z'] can_merge_iff [OF wf] m d as by auto
qed

lemma merge_right_view:
  assumes "rb_law R" and "zview st as p bs"
  shows "\<exists>bs'. zview (merge_right R p st) as p bs' \<and> zblocks (merge_right R p st) = zblocks st"
proof (cases "bs = [] \<or> \<not> can_merge (z_heap st p) (z_heap st (hd bs))")
  case True
  have "rb_next R p (z_tree st) = (if bs = [] then None else Some (hd bs))"
    using rb_neighbours(1) [OF assms(1), of "z_tree st" as p bs] assms(2) unfolding zview_def zinv_def by blast
  then have "merge_right R p st = st"
    using True by (auto simp: merge_right_def Let_def)
  then show ?thesis using assms(2) by auto
next
  case False
  then obtain q bs' where bs: "bs = q # bs'" and m: "can_merge (z_heap st p) (z_heap st q)"
    by (cases bs) auto
  have t: "inorder (z_tree st) = as @ p # q # bs'"
    using assms(2) bs by (simp add: zview_def)
  moreover have "distinct (inorder (z_tree st))" using assms(2) unfolding zview_def zinv_def by blast
  ultimately have d: "distinct (as @ p # q # bs')" by simp
  have "rb_next R p (z_tree st) = Some q"
    using rb_neighbours(1) [OF assms(1), of "z_tree st" as p "q # bs'"] t d by simp
  let ?c = "(z_heap st p)\<lparr>zcount := zcount (z_heap st p) + zcount (z_heap st q)\<rparr>"
  let ?s = "merge_right R p st"
  have s: "?s = st\<lparr>z_heap := (z_heap st)(p := ?c), z_tree := rb_erase R q (z_tree st)\<rparr>"
    using \<open>rb_next R p (z_tree st) = Some q\<close> m by (simp add: merge_right_def Let_def)
  have t': "inorder (z_tree ?s) = as @ p # bs'"
    using rb_erase_inorder [OF assms(1), of "z_tree st" "as @ [p]" q bs'] t d s by simp
  have z: "zones st = map (z_heap st) as @ z_heap st p # z_heap st q # map (z_heap st) bs'"
    using t by (simp add: zones_def)
  have z': "zones ?s = map (z_heap st) as @ ?c # map (z_heap st) bs'"
    using d t' s by (simp add: zones_def)
  have wf: "zwf (z_heap st p)" using assms(2) z by (simp add: zview_def zinv_def zsorted_def)
  show ?thesis
    using zview_join [OF assms t' z z'] can_merge_iff [OF wf] m d bs by auto
qed

section \<open>Adding a zone\<close>

lemma merge_both:
  assumes "rb_law R" and "zview st as p bs"
  shows "zinv (merge_right R p (merge_left R p st)) \<and>
         zblocks (merge_right R p (merge_left R p st)) = zblocks st"
proof -
  obtain as' where l: "zview (merge_left R p st) as' p bs" "zblocks (merge_left R p st) = zblocks st"
    using merge_left_view [OF assms] by blast
  obtain bs' where "zview (merge_right R p (merge_left R p st)) as' p bs'"
    "zblocks (merge_right R p (merge_left R p st)) = zblocks (merge_left R p st)"
    using merge_right_view [OF assms(1) l(1)] by blast
  then show ?thesis using l(2) by (simp add: zview_def)
qed

lemma zinv_pair:
  assumes "zinv st" and "inorder (z_tree st) = as @ p # bs"
  shows "zwf (z_heap st p)" and "\<And>a. a \<in> set as \<Longrightarrow> zlo (z_heap st a) + zlen (z_heap st a) \<le> zlo (z_heap st p)"
    and "\<And>b. b \<in> set bs \<Longrightarrow> zlo (z_heap st p) + zlen (z_heap st p) \<le> zlo (z_heap st b)"
  using assms by (auto simp: zinv_def zsorted_def zones_def sorted_wrt_append)

lemma zone_test_nat:
  assumes "zwf (z_heap st p)"
  shows "zone_test st s p = (if unat s < zlo (z_heap st p) then Left
           else if zlo (z_heap st p) + zlen (z_heap st p) \<le> unat s then Right else Here)"
  using unat_zone_end [OF assms] by (simp add: zone_test_def word_less_nat_alt word_le_nat_alt)

lemma zone_test_splits:
  assumes "zinv st"
  shows "\<exists>as m bs. splits_at (zone_test st s) as m bs (inorder (z_tree st))"
proof (rule splits_exists)
  have wf: "\<forall>p \<in> set (inorder (z_tree st)). zwf (z_heap st p)"
    and "sorted_wrt (\<lambda>p q. zlo (z_heap st p) + zlen (z_heap st p) \<le> zlo (z_heap st q)) (inorder (z_tree st))"
    using assms by (auto simp: zinv_def zsorted_def zones_def sorted_wrt_map)
  then show "sorted_wrt (\<lambda>p q. zone_test st s p \<noteq> Right \<longrightarrow> zone_test st s q = Left) (inorder (z_tree st))"
    by (rule_tac sorted_wrt_mono_rel) (auto simp: zone_test_nat)
qed

text \<open>The range \<open>s, c\<close> ends before every zone that starts after \<open>s\<close>, and the counters do not
  overflow.\<close>

definition fits :: "zstate \<Rightarrow> u64 \<Rightarrow> u32 \<Rightarrow> bool" where
  "fits st s c \<longleftrightarrow> 0 < unat c \<and> unat s + unat c < 2 ^ 64 \<and> ztotal st + unat c < 2 ^ 32 \<and>
     (\<forall>z \<in> set (zones st). unat s < zlo z \<longrightarrow> unat s + unat c \<le> zlo z)"

lemma unat_range_end:
  assumes "fits st s c"
  shows "unat (s + ucast c) = unat s + unat c"
  using assms by (simp add: fits_def unat_word_ariths)

text \<open>Extending the zone that holds the first block.\<close>

lemma extend_zone:
  assumes "fits st s c" and "zwf z" and "zlo z \<le> unat s" and "unat s < zlo z + zlen z"
    and "zlen z \<le> ztotal st"
  defines "z' \<equiv> (if s + ucast c > zone_end z then z\<lparr>zcount := ucast (s + ucast c - start_blk z)\<rparr> else z)"
  shows "start_blk z' = start_blk z"
    and "zlo z + zlen z' = max (zlo z + zlen z) (unat s + unat c)"
    and "zspan z' = zspan z \<union> {unat s ..< unat s + unat c}"
proof -
  let ?d = "s + ucast c - start_blk z"
  have e: "unat (s + ucast c) = unat s + unat c" by (rule unat_range_end [OF assms(1)])
  have "start_blk z \<le> s + ucast c" using assms(3) e by (simp add: word_le_nat_alt)
  then have d: "unat ?d = unat s + unat c - zlo z" using e by (simp add: unat_sub)
  have "ztotal st + unat c < 2 ^ 32" using assms(1) by (simp add: fits_def)
  then have "unat ?d < 2 ^ 32" using d assms(3-5) by linarith
  then have u: "unat (ucast ?d :: u32) = unat s + unat c - zlo z"
    using d by (simp add: unsigned_ucast_eq take_bit_nat_eq_self)
  show start: "start_blk z' = start_blk z" by (simp add: z'_def)
  show end': "zlo z + zlen z' = max (zlo z + zlen z) (unat s + unat c)"
    using u assms(3) e unat_zone_end [OF assms(2)]
    by (simp add: z'_def word_less_nat_alt)
  show "zspan z' = zspan z \<union> {unat s ..< unat s + unat c}"
    using end' start assms(3,4) by (auto simp: zspan_def)
qed

lemma zones_upd:
  assumes "inorder (z_tree st) = as @ p # bs" and "distinct (inorder (z_tree st))"
  shows "zones (st\<lparr>z_heap := (z_heap st)(p := z)\<rparr>) = map (z_heap st) as @ z # map (z_heap st) bs"
proof -
  have "p \<notin> set as" "p \<notin> set bs" using assms(2) unfolding assms(1) by auto
  then show ?thesis using assms(1) by (simp add: zones_def)
qed

lemma add_extends:
  assumes "zinv st" and "fits st s c" and "inorder (z_tree st) = as @ p # bs"
    and "zone_test st s p = Here"
  defines "e \<equiv> z_heap st p"
  defines "st1 \<equiv> st\<lparr>z_heap := (z_heap st)(p := if s + ucast c > zone_end e
       then e\<lparr>zcount := ucast (s + ucast c - start_blk e)\<rparr> else e)\<rparr>"
  shows "zview st1 as p bs" and "zblocks st1 = zblocks st \<union> {unat s ..< unat s + unat c}"
proof -
  let ?e' = "if s + ucast c > zone_end e then e\<lparr>zcount := ucast (s + ucast c - start_blk e)\<rparr> else e"
  note pair = zinv_pair [OF assms(1,3), folded e_def]
  have z: "zones st = map (z_heap st) as @ e # map (z_heap st) bs"
    using assms(3) by (simp add: zones_def e_def)
  have s: "zlo e \<le> unat s" "unat s < zlo e + zlen e"
    using assms(4) pair(1) unfolding e_def zone_test_nat [OF pair(1) [unfolded e_def]]
    by (auto split: if_splits)
  have "zlen e \<le> ztotal st" by (simp add: ztotal_def z)
  note x = extend_zone [OF assms(2) pair(1) s this]
  have z1: "zones st1 = map (z_heap st) as @ ?e' # map (z_heap st) bs"
    using zones_upd [OF assms(3), of ?e'] assms(1) by (simp add: st1_def zinv_def)
  have "zlo (z_heap st b) \<ge> unat s + unat c" if "b \<in> set bs" for b
  proof -
    have "unat s < zlo (z_heap st b)" using pair(3) [OF that] s(2) by simp
    then show ?thesis using assms(2) that unfolding fits_def z by auto
  qed
  then have later: "zlo e + zlen ?e' \<le> zlo (z_heap st b)" if "b \<in> set bs" for b
    using pair(3) [OF that] that unfolding x(2) by simp
  have "zwf ?e'"
    using x(1,2) pair(1) assms(2) s unfolding zwf_def fits_def by (simp add: max_def split: if_splits)
  then have sorted: "zsorted (zones st1)"
    using assms(1) later pair(2) x(1) unfolding z1
    by (auto simp: zinv_def zsorted_def z sorted_wrt_append)
  have "ztotal st1 \<le> ztotal st + unat c"
    using x(2) s by (simp add: ztotal_def z z1)
  then show "zview st1 as p bs"
    using assms(1-3) sorted by (simp add: zview_def zinv_def fits_def st1_def)
  show "zblocks st1 = zblocks st \<union> {unat s ..< unat s + unat c}"
    unfolding zblocks_def z z1 using x(3) by auto
qed

lemma add_inserts:
  assumes "rb_law R" and "zinv st" and "fits st s c"
    and "splits_at (zone_test st s) as None bs (inorder (z_tree st))"
    and "new \<noteq> NULL" and "new \<notin> set (inorder (z_tree st))"
  defines "st1 \<equiv> st\<lparr>z_heap := (z_heap st)(new := \<lparr>start_blk = s, zcount = c\<rparr>),
       z_tree := rb_insert_color R (rb_link (zone_test st s) new (z_tree st))\<rparr>"
  shows "zview st1 as new bs" and "zblocks st1 = zblocks st \<union> {unat s ..< unat s + unat c}"
proof -
  let ?z = "\<lparr>start_blk = s, zcount = c\<rparr>"
  have t: "inorder (z_tree st) = as @ bs" using assms(4) by (simp add: splits_at_def)
  have t1: "inorder (z_tree st1) = as @ new # bs"
    using rb_link_split [OF assms(4), of new] rb_insert_inorder [OF assms(1)] by (simp add: st1_def)
  have z: "zones st = map (z_heap st) as @ map (z_heap st) bs" using t by (simp add: zones_def)
  have z1: "zones st1 = map (z_heap st) as @ ?z # map (z_heap st) bs"
    using t1 assms(6) t by (simp add: zones_def st1_def)
  have wf: "zwf (z_heap st p)" if "p \<in> set as \<union> set bs" for p
    using assms(2) that by (auto simp: zinv_def zsorted_def z)
  have before: "zlo (z_heap st a) + zlen (z_heap st a) \<le> unat s" if "a \<in> set as" for a
    using assms(4) that zone_test_nat [OF wf [of a], of s] by (auto simp: splits_at_def split: if_splits)
  have after: "unat s + unat c \<le> zlo (z_heap st b)" if "b \<in> set bs" for b
  proof -
    have "zone_test st s b = Left" using assms(4) that by (auto simp: splits_at_def)
    then have "unat s < zlo (z_heap st b)"
      using zone_test_nat [OF wf [of b], of s] that by (auto split: if_splits)
    then show ?thesis using assms(3) that by (auto simp: fits_def z)
  qed
  have "zwf ?z" using assms(3) by (simp add: zwf_def fits_def)
  then have sorted: "zsorted (zones st1)"
    using assms(2) before after unfolding z1
    by (fastforce simp: zinv_def zsorted_def z sorted_wrt_append)
  have "ztotal st1 = ztotal st + unat c" by (simp add: ztotal_def z z1)
  then show "zview st1 as new bs"
    using assms(2,3,5,6) sorted t t1 by (simp add: zview_def zinv_def fits_def)
  show "zblocks st1 = zblocks st \<union> {unat s ..< unat s + unat c}"
    unfolding zblocks_def z z1 by (auto simp: zspan_def)
qed

text \<open>The allocator is asked only for a range that starts in no zone.\<close>

lemma add_system_zone_asked:
  assumes "rb_law R" and "zinv st" and "fits st s c"
    and "new \<noteq> NULL \<or> rb_descend (zone_test st s) (z_tree st) \<noteq> None"
    and "new \<noteq> NULL \<longrightarrow> new \<notin> set (inorder (z_tree st))"
  shows "\<exists>st'. add_system_zone R new s c st = (0, st') \<and> zinv st' \<and>
           zblocks st' = zblocks st \<union> {unat s ..< unat s + unat c}"
proof -
  obtain as m bs where sp: "splits_at (zone_test st s) as m bs (inorder (z_tree st))"
    using zone_test_splits [OF assms(2)] by blast
  note d = rb_descend_split [OF sp]
  show ?thesis
  proof (cases m)
    case None
    then have new: "new \<noteq> NULL" "new \<notin> set (inorder (z_tree st))" using d assms(4,5) by auto
    then show ?thesis
      using d None add_inserts [OF assms(1-3) sp [unfolded None] new] merge_both [OF assms(1)]
      by (auto simp: add_system_zone_def Let_def)
  next
    case (Some p)
    have t: "inorder (z_tree st) = as @ p # bs" "zone_test st s p = Here"
      using sp Some by (auto simp: splits_at_def)
    note x = add_extends [OF assms(2,3) t]
    show ?thesis
      using d Some merge_both [OF assms(1) x(1)] x(2) by (simp add: add_system_zone_def Let_def)
  qed
qed

lemmas add_system_zone_ok = add_system_zone_asked [OF _ _ _ disjI1 impI]

section \<open>Checking a range\<close>

text \<open>A walk finds a hit if there is one, when left turns stay left further on and right turns stay
  right further back.\<close>

lemma rb_descend_None:
  assumes "sorted_wrt (\<lambda>p q. (test p = Left \<longrightarrow> test q = Left) \<and> (test q = Right \<longrightarrow> test p = Right)) (inorder t)"
  shows "rb_descend test t = None \<longleftrightarrow> (\<forall>p \<in> set (inorder t). test p \<noteq> Here)"
  using assms
proof (induction t)
  case (Node l n r)
  show ?case
  proof (cases "test n")
    case Left
    then have "\<forall>p \<in> set (inorder r). test p = Left" using Node.prems by (auto simp: sorted_wrt_append)
    then show ?thesis using Left Node by (auto simp: sorted_wrt_append)
  next
    case Right
    then have "\<forall>p \<in> set (inorder l). test p = Right" using Node.prems by (auto simp: sorted_wrt_append)
    then show ?thesis using Right Node by (auto simp: sorted_wrt_append)
  qed simp
qed simp

lemma valid_test_nat:
  assumes "zwf (z_heap st p)" and "0 < unat c" and "unat s + unat c < 2 ^ 64"
  shows "valid_test st s c p = (if unat s + unat c \<le> zlo (z_heap st p) then Left
           else if zlo (z_heap st p) + zlen (z_heap st p) \<le> unat s then Right else Here)"
proof -
  have e: "unat (s + ucast c) = unat s + unat c" using assms(3) by (simp add: unat_word_ariths)
  then have "s + ucast c \<noteq> 0" using assms(2) by (metis add_is_0 less_numeral_extra(3) unat_0)
  then have "unat (s + ucast c - 1) = unat s + unat c - 1" using e by (simp add: unat_minus_one)
  then have "s + ucast c - 1 < start_blk (z_heap st p) \<longleftrightarrow> unat s + unat c \<le> zlo (z_heap st p)"
    using assms(2) by (auto simp: word_less_nat_alt)
  then show ?thesis
    using unat_zone_end [OF assms(1)] by (simp add: valid_test_def word_le_nat_alt)
qed

lemma valid_test_Here:
  assumes "zwf (z_heap st p)" and "0 < unat c" and "unat s + unat c < 2 ^ 64"
  shows "valid_test st s c p = Here \<longleftrightarrow> zspan (z_heap st p) \<inter> {unat s ..< unat s + unat c} \<noteq> {}"
proof -
  let ?z = "z_heap st p"
  have "valid_test st s c p = Here \<longleftrightarrow> zlo ?z < unat s + unat c \<and> unat s < zlo ?z + zlen ?z"
    unfolding valid_test_nat [OF assms] by auto
  also have "\<dots> \<longleftrightarrow> max (zlo ?z) (unat s) \<in> zspan ?z \<inter> {unat s ..< unat s + unat c}"
    using assms(1,2) by (auto simp: zspan_def zwf_def max_def)
  also have "\<dots> \<longleftrightarrow> zspan ?z \<inter> {unat s ..< unat s + unat c} \<noteq> {}"
    by (auto simp: zspan_def max_def)
  finally show ?thesis .
qed

lemma data_block_valid_iff:
  assumes "zinv st" and "0 < unat c"
  shows "fst (ext4_data_block_valid first blocks s c st) \<longleftrightarrow>
           unat first < unat s \<and> unat s + unat c < 2 ^ 64 \<and> unat s + unat c \<le> unat blocks \<and>
           zblocks st \<inter> {unat s ..< unat s + unat c} = {}"
proof (cases "unat s + unat c < 2 ^ 64")
  case False
  have "unat s < 2 ^ LENGTH(64)" "unat c < 2 ^ LENGTH(32)" by (rule unsigned_less)+
  then have "unat (s + ucast c) = unat s + unat c - 2 ^ 64"
    using False by (simp add: unat_word_ariths mod_if)
  then have "s + ucast c < s"
    using \<open>unat c < 2 ^ LENGTH(32)\<close> False by (simp add: word_less_nat_alt)
  then show ?thesis using False by (simp add: ext4_data_block_valid_def)
next
  case True
  have e: "unat (s + ucast c) = unat s + unat c" using True by (simp add: unat_word_ariths)
  have wf: "\<forall>p \<in> set (inorder (z_tree st)). zwf (z_heap st p)"
    and so: "sorted_wrt (\<lambda>p q. zlo (z_heap st p) + zlen (z_heap st p) \<le> zlo (z_heap st q)) (inorder (z_tree st))"
    using assms(1) by (auto simp: zinv_def zsorted_def zones_def sorted_wrt_map)
  have "sorted_wrt (\<lambda>p q. (valid_test st s c p = Left \<longrightarrow> valid_test st s c q = Left) \<and>
      (valid_test st s c q = Right \<longrightarrow> valid_test st s c p = Right)) (inorder (z_tree st))"
    using so
    by (rule sorted_wrt_mono_rel [rotated])
       (use wf assms(2) True in \<open>auto simp: valid_test_nat zwf_def\<close>)
  then have "rb_descend (valid_test st s c) (z_tree st) = None \<longleftrightarrow>
      (\<forall>p \<in> set (inorder (z_tree st)). valid_test st s c p \<noteq> Here)"
    by (rule rb_descend_None)
  also have "\<dots> \<longleftrightarrow> zblocks st \<inter> {unat s ..< unat s + unat c} = {}"
    using wf valid_test_Here [OF _ assms(2) True] by (auto simp: zblocks_def zones_def)
  finally show ?thesis
    using True e
    by (auto simp: ext4_data_block_valid_def word_le_nat_alt word_less_nat_alt not_le split: option.splits)
qed

text \<open>What the rest of the file system relies on: the check accepts exactly the ranges inside the file system
  that meet no guarded block, and accepting changes nothing.\<close>

locale block_guard =
  fixes valid :: "u64 \<Rightarrow> u64 \<Rightarrow> u64 \<Rightarrow> u32 \<Rightarrow> 's \<Rightarrow> bool \<times> 's"
    and ok :: "'s \<Rightarrow> bool"
    and guarded :: "'s \<Rightarrow> nat set"
  assumes valid_iff: "\<lbrakk>ok st; 0 < unat c\<rbrakk> \<Longrightarrow> fst (valid fd bc s c st) \<longleftrightarrow>
      unat fd < unat s \<and> unat s + unat c < 2 ^ 64 \<and> unat s + unat c \<le> unat bc \<and>
      guarded st \<inter> {unat s ..< unat s + unat c} = {}"
    and accepted_same: "valid fd bc s c st = (True, st') \<Longrightarrow> st' = st"
begin

lemma one_block:
  assumes "ok st"
  shows "fst (valid fd bc s 1 st) \<longleftrightarrow> unat fd < unat s \<and> unat s < unat bc \<and> unat s \<notin> guarded st"
proof -
  have "unat bc < 2 ^ LENGTH(64)" by (rule unsigned_less)
  then show ?thesis using valid_iff [OF assms, of 1 fd bc s] by auto
qed

end

interpretation zone_guard: block_guard ext4_data_block_valid zinv zblocks
  by unfold_locales
     (rule data_block_valid_iff, auto simp: ext4_data_block_valid_def split: if_splits option.splits)

section \<open>Setting the zones up\<close>

text \<open>The ranges of a group, in the order in which they are added.\<close>

definition super_range :: "zone_layout \<Rightarrow> u32 \<Rightarrow> (u64 \<times> u32) list option" where
  "super_range G i =
     (case ext4_bg_has_super (zl_groups G) i of
        None \<Rightarrow> None
      | Some has \<Rightarrow>
          if has \<and> near_super G i
          then map_option (\<lambda>n. [(ext4_group_first_block_no (zl_groups G) i, ucast (n + 1))])
                 (ext4_bg_num_gdb (zl_groups G) i)
          else Some [])"

definition group_ranges :: "zone_layout \<Rightarrow> u32 \<Rightarrow> (u64 \<times> u32) list option" where
  "group_ranges G i =
     map_option (\<lambda>super. super @ [(ext4_block_bitmap G i, 1), (ext4_inode_bitmap G i, 1),
                              (ext4_inode_table G i, s_itb_per_group G)]) (super_range G i)"

fun zone_ranges :: "zone_layout \<Rightarrow> u32 list \<Rightarrow> (u64 \<times> u32) list option" where
  "zone_ranges G [] = Some []"
| "zone_ranges G (i # is) =
     (case (group_ranges G i, zone_ranges G is) of (Some r, Some rs) \<Rightarrow> Some (r @ rs) | _ \<Rightarrow> None)"

definition range_span :: "u64 \<times> u32 \<Rightarrow> nat set" where
  "range_span r = {unat (fst r) ..< unat (fst r) + unat (snd r)}"

text \<open>Ranges that are non-empty, inside the 64-bit block numbers and do not overlap.\<close>

definition ranges_ok :: "(u64 \<times> u32) list \<Rightarrow> bool" where
  "ranges_ok rs \<longleftrightarrow> (\<forall>r \<in> set rs. 0 < unat (snd r) \<and> unat (fst r) + unat (snd r) < 2 ^ 64) \<and>
     sorted_wrt (\<lambda>a b. range_span a \<inter> range_span b = {}) rs \<and> (\<Sum>r\<leftarrow>rs. unat (snd r)) < 2 ^ 32"

text \<open>What the slab allocator promises: no node in use.  It may return null; \<open>never_null\<close> says that it does
  not while there are fewer than \<open>2 ^ 32\<close> zones.\<close>

definition fresh_zone :: "zone_alloc \<Rightarrow> bool" where
  "fresh_zone alloc \<longleftrightarrow> (\<forall>i k st. alloc i k st \<noteq> NULL \<longrightarrow> alloc i k st \<notin> set (inorder (z_tree st)))"

definition never_null :: "zone_alloc \<Rightarrow> bool" where
  "never_null alloc \<longleftrightarrow> (\<forall>i k st. length (inorder (z_tree st)) < 2 ^ 32 \<longrightarrow> alloc i k st \<noteq> NULL)"

text \<open>The blocks of a group that are its own: its bitmaps and its part of the inode table.\<close>

definition own_blocks :: "zone_layout \<Rightarrow> u32 \<Rightarrow> nat set" where
  "own_blocks G i = {unat (ext4_block_bitmap G i), unat (ext4_inode_bitmap G i)} \<union>
     {unat (ext4_inode_table G i) ..< unat (ext4_inode_table G i) + unat (s_itb_per_group G)}"

abbreviation spans :: "(u64 \<times> u32) list \<Rightarrow> nat set" where
  "spans rs \<equiv> \<Union>r \<in> set rs. range_span r"

lemma zsorted_card:
  assumes "zsorted zs"
  shows "card (\<Union>z \<in> set zs. zspan z) = sum_list (map zlen zs)" and "length zs \<le> sum_list (map zlen zs)"
proof -
  have "card (\<Union>z \<in> set zs. zspan z) = sum_list (map zlen zs) \<and> length zs \<le> sum_list (map zlen zs)"
    using assms
  proof (induction zs)
    case (Cons z zs)
    have "zspan z \<inter> (\<Union>y \<in> set zs. zspan y) = {}"
      using Cons.prems by (fastforce simp: zsorted_def zspan_def)
    then have "card (zspan z \<union> (\<Union>y \<in> set zs. zspan y)) = zlen z + card (\<Union>y \<in> set zs. zspan y)"
      by (subst card_Un_disjoint) (auto simp: zspan_def)
    then show ?case using Cons by (auto simp: zsorted_def zwf_def)
  qed simp
  then show "card (\<Union>z \<in> set zs. zspan z) = sum_list (map zlen zs)" and "length zs \<le> sum_list (map zlen zs)"
    by auto
qed

lemma ztotal_card:
  assumes "zinv st"
  shows "ztotal st = card (zblocks st)" and "length (inorder (z_tree st)) \<le> ztotal st"
  using zsorted_card [of "zones st"] assms by (simp_all add: zinv_def ztotal_def zblocks_def zones_def)

lemma fits_disjoint:
  assumes "zinv st" and "zblocks st \<inter> range_span r = {}"
    and "0 < unat (snd r)" and "unat (fst r) + unat (snd r) < 2 ^ 64" and "ztotal st + unat (snd r) < 2 ^ 32"
  shows "fits st (fst r) (snd r)"
proof -
  have "unat (fst r) + unat (snd r) \<le> zlo z" if "z \<in> set (zones st)" "unat (fst r) < zlo z" for z
  proof -
    have "zlo z \<in> zblocks st"
      using assms(1) that(1) by (auto simp: zblocks_def zspan_def zinv_def zsorted_def zwf_def intro!: bexI [of _ z])
    then show ?thesis using assms(2) that(2) by (auto simp: range_span_def)
  qed
  then show ?thesis using assms by (simp add: fits_def)
qed

lemma finite_zblocks: "finite (zblocks st)"
  by (simp add: zblocks_def zspan_def)

text \<open>There is room for the ranges that are still to be added.\<close>

definition room :: "zstate \<Rightarrow> (u64 \<times> u32) list \<Rightarrow> bool" where
  "room st rs \<longleftrightarrow> zinv st \<and> (\<forall>r \<in> set rs. 0 < unat (snd r) \<and> unat (fst r) + unat (snd r) < 2 ^ 64) \<and>
     sorted_wrt (\<lambda>a b. range_span a \<inter> range_span b = {}) rs \<and> (\<forall>r \<in> set rs. zblocks st \<inter> range_span r = {}) \<and>
     ztotal st + (\<Sum>r\<leftarrow>rs. unat (snd r)) < 2 ^ 32"

lemma room_few: "room st rs \<Longrightarrow> length (inorder (z_tree st)) < 2 ^ 32"
  using ztotal_card(2) [of st] by (simp add: room_def)

lemma room_drop: "room st (xs @ ys) \<Longrightarrow> room st ys"
  by (auto simp: room_def sorted_wrt_append)

lemma room_add:
  assumes "rb_law R" and "room st (r # rs)" and "new \<noteq> NULL \<longrightarrow> new \<notin> set (inorder (z_tree st))"
  shows "\<exists>ret st'. add_system_zone R new (fst r) (snd r) st = (ret, st') \<and> room st' rs \<and>
           (ret = 0 \<and> zblocks st' = zblocks st \<union> range_span r \<or> ret = - ENOMEM \<and> new = NULL \<and> st' = st)"
proof (cases "new = NULL \<and> rb_descend (zone_test st (fst r)) (z_tree st) = None")
  case True
  then show ?thesis using room_drop [of st "[r]" rs] assms(2) by (simp add: add_system_zone_def)
next
  case False
  note rm = assms(2) [unfolded room_def]
  have inv: "zinv st" using rm by simp
  have "fits st (fst r) (snd r)" by (rule fits_disjoint) (use rm in simp_all)
  then obtain st' where st': "add_system_zone R new (fst r) (snd r) st = (0, st')" "zinv st'"
    "zblocks st' = zblocks st \<union> range_span r"
    using add_system_zone_asked [OF assms(1) inv _ _ assms(3)] False
    unfolding range_span_def by blast
  have "card (zblocks st') = card (zblocks st) + unat (snd r)"
    unfolding st'(3) using rm finite_zblocks by (subst card_Un_disjoint) (auto simp: range_span_def)
  then have "ztotal st' = ztotal st + unat (snd r)"
    using ztotal_card(1) [OF inv] ztotal_card(1) [OF st'(2)] by simp
  then have "room st' rs" using rm st'(2,3) by (auto simp: room_def)
  then show ?thesis using st' by blast
qed

lemma setup_super_ok:
  assumes "rb_law R" and "fresh_zone alloc" and "super_range G i = Some sr" and "room st (sr @ rs)"
  shows "\<exists>st'. setup_super R alloc G i st = Some st' \<and> room st' rs \<and> zblocks st \<subseteq> zblocks st' \<and>
           zblocks st' \<subseteq> zblocks st \<union> spans sr \<and> (never_null alloc \<longrightarrow> zblocks st' = zblocks st \<union> spans sr)"
proof (cases sr)
  case Nil
  then have "setup_super R alloc G i st = Some st"
    using assms(3) by (auto simp: super_range_def setup_super_def split: option.splits if_splits)
  then show ?thesis using assms(4) Nil by simp
next
  case (Cons r sr')
  then have sr: "sr = [r]" and r: "setup_super R alloc G i st = Some (snd (add_system_zone R (alloc i 0 st) (fst r) (snd r) st))"
    using assms(3) by (auto simp: super_range_def setup_super_def split: option.splits if_splits)
  obtain ret st' where "add_system_zone R (alloc i 0 st) (fst r) (snd r) st = (ret, st')" "room st' rs"
    "ret = 0 \<and> zblocks st' = zblocks st \<union> range_span r \<or> ret = - ENOMEM \<and> alloc i 0 st = NULL \<and> st' = st"
    using room_add [OF assms(1), of st r rs "alloc i 0 st"] assms(2,4) unfolding fresh_zone_def sr by auto
  then show ?thesis using room_few [OF assms(4)] unfolding r sr never_null_def by auto
qed

definition group_added :: "zone_alloc \<Rightarrow> zone_layout \<Rightarrow> u32 list \<Rightarrow> (u64 \<times> u32) list \<Rightarrow> zstate \<Rightarrow> int \<Rightarrow> zstate \<Rightarrow> bool" where
  "group_added alloc G is rs st ret st' \<longleftrightarrow> zinv st' \<and> zblocks st \<subseteq> zblocks st' \<and> zblocks st' \<subseteq> zblocks st \<union> spans rs \<and>
     (ret = 0 \<and> (\<forall>i \<in> set is. own_blocks G i \<subseteq> zblocks st') \<or> ret = - ENOMEM \<and> \<not> never_null alloc) \<and>
     (never_null alloc \<longrightarrow> zblocks st' = zblocks st \<union> spans rs)"

lemma room_inv: "room st rs \<Longrightarrow> zinv st"
  by (simp add: room_def)

lemma setup_group_ok:
  assumes "rb_law R" and "fresh_zone alloc" and "group_ranges G i = Some gr" and "room st (gr @ rs)"
  shows "\<exists>ret st'. setup_group R alloc G i st = Some (ret, st') \<and> group_added alloc G [i] gr st ret st' \<and>
           (ret = 0 \<longrightarrow> room st' rs)"
proof -
  let ?b = "(ext4_block_bitmap G i, 1 :: u32)" and ?n = "(ext4_inode_bitmap G i, 1 :: u32)"
    and ?t = "(ext4_inode_table G i, s_itb_per_group G)"
  obtain sr where sr: "super_range G i = Some sr" and gr: "gr = sr @ [?b, ?n, ?t]"
    using assms(3) by (auto simp: group_ranges_def)
  have fr: "alloc i k s \<noteq> NULL \<longrightarrow> alloc i k s \<notin> set (inorder (z_tree s))" for k s
    using assms(2) by (simp add: fresh_zone_def)
  have nn: "alloc i k s \<noteq> NULL" if "never_null alloc" "room s xs" for k s xs
    using that room_few by (auto simp: never_null_def)
  obtain s1 where s1: "setup_super R alloc G i st = Some s1" "room s1 (?b # ?n # ?t # rs)" "zblocks st \<subseteq> zblocks s1"
    "zblocks s1 \<subseteq> zblocks st \<union> spans sr" "never_null alloc \<longrightarrow> zblocks s1 = zblocks st \<union> spans sr"
    using setup_super_ok [OF assms(1,2) sr, of st "?b # ?n # ?t # rs"] assms(4) unfolding gr by auto
  obtain r2 s2 where s2: "add_system_zone R (alloc i 1 s1) (ext4_block_bitmap G i) 1 s1 = (r2, s2)" "room s2 (?n # ?t # rs)"
    "r2 = 0 \<and> zblocks s2 = zblocks s1 \<union> range_span ?b \<or> r2 = - ENOMEM \<and> alloc i 1 s1 = NULL \<and> s2 = s1"
    using room_add [OF assms(1) s1(2) fr, of 1] by auto
  obtain r3 s3 where s3: "add_system_zone R (alloc i 2 s2) (ext4_inode_bitmap G i) 1 s2 = (r3, s3)" "room s3 (?t # rs)"
    "r3 = 0 \<and> zblocks s3 = zblocks s2 \<union> range_span ?n \<or> r3 = - ENOMEM \<and> alloc i 2 s2 = NULL \<and> s3 = s2"
    using room_add [OF assms(1) s2(2) fr, of 2] by auto
  obtain r4 s4 where s4: "add_system_zone R (alloc i 3 s3) (ext4_inode_table G i) (s_itb_per_group G) s3 = (r4, s4)" "room s4 rs"
    "r4 = 0 \<and> zblocks s4 = zblocks s3 \<union> range_span ?t \<or> r4 = - ENOMEM \<and> alloc i 3 s3 = NULL \<and> s4 = s3"
    using room_add [OF assms(1) s3(2) fr, of 3] by auto
  have run: "setup_group R alloc G i st =
      Some (if r2 \<noteq> 0 then (r2, s2) else if r3 \<noteq> 0 then (r3, s3) else (r4, s4))"
    using s1(1) s2(1) s3(1) s4(1) by (simp add: setup_group_def)
  have sp: "spans gr = spans sr \<union> range_span ?b \<union> range_span ?n \<union> range_span ?t" unfolding gr by auto
  have own: "own_blocks G i \<subseteq> zblocks s4"
    if "zblocks s2 = zblocks s1 \<union> range_span ?b" "zblocks s3 = zblocks s2 \<union> range_span ?n" "zblocks s4 = zblocks s3 \<union> range_span ?t"
    using that by (auto simp: own_blocks_def range_span_def)
  note inv = room_inv [OF s2(2)] room_inv [OF s3(2)] room_inv [OF s4(2)]
  have e: "- ENOMEM \<noteq> (0 :: int)" by simp
  consider (f2) "r2 = - ENOMEM" "\<not> never_null alloc" "s2 = s1"
    | (f3) "r2 = 0" "zblocks s2 = zblocks s1 \<union> range_span ?b" "r3 = - ENOMEM" "\<not> never_null alloc" "s3 = s2"
    | (f4) "r2 = 0" "zblocks s2 = zblocks s1 \<union> range_span ?b" "r3 = 0" "zblocks s3 = zblocks s2 \<union> range_span ?n"
        "r4 = - ENOMEM" "\<not> never_null alloc" "s4 = s3"
    | (all) "r2 = 0" "zblocks s2 = zblocks s1 \<union> range_span ?b" "r3 = 0" "zblocks s3 = zblocks s2 \<union> range_span ?n"
        "r4 = 0" "zblocks s4 = zblocks s3 \<union> range_span ?t"
    using s2(3) s3(3) s4(3) nn [OF _ s1(2)] nn [OF _ s2(2)] nn [OF _ s3(2)] by metis
  then show ?thesis
  proof cases
    case all
    then show ?thesis using run own s1 inv s4(2) unfolding group_added_def sp by auto
  qed (use run s1 inv e in \<open>auto simp: group_added_def sp\<close>)
qed

lemma setup_groups_ok:
  assumes "rb_law R" and "fresh_zone alloc" and "zone_ranges G is = Some rs" and "room st rs"
  shows "\<exists>ret st'. setup_groups R alloc G is st = Some (ret, st') \<and> group_added alloc G is rs st ret st'"
  using assms(3,4)
proof (induction "is" arbitrary: rs st)
  case Nil
  then show ?case by (simp add: group_added_def room_inv)
next
  case (Cons i "is")
  then obtain gr rs' where g: "group_ranges G i = Some gr" "zone_ranges G is = Some rs'" "rs = gr @ rs'"
    by (auto split: option.splits)
  obtain ret s1 where s1: "setup_group R alloc G i st = Some (ret, s1)" "group_added alloc G [i] gr st ret s1"
    "ret = 0 \<longrightarrow> room s1 rs'"
    using setup_group_ok [OF assms(1,2) g(1)] Cons.prems(2) unfolding g(3) by blast
  show ?case
  proof (cases "ret = 0")
    case True
    then obtain ret2 s2 where "setup_groups R alloc G is s1 = Some (ret2, s2)" "group_added alloc G is rs' s1 ret2 s2"
      using Cons.IH [OF g(2)] s1(3) by blast
    then show ?thesis using s1 True unfolding g(3) group_added_def by auto
  next
    case False
    then show ?thesis using s1 unfolding g(3) group_added_def by auto
  qed
qed

lemma setup_system_zone_ok:
  assumes "rb_law R" and "fresh_zone alloc" and "z_tree st = \<langle>\<rangle>"
    and "zone_ranges G (map of_nat [0..<unat ngroups]) = Some rs" and "ranges_ok rs"
  shows "\<exists>ret z. ext4_setup_system_zone R alloc G True ngroups st = Some (ret, z) \<and> zinv z \<and> zblocks z \<subseteq> spans rs \<and>
           (ret = 0 \<and> (\<forall>i < ngroups. own_blocks G i \<subseteq> zblocks z) \<or> ret = - ENOMEM \<and> \<not> never_null alloc) \<and>
           (never_null alloc \<longrightarrow> zblocks z = spans rs)"
proof -
  have e: "zblocks st = {}" and "room st rs"
    using assms(3,5) by (simp_all add: zinv_def zblocks_def zones_def zsorted_def ztotal_def room_def ranges_ok_def)
  then obtain ret z where z: "setup_groups R alloc G (map of_nat [0..<unat ngroups]) st = Some (ret, z)"
    "group_added alloc G (map of_nat [0..<unat ngroups]) rs st ret z"
    using setup_groups_ok [OF assms(1,2,4)] by blast
  moreover have "i \<in> set (map of_nat [0..<unat ngroups])" if "i < ngroups" for i :: u32
    using that by (auto simp: word_less_nat_alt intro!: image_eqI [of _ _ "unat i"])
  ultimately show ?thesis
    using assms(3) unfolding group_added_def e ext4_setup_system_zone_def by auto
qed

text \<open>With meta block groups the first group of a meta group holds a descriptor block; without a copy of the
  super block there it is not among the ranges.\<close>

lemma meta_bg_unprotected:
  assumes "zl_groups G = ex_groups\<lparr>meta_bg := True\<rparr>"
  shows "ext4_bg_num_gdb (zl_groups G) 32 = Some 1 \<and> super_range G 32 = Some []"
  by (simp add: assms ex_groups_def ext4_bg_num_gdb_def ext4_bg_num_gdb_meta_def super_range_def
      ext4_bg_has_super_def ext4_group_sparse_def word_le_nat_alt)

text \<open>An allocator that keeps the promise: the first of \<open>1, 2, \<dots>\<close> that is not in the tree.\<close>

definition first_free :: zone_alloc where
  "first_free i k st =
     (case List.find (\<lambda>p. p \<notin> set (inorder (z_tree st))) (map of_nat [1..<length (inorder (z_tree st)) + 2]) of
        Some p \<Rightarrow> p | None \<Rightarrow> NULL)"

lemma first_free_fresh: "fresh_zone first_free"
  by (auto simp: fresh_zone_def first_free_def find_Some_iff split: option.splits)

lemma first_free_never_null: "never_null first_free"
proof -
  have "first_free i j st \<noteq> NULL"
    if "length (inorder (z_tree st)) < 2 ^ 32" for i j st
  proof -
    define n where "n = length (inorder (z_tree st))"
    define ps where "ps = map (of_nat :: nat \<Rightarrow> ptr) [1..<n + 2]"
    have "inj_on (of_nat :: nat \<Rightarrow> ptr) {1..<n + 2}"
      using that by (intro inj_onI) (simp add: n_def word_of_nat_eq_iff take_bit_nat_eq_self)
    moreover have ps: "set ps = of_nat ` {1..<n + 2}" by (simp add: ps_def del: upt_Suc)
    ultimately have "card (set ps) = n + 1" by (simp add: card_image)
    moreover have "card (set (inorder (z_tree st))) \<le> n" unfolding n_def by (rule card_length)
    ultimately have "\<not> set ps \<subseteq> set (inorder (z_tree st))"
      using card_mono [of "set (inorder (z_tree st))" "set ps"] by auto
    then obtain p where "List.find (\<lambda>p. p \<notin> set (inorder (z_tree st))) ps = Some p"
      by (cases "List.find (\<lambda>p. p \<notin> set (inorder (z_tree st))) ps") (auto simp: find_None_iff)
    moreover from this have "p \<in> set ps" "p \<notin> set (inorder (z_tree st))"
      by (auto simp: find_Some_iff)
    moreover have "of_nat k \<noteq> NULL" if "k \<in> {1..<n + 2}" for k
      using that \<open>length (inorder (z_tree st)) < 2 ^ 32\<close> word_of_nat_eq_0_iff [of k, where 'a = 64]
      by (auto simp: n_def dest: dvd_imp_le)
    then have "NULL \<notin> set ps" unfolding ps by fastforce
    ultimately show ?thesis by (auto simp: first_free_def ps_def n_def)
  qed
  then show ?thesis by (simp add: never_null_def)
qed

section \<open>Properties\<close>

text \<open>The tree of system zones implements a set of blocks: adding a range that ends before the
  zones that start after it succeeds, whether it is new, touches its neighbours or extends the zone
  it starts in; the blocks protected afterwards are those before and the range, and
  \<open>ext4_data_block_valid\<close> then accepts exactly the ranges that lie inside the file system after
  its first data block and touch none of them.\<close>

theorem system_zone_refines:
  assumes "rb_law R" and "zinv st" and "fits st s c" and "new \<noteq> NULL"
    and "new \<notin> set (inorder (z_tree st))"
  shows "\<exists>st'. add_system_zone R new s c st = (0, st') \<and> zinv st' \<and>
           zblocks st' = zblocks st \<union> {unat s ..< unat s + unat c} \<and>
           (\<forall>first blocks b k. 0 < unat k \<longrightarrow>
              (fst (ext4_data_block_valid first blocks b k st') \<longleftrightarrow>
                 unat first < unat b \<and> unat b + unat k < 2 ^ 64 \<and> unat b + unat k \<le> unat blocks \<and>
                 (zblocks st \<union> {unat s ..< unat s + unat c}) \<inter> {unat b ..< unat b + unat k} = {}))"
proof -
  obtain st' where "add_system_zone R new s c st = (0, st')" "zinv st'"
    "zblocks st' = zblocks st \<union> {unat s ..< unat s + unat c}"
    using add_system_zone_ok [OF assms(1-4)] assms(5) by blast
  then show ?thesis using data_block_valid_iff [of st'] by (intro exI [of _ st']) simp
qed

definition ex_zones :: zstate where
  "ex_zones = \<lparr>z_tree = \<langle>\<langle>\<rangle>, 1, \<langle>\<rangle>\<rangle>, z_heap = (\<lambda>_. \<lparr>start_blk = 20, zcount = 10\<rparr>), z_last_error_block = 0\<rparr>"

theorem system_zone_refines_witness:
  "\<exists>st'. add_system_zone plain_rb 2 10 10 ex_zones = (0, st') \<and> zblocks st' = {10..<30} \<and>
         \<not> fst (ext4_data_block_valid 0 1000 29 1 st') \<and> fst (ext4_data_block_valid 0 1000 30 1 st')"
proof -
  have inv: "zinv ex_zones" "fits ex_zones 10 10" and b: "zblocks ex_zones = {20..<30}"
    by (simp_all add: zinv_def ex_zones_def zones_def zsorted_def zwf_def fits_def ztotal_def
        zblocks_def zspan_def)
  have u: "{20..<30} \<union> {10..<20} = {10..<30 :: nat}" by auto
  obtain st' where st': "add_system_zone plain_rb 2 10 10 ex_zones = (0, st')" "zblocks st' = {10..<30}"
    and v: "\<forall>first blocks b k. 0 < unat k \<longrightarrow>
       (fst (ext4_data_block_valid first blocks b k st') \<longleftrightarrow>
          unat first < unat b \<and> unat b + unat k < 2 ^ 64 \<and> unat b + unat k \<le> unat blocks \<and>
          {10..<30} \<inter> {unat b ..< unat b + unat k} = {})"
    using system_zone_refines [OF plain_rb_law inv, of 2] unfolding b
    by (auto simp: u ex_zones_def)
  show ?thesis
    using st' v [rule_format, of 1 0 1000 29] v [rule_format, of 1 0 1000 30] by auto
qed

text \<open>A range that runs into the next zone is not merged with it: after extending the zone at 10 over
  the zone at 20 the walk turns away from the long zone, and a block of it passes the check.\<close>

definition zone_adds :: "(u64 \<times> u32) list \<Rightarrow> zstate \<Rightarrow> zstate" where
  "zone_adds rs st = snd (foldl (\<lambda>(p, st) (s, c). (p + 1, snd (add_system_zone plain_rb p s c st))) (1, st) rs)"

lemma zone_overlap_missed:
  defines "st \<equiv> zone_adds [(20, 10), (10, 5), (10, 90)]
     \<lparr>z_tree = \<langle>\<rangle>, z_heap = (\<lambda>_. \<lparr>start_blk = 0, zcount = 0\<rparr>), z_last_error_block = 0\<rparr>"
  shows "50 \<in> zblocks st \<and> fst (ext4_data_block_valid 0 1000 50 1 st)"
proof -
  have "z_tree st = \<langle>\<langle>\<langle>\<rangle>, 2, \<langle>\<rangle>\<rangle>, 1, \<langle>\<rangle>\<rangle>" "z_heap st 1 = \<lparr>start_blk = 20, zcount = 10\<rparr>"
    "z_heap st 2 = \<lparr>start_blk = 10, zcount = 90\<rparr>"
    by (simp_all add: st_def zone_adds_def add_system_zone_def zone_test_def zone_end_def plain_rb_def
        merge_left_def merge_right_def can_merge_def)
  then show ?thesis
    by (simp add: zblocks_def zones_def zspan_def ext4_data_block_valid_def valid_test_def zone_end_def)
qed

end
