(* ===== verification/Ext4_Extents.thy ===== *)
theory Ext4_Extents
  imports Ext4_Zones
begin

text \<open>
  Extent trees of ext4, \<open>src/ext4/extents.c\<close> and \<open>src/ext4/ext4_extents.h\<close>: the packed entries, the
  check of a block of the tree against the system zones, the binary searches and the walk from the
  root to a leaf, and for a tree of depth 0 merging, the test for overlap, insertion and the cached
  extent.  The lemmas read a leaf, and a tree, as a map from the blocks of a file to blocks on disk,
  and show that search, insertion and cache implement look-up and update of that map.
\<close>

section \<open>Definitions\<close>

subsection \<open>Entries\<close>

type_synonym u16 = "16 word"

definition EXT4_EXT_MAGIC :: u16 where "EXT4_EXT_MAGIC = 0xf30a"
definition EXT_MAX_BLOCKS :: u32 where "EXT_MAX_BLOCKS = 0xffffffff"
definition EXT_INIT_MAX_LEN :: nat where "EXT_INIT_MAX_LEN = 2 ^ 15"
definition EXT_UNINIT_MAX_LEN :: nat where "EXT_UNINIT_MAX_LEN = EXT_INIT_MAX_LEN - 1"

record ext4_extent =
  ee_block :: u32
  ee_len :: u16
  ee_start_hi :: u16
  ee_start_lo :: u32

record ext4_extent_idx =
  ei_block :: u32
  ei_leaf_lo :: u32
  ei_leaf_hi :: u16

record ext4_extent_header =
  eh_magic :: u16
  eh_entries :: u16
  eh_max :: u16
  eh_depth :: u16

definition ext4_ext_mark_uninitialized :: "ext4_extent \<Rightarrow> fault + ext4_extent" where
  "ext4_ext_mark_uninitialized e =
     (if ee_len e AND NOT (of_nat EXT_INIT_MAX_LEN) = 0 then Inl BUG
      else Inr (e\<lparr>ee_len := ee_len e OR of_nat EXT_INIT_MAX_LEN\<rparr>))"

definition ext4_ext_is_uninitialized :: "ext4_extent \<Rightarrow> bool" where
  "ext4_ext_is_uninitialized e \<longleftrightarrow> unat (ee_len e) > EXT_INIT_MAX_LEN"

definition ext4_ext_get_actual_len :: "ext4_extent \<Rightarrow> nat" where
  "ext4_ext_get_actual_len e =
     (if unat (ee_len e) \<le> EXT_INIT_MAX_LEN then unat (ee_len e) else unat (ee_len e) - EXT_INIT_MAX_LEN)"

definition ext4_ext_mark_initialized :: "ext4_extent \<Rightarrow> ext4_extent" where
  "ext4_ext_mark_initialized e = e\<lparr>ee_len := of_nat (ext4_ext_get_actual_len e)\<rparr>"

definition ext4_ext_pblock :: "ext4_extent \<Rightarrow> u64" where
  "ext4_ext_pblock e = ucast (ee_start_lo e) OR push_bit 1 (push_bit 31 (ucast (ee_start_hi e)))"

definition ext4_idx_pblock :: "ext4_extent_idx \<Rightarrow> u64" where
  "ext4_idx_pblock ix = ucast (ei_leaf_lo ix) OR push_bit 1 (push_bit 31 (ucast (ei_leaf_hi ix)))"

definition ext4_ext_store_pblock :: "u64 \<Rightarrow> ext4_extent \<Rightarrow> ext4_extent" where
  "ext4_ext_store_pblock pb e =
     e\<lparr>ee_start_lo := ucast (pb AND 0xffffffff),
       ee_start_hi := ucast (drop_bit 1 (drop_bit 31 pb) AND 0xffff)\<rparr>"

definition ext4_idx_store_pblock :: "u64 \<Rightarrow> ext4_extent_idx \<Rightarrow> ext4_extent_idx" where
  "ext4_idx_store_pblock pb ix =
     ix\<lparr>ei_leaf_lo := ucast (pb AND 0xffffffff),
        ei_leaf_hi := ucast (drop_bit 1 (drop_bit 31 pb) AND 0xffff)\<rparr>"

subsection \<open>Checking a block of entries\<close>

definition ext4_valid_extent :: "u64 \<Rightarrow> u64 \<Rightarrow> ext4_extent \<Rightarrow> zstate \<Rightarrow> bool \<times> zstate" where
  "ext4_valid_extent first_data blocks_count e z =
     (let len = ext4_ext_get_actual_len e
      in if len = 0 then (False, z)
         else ext4_data_block_valid first_data blocks_count (ext4_ext_pblock e) (of_nat len) z)"

definition ext4_valid_extent_idx :: "u64 \<Rightarrow> u64 \<Rightarrow> ext4_extent_idx \<Rightarrow> zstate \<Rightarrow> bool \<times> zstate" where
  "ext4_valid_extent_idx first_data blocks_count ix z =
     ext4_data_block_valid first_data blocks_count (ext4_idx_pblock ix) 1 z"

text \<open>The two loops of \<open>ext4_valid_extent_entries\<close>, over the entries behind the header.\<close>

fun valid_entries :: "('e \<Rightarrow> zstate \<Rightarrow> bool \<times> zstate) \<Rightarrow> 'e list \<Rightarrow> zstate \<Rightarrow> bool \<times> zstate" where
  "valid_entries valid [] z = (True, z)"
| "valid_entries valid (e # es) z =
     (case valid e z of (ok, z') \<Rightarrow> if ok then valid_entries valid es z' else (False, z'))"

text \<open>\<open>EXT_FIRST_INDEX\<close> casts the same twelve bytes of a slot that \<open>EXT_FIRST_EXTENT\<close> casts.\<close>

definition slot_idx :: "ext4_extent \<Rightarrow> ext4_extent_idx" where
  "slot_idx e =
     \<lparr>ei_block = ee_block e, ei_leaf_lo = ucast (ee_len e) OR push_bit 16 (ucast (ee_start_hi e)),
      ei_leaf_hi = ucast (ee_start_lo e)\<rparr>"

definition ext4_valid_extent_entries ::
  "u64 \<Rightarrow> u64 \<Rightarrow> ext4_extent_header \<Rightarrow> ext4_extent list \<Rightarrow> nat \<Rightarrow> zstate \<Rightarrow> bool \<times> zstate" where
  "ext4_valid_extent_entries first_data blocks_count eh slots depth z =
     (if eh_entries eh = 0 then (True, z)
      else
        let entries = take (unat (eh_entries eh)) slots
        in if depth = 0 then valid_entries (ext4_valid_extent first_data blocks_count) entries z
           else valid_entries (ext4_valid_extent_idx first_data blocks_count) (map slot_idx entries) z)"

text \<open>Entries and header have twelve bytes each, the inode has room for sixty.\<close>

definition ext4_ext_space_block :: "nat \<Rightarrow> nat" where
  "ext4_ext_space_block blocksize = (blocksize - 12) div 12"

definition ext4_ext_space_block_idx :: "nat \<Rightarrow> nat" where
  "ext4_ext_space_block_idx blocksize = (blocksize - 12) div 12"

definition ext4_ext_space_root :: nat where "ext4_ext_space_root = (60 - 12) div 12"
definition ext4_ext_space_root_idx :: nat where "ext4_ext_space_root_idx = (60 - 12) div 12"

definition ext4_ext_max_entries :: "nat \<Rightarrow> nat \<Rightarrow> nat \<Rightarrow> nat" where
  "ext4_ext_max_entries blocksize ext_depth depth =
     (if depth = ext_depth then if depth = 0 then ext4_ext_space_root else ext4_ext_space_root_idx
      else if depth = 0 then ext4_ext_space_block blocksize else ext4_ext_space_block_idx blocksize)"

definition ext4_ext_check ::
  "u64 \<Rightarrow> u64 \<Rightarrow> nat \<Rightarrow> nat \<Rightarrow> ext4_extent_header \<Rightarrow> ext4_extent list \<Rightarrow> nat \<Rightarrow> zstate \<Rightarrow>
     int \<times> string option \<times> zstate" where
  "ext4_ext_check first_data blocks_count blocksize ext_depth eh slots depth z =
     (let corrupted = (\<lambda>msg z. (- EIO, Some msg, z))
      in if eh_magic eh \<noteq> EXT4_EXT_MAGIC then corrupted ''invalid magic'' z
         else if unat (eh_depth eh) \<noteq> depth then corrupted ''unexpected eh_depth'' z
         else if eh_max eh = 0 then corrupted ''invalid eh_max'' z
         else if unat (eh_max eh) > ext4_ext_max_entries blocksize ext_depth depth
         then corrupted ''too large eh_max'' z
         else if eh_entries eh > eh_max eh then corrupted ''invalid eh_entries'' z
         else case ext4_valid_extent_entries first_data blocks_count eh slots depth z of
                (ok, z') \<Rightarrow> if ok then (0, None, z') else corrupted ''invalid extent entries'' z')"

subsection \<open>Binary search\<close>

text \<open>The loop on the keys of the entries; \<open>l\<close> and \<open>r\<close> are positions relative to the first entry.\<close>

function bin_loop :: "u32 list \<Rightarrow> u32 \<Rightarrow> int \<Rightarrow> int \<Rightarrow> int" where
  "bin_loop keys block l r =
     (if l \<le> r then
        let m = l + (r - l) div 2
        in if block < keys ! nat m then bin_loop keys block l (m - 1) else bin_loop keys block (m + 1) r
      else l)"
  by auto
termination
  by (relation "measure (\<lambda>(keys, block, l, r). nat (r - l + 1))") auto

definition ext4_ext_binsearch_idx :: "ext4_extent_idx list \<Rightarrow> u32 \<Rightarrow> int" where
  "ext4_ext_binsearch_idx ixs block = bin_loop (map ei_block ixs) block 1 (int (length ixs) - 1) - 1"

text \<open>\<open>None\<close> when the leaf is empty: \<open>p_ext\<close> keeps the null pointer it was given.\<close>

definition ext4_ext_binsearch :: "ext4_extent list \<Rightarrow> u32 \<Rightarrow> nat option" where
  "ext4_ext_binsearch es block =
     (if es = [] then None else Some (nat (bin_loop (map ee_block es) block 1 (int (length es) - 1) - 1)))"

text \<open>The self-check under \<open>CHECK_BINSEARCH\<close>: a linear scan from entry \<open>k\<close> on, \<open>chix\<close> the last one passed.\<close>

function check_scan :: "u32 list \<Rightarrow> u32 \<Rightarrow> nat \<Rightarrow> nat \<Rightarrow> fault + nat" where
  "check_scan keys block k chix =
     (if k < length keys then
        if k \<noteq> 0 \<and> keys ! k \<le> keys ! (k - 1) then Inl BUG
        else if block < keys ! k then Inr chix
        else check_scan keys block (k + 1) k
      else Inr chix)"
  by auto
termination
  by (relation "measure (\<lambda>(keys, block, k, chix). length keys - k)") auto

definition check_binsearch :: "u32 list \<Rightarrow> u32 \<Rightarrow> int \<Rightarrow> fault + unit" where
  "check_binsearch keys block found =
     (case check_scan keys block 0 0 of
        Inl f \<Rightarrow> Inl f
      | Inr chix \<Rightarrow> if int chix \<noteq> found then Inl BUG else Inr ())"

subsection \<open>Merging\<close>

definition ext4_can_extents_be_merged :: "ext4_extent \<Rightarrow> ext4_extent \<Rightarrow> bool" where
  "ext4_can_extents_be_merged ex1 ex2 =
     (if ext4_ext_is_uninitialized ex1 \<noteq> ext4_ext_is_uninitialized ex2 then False
      else
        let max_len = (if ext4_ext_is_uninitialized ex1 then EXT_UNINIT_MAX_LEN else EXT_INIT_MAX_LEN);
            len1 = ext4_ext_get_actual_len ex1; len2 = ext4_ext_get_actual_len ex2
        in if ee_block ex1 + of_nat len1 \<noteq> ee_block ex2 then False
           else if len1 + len2 > max_len then False
           else ext4_ext_pblock ex1 + of_nat len1 = ext4_ext_pblock ex2)"

text \<open>The new length of \<open>ex\<close> after absorbing an extent, with its mark.\<close>

definition grow_extent :: "bool \<Rightarrow> ext4_extent \<Rightarrow> ext4_extent \<Rightarrow> fault + ext4_extent" where
  "grow_extent uninitialized ex nx =
     (let e = ex\<lparr>ee_len := of_nat (ext4_ext_get_actual_len ex + ext4_ext_get_actual_len nx)\<rparr>
      in if uninitialized then ext4_ext_mark_uninitialized e else Inr e)"

text \<open>The loop of \<open>ext4_ext_try_to_merge_right\<close> on the entries \<open>es\<close> of the leaf, \<open>ex\<close> at position \<open>i\<close>.\<close>

function merge_right_loop ::
  "ext4_extent list \<Rightarrow> nat \<Rightarrow> bool \<Rightarrow> bool \<Rightarrow> fault + bool \<times> ext4_extent list" where
  "merge_right_loop es i uninit merged =
     (if i + 1 < length es then
        if \<not> ext4_can_extents_be_merged (es ! i) (es ! (i + 1)) then Inr (merged, es)
        else
          let uninit' = (uninit \<or> ext4_ext_is_uninitialized (es ! i))
          in case grow_extent uninit' (es ! i) (es ! (i + 1)) of
               Inl f \<Rightarrow> Inl f
             | Inr e \<Rightarrow> merge_right_loop (take i es @ e # drop (i + 2) es) i uninit' True
      else Inr (merged, es))"
  by auto
termination
  by (relation "measure (\<lambda>(es, i, u, d). length es)") auto

definition ext4_ext_try_to_merge_right :: "ext4_extent list \<Rightarrow> nat \<Rightarrow> fault + bool \<times> ext4_extent list" where
  "ext4_ext_try_to_merge_right es i = merge_right_loop es i False False"

definition ext4_ext_try_to_merge :: "ext4_extent list \<Rightarrow> nat \<Rightarrow> fault + bool \<times> ext4_extent list" where
  "ext4_ext_try_to_merge es i =
     (case (if i > 0 then ext4_ext_try_to_merge_right es (i - 1) else Inr (False, es)) of
        Inl f \<Rightarrow> Inl f
      | Inr (merge_done, es1) \<Rightarrow>
          if \<not> merge_done then ext4_ext_try_to_merge_right es1 i else Inr (False, es1))"

subsection \<open>Walking down the tree\<close>

text \<open>A block of the tree: its header and its slots.  Asking the buffer layer for a block gives nothing,
  a read error, a block that was in memory, or one just read, which has to be validated.\<close>

record ext_node =
  nd_hdr :: ext4_extent_header
  nd_slots :: "ext4_extent list"

datatype ext_read = No_buffer | Read_error | In_memory ext_node | Just_read ext_node

definition nd_extents :: "ext_node \<Rightarrow> ext4_extent list" where
  "nd_extents nd = take (unat (eh_entries (nd_hdr nd))) (nd_slots nd)"

definition nd_indexes :: "ext_node \<Rightarrow> ext4_extent_idx list" where
  "nd_indexes nd = map slot_idx (nd_extents nd)"

record ext4_ext_path =
  p_block :: u64
  p_depth :: nat
  p_ext :: "nat option"
  p_idx :: "int option"
  p_hdr :: ext_node

text \<open>The device and the zones that \<open>ext4_ext_check\<close> uses.\<close>

record ext_fs =
  fs_first_data :: u64
  fs_blocks_count :: u64
  fs_blocksize :: nat
  fs_read :: "u64 \<Rightarrow> ext_read"

definition fs_check :: "ext_fs \<Rightarrow> nat \<Rightarrow> ext_node \<Rightarrow> nat \<Rightarrow> zstate \<Rightarrow> int \<times> zstate" where
  "fs_check F depth nd i z =
     (case ext4_ext_check (fs_first_data F) (fs_blocks_count F) (fs_blocksize F) depth (nd_hdr nd) (nd_slots nd) i z of
        (err, _, z') \<Rightarrow> (err, z'))"

text \<open>The loop of \<open>ext4_ext_find_extent\<close> from the node \<open>nd\<close> at level \<open>i\<close> on; \<open>None\<close> is its jump to \<open>err\<close>.\<close>

fun find_walk ::
  "ext_fs \<Rightarrow> nat \<Rightarrow> u32 \<Rightarrow> nat \<Rightarrow> ext_node \<Rightarrow> zstate \<Rightarrow> ext4_ext_path list option \<times> zstate" where
  "find_walk F depth block 0 nd z =
     (let p = ext4_ext_binsearch (nd_extents nd) block
      in (Some [\<lparr>p_block = (case p of None \<Rightarrow> 0 | Some j \<Rightarrow> ext4_ext_pblock (nd_extents nd ! j)),
                 p_depth = 0, p_ext = p, p_idx = None, p_hdr = nd\<rparr>], z))"
| "find_walk F depth block (Suc i) nd z =
     (let p = ext4_ext_binsearch_idx (nd_indexes nd) block;
          blk = ext4_idx_pblock (slot_idx (nd_slots nd ! nat p));
          here = \<lparr>p_block = blk, p_depth = Suc i, p_ext = None, p_idx = Some p, p_hdr = nd\<rparr>;
          go = (\<lambda>nd' z'. case find_walk F depth block i nd' z' of
                          (None, z'') \<Rightarrow> (None, z'')
                        | (Some path, z'') \<Rightarrow> (Some (here # path), z''))
      in case fs_read F blk of
           No_buffer \<Rightarrow> (None, z)
         | Read_error \<Rightarrow> (None, z)
         | In_memory nd' \<Rightarrow> go nd' z
         | Just_read nd' \<Rightarrow>
             (case fs_check F depth nd' i z of
                (err, z') \<Rightarrow> if err \<noteq> 0 then (None, z') else go nd' z'))"

text \<open>The depth is a \<open>short int\<close> in the source; the headers that pass the check have a smaller one.\<close>

definition ext4_ext_find_extent ::
  "bool \<Rightarrow> ext_fs \<Rightarrow> ext_node \<Rightarrow> u32 \<Rightarrow> zstate \<Rightarrow> (int + ext4_ext_path list) \<times> zstate" where
  "ext4_ext_find_extent alloc_ok F root block z =
     (if \<not> alloc_ok then (Inl (- ENOMEM), z)
      else
        let depth = unat (eh_depth (nd_hdr root))
        in case find_walk F depth block depth root z of
             (None, z') \<Rightarrow> (Inl (- EIO), z')
           | (Some path, z') \<Rightarrow> (Inr path, z'))"

text \<open>What follows the entry found, in one block of the path; a null \<open>p_ext\<close> is not the last entry and
  is followed all the same.\<close>

definition path_next :: "ext4_ext_path \<Rightarrow> fault + u32 option" where
  "path_next p =
     (if p_depth p = 0 then
        case p_ext p of
          None \<Rightarrow> Inl BAD_POINTER
        | Some i \<Rightarrow> Inr (if i \<noteq> length (nd_extents (p_hdr p)) - 1
                         then Some (ee_block (nd_extents (p_hdr p) ! (i + 1))) else None)
      else
        case p_idx p of
          None \<Rightarrow> Inl BAD_POINTER
        | Some i \<Rightarrow> Inr (if i \<noteq> int (length (nd_indexes (p_hdr p))) - 1
                         then Some (ei_block (nd_indexes (p_hdr p) ! nat (i + 1))) else None))"

fun next_up :: "ext4_ext_path list \<Rightarrow> fault + u32" where
  "next_up [] = Inr EXT_MAX_BLOCKS"
| "next_up (p # ps) =
     (case path_next p of
        Inl f \<Rightarrow> Inl f
      | Inr None \<Rightarrow> next_up ps
      | Inr (Some b) \<Rightarrow> Inr b)"

definition ext4_ext_next_allocated_block :: "ext4_ext_path list \<Rightarrow> fault + u32" where
  "ext4_ext_next_allocated_block path =
     (if path = [] then Inl BUG
      else if p_depth (hd path) = 0 \<and> p_ext (hd path) = None then Inr EXT_MAX_BLOCKS
      else next_up (rev path))"

definition ext4_ext_next_leaf_block :: "ext4_ext_path list \<Rightarrow> fault + u32" where
  "ext4_ext_next_leaf_block path =
     (if path = [] then Inl BUG
      else if p_depth (hd path) = 0 then Inr EXT_MAX_BLOCKS
      else next_up (rev (butlast path)))"

subsection \<open>Inserting into a leaf\<close>

record ext4_ext_cache =
  ec_start :: u64
  ec_block :: u32
  ec_len :: u32

text \<open>A tree of depth 0: the leaf in the inode, its capacity, and the cached extent.\<close>

record ext_leaf =
  lf_max :: nat
  lf_entries :: "ext4_extent list"
  i_cached_extent :: ext4_ext_cache
  extent_cache_hits :: nat
  extent_cache_misses :: nat

definition ext4_ext_invalidate_cache :: "ext_leaf \<Rightarrow> ext_leaf" where
  "ext4_ext_invalidate_cache st = st\<lparr>i_cached_extent := (i_cached_extent st)\<lparr>ec_len := 0\<rparr>\<rparr>"

definition ext4_ext_tree_init :: "ext_leaf \<Rightarrow> ext_leaf" where
  "ext4_ext_tree_init st = ext4_ext_invalidate_cache (st\<lparr>lf_entries := [], lf_max := ext4_ext_space_root\<rparr>)"

text \<open>\<open>ext4_ext_next_allocated_block\<close> in a tree of depth 0.\<close>

definition leaf_next_block :: "ext4_extent list \<Rightarrow> nat option \<Rightarrow> u32" where
  "leaf_next_block es found =
     (case found of
        None \<Rightarrow> EXT_MAX_BLOCKS
      | Some i \<Rightarrow> if i \<noteq> length es - 1 then ee_block (es ! (i + 1)) else EXT_MAX_BLOCKS)"

definition ext4_ext_check_overlap :: "ext4_extent list \<Rightarrow> nat option \<Rightarrow> ext4_extent \<Rightarrow> bool \<times> ext4_extent" where
  "ext4_ext_check_overlap es found newext =
     (case found of
        None \<Rightarrow> (False, newext)
      | Some i \<Rightarrow>
          let b1 = ee_block newext; len1 = of_nat (ext4_ext_get_actual_len newext) :: u32;
              b2 = (if ee_block (es ! i) < b1 then leaf_next_block es found else ee_block (es ! i))
          in if ee_block (es ! i) < b1 \<and> b2 = EXT_MAX_BLOCKS then (False, newext)
             else
               let (ret1, len1', new1) =
                     (if b1 + len1 < b1
                      then (True, EXT_MAX_BLOCKS - b1, newext\<lparr>ee_len := ucast (EXT_MAX_BLOCKS - b1)\<rparr>)
                      else (False, len1, newext))
               in if b1 + len1' > b2 then (True, new1\<lparr>ee_len := ucast (b2 - b1)\<rparr>) else (ret1, new1))"

text \<open>\<open>ext4_ext_insert_extent\<close> on a tree of depth 0, with the path that the search for the first block
  of the new extent gives.  \<open>access\<close> and \<open>dirty\<close> are the results of the two journal calls; the result
  is \<open>None\<close> where the leaf has no room and the tree has to grow.  First its end, from \<open>merge\<close> on, and
  the part from \<open>has_space\<close> to there.\<close>

definition insert_merge ::
  "bool \<Rightarrow> int \<Rightarrow> ext_leaf \<Rightarrow> ext4_extent list \<Rightarrow> nat \<Rightarrow> fault + (int \<times> ext_leaf) option" where
  "insert_merge pre_io dirty st es i =
     (if pre_io then Inr (Some (dirty, ext4_ext_invalidate_cache (st\<lparr>lf_entries := es\<rparr>)))
      else case ext4_ext_try_to_merge es i of
             Inl f \<Rightarrow> Inl f
           | Inr (_, es') \<Rightarrow> Inr (Some (dirty, ext4_ext_invalidate_cache (st\<lparr>lf_entries := es'\<rparr>))))"

definition insert_has_space ::
  "bool \<Rightarrow> int \<Rightarrow> int \<Rightarrow> ext4_extent \<Rightarrow> nat option \<Rightarrow> ext_leaf \<Rightarrow> fault + (int \<times> ext_leaf) option" where
  "insert_has_space pre_io access dirty newext found st =
     (let es = lf_entries st;
          new_entry = ext4_ext_store_pblock (ext4_ext_pblock newext) newext
      in if access \<noteq> 0 then Inr (Some (access, ext4_ext_invalidate_cache st))
         else case found of
                None \<Rightarrow> insert_merge pre_io dirty st [new_entry] 0
              | Some i \<Rightarrow>
                  if ee_block newext > ee_block (es ! i)
                  then insert_merge pre_io dirty st (take (i + 1) es @ new_entry # drop (i + 1) es) (i + 1)
                  else if ee_block newext = ee_block (es ! i) then Inl BUG
                  else insert_merge pre_io dirty st (take i es @ new_entry # drop i es) i)"

definition ext4_ext_insert_extent ::
  "bool \<Rightarrow> int \<Rightarrow> int \<Rightarrow> ext4_extent \<Rightarrow> ext_leaf \<Rightarrow> fault + (int \<times> ext_leaf) option" where
  "ext4_ext_insert_extent pre_io access dirty newext st =
     (let es = lf_entries st; found = ext4_ext_binsearch es (ee_block newext)
      in if ext4_ext_get_actual_len newext = 0 then Inr (Some (- EIO, st))
         else if found \<noteq> None \<and> \<not> pre_io \<and> ext4_can_extents_be_merged (es ! the found) newext then
           if access \<noteq> 0 then Inr (Some (access, st))
           else (case grow_extent (ext4_ext_is_uninitialized (es ! the found)) (es ! the found) newext of
                   Inl f \<Rightarrow> Inl f
                 | Inr e \<Rightarrow> insert_merge pre_io dirty st (es[the found := e]) (the found))
         else if length es < lf_max st then insert_has_space pre_io access dirty newext found st
         else Inr None)"

subsection \<open>The cached extent\<close>

definition ext4_ext_put_in_cache :: "u32 \<Rightarrow> u32 \<Rightarrow> u64 \<Rightarrow> ext_leaf \<Rightarrow> fault + ext_leaf" where
  "ext4_ext_put_in_cache block len start st =
     (if len = 0 then Inl BUG
      else Inr (st\<lparr>i_cached_extent := \<lparr>ec_start = start, ec_block = block, ec_len = len\<rparr>\<rparr>))"

definition ext4_ext_put_gap_in_cache :: "u32 \<Rightarrow> ext_leaf \<Rightarrow> fault + ext_leaf" where
  "ext4_ext_put_gap_in_cache block st =
     (let es = lf_entries st; found = ext4_ext_binsearch es block
      in case found of
           None \<Rightarrow> ext4_ext_put_in_cache 0 EXT_MAX_BLOCKS 0 st
         | Some i \<Rightarrow>
             let ex = es ! i; en = ee_block ex + of_nat (ext4_ext_get_actual_len ex)
             in if block < ee_block ex then ext4_ext_put_in_cache block (ee_block ex - block) 0 st
                else if block \<ge> en then
                  let nx = leaf_next_block es found
                  in if nx = en then Inl BUG else ext4_ext_put_in_cache en (nx - en) 0 st
                else Inl BUG)"

definition in_range :: "u32 \<Rightarrow> u32 \<Rightarrow> u32 \<Rightarrow> bool" where
  "in_range b first len \<longleftrightarrow> b \<ge> first \<and> b \<le> first + len - 1"

definition ext4_ext_check_cache :: "u32 \<Rightarrow> ext_leaf \<Rightarrow> ext4_ext_cache option \<times> ext_leaf" where
  "ext4_ext_check_cache block st =
     (let cex = i_cached_extent st
      in if ec_len cex \<noteq> 0 \<and> in_range block (ec_block cex) (ec_len cex)
         then (Some cex, st\<lparr>extent_cache_hits := extent_cache_hits st + 1\<rparr>)
         else (None, st\<lparr>extent_cache_misses := extent_cache_misses st + 1\<rparr>))"

definition ext4_ext_in_cache :: "u32 \<Rightarrow> ext4_extent \<Rightarrow> ext_leaf \<Rightarrow> bool \<times> ext4_extent \<times> ext_leaf" where
  "ext4_ext_in_cache block ex st =
     (case ext4_ext_check_cache block st of
        (None, st') \<Rightarrow> (False, ex, st')
      | (Some cex, st') \<Rightarrow>
          (True, (ext4_ext_store_pblock (ec_start cex) ex)\<lparr>ee_block := ec_block cex, ee_len := ucast (ec_len cex)\<rparr>, st'))"

section \<open>Extents as maps of blocks\<close>

abbreviation elo :: "ext4_extent \<Rightarrow> nat" where
  "elo e \<equiv> unat (ee_block e)"

abbreviation elen :: "ext4_extent \<Rightarrow> nat" where
  "elen e \<equiv> ext4_ext_get_actual_len e"

abbreviation ehi :: "ext4_extent \<Rightarrow> nat" where
  "ehi e \<equiv> elo e + elen e"

text \<open>The blocks of the file that an extent maps, each with its block on disk and its mark.\<close>

definition ext_map :: "ext4_extent \<Rightarrow> nat \<rightharpoonup> nat \<times> bool" where
  "ext_map e b =
     (if elo e \<le> b \<and> b < ehi e then Some (unat (ext4_ext_pblock e) + (b - elo e), ext4_ext_is_uninitialized e)
      else None)"

fun leaf_map :: "ext4_extent list \<Rightarrow> nat \<rightharpoonup> nat \<times> bool" where
  "leaf_map [] = Map.empty"
| "leaf_map (e # es) = leaf_map es ++ ext_map e"

definition extent_ok :: "ext4_extent \<Rightarrow> bool" where
  "extent_ok e \<longleftrightarrow> 0 < elen e \<and> ehi e < 2 ^ 32"

definition leaf_ok :: "ext4_extent list \<Rightarrow> bool" where
  "leaf_ok es \<longleftrightarrow> (\<forall>e \<in> set es. extent_ok e) \<and> sorted_wrt (\<lambda>a b. ehi a \<le> elo b) es"

lemma dom_ext_map: "dom (ext_map e) = {elo e ..< ehi e}"
  by (auto simp: ext_map_def dom_def)

lemma leaf_map_append: "leaf_map (xs @ ys) = leaf_map ys ++ leaf_map xs"
  by (induction xs) auto

lemma dom_leaf_map: "dom (leaf_map es) = (\<Union>e \<in> set es. {elo e ..< ehi e})"
  by (induction es) (auto simp: dom_ext_map)

lemma leaf_ok_Cons [simp]:
  "leaf_ok (e # es) \<longleftrightarrow> extent_ok e \<and> (\<forall>x \<in> set es. ehi e \<le> elo x) \<and> leaf_ok es"
  by (auto simp: leaf_ok_def)

lemma leaf_ok_Nil [simp]: "leaf_ok []"
  by (simp add: leaf_ok_def)

lemma leaf_ok_append [simp]:
  "leaf_ok (xs @ ys) \<longleftrightarrow> leaf_ok xs \<and> leaf_ok ys \<and> (\<forall>x \<in> set xs. \<forall>y \<in> set ys. ehi x \<le> elo y)"
  by (auto simp: leaf_ok_def sorted_wrt_append)

lemma leaf_map_mid:
  assumes "leaf_ok (xs @ e # ys)" and "elo e \<le> b" and "b < ehi e"
  shows "leaf_map (xs @ e # ys) b = ext_map e b"
proof -
  have "b \<notin> dom (leaf_map xs)" using assms by (auto simp: dom_leaf_map)
  then show ?thesis
    using assms(2,3) by (auto simp: leaf_map_append map_add_def ext_map_def domIff split: option.splits)
qed

section \<open>Lengths and block numbers\<close>

lemma low_masks: "0xffffffff = (mask 32 :: u64)" "0xffff = (mask 16 :: u64)"
  by (simp_all add: mask_eq_exp_minus_1)

lemma store_pblock_id [simp]: "ext4_ext_store_pblock (ext4_ext_pblock e) e = e"
proof -
  have "ucast (ext4_ext_pblock e AND 0xffffffff) = ee_start_lo e"
    unfolding low_masks by (rule bit_word_eqI) (simp add: ext4_ext_pblock_def bit_simps)
  moreover have "ucast (drop_bit 1 (drop_bit 31 (ext4_ext_pblock e)) AND 0xffff) = ee_start_hi e"
    unfolding low_masks by (rule bit_word_eqI) (auto simp: ext4_ext_pblock_def bit_simps dest: bit_imp_le_length)
  ultimately show ?thesis by (simp add: ext4_ext_store_pblock_def)
qed

lemma pblock_bound: "unat (ext4_ext_pblock e) < 2 ^ 48"
proof -
  have "take_bit 48 (ext4_ext_pblock e) = ext4_ext_pblock e"
    by (rule bit_word_eqI) (auto simp: ext4_ext_pblock_def bit_simps dest: bit_imp_le_length)
  then have "unat (ext4_ext_pblock e) = take_bit 48 (unat (ext4_ext_pblock e))"
    by (metis unsigned_take_bit_eq)
  then show ?thesis by (metis take_bit_nat_less_exp)
qed

lemma pblock_store:
  assumes "unat pb < 2 ^ 48"
  shows "ext4_ext_pblock (ext4_ext_store_pblock pb e) = pb"
proof -
  have "take_bit 48 pb = pb"
    using assms by (simp add: word_unat_eq_iff unsigned_take_bit_eq take_bit_nat_eq_self)
  then have hi: "bit pb n \<Longrightarrow> n < 48" for n by (metis bit_take_bit_iff)
  then have hi': "bit pb n \<Longrightarrow> n - 32 < 16" for n by fastforce
  have "bit (ext4_ext_pblock (ext4_ext_store_pblock pb e)) n \<longleftrightarrow> bit pb n" if "n < LENGTH(64)" for n
    using that unfolding ext4_ext_pblock_def ext4_ext_store_pblock_def low_masks
    by (cases "n < 32") (auto simp: bit_simps hi hi')
  then show ?thesis by (intro bit_word_eqI) simp
qed

lemma uninit_mark:
  fixes w :: u16
  assumes "unat w < 2 ^ 15"
  shows "w AND NOT (of_nat EXT_INIT_MAX_LEN) = w" and "unat (w OR of_nat EXT_INIT_MAX_LEN) = unat w + 2 ^ 15"
proof -
  define v :: u16 where "v = of_nat EXT_INIT_MAX_LEN"
  have v: "v = push_bit 15 1" by (simp add: v_def EXT_INIT_MAX_LEN_def)
  have vb: "bit v n \<longleftrightarrow> n = 15" for n unfolding v bit_push_bit_iff bit_1_iff by auto
  have "take_bit 15 w = w"
    using assms by (simp add: word_unat_eq_iff unsigned_take_bit_eq take_bit_nat_eq_self)
  then have hi: "\<not> bit w 15" by (metis bit_take_bit_iff less_irrefl)
  show "w AND NOT (of_nat EXT_INIT_MAX_LEN) = w"
    unfolding v_def [symmetric] using hi by (intro bit_word_eqI) (auto simp: bit_simps vb)
  have "w AND v = 0" using hi by (intro bit_word_eqI) (auto simp: bit_simps vb)
  then have "w OR v = w + v" by (simp add: disjunctive_add_eq_or)
  then show "unat (w OR of_nat EXT_INIT_MAX_LEN) = unat w + 2 ^ 15"
    using assms by (simp add: v_def unat_word_ariths EXT_INIT_MAX_LEN_def)
qed

lemma len_bounds:
  "elen e \<le> 2 ^ 15" "ext4_ext_is_uninitialized e \<Longrightarrow> elen e < 2 ^ 15" "ext4_ext_is_uninitialized e \<Longrightarrow> 0 < elen e"
proof -
  have "unat (ee_len e) < 2 ^ LENGTH(16)" by (rule unsigned_less)
  then show "elen e \<le> 2 ^ 15" "ext4_ext_is_uninitialized e \<Longrightarrow> elen e < 2 ^ 15" "ext4_ext_is_uninitialized e \<Longrightarrow> 0 < elen e"
    by (auto simp: ext4_ext_get_actual_len_def ext4_ext_is_uninitialized_def EXT_INIT_MAX_LEN_def)
qed

text \<open>Marking keeps the length.\<close>

lemma mark_uninitialized_ok:
  assumes "0 < unat (ee_len e)" and "unat (ee_len e) < 2 ^ 15"
  shows "\<exists>e'. ext4_ext_mark_uninitialized e = Inr e' \<and> ext4_ext_is_uninitialized e' \<and> elen e' = unat (ee_len e) \<and>
           ee_block e' = ee_block e \<and> ext4_ext_pblock e' = ext4_ext_pblock e \<and> ext4_ext_mark_initialized e' = e"
proof -
  have "ee_len e \<noteq> 0" using assms(1) by auto
  then show ?thesis
    using uninit_mark [OF assms(2)] assms
    by (auto simp: ext4_ext_mark_uninitialized_def ext4_ext_is_uninitialized_def ext4_ext_get_actual_len_def
        ext4_ext_mark_initialized_def ext4_ext_pblock_def EXT_INIT_MAX_LEN_def)
qed

section \<open>Merging keeps the map\<close>

lemma unat_block_end:
  assumes "extent_ok e"
  shows "unat (ee_block e + of_nat (elen e)) = ehi e"
proof -
  have "ehi e < 2 ^ 32" using assms by (simp add: extent_ok_def)
  then show ?thesis using len_bounds(1) [of e] by (simp add: unat_word_ariths unat_of_nat)
qed

lemma unat_pblock_end: "unat (ext4_ext_pblock e + of_nat (elen e)) = unat (ext4_ext_pblock e) + elen e"
  using pblock_bound [of e] len_bounds(1) [of e] by (simp add: unat_word_ariths unat_of_nat)

lemma can_be_mergedD:
  assumes "ext4_can_extents_be_merged a b" and "extent_ok a"
  shows "ext4_ext_is_uninitialized a = ext4_ext_is_uninitialized b" and "elo b = ehi a"
    and "unat (ext4_ext_pblock b) = unat (ext4_ext_pblock a) + elen a"
    and "elen a + elen b \<le> 2 ^ 15" and "ext4_ext_is_uninitialized a \<Longrightarrow> elen a + elen b < 2 ^ 15"
  using assms(1) unat_block_end [OF assms(2)] unat_pblock_end [of a]
  by (auto simp: ext4_can_extents_be_merged_def Let_def EXT_UNINIT_MAX_LEN_def EXT_INIT_MAX_LEN_def split: if_splits)

lemma grow_extent_ok:
  assumes "ext4_can_extents_be_merged a b" and "extent_ok a" and "extent_ok b"
  shows "\<exists>c. grow_extent (ext4_ext_is_uninitialized a) a b = Inr c \<and> extent_ok c \<and> elo c = elo a \<and> ehi c = ehi b \<and>
           ext_map c = ext_map b ++ ext_map a \<and> ext4_ext_is_uninitialized c = ext4_ext_is_uninitialized a"
proof -
  note m = can_be_mergedD [OF assms(1,2)]
  define e where "e = a\<lparr>ee_len := of_nat (elen a + elen b)\<rparr>"
  have len: "unat (ee_len e) = elen a + elen b"
    using m(4) by (simp add: e_def unat_of_nat del: of_nat_add)
  have pos: "0 < elen a" "0 < elen b" using assms(2,3) by (simp_all add: extent_ok_def)
  have "\<exists>c. grow_extent (ext4_ext_is_uninitialized a) a b = Inr c \<and> ee_block c = ee_block a \<and>
          elen c = elen a + elen b \<and> ext4_ext_pblock c = ext4_ext_pblock a \<and>
          ext4_ext_is_uninitialized c = ext4_ext_is_uninitialized a"
  proof (cases "ext4_ext_is_uninitialized a")
    case True
    obtain c where "ext4_ext_mark_uninitialized e = Inr c" "ext4_ext_is_uninitialized c" "elen c = unat (ee_len e)"
      "ee_block c = ee_block e" "ext4_ext_pblock c = ext4_ext_pblock e"
      using mark_uninitialized_ok [of e] len pos m(5) [OF True] by auto
    moreover have "ee_block e = ee_block a" "ext4_ext_pblock e = ext4_ext_pblock a"
      by (simp_all add: e_def ext4_ext_pblock_def)
    ultimately show ?thesis
      using True len by (simp add: grow_extent_def e_def)
  next
    case False
    have "elen e = elen a + elen b" "\<not> ext4_ext_is_uninitialized e"
      using len m(4) by (simp_all add: ext4_ext_get_actual_len_def ext4_ext_is_uninitialized_def EXT_INIT_MAX_LEN_def)
    then show ?thesis
      using False by (auto simp: grow_extent_def Let_def e_def ext4_ext_pblock_def)
  qed
  then obtain c where c: "grow_extent (ext4_ext_is_uninitialized a) a b = Inr c" "ee_block c = ee_block a"
    "elen c = elen a + elen b" "ext4_ext_pblock c = ext4_ext_pblock a"
    "ext4_ext_is_uninitialized c = ext4_ext_is_uninitialized a" by blast
  have "ext_map c x = (ext_map b ++ ext_map a) x" for x
    using c m pos by (auto simp: ext_map_def map_add_def)
  then show ?thesis
    using c m(2) assms(3) pos by (intro exI [of _ c]) (auto simp: extent_ok_def)
qed

lemma merge_right_loop_ok:
  assumes "leaf_ok (xs @ e # ys)" and "u \<longrightarrow> ext4_ext_is_uninitialized e"
  shows "\<exists>d' es'. merge_right_loop (xs @ e # ys) (length xs) u d = Inr (d', es') \<and> leaf_ok es' \<and>
           leaf_map es' = leaf_map (xs @ e # ys) \<and> length es' \<le> length (xs @ e # ys) \<and>
           (d \<longrightarrow> d') \<and> (\<not> d' \<longrightarrow> es' = xs @ e # ys)"
  using assms
proof (induction ys arbitrary: e u d)
  case Nil
  then show ?case by simp
next
  case (Cons y ys)
  let ?es = "xs @ e # y # ys"
  have at: "?es ! length xs = e" "?es ! Suc (length xs) = y" by (simp_all add: nth_append)
  show ?case
  proof (cases "ext4_can_extents_be_merged e y")
    case False
    then show ?thesis using Cons.prems(1) by (subst merge_right_loop.simps) (simp add: at del: merge_right_loop.simps)
  next
    case True
    obtain c where c: "grow_extent (ext4_ext_is_uninitialized e) e y = Inr c" "extent_ok c" "elo c = elo e"
      "ehi c = ehi y" "ext_map c = ext_map y ++ ext_map e"
      "ext4_ext_is_uninitialized c = ext4_ext_is_uninitialized e"
      using grow_extent_ok [OF True] Cons.prems(1) by auto
    have u: "(u \<or> ext4_ext_is_uninitialized e) = ext4_ext_is_uninitialized e" using Cons.prems(2) by blast
    have step: "merge_right_loop ?es (length xs) u d =
        merge_right_loop (xs @ c # ys) (length xs) (ext4_ext_is_uninitialized e) True"
      using True c(1) by (subst merge_right_loop.simps) (simp add: at u Let_def del: merge_right_loop.simps)
    have "leaf_ok (xs @ c # ys)" using Cons.prems(1) c by auto
    moreover have "leaf_map (xs @ c # ys) = leaf_map ?es" by (simp add: leaf_map_append c(5))
    moreover have "ext4_ext_is_uninitialized e \<longrightarrow> ext4_ext_is_uninitialized c" using c(6) by simp
    ultimately show ?thesis using Cons.IH [of c "ext4_ext_is_uninitialized e" True] unfolding step by auto
  qed
qed

lemma merge_right_ok:
  assumes "leaf_ok es" and "i < length es"
  shows "\<exists>d es'. ext4_ext_try_to_merge_right es i = Inr (d, es') \<and> leaf_ok es' \<and> leaf_map es' = leaf_map es \<and>
           length es' \<le> length es \<and> (\<not> d \<longrightarrow> es' = es)"
  using merge_right_loop_ok [of "take i es" "es ! i" "drop (Suc i) es" False False] assms
  by (simp add: ext4_ext_try_to_merge_right_def id_take_nth_drop [symmetric] del: merge_right_loop.simps leaf_ok_append)

lemma try_to_merge_ok:
  assumes "leaf_ok es" and "i < length es"
  shows "\<exists>d es'. ext4_ext_try_to_merge es i = Inr (d, es') \<and> leaf_ok es' \<and> leaf_map es' = leaf_map es \<and>
           length es' \<le> length es"
proof (cases "i = 0")
  case True
  then show ?thesis using merge_right_ok [OF assms] by (auto simp: ext4_ext_try_to_merge_def)
next
  case False
  have "i - 1 < length es" using assms(2) by simp
  then obtain d es' where r: "ext4_ext_try_to_merge_right es (i - 1) = Inr (d, es')" "leaf_ok es'"
    "leaf_map es' = leaf_map es" "length es' \<le> length es" "\<not> d \<longrightarrow> es' = es"
    using merge_right_ok [OF assms(1)] by blast
  then show ?thesis
    using False merge_right_ok [OF assms] by (cases d) (auto simp: ext4_ext_try_to_merge_def)
qed

section \<open>Binary search\<close>

declare bin_loop.simps [simp del] check_scan.simps [simp del] merge_right_loop.simps [simp del]

text \<open>Position \<open>p\<close> is the last whose key is at most the block, or the first position.\<close>

definition found_at :: "u32 list \<Rightarrow> u32 \<Rightarrow> nat \<Rightarrow> bool" where
  "found_at keys block p \<longleftrightarrow> p < length keys \<and> (0 < p \<longrightarrow> keys ! p \<le> block) \<and>
     (\<forall>j. p < j \<and> j < length keys \<longrightarrow> block < keys ! j)"

lemma bin_loop_ok:
  assumes "1 \<le> l" and "l \<le> r + 1" and "r < int (length keys)" and "sorted_wrt (<) keys"
    and "1 < l \<longrightarrow> keys ! nat (l - 1) \<le> block"
    and "\<forall>j. r < int j \<and> j < length keys \<longrightarrow> block < keys ! j"
  shows "1 \<le> bin_loop keys block l r \<and> bin_loop keys block l r \<le> int (length keys) \<and>
         (1 < bin_loop keys block l r \<longrightarrow> keys ! nat (bin_loop keys block l r - 1) \<le> block) \<and>
         (\<forall>j. bin_loop keys block l r \<le> int j \<and> j < length keys \<longrightarrow> block < keys ! j)"
  using assms
proof (induction keys block l r rule: bin_loop.induct)
  case (1 keys block l r)
  show ?case
  proof (cases "l \<le> r")
    case False
    then have "r = l - 1" using "1.prems"(2) by simp
    then show ?thesis using "1.prems" by (subst (1 2 3 4 5) bin_loop.simps) auto
  next
    case True
    define m where "m = l + (r - l) div 2"
    have m: "l \<le> m" "m \<le> r" using True by (auto simp: m_def)
    show ?thesis
    proof (cases "block < keys ! nat m")
      case less: True
      have "block < keys ! j" if "m - 1 < int j" "j < length keys" for j
      proof (cases "int j = m")
        case False
        then have "keys ! nat m < keys ! j"
          using sorted_wrt_nth_less [OF "1.prems"(4), of "nat m" j] that m "1.prems"(1) by auto
        then show ?thesis using less by simp
      qed (use less in auto)
      then have "1 \<le> bin_loop keys block l (m - 1) \<and> bin_loop keys block l (m - 1) \<le> int (length keys) \<and>
         (1 < bin_loop keys block l (m - 1) \<longrightarrow> keys ! nat (bin_loop keys block l (m - 1) - 1) \<le> block) \<and>
         (\<forall>j. bin_loop keys block l (m - 1) \<le> int j \<and> j < length keys \<longrightarrow> block < keys ! j)"
        using "1.IH"(1) [OF True m_def] less m "1.prems" by auto
      moreover have "bin_loop keys block l r = bin_loop keys block l (m - 1)"
        using True less by (subst bin_loop.simps) (simp add: m_def Let_def)
      ultimately show ?thesis by simp
    next
      case False
      then have "1 \<le> bin_loop keys block (m + 1) r \<and> bin_loop keys block (m + 1) r \<le> int (length keys) \<and>
         (1 < bin_loop keys block (m + 1) r \<longrightarrow> keys ! nat (bin_loop keys block (m + 1) r - 1) \<le> block) \<and>
         (\<forall>j. bin_loop keys block (m + 1) r \<le> int j \<and> j < length keys \<longrightarrow> block < keys ! j)"
        using "1.IH"(2) [OF True m_def] m "1.prems" by auto
      moreover have "bin_loop keys block l r = bin_loop keys block (m + 1) r"
        using True False by (subst bin_loop.simps) (simp add: m_def Let_def)
      ultimately show ?thesis by simp
    qed
  qed
qed

lemma bin_search_found:
  assumes "sorted_wrt (<) keys" and "keys \<noteq> []"
  shows "found_at keys block (nat (bin_loop keys block 1 (int (length keys) - 1) - 1))"
    and "1 \<le> bin_loop keys block 1 (int (length keys) - 1)"
proof -
  have "0 < length keys" using assms(2) by simp
  then have "1 \<le> int (length keys) - 1 + 1" by linarith
  define p where "p = bin_loop keys block 1 (int (length keys) - 1)"
  have vac: "\<forall>j. int (length keys) - 1 < int j \<and> j < length keys \<longrightarrow> block < keys ! j"
    by (intro allI impI) (metis less_irrefl of_nat_less_iff zle_diff1_eq not_less)
  have "1 \<le> p \<and> p \<le> int (length keys) \<and> (1 < p \<longrightarrow> keys ! nat (p - 1) \<le> block) \<and>
      (\<forall>j. p \<le> int j \<and> j < length keys \<longrightarrow> block < keys ! j)"
    unfolding p_def by (rule bin_loop_ok) (use assms vac \<open>1 \<le> int (length keys) - 1 + 1\<close> in simp_all)
  then show "found_at keys block (nat (bin_loop keys block 1 (int (length keys) - 1) - 1))"
    and "1 \<le> bin_loop keys block 1 (int (length keys) - 1)"
    using \<open>0 < length keys\<close> unfolding p_def [symmetric] by (auto simp: found_at_def nat_less_iff)
qed

lemma check_scan_ok:
  assumes "sorted_wrt (<) keys" and "k \<le> length keys" and "keys \<noteq> []"
    and "0 < k \<longrightarrow> keys ! (k - 1) \<le> block"
  shows "\<exists>c. check_scan keys block k (k - 1) = Inr c \<and> found_at keys block c"
  using assms(2,4)
proof (induction "length keys - k" arbitrary: k)
  case 0
  then have "check_scan keys block k (k - 1) = Inr (k - 1)" "found_at keys block (k - 1)"
    using assms(3) by (auto simp: found_at_def check_scan.simps)
  then show ?case by blast
next
  case (Suc n)
  then have k: "k < length keys" by simp
  have asc: "\<not> (k \<noteq> 0 \<and> keys ! k \<le> keys ! (k - 1))"
    using sorted_wrt_nth_less [OF assms(1), of "k - 1" k] k by auto
  show ?case
  proof (cases "block < keys ! k")
    case True
    have "block < keys ! j" if "k - 1 < j" "j < length keys" for j
    proof (cases "j = k")
      case False
      then have "k < j" using that by simp
      then show ?thesis using sorted_wrt_nth_less [OF assms(1) _ that(2), of k] True by simp
    qed (use True in simp)
    then have "found_at keys block (k - 1)" using Suc.prems(2) k by (auto simp: found_at_def)
    moreover have "check_scan keys block k (k - 1) = Inr (k - 1)"
      using True k asc by (subst check_scan.simps) auto
    ultimately show ?thesis by blast
  next
    case False
    have "check_scan keys block k (k - 1) = check_scan keys block (k + 1) (k + 1 - 1)"
      using False k asc by (subst check_scan.simps) auto
    then show ?thesis using Suc.hyps(1) [of "k + 1"] Suc.hyps(2) k False by simp
  qed
qed

lemma found_at_unique:
  assumes "found_at keys block p" and "found_at keys block q"
  shows "p = q"
proof (rule ccontr)
  assume "p \<noteq> q"
  then consider "p < q" | "q < p" by linarith
  then show False
  proof cases
    case 1
    then show False using assms by (auto simp: found_at_def not_less dest!: spec [of _ q])
  next
    case 2
    then show False using assms by (auto simp: found_at_def not_less dest!: spec [of _ p])
  qed
qed

lemma check_binsearch_ok:
  assumes "sorted_wrt (<) keys" and "keys \<noteq> []"
  shows "check_binsearch keys block (bin_loop keys block 1 (int (length keys) - 1) - 1) = Inr ()"
proof -
  obtain c where c: "check_scan keys block 0 0 = Inr c" "found_at keys block c"
    using check_scan_ok [OF assms(1), of 0 block] assms(2) by auto
  then have "c = nat (bin_loop keys block 1 (int (length keys) - 1) - 1)"
    using found_at_unique bin_search_found(1) [OF assms] by blast
  then show ?thesis
    using c(1) bin_search_found(2) [OF assms, of block] by (simp add: check_binsearch_def)
qed

section \<open>Looking a block up\<close>

lemma leaf_keys:
  assumes "leaf_ok es"
  shows "sorted_wrt (<) (map ee_block es)"
proof -
  have "sorted_wrt (\<lambda>a b. ee_block a < ee_block b) es"
  proof (rule sorted_wrt_mono_rel)
    show "sorted_wrt (\<lambda>a b. ehi a \<le> elo b) es" using assms by (simp add: leaf_ok_def)
    show "ee_block a < ee_block b" if "a \<in> set es" "ehi a \<le> elo b" for a b
      using that assms by (auto simp: leaf_ok_def extent_ok_def word_less_nat_alt)
  qed
  then show ?thesis by (simp add: sorted_wrt_map)
qed

lemma binsearch_found:
  assumes "leaf_ok es" and "es \<noteq> []"
  obtains i where "ext4_ext_binsearch es block = Some i" and "found_at (map ee_block es) block i"
  using bin_search_found(1) [OF leaf_keys [OF assms(1)], of block] assms(2)
  by (simp add: ext4_ext_binsearch_def)

text \<open>The block is in the extent that the search finds or in none.\<close>

lemma leaf_map_search:
  assumes "leaf_ok es"
  shows "leaf_map es (unat block) =
           (case ext4_ext_binsearch es block of None \<Rightarrow> None | Some i \<Rightarrow> ext_map (es ! i) (unat block))"
proof (cases "es = []")
  case True
  then show ?thesis by (simp add: ext4_ext_binsearch_def)
next
  case False
  then obtain i where i: "ext4_ext_binsearch es block = Some i" "found_at (map ee_block es) block i"
    using binsearch_found [OF assms] by blast
  then have lt: "i < length es" by (simp add: found_at_def)
  show ?thesis
  proof (cases "elo (es ! i) \<le> unat block \<and> unat block < ehi (es ! i)")
    case True
    then show ?thesis
      using leaf_map_mid [of "take i es" "es ! i" "drop (Suc i) es" "unat block"] assms lt i(1)
      by (simp add: id_take_nth_drop [symmetric] del: leaf_ok_append)
  next
    case out: False
    have "unat block \<notin> {elo (es ! j) ..< ehi (es ! j)}" if "j < length es" for j
    proof -
      consider "j = i" | "i < j" | "j < i" by linarith
      then show ?thesis
      proof cases
        case 2
        then have "block < ee_block (es ! j)" using i(2) that by (auto simp: found_at_def)
        then show ?thesis by (simp add: word_less_nat_alt)
      next
        case 3
        then have "ehi (es ! j) \<le> elo (es ! i)"
          using assms lt sorted_wrt_nth_less [of "\<lambda>a b. ehi a \<le> elo b" es j i] by (simp add: leaf_ok_def)
        moreover have "elo (es ! i) \<le> unat block" using i(2) 3 lt by (auto simp: found_at_def word_le_nat_alt)
        ultimately show ?thesis by simp
      qed (use out in auto)
    qed
    then have "unat block \<notin> dom (leaf_map es)" by (auto simp: dom_leaf_map in_set_conv_nth)
    then have "leaf_map es (unat block) = None" unfolding domIff by blast
    then show ?thesis using out i(1) by (auto simp: ext_map_def)
  qed
qed

section \<open>Finding the hole\<close>

text \<open>The position where an extent that starts at an unmapped block belongs.\<close>

definition hole_pos :: "ext4_extent list \<Rightarrow> u32 \<Rightarrow> nat" where
  "hole_pos es b =
     (case ext4_ext_binsearch es b of None \<Rightarrow> 0 | Some i \<Rightarrow> if ee_block (es ! i) < b then i + 1 else i)"

lemma hole_pos_ok:
  assumes "leaf_ok es" and "leaf_map es (unat b) = None"
  shows "hole_pos es b \<le> length es" and "\<forall>x \<in> set (take (hole_pos es b) es). ehi x \<le> unat b"
    and "\<forall>y \<in> set (drop (hole_pos es b) es). unat b < elo y"
    and "ext4_ext_binsearch es b = Some i \<Longrightarrow> \<not> ee_block (es ! i) < b \<Longrightarrow> b < ee_block (es ! i)"
    and "ext4_ext_binsearch es b = Some i \<Longrightarrow> i < length es"
proof -
  have out: "unat b \<notin> {elo e ..< ehi e}" if "e \<in> set es" for e
  proof -
    have "unat b \<notin> dom (leaf_map es)" using assms(2) by (auto simp: dom_def)
    then show ?thesis using that unfolding dom_leaf_map by blast
  qed
  have *: "hole_pos es b \<le> length es \<and> (\<forall>k < hole_pos es b. ehi (es ! k) \<le> unat b) \<and>
      (\<forall>k. hole_pos es b \<le> k \<and> k < length es \<longrightarrow> unat b < elo (es ! k)) \<and>
      (ext4_ext_binsearch es b = Some i \<longrightarrow> \<not> ee_block (es ! i) < b \<longrightarrow> b < ee_block (es ! i)) \<and>
      (ext4_ext_binsearch es b = Some i \<longrightarrow> i < length es)"
  proof (cases "es = []")
    case True
    then show ?thesis by (simp add: hole_pos_def ext4_ext_binsearch_def)
  next
    case False
    obtain i' where i: "ext4_ext_binsearch es b = Some i'" "found_at (map ee_block es) b i'"
      by (rule binsearch_found [OF assms(1) False])
    have lt: "i' < length es" using i(2) by (simp add: found_at_def)
    have later: "unat b < elo (es ! k)" if "i' < k" "k < length es" for k
      using i(2) that by (auto simp: found_at_def word_less_nat_alt)
    have len: "0 < elen (es ! i')" using assms(1) lt by (auto simp: leaf_ok_def extent_ok_def)
    have order: "ehi (es ! k) \<le> elo (es ! i')" if "k < i'" for k
      using assms(1) lt that sorted_wrt_nth_less [of "\<lambda>a b. ehi a \<le> elo b" es k i'] by (simp add: leaf_ok_def)
    show ?thesis
    proof (cases "ee_block (es ! i') < b")
      case True
      then have "ehi (es ! i') \<le> unat b"
        using out [of "es ! i'"] lt by (auto simp: word_less_nat_alt)
      moreover have "ehi (es ! k) \<le> unat b" if "k < i'" for k
        using order [OF that] calculation by simp
      ultimately show ?thesis
        using True i(1) lt later by (auto simp: hole_pos_def less_Suc_eq)
    next
      case False
      then have gt: "unat b < elo (es ! i')"
        using out [of "es ! i'"] lt len by (auto simp: word_less_nat_alt not_less)
      then have "i' = 0" using i(2) lt by (auto simp: found_at_def word_le_nat_alt)
      then show ?thesis
        using False gt i(1) lt later by (auto simp: hole_pos_def word_less_nat_alt) (metis neq0_conv)
    qed
  qed
  then show "hole_pos es b \<le> length es" and "ext4_ext_binsearch es b = Some i \<Longrightarrow> \<not> ee_block (es ! i) < b \<Longrightarrow> b < ee_block (es ! i)"
    and "ext4_ext_binsearch es b = Some i \<Longrightarrow> i < length es"
    by blast+
  show "\<forall>x \<in> set (take (hole_pos es b) es). ehi x \<le> unat b"
    using * by (auto simp: in_set_conv_nth)
  show "\<forall>y \<in> set (drop (hole_pos es b) es). unat b < elo y"
    using * by (auto simp: in_set_conv_nth)
qed

text \<open>The first mapped block after an unmapped one, if there is one.\<close>

lemma next_allocated:
  assumes "leaf_ok es" and "leaf_map es (unat b) = None" and "ext4_ext_binsearch es b = Some i"
    and "ee_block (es ! i) < b"
  shows "leaf_next_block es (Some i) =
           (if hole_pos es b < length es then ee_block (es ! hole_pos es b) else EXT_MAX_BLOCKS)"
proof -
  have "i < length es" using hole_pos_ok(5) [OF assms(1-3)] .
  then show ?thesis using assms(3,4) by (auto simp: leaf_next_block_def hole_pos_def)
qed

lemma block_not_max:
  assumes "extent_ok e"
  shows "ee_block e \<noteq> EXT_MAX_BLOCKS"
proof
  assume "ee_block e = EXT_MAX_BLOCKS"
  then have "elo e = 2 ^ 32 - 1" by (simp add: EXT_MAX_BLOCKS_def)
  then show False using assms by (auto simp: extent_ok_def)
qed

lemma check_overlap_eq:
  assumes "leaf_ok es" and "leaf_map es (elo new) = None" and "extent_ok new"
  defines "j \<equiv> hole_pos es (ee_block new)"
  shows "ext4_ext_check_overlap es (ext4_ext_binsearch es (ee_block new)) new =
           (if j < length es \<and> elo (es ! j) < ehi new
            then (True, new\<lparr>ee_len := ucast (ee_block (es ! j) - ee_block new)\<rparr>) else (False, new))"
proof (cases "ext4_ext_binsearch es (ee_block new)")
  case None
  then have "es = []" using binsearch_found [OF assms(1), of "ee_block new"] by fastforce
  then show ?thesis using None by (simp add: ext4_ext_check_overlap_def)
next
  case (Some i)
  note h = hole_pos_ok [OF assms(1,2)]
  define b2 where "b2 = (if ee_block (es ! i) < ee_block new then leaf_next_block es (Some i) else ee_block (es ! i))"
  have b2: "b2 = (if j < length es then ee_block (es ! j) else EXT_MAX_BLOCKS)"
    using next_allocated [OF assms(1,2) Some] h(5) [OF Some] Some
    by (auto simp: b2_def j_def) (simp_all add: hole_pos_def)
  have last: "ee_block (es ! i) < ee_block new" if "\<not> j < length es"
    using that h(5) [OF Some] Some by (auto simp: j_def hole_pos_def split: if_splits)
  have max: "b2 = EXT_MAX_BLOCKS \<longleftrightarrow> \<not> j < length es"
    using assms(1) block_not_max unfolding b2 by (auto simp: leaf_ok_def)
  have e: "unat (ee_block new + of_nat (elen new)) = ehi new" by (rule unat_block_end [OF assms(3)])
  then have "\<not> ee_block new + of_nat (elen new) < ee_block new" by (simp add: word_less_nat_alt)
  then have "ext4_ext_check_overlap es (Some i) new =
      (if ee_block (es ! i) < ee_block new \<and> b2 = EXT_MAX_BLOCKS then (False, new)
       else if b2 < ee_block new + of_nat (elen new) then (True, new\<lparr>ee_len := ucast (b2 - ee_block new)\<rparr>)
       else (False, new))"
    unfolding ext4_ext_check_overlap_def b2_def by (simp add: Let_def)
  then show ?thesis
    using Some max last e unfolding b2 by (simp add: word_less_nat_alt)
qed

lemma extent_at_lo:
  assumes "e \<in> set es" and "extent_ok e"
  shows "elo e \<in> dom (leaf_map es)"
  using assms unfolding dom_leaf_map by (auto simp: extent_ok_def intro!: bexI [of _ e])

text \<open>What is left of the new extent lies in the hole and fills it if anything was cut off.\<close>

lemma check_overlap_ok:
  assumes "leaf_ok es" and "leaf_map es (elo new) = None" and "extent_ok new"
    and "\<not> ext4_ext_is_uninitialized new"
    and "ext4_ext_check_overlap es (ext4_ext_binsearch es (ee_block new)) new = (ov, new')"
  shows "extent_ok new' \<and> ee_block new' = ee_block new \<and> ext4_ext_pblock new' = ext4_ext_pblock new \<and>
         \<not> ext4_ext_is_uninitialized new' \<and> dom (leaf_map es) \<inter> dom (ext_map new') = {} \<and>
         (if ov then ehi new' < ehi new \<and> ehi new' \<in> dom (leaf_map es) else new' = new)"
proof -
  define j where "j = hole_pos es (ee_block new)"
  note h = hole_pos_ok [OF assms(1,2)]
  have eq: "(ov, new') = (if j < length es \<and> elo (es ! j) < ehi new
       then (True, new\<lparr>ee_len := ucast (ee_block (es ! j) - ee_block new)\<rparr>) else (False, new))"
    using check_overlap_eq [OF assms(1-3)] assms(5) by (simp add: j_def)
  have disj: "dom (leaf_map es) \<inter> dom (ext_map new') = {}"
    if "ee_block new' = ee_block new" "j < length es \<longrightarrow> ehi new' \<le> elo (es ! j)"
  proof -
    have "ehi x \<le> elo new \<or> ehi new' \<le> elo x" if "x \<in> set es" for x
    proof -
      have "x \<in> set (take j es) \<or> x \<in> set (drop j es)"
        using that by (metis Un_iff append_take_drop_id set_append)
      moreover have "ehi new' \<le> elo x" if x: "x \<in> set (drop j es)"
      proof -
        have j: "j < length es" using x by (cases "j < length es") auto
        have "drop j es = es ! j # drop (Suc j) es" using j by (rule Cons_nth_drop_Suc [symmetric])
        moreover have "leaf_ok (drop j es)" using assms(1) leaf_ok_append [of "take j es" "drop j es"] by simp
        ultimately show ?thesis
          using x j \<open>j < length es \<longrightarrow> ehi new' \<le> elo (es ! j)\<close> by auto
      qed
      ultimately show ?thesis using h(2) unfolding j_def by blast
    qed
    then show ?thesis using that(1) unfolding dom_leaf_map dom_ext_map by fastforce
  qed
  show ?thesis
  proof (cases "j < length es \<and> elo (es ! j) < ehi new")
    case False
    then have "new' = new" "\<not> ov" using eq by auto
    moreover have "dom (leaf_map es) \<inter> dom (ext_map new') = {}"
      by (rule disj) (use False \<open>new' = new\<close> in auto)
    ultimately show ?thesis using assms(3,4) by simp
  next
    case True
    let ?d = "ee_block (es ! j) - ee_block new"
    have "es ! j \<in> set (drop j es)" using True by (metis Cons_nth_drop_Suc list.set_intros(1))
    then have lt: "elo new < elo (es ! j)" using h(3) by (simp add: j_def)
    have d: "unat ?d = elo (es ! j) - elo new" using lt by (simp add: unat_sub word_le_nat_alt)
    also have "\<dots> < 2 ^ 15" using conjunct2 [OF True] lt len_bounds(1) [of new] by linarith
    finally have dlt: "unat ?d < 2 ^ 15" .
    then have u: "unat (ucast ?d :: u16) = elo (es ! j) - elo new"
      using d by (simp add: unsigned_ucast_eq take_bit_nat_eq_self)
    have new': "ov" "new' = new\<lparr>ee_len := ucast ?d\<rparr>" using eq True by simp_all
    then have n: "elen new' = elo (es ! j) - elo new" "\<not> ext4_ext_is_uninitialized new'" "ee_block new' = ee_block new"
      "ext4_ext_pblock new' = ext4_ext_pblock new"
      using u d dlt by (simp_all add: ext4_ext_get_actual_len_def ext4_ext_is_uninitialized_def ext4_ext_pblock_def EXT_INIT_MAX_LEN_def)
    then have hi: "ehi new' = elo (es ! j)" using lt by simp
    have "elo (es ! j) \<in> dom (leaf_map es)"
      using True assms(1) by (intro extent_at_lo) (auto simp: leaf_ok_def)
    moreover have "dom (leaf_map es) \<inter> dom (ext_map new') = {}"
      by (rule disj) (use n(3) hi in auto)
    moreover have "extent_ok new'" using n hi lt True assms(3) by (simp add: extent_ok_def)
    ultimately show ?thesis using new'(1) n(2-4) hi True by simp
  qed
qed

section \<open>Inserting\<close>

lemma leaf_map_insert:
  assumes "dom (leaf_map (xs @ ys)) \<inter> dom (ext_map new) = {}"
  shows "leaf_map (xs @ new # ys) = leaf_map (xs @ ys) ++ ext_map new"
proof -
  have "dom (leaf_map xs) \<inter> dom (ext_map new) = {}"
    using assms by (auto simp: leaf_map_append)
  then have "ext_map new ++ leaf_map xs = leaf_map xs ++ ext_map new"
    by (intro map_add_comm) blast
  then show ?thesis by (simp add: leaf_map_append flip: map_add_assoc)
qed

lemma fits_in_hole:
  assumes "leaf_ok es" and "extent_ok new" and "dom (leaf_map es) \<inter> dom (ext_map new) = {}"
  defines "j \<equiv> hole_pos es (ee_block new)"
  shows "leaf_ok (take j es @ new # drop j es)"
    and "leaf_map (take j es @ new # drop j es) = leaf_map es ++ ext_map new"
    and "leaf_map es (elo new) = None"
proof -
  have "elo new \<in> dom (ext_map new)" using assms(2) by (simp add: dom_ext_map extent_ok_def)
  then have "elo new \<notin> dom (leaf_map es)" using assms(3) by blast
  then show none: "leaf_map es (elo new) = None" unfolding domIff by blast
  note h = hole_pos_ok [OF assms(1) none]
  have parts: "leaf_ok (take j es)" "leaf_ok (drop j es)" "\<forall>x \<in> set (take j es). \<forall>y \<in> set (drop j es). ehi x \<le> elo y"
    using assms(1) leaf_ok_append [of "take j es" "drop j es"] by simp_all
  have "ehi new \<le> elo y" if y: "y \<in> set (drop j es)" for y
  proof -
    have "y \<in> set es" using y by (rule in_set_dropD)
    moreover have "extent_ok y" using y parts(2) by (auto simp: leaf_ok_def)
    ultimately have "elo y \<notin> dom (ext_map new)" using extent_at_lo assms(3) by blast
    moreover have "elo new < elo y" using h(3) y by (simp add: j_def)
    ultimately show ?thesis unfolding dom_ext_map by simp
  qed
  then show "leaf_ok (take j es @ new # drop j es)"
    using parts assms(2) h(2) unfolding j_def by simp
  show "leaf_map (take j es @ new # drop j es) = leaf_map es ++ ext_map new"
    using leaf_map_insert [of "take j es" "drop j es" new] assms(3) by simp
qed

text \<open>Where the new extent continues the one found, growing that one is inserting and merging.\<close>

lemma fits_grown:
  assumes "leaf_ok es" and "extent_ok new" and "dom (leaf_map es) \<inter> dom (ext_map new) = {}"
    and "ext4_ext_binsearch es (ee_block new) = Some i" and "ext4_can_extents_be_merged (es ! i) new"
  shows "\<exists>c. grow_extent (ext4_ext_is_uninitialized (es ! i)) (es ! i) new = Inr c \<and> i < length es \<and>
           leaf_ok (es[i := c]) \<and> leaf_map (es[i := c]) = leaf_map es ++ ext_map new"
proof -
  note f = fits_in_hole [OF assms(1-3)]
  have i: "i < length es" using hole_pos_ok(5) [OF assms(1) f(3) assms(4)] .
  then have ok: "extent_ok (es ! i)" using assms(1) by (simp add: leaf_ok_def)
  have "elo new = ehi (es ! i)" "0 < elen (es ! i)"
    using can_be_mergedD(2) [OF assms(5) ok] ok by (simp_all add: extent_ok_def)
  then have "hole_pos es (ee_block new) = Suc i"
    using assms(4) by (simp add: hole_pos_def word_less_nat_alt)
  then have l: "leaf_ok (take i es @ es ! i # new # drop (Suc i) es)"
    "leaf_map (take i es @ es ! i # new # drop (Suc i) es) = leaf_map es ++ ext_map new"
    using f(1,2) i by (simp_all add: take_Suc_conv_app_nth del: leaf_ok_append)
  obtain c where c: "grow_extent (ext4_ext_is_uninitialized (es ! i)) (es ! i) new = Inr c" "extent_ok c" "elo c = elo (es ! i)"
    "ehi c = ehi new" "ext_map c = ext_map new ++ ext_map (es ! i)"
    using grow_extent_ok [OF assms(5) ok assms(2)] by blast
  have "leaf_ok (take i es @ c # drop (Suc i) es)" using l(1) c(2-4) by auto
  moreover have "leaf_map (take i es @ c # drop (Suc i) es) = leaf_map es ++ ext_map new"
    unfolding l(2) [symmetric] by (simp add: leaf_map_append c(5))
  ultimately show ?thesis using c(1) i by (simp add: upd_conv_take_nth_drop)
qed

text \<open>The end of an insertion.\<close>

definition inserted :: "ext4_extent \<Rightarrow> ext_leaf \<Rightarrow> ext_leaf \<Rightarrow> bool" where
  "inserted new st st' \<longleftrightarrow> leaf_ok (lf_entries st') \<and>
     leaf_map (lf_entries st') = leaf_map (lf_entries st) ++ ext_map new \<and>
     length (lf_entries st') \<le> max (length (lf_entries st)) (lf_max st) \<and>
     lf_max st' = lf_max st \<and> ec_len (i_cached_extent st') = 0"

lemma insert_extent_ok:
  assumes "leaf_ok (lf_entries st)" and "extent_ok new"
    and "dom (leaf_map (lf_entries st)) \<inter> dom (ext_map new) = {}"
  shows "(\<exists>st'. ext4_ext_insert_extent pre_io 0 dirty new st = Inr (Some (dirty, st')) \<and> inserted new st st') \<or>
         ext4_ext_insert_extent pre_io 0 dirty new st = Inr None \<and> lf_max st \<le> length (lf_entries st)"
proof -
  let ?es = "lf_entries st" and ?p = "ext4_ext_binsearch (lf_entries st) (ee_block new)"
  let ?j = "hole_pos ?es (ee_block new)"
  let ?fin = "insert_merge pre_io dirty st"
  have fin: "\<exists>st'. ?fin es i = Inr (Some (dirty, st')) \<and> inserted new st st'"
    if "leaf_ok es" "leaf_map es = leaf_map ?es ++ ext_map new" "i < length es"
      "length es \<le> max (length ?es) (lf_max st)" for es i
    using try_to_merge_ok [OF that(1,3)] that
    by (auto simp: insert_merge_def inserted_def ext4_ext_invalidate_cache_def)
  have pos: "elen new \<noteq> 0" using assms(2) by (simp add: extent_ok_def)
  note f = fits_in_hole [OF assms]
  note h = hole_pos_ok [OF assms(1) f(3)]
  show ?thesis
  proof (cases "?p \<noteq> None \<and> \<not> pre_io \<and> ext4_can_extents_be_merged (?es ! the ?p) new")
    case True
    then obtain i where i: "?p = Some i" and m: "ext4_can_extents_be_merged (?es ! i) new" by auto
    obtain c where c: "grow_extent (ext4_ext_is_uninitialized (?es ! i)) (?es ! i) new = Inr c" "i < length ?es"
      "leaf_ok (?es[i := c])" "leaf_map (?es[i := c]) = leaf_map ?es ++ ext_map new"
      using fits_grown [OF assms i m] by blast
    have "ext4_ext_insert_extent pre_io 0 dirty new st = ?fin (?es[i := c]) i"
      using True pos i c(1) by (simp add: ext4_ext_insert_extent_def Let_def)
    then show ?thesis using fin [OF c(3,4)] c(2) by simp
  next
    case False
    show ?thesis
    proof (cases "length ?es < lf_max st")
      case full: False
      have "ext4_ext_insert_extent pre_io 0 dirty new st = Inr None"
        using False full pos by (auto simp: ext4_ext_insert_extent_def Let_def)
      then show ?thesis using full by simp
    next
      case room: True
      have "ext4_ext_insert_extent pre_io 0 dirty new st = ?fin (take ?j ?es @ new # drop ?j ?es) ?j"
      proof (cases ?p)
        case None
        then have "?es = []" using binsearch_found [OF assms(1), of "ee_block new"] by fastforce
        then show ?thesis
          using None pos room by (simp add: ext4_ext_insert_extent_def insert_has_space_def Let_def hole_pos_def)
      next
        case (Some i)
        then show ?thesis
          using False pos room h(4) [OF Some]
          by (auto simp: ext4_ext_insert_extent_def insert_has_space_def Let_def hole_pos_def)
      qed
      then show ?thesis using fin [OF f(1,2)] h(1) room by simp
    qed
  qed
qed

section \<open>The cached extent\<close>

lemma in_range_iff:
  assumes "n \<noteq> 0"
  shows "in_range x f (n - f) \<longleftrightarrow> f \<le> x \<and> x < n"
proof -
  have "0 < unat n" using assms by (simp add: unat_gt_0)
  moreover have "unat (n - 1) = unat n - 1" using assms by (rule unat_minus_one)
  ultimately have "x \<le> n - 1 \<longleftrightarrow> x < n" by (auto simp: word_le_nat_alt word_less_nat_alt)
  then show ?thesis by (simp add: in_range_def)
qed

lemma gap_unmapped:
  assumes "leaf_ok es" and "j \<le> length es" and "0 < j \<longrightarrow> ehi (es ! (j - 1)) \<le> x" and "j < length es \<longrightarrow> x < elo (es ! j)"
  shows "leaf_map es x = None"
proof -
  have order: "ehi (es ! k) \<le> elo (es ! l)" if "k < l" "l < length es" for k l
    using assms(1) that sorted_wrt_nth_less [of "\<lambda>a b. ehi a \<le> elo b" es k l] by (simp add: leaf_ok_def)
  have "x \<notin> {elo (es ! k) ..< ehi (es ! k)}" if k: "k < length es" for k
  proof (cases "k < j")
    case True
    then have "k = j - 1 \<or> k < j - 1" by linarith
    moreover have "ehi (es ! k) \<le> elo (es ! (j - 1))" if "k < j - 1" using order [OF that] True assms(2) by simp
    ultimately show ?thesis using True assms(3) by fastforce
  next
    case False
    then have "k = j \<or> j < k" by linarith
    moreover have "ehi (es ! j) \<le> elo (es ! k)" if "j < k" using order [OF that k] .
    ultimately show ?thesis using assms(4) k by fastforce
  qed
  then have "x \<notin> dom (leaf_map es)" unfolding dom_leaf_map by (auto simp: in_set_conv_nth)
  then show ?thesis unfolding domIff by blast
qed

text \<open>A cached extent with a start says where its blocks are, one without that they are unmapped.\<close>

definition cache_ok :: "ext_leaf \<Rightarrow> bool" where
  "cache_ok st \<longleftrightarrow> (let c = i_cached_extent st in
     ec_len c \<noteq> 0 \<longrightarrow> unat (ec_start c) < 2 ^ 48 \<and>
       (\<forall>x. in_range x (ec_block c) (ec_len c) \<longrightarrow>
          (if ec_start c = 0 then leaf_map (lf_entries st) (unat x) = None
           else \<exists>u. leaf_map (lf_entries st) (unat x) = Some (unat (ec_start c) + unat (x - ec_block c), u))))"

lemma put_gap_ok:
  assumes "leaf_ok (lf_entries st)" and "leaf_map (lf_entries st) (unat b) = None" and "b \<noteq> EXT_MAX_BLOCKS"
  shows "\<exists>f n. ext4_ext_put_gap_in_cache b st = Inr (st\<lparr>i_cached_extent := \<lparr>ec_start = 0, ec_block = f, ec_len = n - f\<rparr>\<rparr>) \<and>
           n \<noteq> 0 \<and> n - f \<noteq> 0 \<and> f \<le> b \<and> b < n \<and> (\<forall>x. f \<le> x \<and> x < n \<longrightarrow> leaf_map (lf_entries st) (unat x) = None)"
proof -
  let ?es = "lf_entries st" and ?j = "hole_pos (lf_entries st) b"
  note h = hole_pos_ok [OF assms(1,2)]
  have bmax: "b < EXT_MAX_BLOCKS"
  proof -
    have "unat b < 2 ^ LENGTH(32)" by (rule unsigned_less)
    moreover have "unat b \<noteq> 2 ^ 32 - 1" using assms(3) by (auto simp: EXT_MAX_BLOCKS_def word_unat_eq_iff)
    ultimately show ?thesis by (simp add: EXT_MAX_BLOCKS_def word_less_nat_alt)
  qed
  have before: "0 < ?j \<longrightarrow> ehi (?es ! (?j - 1)) \<le> unat b"
  proof
    assume "0 < ?j"
    then have "?es ! (?j - 1) \<in> set (take ?j ?es)"
      using h(1) by (auto simp: in_set_conv_nth intro!: exI [of _ "?j - 1"])
    then show "ehi (?es ! (?j - 1)) \<le> unat b" using h(2) by blast
  qed
  have unm: "leaf_map ?es (unat x) = None"
    if "0 < ?j \<longrightarrow> ehi (?es ! (?j - 1)) \<le> unat x" "?j < length ?es \<longrightarrow> x < ee_block (?es ! ?j)" for x
    using gap_unmapped [OF assms(1) h(1)] that by (simp add: word_less_nat_alt)
  show ?thesis
  proof (cases "ext4_ext_binsearch ?es b")
    case None
    then have es: "?es = []" using binsearch_found [OF assms(1), of b] by fastforce
    then show ?thesis
      using None bmax
      by (intro exI [of _ 0] exI [of _ EXT_MAX_BLOCKS])
         (simp add: ext4_ext_put_gap_in_cache_def ext4_ext_put_in_cache_def EXT_MAX_BLOCKS_def)
  next
    case (Some i)
    have i: "i < length ?es" by (rule h(5) [OF Some])
    then have ok: "extent_ok (?es ! i)" using assms(1) by (simp add: leaf_ok_def)
    show ?thesis
    proof (cases "ee_block (?es ! i) < b")
      case False
      then have lt: "b < ee_block (?es ! i)" and j: "?j = i" using h(4) [OF Some] Some by (auto simp: hole_pos_def)
      have "ext4_ext_put_gap_in_cache b st = Inr (st\<lparr>i_cached_extent := \<lparr>ec_start = 0, ec_block = b, ec_len = ee_block (?es ! i) - b\<rparr>\<rparr>)"
        using Some lt by (simp add: ext4_ext_put_gap_in_cache_def Let_def ext4_ext_put_in_cache_def)
      moreover have "leaf_map ?es (unat x) = None" if "b \<le> x" "x < ee_block (?es ! i)" for x
        using unm [of x] that before unfolding j by (auto simp: word_le_nat_alt)
      ultimately show ?thesis
        using lt by (intro exI [of _ b] exI [of _ "ee_block (?es ! i)"]) auto
    next
      case True
      then have j: "?j = Suc i" using Some by (simp add: hole_pos_def)
      define en where "en = ee_block (?es ! i) + of_nat (elen (?es ! i))"
      have en: "unat en = ehi (?es ! i)" unfolding en_def by (rule unat_block_end [OF ok])
      have le: "en \<le> b" using before en j by (simp add: word_le_nat_alt)
      define nx where "nx = leaf_next_block ?es (Some i)"
      have nx: "nx = (if ?j < length ?es then ee_block (?es ! ?j) else EXT_MAX_BLOCKS)"
        unfolding nx_def by (rule next_allocated [OF assms(1,2) Some True])
      have lt: "b < nx"
      proof (cases "?j < length ?es")
        case in_leaf: True
        then have "?es ! ?j \<in> set (drop ?j ?es)" by (metis Cons_nth_drop_Suc list.set_intros(1))
        then show ?thesis using h(3) in_leaf by (simp add: nx word_less_nat_alt)
      qed (use bmax nx in simp)
      have "ext4_ext_put_gap_in_cache b st = Inr (st\<lparr>i_cached_extent := \<lparr>ec_start = 0, ec_block = en, ec_len = nx - en\<rparr>\<rparr>)"
        using Some True le lt unfolding ext4_ext_put_gap_in_cache_def Let_def
        by (auto simp: en_def [symmetric] nx_def [symmetric] ext4_ext_put_in_cache_def)
      moreover have "leaf_map ?es (unat x) = None" if "en \<le> x" "x < nx" for x
      proof (rule unm)
        show "0 < ?j \<longrightarrow> ehi (?es ! (?j - 1)) \<le> unat x" using that(1) en by (simp add: j word_le_nat_alt)
        show "?j < length ?es \<longrightarrow> x < ee_block (?es ! ?j)" using that(2) by (cases "?j < length ?es") (simp_all add: nx)
      qed
      ultimately show ?thesis
        using le lt by (intro exI [of _ en] exI [of _ nx]) auto
    qed
  qed
qed

lemma cache_hit:
  assumes "cache_ok st" and "ext4_ext_in_cache x ex st = (True, r, st')"
  shows "unat (x - ee_block r) < 2 ^ 32 \<and>
         (if ext4_ext_pblock r = 0 then leaf_map (lf_entries st) (unat x) = None
          else \<exists>u. leaf_map (lf_entries st) (unat x) = Some (unat (ext4_ext_pblock r) + unat (x - ee_block r), u))"
proof -
  define c where "c = i_cached_extent st"
  have hit: "ec_len c \<noteq> 0" "in_range x (ec_block c) (ec_len c)"
    and r: "r = (ext4_ext_store_pblock (ec_start c) ex)\<lparr>ee_block := ec_block c, ee_len := ucast (ec_len c)\<rparr>"
    using assms(2) by (auto simp: ext4_ext_in_cache_def ext4_ext_check_cache_def Let_def c_def split: if_splits)
  have c: "unat (ec_start c) < 2 ^ 48" and
    m: "if ec_start c = 0 then leaf_map (lf_entries st) (unat x) = None
     else \<exists>u. leaf_map (lf_entries st) (unat x) = Some (unat (ec_start c) + unat (x - ec_block c), u)"
    using assms(1) hit unfolding cache_ok_def Let_def c_def [symmetric] by blast+
  have "ext4_ext_pblock r = ext4_ext_pblock (ext4_ext_store_pblock (ec_start c) ex)"
    by (simp add: r ext4_ext_pblock_def)
  also have "\<dots> = ec_start c" by (rule pblock_store [OF c])
  finally have "ext4_ext_pblock r = ec_start c" .
  moreover have "unat (x - ec_block c) < 2 ^ LENGTH(32)" by (rule unsigned_less)
  ultimately show ?thesis using m by (simp add: r)
qed

lemma gap_cache_ok:
  assumes "leaf_ok (lf_entries st)" and "leaf_map (lf_entries st) (unat b) = None" and "b \<noteq> EXT_MAX_BLOCKS"
  shows "\<exists>st'. ext4_ext_put_gap_in_cache b st = Inr st' \<and> cache_ok st' \<and> lf_entries st' = lf_entries st \<and>
           fst (ext4_ext_in_cache b ex st')"
proof -
  obtain f n where fn: "ext4_ext_put_gap_in_cache b st = Inr (st\<lparr>i_cached_extent := \<lparr>ec_start = 0, ec_block = f, ec_len = n - f\<rparr>\<rparr>)"
    "n \<noteq> 0" "n - f \<noteq> 0" "f \<le> b" "b < n" "\<forall>x. f \<le> x \<and> x < n \<longrightarrow> leaf_map (lf_entries st) (unat x) = None"
    using put_gap_ok [OF assms] by blast
  have "cache_ok (st\<lparr>i_cached_extent := \<lparr>ec_start = 0, ec_block = f, ec_len = n - f\<rparr>\<rparr>)"
    using fn(6) by (simp add: cache_ok_def in_range_iff [OF fn(2)])
  then show ?thesis
    using fn(1,3-5)
    by (simp add: ext4_ext_in_cache_def ext4_ext_check_cache_def Let_def in_range_iff [OF fn(2)])
qed

lemma put_in_cache_ok:
  assumes "leaf_ok (lf_entries st)" and "e \<in> set (lf_entries st)" and "ext4_ext_pblock e \<noteq> 0"
  shows "\<exists>st'. ext4_ext_put_in_cache (ee_block e) (of_nat (elen e)) (ext4_ext_pblock e) st = Inr st' \<and> cache_ok st' \<and>
           lf_entries st' = lf_entries st"
proof -
  have ok: "extent_ok e" using assms(1,2) by (simp add: leaf_ok_def)
  define n where "n = ee_block e + of_nat (elen e)"
  have n: "unat n = ehi e" unfolding n_def by (rule unat_block_end [OF ok])
  then have "n \<noteq> 0" using ok by (auto simp: extent_ok_def)
  have nz: "(of_nat (elen e) :: u32) \<noteq> 0"
    using n ok by (auto simp: n_def extent_ok_def)
  obtain xs ys where es: "lf_entries st = xs @ e # ys" using assms(2) by (meson split_list)
  have "\<exists>u. leaf_map (lf_entries st) (unat x) = Some (unat (ext4_ext_pblock e) + unat (x - ee_block e), u)"
    if "in_range x (ee_block e) (of_nat (elen e))" for x
  proof -
    have "in_range x (ee_block e) (n - ee_block e)" using that by (simp add: n_def)
    then have x: "elo e \<le> unat x" "unat x < ehi e"
      unfolding in_range_iff [OF \<open>n \<noteq> 0\<close>] using n by (simp_all add: word_le_nat_alt word_less_nat_alt)
    then show ?thesis
      using leaf_map_mid [of xs e ys "unat x"] assms(1) unfolding es
      by (simp add: ext_map_def unat_sub word_le_nat_alt del: leaf_ok_append)
  qed
  then show ?thesis
    using nz assms(3) pblock_bound [of e] by (simp add: ext4_ext_put_in_cache_def cache_ok_def)
qed

text \<open>Insertion keeps the cache true on every path, a failed access to the block included.\<close>

lemma insert_error:
  assumes "access \<noteq> 0" and "ext4_ext_insert_extent pre_io access dirty new st = Inr (Some (err, st'))"
  shows "err \<in> {access, - EIO} \<and> lf_entries st' = lf_entries st \<and>
         (i_cached_extent st' = i_cached_extent st \<or> ec_len (i_cached_extent st') = 0)"
  using assms
  by (auto simp: ext4_ext_insert_extent_def insert_has_space_def Let_def ext4_ext_invalidate_cache_def split: if_splits)

lemma cache_ok_insert:
  assumes "leaf_ok (lf_entries st)" and "extent_ok new"
    and "dom (leaf_map (lf_entries st)) \<inter> dom (ext_map new) = {}" and "cache_ok st"
    and "ext4_ext_insert_extent pre_io access dirty new st = Inr (Some (err, st'))"
  shows "cache_ok st'"
proof (cases "access = 0")
  case True
  then have "ec_len (i_cached_extent st') = 0"
    using insert_extent_ok [OF assms(1-3), of pre_io dirty] assms(5) by (auto simp: inserted_def)
  then show ?thesis by (simp add: cache_ok_def)
next
  case False
  then show ?thesis using insert_error [OF _ assms(5)] assms(4) by (auto simp: cache_ok_def Let_def)
qed

section \<open>Checked leaves\<close>

text \<open>Both loops run a check over the entries that changes nothing when it accepts.\<close>

locale entry_check =
  fixes check :: "'e \<Rightarrow> zstate \<Rightarrow> bool \<times> zstate"
  assumes accepted_same: "check e z = (True, z') \<Longrightarrow> z' = z"
begin

lemma entries_iff: "fst (valid_entries check es z) \<longleftrightarrow> (\<forall>e \<in> set es. fst (check e z))"
proof (induction es)
  case (Cons e es)
  obtain b z' where c: "check e z = (b, z')" by fastforce
  show ?case
  proof (cases b)
    case True
    then have "z' = z" using c by (intro accepted_same [of e z z']) simp
    then show ?thesis using c True Cons.IH by simp
  next
    case False
    then show ?thesis using c by simp
  qed
qed simp

end

interpretation leaf_check: entry_check "ext4_valid_extent fd bc" for fd bc
  by unfold_locales (auto simp: ext4_valid_extent_def Let_def dest: zone_guard.accepted_same split: if_splits)

interpretation idx_check: entry_check "ext4_valid_extent_idx fd bc" for fd bc
  by unfold_locales (auto simp: ext4_valid_extent_idx_def dest: zone_guard.accepted_same)

lemma valid_extent_iff:
  assumes "zinv z"
  shows "fst (ext4_valid_extent fd bc e z) \<longleftrightarrow>
           0 < elen e \<and> unat fd < unat (ext4_ext_pblock e) \<and> unat (ext4_ext_pblock e) + elen e \<le> unat bc \<and>
           zblocks z \<inter> {unat (ext4_ext_pblock e) ..< unat (ext4_ext_pblock e) + elen e} = {}"
proof -
  have u: "unat (of_nat (elen e) :: u32) = elen e" using len_bounds(1) [of e] by (simp add: unat_of_nat)
  have "unat (ext4_ext_pblock e) + elen e < 2 ^ 64" using pblock_bound [of e] len_bounds(1) [of e] by simp
  then show ?thesis
    using zone_guard.valid_iff [OF assms, of "of_nat (elen e)" fd bc "ext4_ext_pblock e"] unfolding u
    by (auto simp: ext4_valid_extent_def Let_def)
qed

lemma valid_extent_idx_iff:
  assumes "zinv z"
  shows "fst (ext4_valid_extent_idx fd bc ix z) \<longleftrightarrow>
           unat fd < unat (ext4_idx_pblock ix) \<and> unat (ext4_idx_pblock ix) < unat bc \<and> unat (ext4_idx_pblock ix) \<notin> zblocks z"
  unfolding ext4_valid_extent_idx_def by (rule zone_guard.one_block [OF assms])

lemma ext_check_iff:
  "fst (ext4_ext_check fd bc bs d eh slots i z) = 0 \<longleftrightarrow>
     eh_magic eh = EXT4_EXT_MAGIC \<and> unat (eh_depth eh) = i \<and> eh_max eh \<noteq> 0 \<and>
     unat (eh_max eh) \<le> ext4_ext_max_entries bs d i \<and> eh_entries eh \<le> eh_max eh \<and>
     (\<forall>e \<in> set (take (unat (eh_entries eh)) slots).
        if i = 0 then fst (ext4_valid_extent fd bc e z) else fst (ext4_valid_extent_idx fd bc (slot_idx e) z))"
proof -
  have "fst (ext4_valid_extent_entries fd bc eh slots i z) \<longleftrightarrow>
      (\<forall>e \<in> set (take (unat (eh_entries eh)) slots).
        if i = 0 then fst (ext4_valid_extent fd bc e z) else fst (ext4_valid_extent_idx fd bc (slot_idx e) z))"
    by (simp add: ext4_valid_extent_entries_def Let_def leaf_check.entries_iff idx_check.entries_iff)
  then show ?thesis
    by (cases "ext4_valid_extent_entries fd bc eh slots i z") (auto simp: ext4_ext_check_def Let_def not_le not_less)
qed

text \<open>The binary search passes the self-check that \<open>CHECK_BINSEARCH\<close> compiles in: no key is out of order
  and the linear scan stops at the entry found.\<close>

lemma extent_search:
  assumes "leaf_ok es" and "es \<noteq> []" and "sorted_wrt (<) (map ei_block ixs)" and "ixs \<noteq> []"
  shows "(\<exists>i < length es. ext4_ext_binsearch es b = Some i \<and>
            check_binsearch (map ee_block es) b (int i) = Inr () \<and>
            leaf_map es (unat b) = ext_map (es ! i) (unat b)) \<and>
         check_binsearch (map ei_block ixs) b (ext4_ext_binsearch_idx ixs b) = Inr ()"
proof
  obtain i where i: "ext4_ext_binsearch es b = Some i" "found_at (map ee_block es) b i"
    by (rule binsearch_found [OF assms(1,2)])
  have "int i = bin_loop (map ee_block es) b 1 (int (length (map ee_block es)) - 1) - 1"
    using i(1) assms(2) bin_search_found(2) [OF leaf_keys [OF assms(1)], of b]
    by (auto simp: ext4_ext_binsearch_def)
  then have "check_binsearch (map ee_block es) b (int i) = Inr ()"
    using check_binsearch_ok [OF leaf_keys [OF assms(1)], of b] assms(2) by simp
  then show "\<exists>i < length es. ext4_ext_binsearch es b = Some i \<and>
            check_binsearch (map ee_block es) b (int i) = Inr () \<and>
            leaf_map es (unat b) = ext_map (es ! i) (unat b)"
    using i leaf_map_search [OF assms(1), of b] by (auto simp: found_at_def)
  show "check_binsearch (map ei_block ixs) b (ext4_ext_binsearch_idx ixs b) = Inr ()"
    using check_binsearch_ok [OF assms(3), of b] assms(4) by (simp add: ext4_ext_binsearch_idx_def)
qed

section \<open>The whole tree\<close>

text \<open>A child loads without an error: from memory, or from the device with a successful check.\<close>

definition loads :: "ext_fs \<Rightarrow> zstate \<Rightarrow> nat \<Rightarrow> nat \<Rightarrow> ext4_extent_idx \<Rightarrow> ext_node \<Rightarrow> bool" where
  "loads F z depth i ix nd \<longleftrightarrow>
     (case fs_read F (ext4_idx_pblock ix) of
        In_memory nd' \<Rightarrow> nd' = nd
      | Just_read nd' \<Rightarrow> nd' = nd \<and> fs_check F depth nd i z = (0, z)
      | _ \<Rightarrow> False)"

definition child :: "ext_fs \<Rightarrow> ext4_extent_idx \<Rightarrow> ext_node option" where
  "child F ix = (case fs_read F (ext4_idx_pblock ix) of In_memory nd \<Rightarrow> Some nd | Just_read nd \<Rightarrow> Some nd | _ \<Rightarrow> None)"

fun map_union :: "('a \<Rightarrow> 'k \<rightharpoonup> 'v) \<Rightarrow> 'a list \<Rightarrow> 'k \<rightharpoonup> 'v" where
  "map_union f [] = Map.empty"
| "map_union f (x # xs) = map_union f xs ++ f x"

fun tree_map :: "ext_fs \<Rightarrow> nat \<Rightarrow> ext_node \<Rightarrow> nat \<rightharpoonup> nat \<times> bool" where
  "tree_map F 0 nd = leaf_map (nd_extents nd)"
| "tree_map F (Suc i) nd =
     map_union (\<lambda>ix. case child F ix of None \<Rightarrow> Map.empty | Some nd' \<Rightarrow> tree_map F i nd') (nd_indexes nd)"

definition key_lo :: "nat \<Rightarrow> u32 list \<Rightarrow> nat \<Rightarrow> nat" where
  "key_lo lo keys j = (if j = 0 then lo else unat (keys ! j))"

definition key_hi :: "nat \<Rightarrow> u32 list \<Rightarrow> nat \<Rightarrow> nat" where
  "key_hi hi keys j = (if j + 1 < length keys then unat (keys ! (j + 1)) else hi)"

text \<open>A tree whose index keys are in order and whose children map blocks between their keys only.\<close>

fun tree_ok :: "ext_fs \<Rightarrow> zstate \<Rightarrow> nat \<Rightarrow> nat \<Rightarrow> ext_node \<Rightarrow> nat \<Rightarrow> nat \<Rightarrow> bool" where
  "tree_ok F z depth 0 nd lo hi \<longleftrightarrow> leaf_ok (nd_extents nd) \<and> (\<forall>e \<in> set (nd_extents nd). lo \<le> elo e \<and> ehi e \<le> hi)"
| "tree_ok F z depth (Suc i) nd lo hi \<longleftrightarrow>
     (let ixs = nd_indexes nd; keys = map ei_block ixs
      in ixs \<noteq> [] \<and> sorted_wrt (<) keys \<and> (\<forall>k \<in> set keys. lo \<le> unat k \<and> unat k \<le> hi) \<and>
         (\<forall>j < length ixs. \<exists>nd'. loads F z depth i (ixs ! j) nd' \<and>
            tree_ok F z depth i nd' (key_lo lo keys j) (key_hi hi keys j)))"

lemma loads_child: "loads F z d i ix nd \<Longrightarrow> child F ix = Some nd"
  by (auto simp: loads_def child_def split: ext_read.splits)

lemma map_union_at:
  assumes "p < length xs" and "\<forall>j < length xs. j \<noteq> p \<longrightarrow> f (xs ! j) b = None"
  shows "map_union f xs b = f (xs ! p) b"
  using assms
proof (induction xs arbitrary: p)
  case (Cons x xs)
  have step: "map_union f (x # xs) b = (case f x b of None \<Rightarrow> map_union f xs b | Some v \<Rightarrow> Some v)"
    by (simp add: map_add_def)
  show ?case
  proof (cases p)
    case 0
    have "f y b = None" if "y \<in> set xs" for y
      using that Cons.prems(2) 0 by (force simp: in_set_conv_nth)
    then have "map_union f xs b = None" by (induction xs) (auto simp: map_add_def)
    then show ?thesis using step 0 by (simp split: option.splits)
  next
    case (Suc q)
    have "f x b = None" using Cons.prems(2) Suc by fastforce
    moreover have "map_union f xs b = f (xs ! q) b"
      by (rule Cons.IH) (use Cons.prems Suc in fastforce)+
    ultimately show ?thesis using step Suc by simp
  qed
qed simp

lemma map_union_dom: "map_union f xs b = Some v \<Longrightarrow> \<exists>j < length xs. f (xs ! j) b = Some v"
proof (induction xs)
  case (Cons x xs)
  then consider "f x b = Some v" | "map_union f xs b = Some v"
    by (auto simp: map_add_def split: option.splits)
  then show ?case
  proof cases
    case 2
    then obtain j where "j < length xs" "f (xs ! j) b = Some v" using Cons.IH by blast
    then show ?thesis by (intro exI [of _ "Suc j"]) simp
  qed (auto intro: exI [of _ 0])
qed simp

lemma tree_map_range:
  assumes "tree_ok F z d i nd lo hi" and "tree_map F i nd b = Some v"
  shows "lo \<le> b \<and> b < hi"
  using assms
proof (induction i arbitrary: nd lo hi)
  case 0
  have "b \<in> dom (leaf_map (nd_extents nd))" using 0(2) by auto
  then obtain e where e: "e \<in> set (nd_extents nd)" "elo e \<le> b" "b < ehi e"
    unfolding dom_leaf_map by (elim UN_E) simp
  have "\<forall>e \<in> set (nd_extents nd). lo \<le> elo e \<and> ehi e \<le> hi" using 0(1) by simp
  then have "lo \<le> elo e \<and> ehi e \<le> hi" using e(1) by blast
  then show ?case using e(2,3) by simp
next
  case (Suc i)
  let ?ixs = "nd_indexes nd" and ?keys = "map ei_block (nd_indexes nd)"
  obtain j where j: "j < length ?ixs" "(case child F (?ixs ! j) of None \<Rightarrow> Map.empty | Some nd' \<Rightarrow> tree_map F i nd') b = Some v"
    using map_union_dom [OF Suc.prems(2) [unfolded tree_map.simps]] by blast
  obtain nd' where nd': "loads F z d i (?ixs ! j) nd'" "tree_ok F z d i nd' (key_lo lo ?keys j) (key_hi hi ?keys j)"
    using Suc.prems(1) j(1) by (auto simp: Let_def)
  then have "key_lo lo ?keys j \<le> b \<and> b < key_hi hi ?keys j"
    using Suc.IH [OF nd'(2)] j(2) loads_child [OF nd'(1)] by simp
  moreover have "lo \<le> key_lo lo ?keys j" "key_hi hi ?keys j \<le> hi"
    using Suc.prems(1) j(1) by (auto simp: key_lo_def key_hi_def Let_def)
  ultimately show ?case by simp
qed

lemma find_walk_ok:
  assumes "tree_ok F z d i nd lo hi" and "lo \<le> unat b" and "unat b < hi"
  shows "\<exists>path. find_walk F d b i nd z = (Some path, z) \<and> length path = Suc i \<and> p_depth (last path) = 0 \<and>
           leaf_ok (nd_extents (p_hdr (last path))) \<and> p_ext (last path) = ext4_ext_binsearch (nd_extents (p_hdr (last path))) b \<and>
           tree_map F i nd (unat b) = leaf_map (nd_extents (p_hdr (last path))) (unat b)"
  using assms
proof (induction i arbitrary: nd lo hi)
  case 0
  then show ?case by (simp add: Let_def)
next
  case (Suc i)
  let ?ixs = "nd_indexes nd" and ?keys = "map ei_block (nd_indexes nd)"
  have ok: "?keys \<noteq> []" "sorted_wrt (<) ?keys" "\<forall>j < length ?ixs. \<exists>nd'. loads F z d i (?ixs ! j) nd' \<and>
      tree_ok F z d i nd' (key_lo lo ?keys j) (key_hi hi ?keys j)"
    using Suc.prems(1) by (auto simp: Let_def)
  define q where "q = ext4_ext_binsearch_idx ?ixs b"
  define p where "p = nat q"
  have found: "found_at ?keys b p"
    using bin_search_found(1) [OF ok(2,1), of b] by (simp add: p_def q_def ext4_ext_binsearch_idx_def)
  then have p: "p < length ?ixs" by (simp add: found_at_def)
  obtain nd' where nd': "loads F z d i (?ixs ! p) nd'" "tree_ok F z d i nd' (key_lo lo ?keys p) (key_hi hi ?keys p)"
    using ok(3) p by blast
  have "key_lo lo ?keys p \<le> unat b" "unat b < key_hi hi ?keys p"
    using found Suc.prems(2,3) by (auto simp: found_at_def key_lo_def key_hi_def word_le_nat_alt word_less_nat_alt)
  from Suc.IH [OF nd'(2) this] obtain path where path: "find_walk F d b i nd' z = (Some path, z)" "length path = Suc i"
    "p_depth (last path) = 0" "leaf_ok (nd_extents (p_hdr (last path)))"
    "p_ext (last path) = ext4_ext_binsearch (nd_extents (p_hdr (last path))) b"
    "tree_map F i nd' (unat b) = leaf_map (nd_extents (p_hdr (last path))) (unat b)" by blast
  have other: "(case child F (?ixs ! j) of None \<Rightarrow> Map.empty | Some nd' \<Rightarrow> tree_map F i nd') (unat b) = None"
    if jl: "j < length ?ixs" and jp: "j \<noteq> p" for j
  proof (rule ccontr)
    assume "(case child F (?ixs ! j) of None \<Rightarrow> Map.empty | Some nd' \<Rightarrow> tree_map F i nd') (unat b) \<noteq> None"
    then obtain v where v: "(case child F (?ixs ! j) of None \<Rightarrow> Map.empty | Some nd' \<Rightarrow> tree_map F i nd') (unat b) = Some v"
      by blast
    obtain c where c: "loads F z d i (?ixs ! j) c" "tree_ok F z d i c (key_lo lo ?keys j) (key_hi hi ?keys j)"
      using ok(3) jl by blast
    have r: "key_lo lo ?keys j \<le> unat b" "unat b < key_hi hi ?keys j"
      using tree_map_range [OF c(2)] v loads_child [OF c(1)] by simp_all
    show False
    proof (cases "j < p")
      case True
      then have "?keys ! (j + 1) \<le> ?keys ! p"
        using sorted_wrt_nth_less [OF ok(2), of "j + 1" p] p by (cases "j + 1 = p") auto
      moreover have "?keys ! p \<le> b" using found True p by (simp add: found_at_def)
      ultimately have "unat (?keys ! (j + 1)) \<le> unat b" by (simp add: word_le_nat_alt)
      then show False using r(2) True p by (simp add: key_hi_def)
    next
      case False
      then have "b < ?keys ! j" using found jl jp by (simp add: found_at_def)
      then show False using r(1) False jp by (simp add: key_lo_def word_less_nat_alt)
    qed
  qed
  have tm: "tree_map F (Suc i) nd (unat b) = tree_map F i nd' (unat b)"
    using map_union_at [OF p, of "\<lambda>ix. case child F ix of None \<Rightarrow> Map.empty | Some nd' \<Rightarrow> tree_map F i nd'" "unat b"]
      other loads_child [OF nd'(1)] by simp
  have slot: "slot_idx (nd_slots nd ! nat q) = ?ixs ! p"
    using p by (simp add: nd_indexes_def nd_extents_def p_def)
  have "\<exists>here. find_walk F d b (Suc i) nd z = (Some (here # path), z)"
    using nd'(1) path(1) slot
    by (auto simp: loads_def q_def [symmetric] Let_def split: ext_read.splits)
  then show ?case using path tm by (auto split: if_splits)
qed

text \<open>In a tree of depth 0 the next allocated block is the next one of the leaf.\<close>

lemma next_allocated_leaf:
  "ext4_ext_next_allocated_block [\<lparr>p_block = pb, p_depth = 0, p_ext = found, p_idx = None, p_hdr = nd\<rparr>] =
     Inr (leaf_next_block (nd_extents nd) found)"
  by (cases found) (simp_all add: ext4_ext_next_allocated_block_def path_next_def leaf_next_block_def)

text \<open>An empty tree, and what a search for the successor does at an empty leaf of a deeper tree: it reads
  behind the null pointer.\<close>

lemma tree_init_ok: "leaf_ok (lf_entries (ext4_ext_tree_init st)) \<and> cache_ok (ext4_ext_tree_init st)"
  by (simp add: ext4_ext_tree_init_def ext4_ext_invalidate_cache_def cache_ok_def)

lemma empty_leaf_next:
  assumes "p_depth p = 0" and "p_ext p = None" and "p_depth q \<noteq> 0"
  shows "ext4_ext_next_allocated_block [q, p] = Inl BAD_POINTER"
  using assms by (simp add: ext4_ext_next_allocated_block_def path_next_def)

section \<open>Properties\<close>

text \<open>C26. Finding a block in the tree.  In a tree whose index keys are in order, whose children map blocks
  between their keys only, and whose blocks load, \<open>ext4_ext_find_extent\<close> returns a path from the root
  to a leaf: the block is mapped by the extent that the path ends in, or by none of the tree.  In every
  tree a failed allocation is \<open>-ENOMEM\<close> and a failed read or check of a block on the way \<open>-EIO\<close>.\<close>

theorem find_extent_refines:
  assumes "d = unat (eh_depth (nd_hdr root))" and "tree_ok F z d d root 0 (2 ^ 32)"
  shows "(\<exists>path. ext4_ext_find_extent True F root b z = (Inr path, z) \<and> length path = d + 1 \<and>
            tree_map F d root (unat b) =
              (case p_ext (last path) of
                 None \<Rightarrow> None
               | Some i \<Rightarrow> ext_map (nd_extents (p_hdr (last path)) ! i) (unat b))) \<and>
         fst (ext4_ext_find_extent False F root b z) = Inl (- ENOMEM) \<and>
         (\<forall>nd z'. fst (ext4_ext_find_extent True F nd b z') \<in> {Inl (- EIO)} \<union> range Inr)"
proof -
  have "unat b < 2 ^ LENGTH(32)" by (rule unsigned_less)
  then have "unat b < 2 ^ 32" by simp
  then obtain path where path: "find_walk F d b d root z = (Some path, z)" "length path = Suc d"
    "leaf_ok (nd_extents (p_hdr (last path)))" "p_ext (last path) = ext4_ext_binsearch (nd_extents (p_hdr (last path))) b"
    "tree_map F d root (unat b) = leaf_map (nd_extents (p_hdr (last path))) (unat b)"
    using find_walk_ok [OF assms(2)] by blast
  have "tree_map F d root (unat b) =
      (case p_ext (last path) of
         None \<Rightarrow> None | Some i \<Rightarrow> ext_map (nd_extents (p_hdr (last path)) ! i) (unat b))"
    unfolding path(4,5) by (rule leaf_map_search [OF path(3)])
  moreover have "ext4_ext_find_extent True F root b z = (Inr path, z)"
    using path(1) by (simp add: ext4_ext_find_extent_def assms(1))
  moreover have "fst (ext4_ext_find_extent True F nd b z') \<in> {Inl (- EIO)} \<union> range Inr" for nd z'
    by (simp add: ext4_ext_find_extent_def Let_def split: prod.splits option.splits)
  ultimately show ?thesis using path(2) by (auto simp: ext4_ext_find_extent_def)
qed

text \<open>C25. Allocating in a leaf refines updating a map.  For an extent that starts at an unmapped block,
  \<open>ext4_ext_check_overlap\<close> leaves it as it is or cuts it at the next mapped block.  Inserting what is
  left, or a part of it, initialised or not, never reaches a \<open>BUG\<close>: it adds exactly the blocks of the
  new extent to the map of the leaf, keeps the entries in order, apart and within the leaf, however
  many of them it merges, and empties the cache; only a full leaf makes the tree grow.\<close>

theorem insert_extent_refines:
  assumes "leaf_ok (lf_entries st)" and "leaf_map (lf_entries st) (elo new) = None" and "extent_ok new"
    and "\<not> ext4_ext_is_uninitialized new"
  shows "\<exists>ov new'. ext4_ext_check_overlap (lf_entries st) (ext4_ext_binsearch (lf_entries st) (ee_block new)) new = (ov, new') \<and>
           extent_ok new' \<and> elo new' = elo new \<and>
           (if ov then ehi new' < ehi new \<and> ehi new' \<in> dom (leaf_map (lf_entries st)) else new' = new) \<and>
           (\<forall>e pre_io dirty. extent_ok e \<and> elo e = elo new' \<and> ehi e \<le> ehi new' \<longrightarrow>
              (\<exists>st'. ext4_ext_insert_extent pre_io 0 dirty e st = Inr (Some (dirty, st')) \<and> inserted e st st') \<or>
              ext4_ext_insert_extent pre_io 0 dirty e st = Inr None \<and> lf_max st \<le> length (lf_entries st))"
proof -
  obtain ov new' where o: "ext4_ext_check_overlap (lf_entries st) (ext4_ext_binsearch (lf_entries st) (ee_block new)) new = (ov, new')"
    by fastforce
  note c = check_overlap_ok [OF assms o]
  have "dom (leaf_map (lf_entries st)) \<inter> dom (ext_map e) = {}" if "elo e = elo new'" "ehi e \<le> ehi new'" for e
  proof -
    have "dom (ext_map e) \<subseteq> dom (ext_map new')" using that unfolding dom_ext_map by auto
    then show ?thesis using c by blast
  qed
  then have ins: "\<forall>e pre_io dirty. extent_ok e \<and> elo e = elo new' \<and> ehi e \<le> ehi new' \<longrightarrow>
      (\<exists>st'. ext4_ext_insert_extent pre_io 0 dirty e st = Inr (Some (dirty, st')) \<and> inserted e st st') \<or>
      ext4_ext_insert_extent pre_io 0 dirty e st = Inr None \<and> lf_max st \<le> length (lf_entries st)"
    using insert_extent_ok [OF assms(1)] by blast
  show ?thesis
  proof (intro exI conjI)
    show "elo new' = elo new" using c by simp
  qed (use o c ins in blast)+
qed

text \<open>C27. The cached extent is never stale.  Caching a found extent or the gap around an unmapped block
  makes it true, with the block asked for in it; a hit then tells where the block is, or that it is
  unmapped; and insertion keeps it true on every path, with the journal's errors included, which leave
  the leaf as it was.\<close>

theorem extent_cache_sound:
  assumes "leaf_ok (lf_entries st)"
  shows "(leaf_map (lf_entries st) (unat b) = None \<and> b \<noteq> EXT_MAX_BLOCKS \<longrightarrow>
            (\<exists>st'. ext4_ext_put_gap_in_cache b st = Inr st' \<and> cache_ok st' \<and> fst (ext4_ext_in_cache b ex st'))) \<and>
         (e \<in> set (lf_entries st) \<and> ext4_ext_pblock e \<noteq> 0 \<longrightarrow>
            (\<exists>st'. ext4_ext_put_in_cache (ee_block e) (of_nat (elen e)) (ext4_ext_pblock e) st = Inr st' \<and> cache_ok st')) \<and>
         (cache_ok st \<and> ext4_ext_in_cache b ex st = (True, r, st1) \<longrightarrow>
            (if ext4_ext_pblock r = 0 then leaf_map (lf_entries st) (unat b) = None
             else \<exists>u. leaf_map (lf_entries st) (unat b) = Some (unat (ext4_ext_pblock r) + unat (b - ee_block r), u))) \<and>
         (cache_ok st \<and> extent_ok new \<and> dom (leaf_map (lf_entries st)) \<inter> dom (ext_map new) = {} \<and>
          ext4_ext_insert_extent pre_io access dirty new st = Inr (Some (err, st2)) \<longrightarrow>
            cache_ok st2 \<and> (access \<noteq> 0 \<longrightarrow> err \<in> {access, - EIO} \<and> lf_entries st2 = lf_entries st))"
  using gap_cache_ok [OF assms, of b ex] put_in_cache_ok [OF assms, of e] cache_hit [of st b ex r st1]
    cache_ok_insert [OF assms, of new pre_io access dirty err st2] insert_error [of access pre_io dirty new st err st2]
  by (intro conjI) blast+

text \<open>C28. Blocks of the tree that pass the check stay out of the system zones.  Suppose that the ranges that
  \<open>ext4_setup_system_zone\<close> selects are not empty and do not overlap: the bitmaps and the inode table of
  every group, and the copy of the super block with its descriptors in those groups that have one and
  are among the first five or start a flex group.  The allocator may fail at any call.  Setting up the
  zones then ends with 0 or \<open>-ENOMEM\<close>, the zones hold blocks of these ranges only, and 0 means that
  they hold the bitmaps and the inode table of every group; a failure for a copy of the super block goes
  unnoticed, and if the allocator never fails the result is 0 and the zones are exactly the ranges.  In
  every case \<open>ext4_ext_check\<close> accepts exactly the blocks whose header is in order and whose entries point
  behind the first data block, inside the file system and to no block of the zones: the extents of a
  leaf, which must not be empty, with all their blocks, and the entries of an index with the block they
  name.  Metadata outside the selection is not protected: \<open>meta_bg_unprotected\<close> shows descriptors.\<close>

theorem checked_block_avoids_metadata:
  assumes "rb_law R" and "fresh_zone alloc" and "z_tree st = \<langle>\<rangle>"
    and "zone_ranges G (map of_nat [0..<unat ngroups]) = Some rs" and "ranges_ok rs"
  shows "\<exists>ret z. ext4_setup_system_zone R alloc G True ngroups st = Some (ret, z) \<and> zblocks z \<subseteq> spans rs \<and>
           (ret = 0 \<and> (\<forall>i < ngroups. own_blocks G i \<subseteq> zblocks z) \<or> ret = - ENOMEM \<and> \<not> never_null alloc) \<and>
           (never_null alloc \<longrightarrow> zblocks z = spans rs) \<and>
           (\<forall>fd bc bs d eh slots i. fst (ext4_ext_check fd bc bs d eh slots i z) = 0 \<longleftrightarrow>
              eh_magic eh = EXT4_EXT_MAGIC \<and> unat (eh_depth eh) = i \<and> eh_max eh \<noteq> 0 \<and>
              unat (eh_max eh) \<le> ext4_ext_max_entries bs d i \<and> eh_entries eh \<le> eh_max eh \<and>
              (\<forall>e \<in> set (take (unat (eh_entries eh)) slots).
                 if i = 0
                 then 0 < elen e \<and> unat fd < unat (ext4_ext_pblock e) \<and> unat (ext4_ext_pblock e) + elen e \<le> unat bc \<and>
                      zblocks z \<inter> {unat (ext4_ext_pblock e) ..< unat (ext4_ext_pblock e) + elen e} = {}
                 else unat fd < unat (ext4_idx_pblock (slot_idx e)) \<and> unat (ext4_idx_pblock (slot_idx e)) < unat bc \<and>
                      unat (ext4_idx_pblock (slot_idx e)) \<notin> zblocks z))"
proof -
  obtain ret z where z: "ext4_setup_system_zone R alloc G True ngroups st = Some (ret, z)" "zinv z" "zblocks z \<subseteq> spans rs"
    "ret = 0 \<and> (\<forall>i < ngroups. own_blocks G i \<subseteq> zblocks z) \<or> ret = - ENOMEM \<and> \<not> never_null alloc"
    "never_null alloc \<longrightarrow> zblocks z = spans rs"
    using setup_system_zone_ok [OF assms] by blast
  show ?thesis
    by (intro exI conjI, (rule z(1,3-5))+, unfold ext_check_iff)
       (simp only: valid_extent_iff [OF z(2)] valid_extent_idx_iff [OF z(2)] simp_thms)
qed

section \<open>Examples\<close>

definition ex_leaf :: "ext4_extent list" where
  "ex_leaf = [\<lparr>ee_block = 0, ee_len = 4, ee_start_hi = 0, ee_start_lo = 100\<rparr>,
              \<lparr>ee_block = 10, ee_len = 4, ee_start_hi = 0, ee_start_lo = 110\<rparr>]"

lemma ex_leaf_ok: "leaf_ok ex_leaf"
  by (simp add: ex_leaf_def extent_ok_def ext4_ext_get_actual_len_def EXT_INIT_MAX_LEN_def)

definition ex_ext_leaf :: ext_leaf where
  "ex_ext_leaf = \<lparr>lf_max = 4, lf_entries = ex_leaf, i_cached_extent = \<lparr>ec_start = 0, ec_block = 4, ec_len = 6\<rparr>,
     extent_cache_hits = 0, extent_cache_misses = 0\<rparr>"

definition ex_new :: ext4_extent where
  "ex_new = \<lparr>ee_block = 4, ee_len = 10, ee_start_hi = 0, ee_start_lo = 104\<rparr>"

lemma ex_unmapped: "leaf_map ex_leaf 4 = None" "leaf_map ex_leaf 5 = None"
  by (simp_all add: ex_leaf_def ext_map_def ext4_ext_get_actual_len_def EXT_INIT_MAX_LEN_def map_add_def)

lemma ex_new_ok: "extent_ok ex_new" "\<not> ext4_ext_is_uninitialized ex_new" "elo ex_new = 4"
  by (simp_all add: ex_new_def extent_ok_def ext4_ext_get_actual_len_def EXT_INIT_MAX_LEN_def ext4_ext_is_uninitialized_def)

lemma ex_search: "ext4_ext_binsearch ex_leaf 4 = Some 0"
proof -
  have "bin_loop [0, 10] 4 1 0 = 1" by (subst bin_loop.simps) simp
  then have "bin_loop [0, 10] 4 1 1 = 1" by (subst bin_loop.simps) (simp add: Let_def)
  then show ?thesis by (simp add: ext4_ext_binsearch_def ex_leaf_def)
qed

definition ex_zone_layout :: zone_layout where
  "ex_zone_layout = \<lparr>zl_groups = ex_groups, ext4_block_bitmap = (\<lambda>_. 3), ext4_inode_bitmap = (\<lambda>_. 4),
     ext4_inode_table = (\<lambda>_. 5), s_itb_per_group = 10, ext4_flex_bg_size = 1\<rparr>"

definition ex_no_zones :: zstate where
  "ex_no_zones = \<lparr>z_tree = \<langle>\<rangle>, z_heap = (\<lambda>_. \<lparr>start_blk = 0, zcount = 0\<rparr>), z_last_error_block = 0\<rparr>"

lemma ex_ranges: "zone_ranges ex_zone_layout (map of_nat [0..<unat (1 :: u32)]) = Some [(1, 2), (3, 1), (4, 1), (5, 10)]"
  by (simp add: ex_zone_layout_def group_ranges_def super_range_def near_super_def ex_groups_def
      ext4_bg_has_super_def ext4_group_sparse_def ext4_bg_num_gdb_def ext4_bg_num_gdb_nometa_def ext4_group_first_block_no_def)

lemma ex_ranges_ok: "ranges_ok [(1, 2), (3, 1), (4, 1), (5, 10)]"
  by (auto simp: ranges_ok_def range_span_def)

definition ex_header :: ext4_extent_header where
  "ex_header = \<lparr>eh_magic = EXT4_EXT_MAGIC, eh_entries = 2, eh_max = 4, eh_depth = 0\<rparr>"

lemma ex_spans: "(\<Union>r \<in> set [(1, 2), (3, 1), (4, 1), (5, 10)]. range_span r) = {1..<15}"
  by (auto simp: range_span_def)

text \<open>A tree of depth 1: the root has one entry, whose block holds the leaf.\<close>

definition ex_root :: ext_node where
  "ex_root = \<lparr>nd_hdr = \<lparr>eh_magic = EXT4_EXT_MAGIC, eh_entries = 1, eh_max = 4, eh_depth = 1\<rparr>,
     nd_slots = [\<lparr>ee_block = 0, ee_len = 50, ee_start_hi = 0, ee_start_lo = 0\<rparr>]\<rparr>"

definition ex_fs :: ext_fs where
  "ex_fs = \<lparr>fs_first_data = 0, fs_blocks_count = 1000, fs_blocksize = 4096,
     fs_read = (\<lambda>b. if b = 50 then In_memory \<lparr>nd_hdr = ex_header, nd_slots = ex_leaf\<rparr> else No_buffer)\<rparr>"

theorem find_extent_refines_witness:
  "\<exists>path. ext4_ext_find_extent True ex_fs ex_root 12 ex_no_zones = (Inr path, ex_no_zones) \<and> length path = 2 \<and>
     tree_map ex_fs 1 ex_root 12 =
       (case p_ext (last path) of
          None \<Rightarrow> None | Some i \<Rightarrow> ext_map (nd_extents (p_hdr (last path)) ! i) 12)"
proof -
  have ix: "nd_indexes ex_root = [\<lparr>ei_block = 0, ei_leaf_lo = 50, ei_leaf_hi = 0\<rparr>]"
    by (simp add: nd_indexes_def nd_extents_def ex_root_def slot_idx_def)
  have lf: "nd_extents \<lparr>nd_hdr = ex_header, nd_slots = ex_leaf\<rparr> = ex_leaf"
    by (simp add: nd_extents_def ex_header_def ex_leaf_def)
  have "loads ex_fs ex_no_zones 1 0 \<lparr>ei_block = 0, ei_leaf_lo = 50, ei_leaf_hi = 0\<rparr> \<lparr>nd_hdr = ex_header, nd_slots = ex_leaf\<rparr>"
    by (simp add: loads_def ex_fs_def ext4_idx_pblock_def)
  moreover have "tree_ok ex_fs ex_no_zones 1 0 \<lparr>nd_hdr = ex_header, nd_slots = ex_leaf\<rparr> 0 (2 ^ 32)"
    using ex_leaf_ok unfolding tree_ok.simps lf
    by (auto simp: ex_leaf_def ext4_ext_get_actual_len_def EXT_INIT_MAX_LEN_def)
  ultimately have t: "tree_ok ex_fs ex_no_zones 1 1 ex_root 0 (2 ^ 32)"
    by (auto simp: ix key_lo_def key_hi_def)
  have d: "1 = unat (eh_depth (nd_hdr ex_root))" and u: "unat (12 :: u32) = 12" and n: "1 + 1 = (2 :: nat)"
    by (simp_all add: ex_root_def)
  show ?thesis using find_extent_refines [OF d t, of 12] unfolding u n by blast
qed

theorem insert_extent_refines_witness:
  "\<exists>st'. ext4_ext_check_overlap ex_leaf (ext4_ext_binsearch ex_leaf 4) ex_new = (True, ex_new\<lparr>ee_len := 6\<rparr>) \<and>
     ext4_ext_insert_extent False 0 0 (ex_new\<lparr>ee_len := 6\<rparr>) ex_ext_leaf = Inr (Some (0, st')) \<and>
     inserted (ex_new\<lparr>ee_len := 6\<rparr>) ex_ext_leaf st'"
proof -
  have o: "ext4_ext_check_overlap ex_leaf (ext4_ext_binsearch ex_leaf 4) ex_new = (True, ex_new\<lparr>ee_len := 6\<rparr>)"
    unfolding ex_search
    by (simp add: ext4_ext_check_overlap_def ex_leaf_def ex_new_def leaf_next_block_def
        EXT_MAX_BLOCKS_def ext4_ext_get_actual_len_def EXT_INIT_MAX_LEN_def)
  have e: "lf_entries ex_ext_leaf = ex_leaf" "lf_max ex_ext_leaf = 4" "length ex_leaf = 2" "ee_block ex_new = 4"
    by (simp_all add: ex_ext_leaf_def ex_leaf_def ex_new_def)
  obtain new' where n: "ext4_ext_check_overlap ex_leaf (ext4_ext_binsearch ex_leaf 4) ex_new = (True, new')" "extent_ok new'"
    "\<forall>e pre_io dirty. extent_ok e \<and> elo e = elo new' \<and> ehi e \<le> ehi new' \<longrightarrow>
              (\<exists>st'. ext4_ext_insert_extent pre_io 0 dirty e ex_ext_leaf = Inr (Some (dirty, st')) \<and> inserted e ex_ext_leaf st') \<or>
              ext4_ext_insert_extent pre_io 0 dirty e ex_ext_leaf = Inr None \<and> lf_max ex_ext_leaf \<le> length (lf_entries ex_ext_leaf)"
    using insert_extent_refines [of ex_ext_leaf ex_new] ex_leaf_ok ex_unmapped(1) ex_new_ok o unfolding e by auto
  then have "new' = ex_new\<lparr>ee_len := 6\<rparr>" using o by simp
  then obtain st' where "ext4_ext_insert_extent False 0 0 (ex_new\<lparr>ee_len := 6\<rparr>) ex_ext_leaf = Inr (Some (0, st'))"
    "inserted (ex_new\<lparr>ee_len := 6\<rparr>) ex_ext_leaf st'"
    using n(2) n(3) [rule_format, of new' False 0] by (auto simp: e)
  then show ?thesis using o by blast
qed

theorem extent_cache_sound_witness:
  "\<exists>st'. ext4_ext_put_gap_in_cache 5 ex_ext_leaf = Inr st' \<and> cache_ok st' \<and> fst (ext4_ext_in_cache 5 ex_new st')"
  using extent_cache_sound [of ex_ext_leaf 5 ex_new] ex_leaf_ok ex_unmapped(2)
  by (simp add: ex_ext_leaf_def EXT_MAX_BLOCKS_def)

theorem checked_block_avoids_metadata_witness:
  "\<exists>z. ext4_setup_system_zone plain_rb first_free ex_zone_layout True 1 ex_no_zones = Some (0, z) \<and> zblocks z = {1..<15} \<and>
     fst (ext4_ext_check 0 1000 4096 0 ex_header ex_leaf 0 z) = 0 \<and>
     fst (ext4_ext_check 0 102 4096 0 ex_header ex_leaf 0 z) \<noteq> 0"
proof -
  have t: "z_tree ex_no_zones = \<langle>\<rangle>" by (simp add: ex_no_zones_def)
  note pre = plain_rb_law first_free_fresh t ex_ranges ex_ranges_ok
  have lf: "take (unat (eh_entries ex_header)) ex_leaf = ex_leaf" by (simp add: ex_header_def ex_leaf_def)
  obtain z where z: "ext4_setup_system_zone plain_rb first_free ex_zone_layout True 1 ex_no_zones = Some (0, z)"
    and b: "zblocks z = {1..<15}"
    and iff: "\<forall>fd bc bs d eh slots i. fst (ext4_ext_check fd bc bs d eh slots i z) = 0 \<longleftrightarrow>
      eh_magic eh = EXT4_EXT_MAGIC \<and> unat (eh_depth eh) = i \<and> eh_max eh \<noteq> 0 \<and>
      unat (eh_max eh) \<le> ext4_ext_max_entries bs d i \<and> eh_entries eh \<le> eh_max eh \<and>
      (\<forall>e \<in> set (take (unat (eh_entries eh)) slots).
         if i = 0
         then 0 < elen e \<and> unat fd < unat (ext4_ext_pblock e) \<and> unat (ext4_ext_pblock e) + elen e \<le> unat bc \<and>
              zblocks z \<inter> {unat (ext4_ext_pblock e) ..< unat (ext4_ext_pblock e) + elen e} = {}
         else unat fd < unat (ext4_idx_pblock (slot_idx e)) \<and> unat (ext4_idx_pblock (slot_idx e)) < unat bc \<and>
              unat (ext4_idx_pblock (slot_idx e)) \<notin> zblocks z)"
    using checked_block_avoids_metadata [OF pre] first_free_never_null unfolding ex_spans by blast
  note d = ex_header_def ex_leaf_def ext4_ext_get_actual_len_def EXT_INIT_MAX_LEN_def ext4_ext_pblock_def
    ext4_ext_max_entries_def ext4_ext_space_root_def
  have "fst (ext4_ext_check 0 1000 4096 0 ex_header ex_leaf 0 z) = 0"
    "fst (ext4_ext_check 0 102 4096 0 ex_header ex_leaf 0 z) \<noteq> 0"
    unfolding iff [rule_format] lf b by (auto simp: d)
  then show ?thesis using z b by blast
qed

text \<open>The check of a leaf does not look at the order of its entries, on which the search relies.\<close>

lemma unsorted_accepted:
  assumes "zinv z" and "zblocks z = {1..<15}"
  shows "fst (ext4_ext_check 0 1000 4096 0 ex_header (rev ex_leaf) 0 z) = 0 \<and>
         check_binsearch (map ee_block (rev ex_leaf)) 12 b = Inl BUG"
proof
  show "fst (ext4_ext_check 0 1000 4096 0 ex_header (rev ex_leaf) 0 z) = 0"
    unfolding ext_check_iff valid_extent_iff [OF assms(1)] assms(2)
    by (auto simp: ex_leaf_def ex_header_def ext4_ext_get_actual_len_def EXT_INIT_MAX_LEN_def ext4_ext_pblock_def
        ext4_ext_max_entries_def ext4_ext_space_root_def)
  show "check_binsearch (map ee_block (rev ex_leaf)) 12 b = Inl BUG"
  proof -
    have "check_scan [10, 0] 12 1 0 = Inl BUG" by (subst check_scan.simps) simp
    then have "check_scan [10, 0] 12 0 0 = Inl BUG" by (subst check_scan.simps) simp
    then show ?thesis by (simp add: check_binsearch_def ex_leaf_def)
  qed
qed

end
