(* ===== verification/Ext4_Tree_Grow.thy ===== *)
theory Ext4_Tree_Grow
  imports Ext4_Extents
begin

text \<open>
  Growing an extent tree of ext4 in depth, \<open>ext4_ext_grow_indepth\<close> of \<open>src/ext4/extents.c\<close>: the root moves
  into a new block and becomes an index with one entry.  The lemmas show that a tree does not notice
  a write outside its blocks, and that the deeper tree maps the same blocks.
\<close>

section \<open>Definitions\<close>

text \<open>Access to a block of the path and marking it dirty: the root lies in the inode and has no buffer.\<close>

definition ext4_ext_get_access :: "bool \<Rightarrow> int \<Rightarrow> int" where
  "ext4_ext_get_access has_bh ext4_journal_get_write_access = (if has_bh then ext4_journal_get_write_access else 0)"

definition ext4_ext_dirty :: "bool \<Rightarrow> int \<Rightarrow> int \<Rightarrow> int" where
  "ext4_ext_dirty has_bh ext4_handle_dirty_metadata ext4_mark_inode_dirty =
     (if has_bh then ext4_handle_dirty_metadata else ext4_mark_inode_dirty)"

text \<open>An index entry written over a slot; \<open>ei_unused\<close> keeps its two bytes.\<close>

definition idx_slot :: "ext4_extent_idx \<Rightarrow> ext4_extent \<Rightarrow> ext4_extent" where
  "idx_slot ix old =
     \<lparr>ee_block = ei_block ix, ee_len = ucast (ei_leaf_lo ix), ee_start_hi = ucast (drop_bit 16 (ei_leaf_lo ix)),
      ee_start_lo = (ee_start_lo old AND 0xffff0000) OR ucast (ei_leaf_hi ix)\<rparr>"

text \<open>What the allocator, the buffer layer and the journal answer while the tree grows.\<close>

record grow_env =
  ge_newblock :: u64
  ge_alloc_err :: int
  ge_getblk :: bool
  ge_old_slots :: "ext4_extent list"
  ge_create_access :: int
  ge_dirty_block :: int
  ge_dirty_inode :: int

definition grown_block :: "nat \<Rightarrow> ext_node \<Rightarrow> ext4_extent list \<Rightarrow> ext_node" where
  "grown_block blocksize root old =
     \<lparr>nd_hdr = (nd_hdr root)
        \<lparr>eh_max := of_nat (if eh_depth (nd_hdr root) \<noteq> 0 then ext4_ext_space_block_idx blocksize
                            else ext4_ext_space_block blocksize),
         eh_magic := EXT4_EXT_MAGIC\<rparr>,
      nd_slots = nd_slots root @ drop (length (nd_slots root)) old\<rparr>"

definition grown_root :: "u64 \<Rightarrow> ext_node \<Rightarrow> ext_node" where
  "grown_root newblock root =
     (let slot = hd (nd_slots root);
          ix = (slot_idx slot)\<lparr>ei_block := if eh_depth (nd_hdr root) \<noteq> 0 then ei_block (slot_idx slot) else ee_block slot\<rparr>
      in \<lparr>nd_hdr = \<lparr>eh_magic = EXT4_EXT_MAGIC, eh_entries = 1, eh_max = of_nat ext4_ext_space_root_idx,
                     eh_depth = eh_depth (nd_hdr root) + 1\<rparr>,
          nd_slots = idx_slot (ext4_idx_store_pblock newblock ix) slot # tl (nd_slots root)\<rparr>)"

definition fs_write :: "ext_fs \<Rightarrow> u64 \<Rightarrow> ext_node \<Rightarrow> ext_fs" where
  "fs_write F b nd = F\<lparr>fs_read := (fs_read F)(b := In_memory nd)\<rparr>"

definition ext4_ext_grow_indepth :: "grow_env \<Rightarrow> ext_fs \<Rightarrow> ext_node \<Rightarrow> int \<times> ext_fs \<times> ext_node" where
  "ext4_ext_grow_indepth g F root =
     (if ge_newblock g = 0 then (ge_alloc_err g, F, root)
      else if \<not> ge_getblk g then (- EIO, F, root)
      else if ge_create_access g \<noteq> 0 then (ge_create_access g, F, root)
      else
        let F1 = fs_write F (ge_newblock g) (grown_block (fs_blocksize F) root (ge_old_slots g))
        in if ge_dirty_block g \<noteq> 0 then (ge_dirty_block g, F1, root)
           else if ext4_ext_get_access False 0 \<noteq> 0 then (ext4_ext_get_access False 0, F1, root)
           else (ext4_ext_dirty False 0 (ge_dirty_inode g), F1, grown_root (ge_newblock g) root))"

section \<open>Writing a block outside the tree\<close>

text \<open>The blocks of a tree.\<close>

fun tree_blocks :: "ext_fs \<Rightarrow> nat \<Rightarrow> ext_node \<Rightarrow> u64 set" where
  "tree_blocks F 0 nd = {}"
| "tree_blocks F (Suc i) nd =
     (\<Union>ix \<in> set (nd_indexes nd). insert (ext4_idx_pblock ix)
        (case child F ix of None \<Rightarrow> {} | Some nd' \<Rightarrow> tree_blocks F i nd'))"

lemma idx_slot_inv: "slot_idx (idx_slot ix old) = ix"
proof -
  have "ucast (ucast (ei_leaf_lo ix) :: u16) OR push_bit 16 (ucast (ucast (drop_bit 16 (ei_leaf_lo ix)) :: u16)) = ei_leaf_lo ix"
    by (rule bit_word_eqI) (auto simp: bit_simps)
  moreover have "ucast ((ee_start_lo old AND 0xffff0000) OR ucast (ei_leaf_hi ix)) = ei_leaf_hi ix"
  proof (rule bit_word_eqI)
    fix n assume n: "n < LENGTH(16)"
    define m :: u32 where "m = 0xffff0000"
    have "m = push_bit 16 (mask 16)" by (simp add: m_def mask_eq_exp_minus_1)
    then have "\<not> bit m n" using n bit_push_bit_iff [of 16 "mask 16 :: u32" n] by simp
    then show "bit (ucast ((ee_start_lo old AND 0xffff0000) OR ucast (ei_leaf_hi ix)) :: u16) n = bit (ei_leaf_hi ix) n"
      using n unfolding m_def [symmetric] by (simp add: bit_simps)
  qed
  ultimately show ?thesis by (simp add: slot_idx_def idx_slot_def)
qed

lemma idx_pblock_store:
  assumes "unat pb < 2 ^ 48"
  shows "ext4_idx_pblock (ext4_idx_store_pblock pb ix) = pb"
proof -
  have "take_bit 48 pb = pb"
    using assms by (simp add: word_unat_eq_iff unsigned_take_bit_eq take_bit_nat_eq_self)
  then have hi: "bit pb n \<Longrightarrow> n < 48" for n by (metis bit_take_bit_iff)
  then have hi': "bit pb n \<Longrightarrow> n - 32 < 16" for n by fastforce
  have "bit (ext4_idx_pblock (ext4_idx_store_pblock pb ix)) n \<longleftrightarrow> bit pb n" if "n < LENGTH(64)" for n
    using that unfolding ext4_idx_pblock_def ext4_idx_store_pblock_def low_masks
    by (cases "n < 32") (auto simp: bit_simps hi hi')
  then show ?thesis by (intro bit_word_eqI) simp
qed

text \<open>Writing a block that is not in the tree changes nothing, nor does the depth of the tree matter to
  the checks below the root.\<close>

lemma fs_check_write: "fs_check (fs_write F b r) d nd i z = fs_check F d nd i z"
  by (simp add: fs_check_def fs_write_def)

lemma fs_check_depth: "i < d \<Longrightarrow> fs_check F (Suc d) nd i z = fs_check F d nd i z"
  by (simp add: fs_check_def ext4_ext_check_def ext4_ext_max_entries_def)

lemma read_write: "fs_read (fs_write F b r) x = (if x = b then In_memory r else fs_read F x)"
  by (simp add: fs_write_def)

lemma child_write:
  assumes "ext4_idx_pblock ix \<noteq> b"
  shows "child (fs_write F b r) ix = child F ix" and "loads (fs_write F b r) z d i ix nd = loads F z d i ix nd"
  using assms by (simp_all add: child_def loads_def fs_check_write read_write split: ext_read.splits)

lemma map_union_cong: "(\<And>x. x \<in> set xs \<Longrightarrow> f x = g x) \<Longrightarrow> map_union f xs = map_union g xs"
  by (induction xs) auto

lemma tree_map_write:
  assumes "b \<notin> tree_blocks F i nd"
  shows "tree_map (fs_write F b r) i nd = tree_map F i nd"
  using assms
proof (induction i arbitrary: nd)
  case (Suc i)
  have "(case child (fs_write F b r) ix of None \<Rightarrow> Map.empty | Some nd' \<Rightarrow> tree_map (fs_write F b r) i nd') =
      (case child F ix of None \<Rightarrow> Map.empty | Some nd' \<Rightarrow> tree_map F i nd')"
    if ix: "ix \<in> set (nd_indexes nd)" for ix
  proof -
    have ne: "ext4_idx_pblock ix \<noteq> b" using Suc.prems ix by auto
    show ?thesis
    proof (cases "child F ix")
      case (Some c)
      then have "b \<notin> tree_blocks F i c" using Suc.prems ix by force
      then show ?thesis using Suc.IH Some by (simp add: child_write(1) [OF ne])
    qed (simp add: child_write(1) [OF ne])
  qed
  then show ?case unfolding tree_map.simps by (rule map_union_cong)
qed simp

lemma tree_ok_write:
  assumes "tree_ok F z d i nd lo hi" and "b \<notin> tree_blocks F i nd" and "i \<le> d"
  shows "tree_ok (fs_write F b r) z (Suc d) i nd lo hi"
  using assms
proof (induction i arbitrary: nd lo hi)
  case (Suc i)
  let ?ixs = "nd_indexes nd" and ?keys = "map ei_block (nd_indexes nd)"
  have "\<exists>nd'. loads (fs_write F b r) z (Suc d) i (?ixs ! j) nd' \<and>
      tree_ok (fs_write F b r) z (Suc d) i nd' (key_lo lo ?keys j) (key_hi hi ?keys j)"
    if j: "j < length ?ixs" for j
  proof -
    obtain nd' where nd': "loads F z d i (?ixs ! j) nd'" "tree_ok F z d i nd' (key_lo lo ?keys j) (key_hi hi ?keys j)"
      using Suc.prems(1) j by (auto simp: Let_def)
    have ne: "ext4_idx_pblock (?ixs ! j) \<noteq> b" and nb: "b \<notin> tree_blocks F i nd'"
      using Suc.prems(2) nth_mem [OF j] loads_child [OF nd'(1)] by force+
    have "loads F z (Suc d) i (?ixs ! j) nd'"
      using nd'(1) Suc.prems(3) by (simp add: loads_def fs_check_depth split: ext_read.splits)
    then show ?thesis using Suc.IH [OF nd'(2) nb] Suc.prems(3) child_write(2) [OF ne] by auto
  qed
  then show ?case using Suc.prems(1) by (simp add: Let_def)
qed simp

lemma tree_of_entries:
  assumes "nd_extents a = nd_extents b"
  shows "tree_map F i a = tree_map F i b" and "tree_ok F z d i a lo hi = tree_ok F z d i b lo hi"
    and "tree_blocks F i a = tree_blocks F i b"
  using assms by (cases i; simp add: nd_indexes_def)+

section \<open>Growing keeps the map\<close>

lemma grow_indepth_ok:
  assumes "d = unat (eh_depth (nd_hdr root))" and "Suc d < 2 ^ 16" and "tree_ok F z d d root 0 (2 ^ 32)"
    and "nd_slots root \<noteq> []" and "unat (eh_entries (nd_hdr root)) \<le> length (nd_slots root)"
    and "ge_newblock g \<notin> tree_blocks F d root" and "unat (ge_newblock g) < 2 ^ 48"
    and "ext4_ext_grow_indepth g F root = (err, F', root')" and "root' \<noteq> root"
  shows "tree_ok F' z (d + 1) (d + 1) root' 0 (2 ^ 32) \<and> tree_map F' (d + 1) root' = tree_map F d root \<and>
         unat (eh_depth (nd_hdr root')) = d + 1"
proof -
  define nb where "nb = ge_newblock g"
  define new where "new = grown_block (fs_blocksize F) root (ge_old_slots g)"
  have r: "F' = fs_write F nb new" "root' = grown_root nb root"
    using assms(8,9) by (auto simp: ext4_ext_grow_indepth_def Let_def nb_def new_def ext4_ext_get_access_def split: if_splits)
  have ext: "nd_extents new = nd_extents root"
    using assms(5) by (simp add: new_def grown_block_def nd_extents_def)
  define k where "k = ext4_idx_store_pblock nb (slot_idx (hd (nd_slots root)))"
  have "(slot_idx s)\<lparr>ei_block := if c then ei_block (slot_idx s) else ee_block s\<rparr> = slot_idx s" for s c
    by (simp add: slot_idx_def)
  then have ix: "nd_indexes root' = [k]"
    by (simp add: r(2) grown_root_def Let_def nd_indexes_def nd_extents_def idx_slot_inv k_def)
  have pb: "ext4_idx_pblock k = nb" unfolding k_def using assms(7) by (intro idx_pblock_store) (simp add: nb_def)
  have nb: "nb \<notin> tree_blocks F d new" using assms(6) tree_of_entries(3) [OF ext] by (simp add: nb_def)
  have ld: "loads F' z (Suc d) d k new" and ch: "child F' k = Some new"
    by (simp_all add: loads_def child_def r(1) read_write pb)
  have "unat (ei_block k) < 2 ^ LENGTH(32)" by (rule unsigned_less)
  moreover have "tree_ok F' z (Suc d) d new 0 (2 ^ 32)"
    unfolding r(1) using assms(3) tree_of_entries(2) [OF ext] nb by (intro tree_ok_write) simp_all
  ultimately have "tree_ok F' z (Suc d) (Suc d) root' 0 (2 ^ 32)"
    using ld by (auto simp: ix key_lo_def key_hi_def)
  moreover have "tree_map F' (Suc d) root' = tree_map F d root"
    using tree_map_write [OF nb] tree_of_entries(1) [OF ext] by (simp add: ix ch r(1) [symmetric]) (simp add: r(1))
  moreover have "unat (eh_depth (nd_hdr root')) = Suc d"
    using assms(1,2) by (simp add: r(2) grown_root_def Let_def unat_word_ariths)
  ultimately show ?thesis by simp
qed

lemma grown_root_differs:
  assumes "Suc (unat (eh_depth (nd_hdr root))) < 2 ^ 16"
  shows "grown_root nb root \<noteq> root"
proof
  assume "grown_root nb root = root"
  then have "eh_depth (nd_hdr root) + 1 = eh_depth (nd_hdr root)"
    by (metis (no_types, lifting) ext4_extent_header.select_convs(4) ext_node.select_convs(1) grown_root_def)
  then show False by simp
qed

text \<open>C29. Growing the tree keeps what it maps.  When the allocator gives a block, the block gets a buffer, and
  the journal gives access to it and takes it, \<open>ext4_ext_grow_indepth\<close> moves the root into the new block
  and makes the root a tree one level deeper, well-formed as before and with the same blocks of the
  file at the same places, and the moved block has room for another entry; the result is that of
  marking the inode dirty, and if that is an error the root has grown all the same.  When one of the
  four earlier steps fails, the result is the error of the first that does (\<open>-EIO\<close> for the buffer),
  and the root and the map are as they were.\<close>

theorem grow_indepth_refines:
  assumes "d = unat (eh_depth (nd_hdr root))" and "Suc d < 2 ^ 16" and "tree_ok F z d d root 0 (2 ^ 32)"
    and "length (nd_slots root) = 4" and "unat (eh_entries (nd_hdr root)) \<le> 4"
    and "ge_newblock g \<notin> tree_blocks F d root" and "unat (ge_newblock g) < 2 ^ 48"
    and "1024 \<le> fs_blocksize F" and "fs_blocksize F \<le> 65536"
    and "ext4_ext_grow_indepth g F root = (err, F', root')"
  shows "if ge_newblock g \<noteq> 0 \<and> ge_getblk g \<and> ge_create_access g = 0 \<and> ge_dirty_block g = 0
         then err = ge_dirty_inode g \<and> unat (eh_depth (nd_hdr root')) = d + 1 \<and>
              tree_ok F' z (d + 1) (d + 1) root' 0 (2 ^ 32) \<and> tree_map F' (d + 1) root' = tree_map F d root \<and>
              (\<exists>nd. fs_read F' (ge_newblock g) = In_memory nd \<and> eh_entries (nd_hdr nd) < eh_max (nd_hdr nd))
         else err = (if ge_newblock g = 0 then ge_alloc_err g else if \<not> ge_getblk g then - EIO
                else if ge_create_access g \<noteq> 0 then ge_create_access g else ge_dirty_block g) \<and>
              root' = root \<and> tree_map F' d root' = tree_map F d root"
proof (cases "ge_newblock g \<noteq> 0 \<and> ge_getblk g \<and> ge_create_access g = 0 \<and> ge_dirty_block g = 0")
  case True
  let ?new = "grown_block (fs_blocksize F) root (ge_old_slots g)"
  have r: "err = ge_dirty_inode g" "F' = fs_write F (ge_newblock g) ?new" "root' = grown_root (ge_newblock g) root"
    using True assms(10)
    by (auto simp: ext4_ext_grow_indepth_def Let_def ext4_ext_get_access_def ext4_ext_dirty_def)
  have slots: "nd_slots root \<noteq> []" "unat (eh_entries (nd_hdr root)) \<le> length (nd_slots root)"
    using assms(4,5) by auto
  have "root' \<noteq> root" unfolding r(3) using assms(1,2) by (intro grown_root_differs) simp
  note g = grow_indepth_ok [OF assms(1-3) slots assms(6,7,10) this]
  define m where "m = (fs_blocksize F - 12) div 12"
  have m: "4 < m" "m < 2 ^ 16" using assms(8,9) by (simp_all add: m_def)
  have "eh_max (nd_hdr ?new) = of_nat m" "eh_entries (nd_hdr ?new) = eh_entries (nd_hdr root)"
    by (simp_all add: grown_block_def ext4_ext_space_block_def ext4_ext_space_block_idx_def m_def)
  moreover have "unat (of_nat m :: u16) = m" using m(2) by (simp add: unat_of_nat)
  ultimately have "eh_entries (nd_hdr ?new) < eh_max (nd_hdr ?new)"
    using m(1) assms(5) by (simp add: word_less_nat_alt)
  then show ?thesis using True r g by (auto simp: read_write)
next
  case False
  then have "err = (if ge_newblock g = 0 then ge_alloc_err g else if \<not> ge_getblk g then - EIO
        else if ge_create_access g \<noteq> 0 then ge_create_access g else ge_dirty_block g) \<and> root' = root \<and>
      (F' = F \<or> F' = fs_write F (ge_newblock g) (grown_block (fs_blocksize F) root (ge_old_slots g)))"
    using assms(10) by (auto simp: ext4_ext_grow_indepth_def Let_def split: if_splits)
  moreover from this have "tree_map F' d root' = tree_map F d root" using tree_map_write [OF assms(6)] by auto
  ultimately show ?thesis unfolding if_not_P [OF False] by blast
qed

definition ex_full_root :: ext_node where
  "ex_full_root = \<lparr>nd_hdr = ex_header\<lparr>eh_entries := 2, eh_max := 4\<rparr>,
     nd_slots = ex_leaf @ ex_leaf\<rparr>"

definition ex_grow :: grow_env where
  "ex_grow = \<lparr>ge_newblock = 60, ge_alloc_err = 0, ge_getblk = True, ge_old_slots = [], ge_create_access = 0,
     ge_dirty_block = 0, ge_dirty_inode = 0\<rparr>"

theorem grow_indepth_refines_witness:
  "\<exists>F' root'. ext4_ext_grow_indepth ex_grow ex_fs ex_full_root = (0, F', root') \<and>
     tree_ok F' ex_no_zones 1 1 root' 0 (2 ^ 32) \<and> tree_map F' 1 root' = leaf_map ex_leaf"
proof -
  have e: "nd_extents ex_full_root = ex_leaf"
    by (simp add: nd_extents_def ex_full_root_def ex_leaf_def)
  have t: "tree_ok ex_fs ex_no_zones 0 0 ex_full_root 0 (2 ^ 32)"
    using ex_leaf_ok unfolding tree_ok.simps e
    by (auto simp: ex_leaf_def ext4_ext_get_actual_len_def EXT_INIT_MAX_LEN_def)
  obtain err F' root' where r: "ext4_ext_grow_indepth ex_grow ex_fs ex_full_root = (err, F', root')" by (metis prod.exhaust)
  have "err = 0" "tree_ok F' ex_no_zones (0 + 1) (0 + 1) root' 0 (2 ^ 32)" "tree_map F' (0 + 1) root' = tree_map ex_fs 0 ex_full_root"
    using grow_indepth_refines [of 0 ex_full_root ex_fs ex_no_zones ex_grow err F' root', OF _ _ t _ _ _ _ _ _ r]
    by (simp_all add: ex_full_root_def ex_header_def ex_leaf_def ex_grow_def ex_fs_def)
  then show ?thesis using r e by simp
qed

end
