(* ===== verification/Btrfs_Extent_Map.thy ===== *)
theory Btrfs_Extent_Map
  imports Rb_Tree
begin

text \<open>
  The extent map of btrfs, \<^verbatim>\<open>btrfs/extent_map.c\<close>: the cache that maps ranges of a file to ranges
  of the disk, a tree of reference-counted extents that are merged when they touch.  The lemmas read
  the tree as a function from offsets to disk addresses and show that lookup returns the first extent
  that meets a range, and that adding, unpinning and removing change that function as they should.
  The kernel's tree functions are the parameter \<open>R\<close>; warnings and the lock are not represented, and
  \<open>em_freed\<close> collects what goes back to the slab cache.
\<close>

section \<open>Extent maps\<close>

definition EXTENT_MAP_LAST_BYTE :: u64 where "EXTENT_MAP_LAST_BYTE = - 4"
definition EXTENT_MAP_HOLE :: u64 where "EXTENT_MAP_HOLE = - 3"
definition EXTENT_MAP_INLINE :: u64 where "EXTENT_MAP_INLINE = - 2"
definition EXTENT_MAP_DELALLOC :: u64 where "EXTENT_MAP_DELALLOC = - 1"

definition EXTENT_FLAG_PINNED :: nat where "EXTENT_FLAG_PINNED = 0"
definition EXTENT_FLAG_COMPRESSED :: nat where "EXTENT_FLAG_COMPRESSED = 1"

record extent_map =
  em_start :: u64
  em_len :: u64
  em_orig_start :: u64
  em_block_start :: u64
  em_block_len :: u64
  em_flags :: u64
  em_bdev :: ptr
  em_refs :: int
  em_in_tree :: bool
  em_compress_type :: nat

record extent_map_tree =
  em_tree :: "ptr tree"
  em_heap :: "ptr \<Rightarrow> extent_map"
  em_freed :: "ptr list"

definition extent_map_end :: "extent_map \<Rightarrow> u64" where
  "extent_map_end em =
     (if em_start em + em_len em < em_start em then - 1 else em_start em + em_len em)"

definition extent_map_block_end :: "extent_map \<Rightarrow> u64" where
  "extent_map_block_end em =
     (if em_block_start em + em_block_len em < em_block_start em then - 1
      else em_block_start em + em_block_len em)"

definition upd_em :: "ptr \<Rightarrow> (extent_map \<Rightarrow> extent_map) \<Rightarrow> extent_map_tree \<Rightarrow> extent_map_tree" where
  "upd_em p f st = st\<lparr>em_heap := (em_heap st)(p := f (em_heap st p))\<rparr>"

definition extent_map_tree_init :: "extent_map_tree \<Rightarrow> extent_map_tree" where
  "extent_map_tree_init st = st\<lparr>em_tree := \<langle>\<rangle>\<rparr>"

text \<open>\<open>em\<close> is what the allocator returns.\<close>

definition alloc_extent_map :: "ptr \<Rightarrow> extent_map_tree \<Rightarrow> ptr \<times> extent_map_tree" where
  "alloc_extent_map em st =
     (if em = NULL then (NULL, st)
      else (em, upd_em em (\<lambda>e. e\<lparr>em_in_tree := False, em_flags := 0, em_compress_type := 0, em_refs := 1\<rparr>) st))"

definition free_extent_map :: "ptr \<Rightarrow> extent_map_tree \<Rightarrow> extent_map_tree" where
  "free_extent_map em st =
     (if em = NULL then st
      else
        let st1 = upd_em em (\<lambda>e. e\<lparr>em_refs := em_refs e - 1\<rparr>) st
        in if em_refs (em_heap st1 em) = 0 then st1\<lparr>em_freed := em # em_freed st1\<rparr> else st1)"

definition em_get :: "ptr \<Rightarrow> extent_map_tree \<Rightarrow> extent_map_tree" where
  "em_get em st = upd_em em (\<lambda>e. e\<lparr>em_refs := em_refs e + 1\<rparr>) st"

section \<open>Searching\<close>

definition em_test :: "extent_map_tree \<Rightarrow> u64 \<Rightarrow> ptr \<Rightarrow> dir" where
  "em_test st off p =
     (if off < em_start (em_heap st p) then Left
      else if off \<ge> extent_map_end (em_heap st p) then Right else Here)"

definition tree_insert :: "rb \<Rightarrow> u64 \<Rightarrow> ptr \<Rightarrow> extent_map_tree \<Rightarrow> ptr option \<times> extent_map_tree" where
  "tree_insert R off node st =
     (case rb_descend (em_test st off) (em_tree st) of
        Some parent \<Rightarrow> (Some parent, st)
      | None \<Rightarrow>
          (None, (upd_em node (\<lambda>e. e\<lparr>em_in_tree := True\<rparr>) st)
             \<lparr>em_tree := rb_insert_color R (rb_link (em_test st off) node (em_tree st))\<rparr>))"

text \<open>The last node that a walk visits.\<close>

fun rb_last :: "(ptr \<Rightarrow> dir) \<Rightarrow> ptr tree \<Rightarrow> ptr option \<Rightarrow> ptr option" where
  "rb_last test \<langle>\<rangle> prev = prev"
| "rb_last test \<langle>l, n, r\<rangle> prev =
     (case test n of Left \<Rightarrow> rb_last test l (Some n) | Right \<Rightarrow> rb_last test r (Some n) | Here \<Rightarrow> Some n)"

partial_function (option) prev_loop ::
  "rb \<Rightarrow> extent_map_tree \<Rightarrow> u64 \<Rightarrow> ptr option \<Rightarrow> ptr option option" where
  "prev_loop R st off prev =
     (if prev \<noteq> None \<and> off \<ge> extent_map_end (em_heap st (the prev))
      then prev_loop R st off (rb_next R (the prev) (em_tree st)) else Some prev)"

partial_function (option) next_loop ::
  "rb \<Rightarrow> extent_map_tree \<Rightarrow> u64 \<Rightarrow> ptr option \<Rightarrow> ptr option option" where
  "next_loop R st off prev =
     (if prev \<noteq> None \<and> off < em_start (em_heap st (the prev))
      then next_loop R st off (rb_prev R (the prev) (em_tree st)) else Some prev)"

text \<open>The node that holds the offset, or else the two neighbours \<open>prev_ret\<close> and \<open>next_ret\<close>.\<close>

definition tree_search ::
  "rb \<Rightarrow> extent_map_tree \<Rightarrow> u64 \<Rightarrow> (ptr option \<times> ptr option \<times> ptr option) option" where
  "tree_search R st off =
     (case rb_descend (em_test st off) (em_tree st) of
        Some n \<Rightarrow> Some (Some n, None, None)
      | None \<Rightarrow>
          let prev = rb_last (em_test st off) (em_tree st) None
          in case prev_loop R st off prev of
               None \<Rightarrow> None
             | Some prev_ret \<Rightarrow>
                 (case next_loop R st off prev of
                    None \<Rightarrow> None
                  | Some next_ret \<Rightarrow> Some (None, prev_ret, next_ret)))"

definition range_end :: "u64 \<Rightarrow> u64 \<Rightarrow> u64" where
  "range_end start len = (if start + len < start then - 1 else start + len)"

definition em_intersects :: "extent_map_tree \<Rightarrow> u64 \<Rightarrow> u64 \<Rightarrow> ptr \<Rightarrow> bool" where
  "em_intersects st start en p \<longleftrightarrow>
     en > em_start (em_heap st p) \<and> start < extent_map_end (em_heap st p)"

definition lookup_extent_mapping ::
  "rb \<Rightarrow> u64 \<Rightarrow> u64 \<Rightarrow> extent_map_tree \<Rightarrow> (ptr option \<times> extent_map_tree) option" where
  "lookup_extent_mapping R start len st =
     (let en = range_end start len;
          found = (\<lambda>p. Some (Some p, em_get p st))
      in case tree_search R st start of
           None \<Rightarrow> None
         | Some (Some n, _, _) \<Rightarrow> if em_intersects st start en n then found n else Some (None, st)
         | Some (None, prev, nx) \<Rightarrow>
             (case prev of
                Some p \<Rightarrow>
                  if em_intersects st start en p then found p
                  else (case nx of
                          Some q \<Rightarrow> if em_intersects st start en q then found q else Some (None, st)
                        | None \<Rightarrow> Some (None, st))
              | None \<Rightarrow>
                  (case nx of
                     Some q \<Rightarrow> if em_intersects st start en q then found q else Some (None, st)
                   | None \<Rightarrow> Some (None, st))))"

definition search_extent_mapping ::
  "rb \<Rightarrow> u64 \<Rightarrow> u64 \<Rightarrow> extent_map_tree \<Rightarrow> (ptr option \<times> extent_map_tree) option" where
  "search_extent_mapping R start len st =
     (case tree_search R st start of
        None \<Rightarrow> None
      | Some (Some n, _, _) \<Rightarrow> Some (Some n, em_get n st)
      | Some (None, Some p, _) \<Rightarrow> Some (Some p, em_get p st)
      | Some (None, None, Some q) \<Rightarrow> Some (Some q, em_get q st)
      | Some (None, None, None) \<Rightarrow> Some (None, st))"

section \<open>Adding, merging and removing\<close>

definition mergable_maps :: "extent_map \<Rightarrow> extent_map \<Rightarrow> bool" where
  "mergable_maps prev nx =
     (if bit (em_flags prev) EXTENT_FLAG_PINNED then False
      else if bit (em_flags prev) EXTENT_FLAG_COMPRESSED then False
      else
        extent_map_end prev = em_start nx \<and> em_flags prev = em_flags nx \<and> em_bdev prev = em_bdev nx \<and>
        ((em_block_start nx = EXTENT_MAP_HOLE \<and> em_block_start prev = EXTENT_MAP_HOLE) \<or>
         (em_block_start nx = EXTENT_MAP_INLINE \<and> em_block_start prev = EXTENT_MAP_INLINE) \<or>
         (em_block_start nx = EXTENT_MAP_DELALLOC \<and> em_block_start prev = EXTENT_MAP_DELALLOC) \<or>
         (em_block_start nx < EXTENT_MAP_LAST_BYTE - 1 \<and>
          em_block_start nx = extent_map_block_end prev)))"

definition em_merge_back :: "rb \<Rightarrow> ptr \<Rightarrow> extent_map_tree \<Rightarrow> extent_map_tree" where
  "em_merge_back R em st =
     (if em_start (em_heap st em) \<noteq> 0 then
        case rb_prev R em (em_tree st) of
          None \<Rightarrow> st
        | Some m \<Rightarrow>
            let merge = em_heap st m
            in if mergable_maps merge (em_heap st em) then
                 let st1 = upd_em em (\<lambda>e. e\<lparr>em_start := em_start merge, em_len := em_len e + em_len merge,
                             em_block_len := em_block_len e + em_block_len merge,
                             em_block_start := em_block_start merge\<rparr>) st;
                     st2 = upd_em m (\<lambda>e. e\<lparr>em_in_tree := False\<rparr>) st1
                 in free_extent_map m (st2\<lparr>em_tree := rb_erase R m (em_tree st2)\<rparr>)
               else st
      else st)"

definition em_merge_forward :: "rb \<Rightarrow> ptr \<Rightarrow> extent_map_tree \<Rightarrow> extent_map_tree" where
  "em_merge_forward R em st =
     (case rb_next R em (em_tree st) of
        None \<Rightarrow> st
      | Some m \<Rightarrow>
          let merge = em_heap st m
          in if mergable_maps (em_heap st em) merge then
               let st1 = upd_em em (\<lambda>e. e\<lparr>em_len := em_len e + em_len merge,
                           em_block_len := em_block_len e + em_len merge\<rparr>) st;
                   st2 = st1\<lparr>em_tree := rb_erase R m (em_tree st1)\<rparr>
               in free_extent_map m (upd_em m (\<lambda>e. e\<lparr>em_in_tree := False\<rparr>) st2)
             else st)"

abbreviation EEXIST :: int where "EEXIST \<equiv> 17"

definition add_extent_mapping :: "rb \<Rightarrow> ptr \<Rightarrow> extent_map_tree \<Rightarrow> (int \<times> extent_map_tree) option" where
  "add_extent_mapping R em st =
     (case lookup_extent_mapping R (em_start (em_heap st em)) (em_len (em_heap st em)) st of
        None \<Rightarrow> None
      | Some (Some exist, st1) \<Rightarrow> Some (- EEXIST, free_extent_map exist st1)
      | Some (None, st1) \<Rightarrow>
          (case tree_insert R (em_start (em_heap st1 em)) em st1 of
             (Some _, st2) \<Rightarrow> Some (- EEXIST, st2)
           | (None, st2) \<Rightarrow> Some (0, em_merge_forward R em (em_merge_back R em (em_get em st2)))))"

definition unpin_extent_cache :: "rb \<Rightarrow> u64 \<Rightarrow> u64 \<Rightarrow> extent_map_tree \<Rightarrow> (int \<times> extent_map_tree) option" where
  "unpin_extent_cache R start len st =
     (case lookup_extent_mapping R start len st of
        None \<Rightarrow> None
      | Some (None, st1) \<Rightarrow> Some (0, st1)
      | Some (Some em, st1) \<Rightarrow>
          let st2 = upd_em em (\<lambda>e. e\<lparr>em_flags := unset_bit EXTENT_FLAG_PINNED (em_flags e)\<rparr>) st1
          in Some (0, free_extent_map em (em_merge_forward R em (em_merge_back R em st2))))"

definition remove_extent_mapping :: "rb \<Rightarrow> ptr \<Rightarrow> extent_map_tree \<Rightarrow> int \<times> extent_map_tree" where
  "remove_extent_mapping R em st =
     (0, upd_em em (\<lambda>e. e\<lparr>em_in_tree := False\<rparr>) (st\<lparr>em_tree := rb_erase R em (em_tree st)\<rparr>))"

section \<open>Extents as a map from offsets\<close>

abbreviation elo :: "extent_map \<Rightarrow> nat" where "elo e \<equiv> unat (em_start e)"
abbreviation elen :: "extent_map \<Rightarrow> nat" where "elen e \<equiv> unat (em_len e)"

text \<open>An extent with blocks of its own, not compressed: its bytes follow each other on disk.\<close>

definition em_real :: "extent_map \<Rightarrow> bool" where
  "em_real e \<longleftrightarrow> em_block_start e < EXTENT_MAP_LAST_BYTE \<and> \<not> bit (em_flags e) EXTENT_FLAG_COMPRESSED"

definition ewf :: "extent_map \<Rightarrow> bool" where
  "ewf e \<longleftrightarrow> 0 < elen e \<and> elo e + elen e < 2 ^ 64 \<and> (em_real e \<longrightarrow> em_block_len e = em_len e) \<and>
     1 \<le> em_refs e"

text \<open>What an offset of the file is mapped to: the disk address, or the marker of a hole, of inline
  data or of delayed allocation, with the flags and the device.\<close>

definition em_value :: "extent_map \<Rightarrow> nat \<Rightarrow> u64 \<times> u64 \<times> ptr" where
  "em_value e off =
     (if em_real e then em_block_start e + (of_nat off - em_start e) else em_block_start e,
      em_flags e, em_bdev e)"

definition em_graph :: "extent_map \<Rightarrow> (nat \<times> u64 \<times> u64 \<times> ptr) set" where
  "em_graph e = (\<lambda>off. (off, em_value e off)) ` {elo e ..< elo e + elen e}"

definition ems :: "extent_map_tree \<Rightarrow> extent_map list" where
  "ems st = map (em_heap st) (inorder (em_tree st))"

definition emap :: "extent_map_tree \<Rightarrow> (nat \<times> u64 \<times> u64 \<times> ptr) set" where
  "emap st = (\<Union>e \<in> set (ems st). em_graph e)"

definition esorted :: "extent_map list \<Rightarrow> bool" where
  "esorted es \<longleftrightarrow> (\<forall>e \<in> set es. ewf e \<and> em_in_tree e) \<and> sorted_wrt (\<lambda>a b. elo a + elen a \<le> elo b) es"

definition einv :: "extent_map_tree \<Rightarrow> bool" where
  "einv st \<longleftrightarrow> distinct (inorder (em_tree st)) \<and> NULL \<notin> set (inorder (em_tree st)) \<and> esorted (ems st)"

lemma unat_em_end:
  assumes "ewf e"
  shows "unat (extent_map_end e) = elo e + elen e"
proof -
  have "unat (em_start e + em_len e) = elo e + elen e"
    using assms by (simp add: ewf_def unat_word_ariths)
  then show ?thesis by (simp add: extent_map_end_def word_less_nat_alt)
qed

lemma em_end_word:
  assumes "ewf e"
  shows "extent_map_end e = em_start e + em_len e"
proof -
  have "unat (em_start e + em_len e) = elo e + elen e"
    using assms by (simp add: ewf_def unat_word_ariths)
  then show ?thesis by (simp add: extent_map_end_def word_less_nat_alt)
qed

lemma em_test_nat:
  assumes "ewf (em_heap st p)"
  shows "em_test st off p = (if unat off < elo (em_heap st p) then Left
           else if elo (em_heap st p) + elen (em_heap st p) \<le> unat off then Right else Here)"
  using unat_em_end [OF assms] by (simp add: em_test_def word_less_nat_alt word_le_nat_alt)

lemma einv_wf:
  assumes "einv st" and "p \<in> set (inorder (em_tree st))"
  shows "ewf (em_heap st p)"
  using assms by (auto simp: einv_def esorted_def ems_def)

lemma einv_sorted:
  assumes "einv st"
  shows "sorted_wrt (\<lambda>p q. elo (em_heap st p) + elen (em_heap st p) \<le> elo (em_heap st q)) (inorder (em_tree st))"
  using assms by (simp add: einv_def esorted_def ems_def sorted_wrt_map)

lemma em_test_splits:
  assumes "einv st"
  shows "\<exists>as m bs. splits_at (em_test st off) as m bs (inorder (em_tree st))"
proof (rule splits_exists)
  show "sorted_wrt (\<lambda>p q. em_test st off p \<noteq> Right \<longrightarrow> em_test st off q = Left) (inorder (em_tree st))"
    using einv_sorted [OF assms]
    by (rule sorted_wrt_mono_rel [rotated]) (auto simp: em_test_nat einv_wf [OF assms])
qed

section \<open>Searching\<close>

lemma rb_last_split:
  assumes "splits_at test as None bs (inorder t)"
  shows "(as = [] \<and> bs = [] \<and> rb_last test t pv = pv) \<or> (as \<noteq> [] \<and> rb_last test t pv = Some (last as)) \<or>
         (bs \<noteq> [] \<and> rb_last test t pv = Some (hd bs))"
  using assms
proof (induction t arbitrary: as bs pv)
  case Leaf
  then show ?case by (simp add: splits_at_def)
next
  case (Node l n r)
  show ?case
  proof (cases "test n")
    case Left
    then obtain bs1 where b: "bs = bs1 @ n # inorder r" "splits_at test as None bs1 (inorder l)"
      using splits_Left [of test as None bs "inorder l" n "inorder r"] Node.prems by auto
    show ?thesis
      using Node.IH(1) [OF b(2), of "Some n"] Left b(1) by (cases bs1) auto
  next
    case Right
    then obtain as2 where a: "as = inorder l @ n # as2" "splits_at test as2 None bs (inorder r)"
      using splits_Right [of test as None bs "inorder l" n "inorder r"] Node.prems by auto
    show ?thesis
      using Node.IH(2) [OF a(2), of "Some n"] Right a(1) by (cases as2) auto
  next
    case Here
    have "inorder l @ n # inorder r = as @ bs" using Node.prems by (simp add: splits_at_def)
    then have "n \<in> set (as @ bs)" by (metis in_set_conv_decomp)
    then show ?thesis using Node.prems Here by (auto simp: splits_at_def)
  qed
qed

lemma em_neighbours:
  assumes "rb_law R" and "einv st" and "inorder (em_tree st) = as @ bs"
  shows "as \<noteq> [] \<Longrightarrow> rb_next R (last as) (em_tree st) = (if bs = [] then None else Some (hd bs))"
    and "bs \<noteq> [] \<Longrightarrow> rb_prev R (hd bs) (em_tree st) = (if as = [] then None else Some (last as))"
proof -
  have d: "distinct (inorder (em_tree st))" using assms(2) by (simp add: einv_def)
  show "rb_next R (last as) (em_tree st) = (if bs = [] then None else Some (hd bs))" if "as \<noteq> []"
    using rb_neighbours(1) [OF assms(1) _ d, of "butlast as" "last as" bs] that assms(3) by simp
  show "rb_prev R (hd bs) (em_tree st) = (if as = [] then None else Some (last as))" if "bs \<noteq> []"
    using rb_neighbours(2) [OF assms(1) _ d, of as "hd bs" "tl bs"] that assms(3) by simp
qed

lemma em_before:
  assumes "em_test st off p = Right"
  shows "off \<ge> extent_map_end (em_heap st p)" "\<not> off < em_start (em_heap st p)"
  using assms by (auto simp: em_test_def split: if_splits)

lemma em_after:
  assumes "em_test st off p = Left" and "ewf (em_heap st p)"
  shows "off < em_start (em_heap st p)" "\<not> off \<ge> extent_map_end (em_heap st p)"
  using assms unat_em_end [OF assms(2)]
  by (auto simp: em_test_def word_less_nat_alt word_le_nat_alt split: if_splits)

lemma search_loops:
  assumes "rb_law R" and "einv st" and "splits_at (em_test st off) as None bs (inorder (em_tree st))"
  defines "last_node \<equiv> rb_last (em_test st off) (em_tree st) None"
  shows "prev_loop R st off last_node = Some (if bs = [] then None else Some (hd bs))"
    and "next_loop R st off last_node = Some (if as = [] then None else Some (last as))"
proof -
  have t: "inorder (em_tree st) = as @ bs" using assms(3) by (simp add: splits_at_def)
  note nb = em_neighbours [OF assms(1,2) t]
  have L: "as \<noteq> [] \<Longrightarrow> off \<ge> extent_map_end (em_heap st (last as)) \<and> \<not> off < em_start (em_heap st (last as))"
    using assms(3) em_before [of st off "last as"] by (simp add: splits_at_def)
  have H: "bs \<noteq> [] \<Longrightarrow> off < em_start (em_heap st (hd bs)) \<and> \<not> off \<ge> extent_map_end (em_heap st (hd bs))"
    using assms(3) em_after [of st off "hd bs"] einv_wf [OF assms(2), of "hd bs"] t
    by (simp add: splits_at_def)
  have p: "prev_loop R st off None = Some None" "next_loop R st off None = Some None"
    by (simp_all add: prev_loop.simps next_loop.simps)
  have pb: "bs \<noteq> [] \<Longrightarrow> prev_loop R st off (Some (hd bs)) = Some (Some (hd bs))"
    using H by (subst prev_loop.simps) simp
  have na: "as \<noteq> [] \<Longrightarrow> next_loop R st off (Some (last as)) = Some (Some (last as))"
    using L by (subst next_loop.simps) simp
  have pa: "as \<noteq> [] \<Longrightarrow> prev_loop R st off (Some (last as)) = Some (if bs = [] then None else Some (hd bs))"
    using L nb(1) p(1) pb by (subst prev_loop.simps) simp
  have nb': "bs \<noteq> [] \<Longrightarrow> next_loop R st off (Some (hd bs)) = Some (if as = [] then None else Some (last as))"
    using H nb(2) p(2) na by (subst next_loop.simps) simp
  show "prev_loop R st off last_node = Some (if bs = [] then None else Some (hd bs))"
    using rb_last_split [OF assms(3), of None] p pa pb unfolding last_node_def by auto
  show "next_loop R st off last_node = Some (if as = [] then None else Some (last as))"
    using rb_last_split [OF assms(3), of None] p na nb' unfolding last_node_def by auto
qed

lemma tree_search_split:
  assumes "rb_law R" and "einv st" and "splits_at (em_test st off) as m bs (inorder (em_tree st))"
  shows "tree_search R st off = Some (case m of Some n \<Rightarrow> (Some n, None, None)
           | None \<Rightarrow> (None, if bs = [] then None else Some (hd bs), if as = [] then None else Some (last as)))"
proof (cases m)
  case None
  then show ?thesis
    using rb_descend_split [OF assms(3)] search_loops [OF assms(1,2) assms(3) [unfolded None]]
    by (simp add: tree_search_def Let_def)
next
  case (Some n)
  then show ?thesis using rb_descend_split [OF assms(3)] by (simp add: tree_search_def)
qed

lemma find_append: "find P (xs @ ys) = (case find P xs of None \<Rightarrow> find P ys | Some x \<Rightarrow> Some x)"
  by (induction xs) auto

lemma find_none: "(\<And>x. x \<in> set xs \<Longrightarrow> \<not> P x) \<Longrightarrow> find P xs = None"
  by (simp add: find_None_iff)

text \<open>Looking up a range returns, with one more reference, the first extent that intersects it.\<close>

lemma lookup_find:
  assumes "rb_law R" and "einv st"
  shows "lookup_extent_mapping R s l st =
           Some (case find (em_intersects st s (range_end s l)) (inorder (em_tree st)) of
                   None \<Rightarrow> (None, st) | Some p \<Rightarrow> (Some p, em_get p st))"
proof -
  let ?P = "em_intersects st s (range_end s l)"
  obtain as m bs where sp: "splits_at (em_test st s) as m bs (inorder (em_tree st))"
    using em_test_splits [OF assms(2)] by blast
  have t: "inorder (em_tree st) = as @ (case m of None \<Rightarrow> [] | Some p \<Rightarrow> [p]) @ bs"
    using sp by (simp add: splits_at_def)
  have as: "\<not> ?P a" if "a \<in> set as" for a
    using sp that em_before(1) [of st s a] by (auto simp: splits_at_def em_intersects_def)
  have so: "sorted_wrt (\<lambda>p q. elo (em_heap st p) + elen (em_heap st p) \<le> elo (em_heap st q)) bs"
    using einv_sorted [OF assms(2)] unfolding t by (auto simp: sorted_wrt_append split: option.splits)
  have bs: "\<not> ?P b" if "b \<in> set bs" "bs \<noteq> []" "\<not> ?P (hd bs)" for b
  proof (cases "b = hd bs")
    case False
    then have "b \<in> set (tl bs)" using that(1,2) by (cases bs) auto
    then have le: "elo (em_heap st (hd bs)) \<le> elo (em_heap st b)"
      using so that(2) by (cases bs) force+
    have "em_test st s (hd bs) = Left" using sp that(2) by (simp add: splits_at_def)
    then have "s < extent_map_end (em_heap st (hd bs))"
      using em_after(2) [of st s "hd bs"] einv_wf [OF assms(2), of "hd bs"] that(2)
      by (auto simp: t)
    then have "\<not> range_end s l > em_start (em_heap st (hd bs))"
      using that(3) by (simp add: em_intersects_def)
    then show ?thesis using le by (simp add: em_intersects_def word_less_nat_alt word_le_nat_alt)
  qed (use that in simp)
  have fbs: "find ?P bs = (if bs \<noteq> [] \<and> ?P (hd bs) then Some (hd bs) else None)"
  proof (cases "bs \<noteq> [] \<and> ?P (hd bs)")
    case True
    then show ?thesis by (cases bs) auto
  next
    case False
    then show ?thesis using bs by (cases "bs = []") (auto intro!: find_none)
  qed
  have fas: "find ?P as = None" using as by (rule find_none)
  note ts = tree_search_split [OF assms sp]
  show ?thesis
  proof (cases m)
    case None
    have "as \<noteq> [] \<Longrightarrow> \<not> ?P (last as)" using as by simp
    then show ?thesis
      using ts t fas fbs None
      by (auto simp: lookup_extent_mapping_def Let_def find_append)
  next
    case (Some n)
    have "?P n" if "?P (hd bs)" "bs \<noteq> []"
    proof -
      have n: "em_test st s n = Here" using sp Some by (simp add: splits_at_def)
      have wn: "ewf (em_heap st n)" using einv_wf [OF assms(2), of n] t Some by simp
      have "elo (em_heap st n) + elen (em_heap st n) \<le> elo (em_heap st (hd bs))"
        using einv_sorted [OF assms(2)] that(2) unfolding t Some by (auto simp: sorted_wrt_append)
      then have "em_start (em_heap st n) < range_end s l"
        using that(1) wn by (auto simp: em_intersects_def word_less_nat_alt ewf_def)
      then show ?thesis
        using n by (auto simp: em_intersects_def em_test_def split: if_splits)
    qed
    then show ?thesis
      using ts t fas fbs Some
      by (auto simp: lookup_extent_mapping_def Let_def find_append)
  qed
qed

section \<open>Merging\<close>

lemma last_byte: "unat EXTENT_MAP_LAST_BYTE = 2 ^ 64 - 4"
  by (simp add: EXTENT_MAP_LAST_BYTE_def)

lemma mergable_real:
  assumes "mergable_maps a b" and "ewf a"
  shows "em_real a = em_real b"
    and "em_real a \<Longrightarrow> em_block_start b = em_block_start a + em_len a"
    and "\<not> em_real a \<Longrightarrow> em_block_start b = em_block_start a"
    and "em_flags b = em_flags a" and "em_bdev b = em_bdev a" and "em_start b = em_start a + em_len a"
proof -
  have f: "em_flags b = em_flags a" "em_bdev b = em_bdev a" "extent_map_end a = em_start b"
    "\<not> bit (em_flags a) EXTENT_FLAG_COMPRESSED"
    using assms(1) by (auto simp: mergable_maps_def split: if_splits)
  then show "em_flags b = em_flags a" "em_bdev b = em_bdev a" "em_start b = em_start a + em_len a"
    using em_end_word [OF assms(2)] by simp_all
  consider (special) "em_block_start a = em_block_start b" "\<not> em_block_start a < EXTENT_MAP_LAST_BYTE"
    | (disk) "em_block_start b < EXTENT_MAP_LAST_BYTE - 1" "em_block_start b = extent_map_block_end a"
    using assms(1)
    by (auto simp: mergable_maps_def EXTENT_MAP_HOLE_def EXTENT_MAP_INLINE_def EXTENT_MAP_DELALLOC_def
        EXTENT_MAP_LAST_BYTE_def split: if_splits)
  then have "em_real a = em_real b \<and> (em_real a \<longrightarrow> em_block_start b = em_block_start a + em_len a) \<and>
      (\<not> em_real a \<longrightarrow> em_block_start b = em_block_start a)"
  proof cases
    case special
    then show ?thesis using f by (simp add: em_real_def)
  next
    case disk
    have lt: "unat (em_block_start b) < 2 ^ 64 - 5"
      using disk(1) by (simp add: EXTENT_MAP_LAST_BYTE_def word_less_nat_alt)
    have nowrap: "\<not> em_block_start a + em_block_len a < em_block_start a"
    proof
      assume "em_block_start a + em_block_len a < em_block_start a"
      then have "em_block_start b = - 1" using disk(2) by (simp add: extent_map_block_end_def)
      then show False using disk(1) by (simp add: EXTENT_MAP_LAST_BYTE_def)
    qed
    then have b: "em_block_start b = em_block_start a + em_block_len a"
      using disk(2) by (simp add: extent_map_block_end_def)
    have "unat (em_block_start a) \<le> unat (em_block_start b)"
      using nowrap b by (simp add: word_less_nat_alt)
    then have "em_block_start a < EXTENT_MAP_LAST_BYTE" "em_block_start b < EXTENT_MAP_LAST_BYTE"
      using lt by (simp_all add: word_less_nat_alt last_byte)
    then have "em_real a" "em_real b" using f by (simp_all add: em_real_def)
    then show ?thesis using b assms(2) by (simp add: ewf_def)
  qed
  then show "em_real a = em_real b" "em_real a \<Longrightarrow> em_block_start b = em_block_start a + em_len a"
    "\<not> em_real a \<Longrightarrow> em_block_start b = em_block_start a" by blast+
qed

lemma em_join:
  assumes "mergable_maps a b" and "ewf a" and "ewf b"
    and "em_start c = em_start a" "em_len c = em_len a + em_len b" "em_block_start c = em_block_start a"
    and "em_real a \<longrightarrow> em_block_len c = em_len c" "em_flags c = em_flags a" "em_bdev c = em_bdev a"
    and "1 \<le> em_refs c"
  shows "elo b = elo a + elen a" "elen c = elen a + elen b" "ewf c" "em_graph c = em_graph a \<union> em_graph b"
proof -
  note m = mergable_real [OF assms(1,2)]
  show lo: "elo b = elo a + elen a"
    using m(6) assms(2) by (simp add: ewf_def unat_word_ariths)
  have "elen a + elen b < 2 ^ 64" using lo assms(3) by (simp add: ewf_def)
  then show len: "elen c = elen a + elen b" using assms(5) by (simp add: unat_word_ariths)
  have real: "em_real c = em_real a" using assms(6,8) by (simp add: em_real_def)
  show "ewf c" using assms(2,3,4,7,10) len lo real unfolding ewf_def by simp
  have va: "em_value c off = em_value a off" for off
    using assms(4,6,8,9) real by (simp add: em_value_def)
  have vb: "em_value c off = em_value b off" for off
    using m assms(4,6,8,9) real by (simp add: em_value_def)
  have "{elo c ..< elo c + elen c} = {elo a ..< elo a + elen a} \<union> {elo b ..< elo b + elen b}"
    using assms(4) len lo by auto
  then show "em_graph c = em_graph a \<union> em_graph b"
    unfolding em_graph_def by (auto simp: va [symmetric] vb [symmetric] image_Un)
qed

text \<open>The state seen from one node.\<close>

definition eview :: "extent_map_tree \<Rightarrow> ptr list \<Rightarrow> ptr \<Rightarrow> ptr list \<Rightarrow> bool" where
  "eview st as p bs \<longleftrightarrow> inorder (em_tree st) = as @ p # bs \<and> einv st"

lemma free_simps [simp]:
  "em_tree (free_extent_map m st) = em_tree st"
  "q \<noteq> m \<Longrightarrow> em_heap (free_extent_map m st) q = em_heap st q"
  by (simp_all add: free_extent_map_def upd_em_def Let_def)

lemma upd_em_simps [simp]:
  "em_tree (upd_em p f st) = em_tree st"
  "em_heap (upd_em p f st) q = (if q = p then f (em_heap st p) else em_heap st q)"
  by (simp_all add: upd_em_def)

lemma esorted_join:
  assumes "esorted (xs @ a # b # ys)" "ewf c" "em_in_tree c" "em_start c = em_start a"
    "elo b = elo a + elen a" "elen c = elen a + elen b"
  shows "esorted (xs @ c # ys)"
  using assms by (auto simp: esorted_def sorted_wrt_append)

lemma eview_join:
  assumes "einv st" and "ems st = xs @ a # b # ys" and "ems st' = xs @ c # ys"
    and "inorder (em_tree st') = as' @ p # bs'" and "distinct (as' @ p # bs')"
    and "set (as' @ p # bs') \<subseteq> set (inorder (em_tree st))"
    and "mergable_maps a b"
    and "em_start c = em_start a" "em_len c = em_len a + em_len b" "em_block_start c = em_block_start a"
    and "em_real a \<longrightarrow> em_block_len c = em_len c" "em_flags c = em_flags a" "em_bdev c = em_bdev a"
    and "1 \<le> em_refs c" and "em_in_tree c"
  shows "eview st' as' p bs' \<and> emap st' = emap st"
proof -
  have so: "esorted (xs @ a # b # ys)" using assms(1,2) by (simp add: einv_def)
  then have wf: "ewf a" "ewf b" by (auto simp: esorted_def)
  note j = em_join [OF assms(7) wf assms(8-14)]
  have "esorted (ems st')" unfolding assms(3)
    by (rule esorted_join [OF so j(3) assms(15,8) j(1,2)])
  moreover have "NULL \<notin> set (as' @ p # bs')" using assms(1,6) by (auto simp: einv_def)
  moreover have "emap st' = emap st" using j(4) by (auto simp: emap_def assms(2,3))
  ultimately show ?thesis using assms(4,5) by (simp add: eview_def einv_def)
qed

lemma ems_pair:
  assumes "eview st as p bs"
  shows "as = as' @ [q] \<Longrightarrow> ems st = map (em_heap st) as' @ em_heap st q # em_heap st p # map (em_heap st) bs"
    and "bs = q # bs' \<Longrightarrow> ems st = map (em_heap st) as @ em_heap st p # em_heap st q # map (em_heap st) bs'"
  using assms by (simp_all add: eview_def ems_def)

lemma merge_back_view:
  assumes "rb_law R" and "eview st as p bs"
  shows "\<exists>as'. eview (em_merge_back R p st) as' p bs \<and> emap (em_merge_back R p st) = emap st \<and>
           em_refs (em_heap (em_merge_back R p st) p) = em_refs (em_heap st p)"
proof (cases "em_start (em_heap st p) = 0 \<or> as = [] \<or> \<not> mergable_maps (em_heap st (last as)) (em_heap st p)")
  case True
  have t: "inorder (em_tree st) = as @ p # bs" and i: "einv st" using assms(2) by (simp_all add: eview_def)
  then have "rb_prev R p (em_tree st) = (if as = [] then None else Some (last as))"
    using em_neighbours(2) [OF assms(1) i t] by simp
  then have "em_merge_back R p st = st" using True by (auto simp: em_merge_back_def Let_def)
  then show ?thesis using assms(2) by auto
next
  case False
  then obtain as' q where as: "as = as' @ [q]" and m: "mergable_maps (em_heap st q) (em_heap st p)"
    and nz: "em_start (em_heap st p) \<noteq> 0"
    by (cases as rule: rev_cases) auto
  have t: "inorder (em_tree st) = as' @ q # p # bs" and i: "einv st"
    using assms(2) as by (simp_all add: eview_def)
  then have d: "distinct (as' @ q # p # bs)" by (simp add: einv_def)
  have pr: "rb_prev R p (em_tree st) = Some q"
    using em_neighbours(2) [OF assms(1) i, of "as' @ [q]" "p # bs"] t by simp
  let ?s = "em_merge_back R p st" let ?a = "em_heap st q" let ?b = "em_heap st p"
  let ?c = "?b\<lparr>em_start := em_start ?a, em_len := em_len ?b + em_len ?a,
      em_block_len := em_block_len ?b + em_block_len ?a, em_block_start := em_block_start ?a\<rparr>"
  have tree: "em_tree ?s = rb_erase R q (em_tree st)"
    using pr m nz by (simp add: em_merge_back_def Let_def)
  have heap: "em_heap ?s r = (if r = p then ?c else em_heap st r)" if "r \<noteq> q" for r
    using pr m nz that by (simp add: em_merge_back_def Let_def)
  have t': "inorder (em_tree ?s) = as' @ p # bs"
    using rb_erase_inorder [OF assms(1), of "em_tree st" as' q "p # bs"] t d tree by simp
  have z: "ems ?s = map (em_heap st) as' @ ?c # map (em_heap st) bs"
    using d unfolding ems_def t' by (simp add: heap, intro conjI ballI, (subst heap; auto)+)
  have wf: "ewf ?a" "ewf ?b" "em_in_tree ?b"
    using i t by (auto simp: einv_def esorted_def ems_def)
  have "em_real ?a \<longrightarrow> em_block_len ?c = em_len ?c"
    using mergable_real(1) [OF m wf(1)] wf by (simp add: ewf_def)
  then show ?thesis
    using eview_join [OF i ems_pair(1) [OF assms(2) as] z t' _ _ m] d t wf mergable_real [OF m wf(1)] heap [of p]
    by (auto simp: ewf_def add.commute)
qed

lemma merge_forward_view:
  assumes "rb_law R" and "eview st as p bs"
  shows "\<exists>bs'. eview (em_merge_forward R p st) as p bs' \<and> emap (em_merge_forward R p st) = emap st \<and>
           em_refs (em_heap (em_merge_forward R p st) p) = em_refs (em_heap st p)"
proof (cases "bs = [] \<or> \<not> mergable_maps (em_heap st p) (em_heap st (hd bs))")
  case True
  have t: "inorder (em_tree st) = (as @ [p]) @ bs" and i: "einv st" using assms(2) by (simp_all add: eview_def)
  then have "rb_next R p (em_tree st) = (if bs = [] then None else Some (hd bs))"
    using em_neighbours(1) [OF assms(1) i t] by simp
  then have "em_merge_forward R p st = st" using True by (auto simp: em_merge_forward_def Let_def)
  then show ?thesis using assms(2) by auto
next
  case False
  then obtain q bs' where bs: "bs = q # bs'" and m: "mergable_maps (em_heap st p) (em_heap st q)"
    by (cases bs) auto
  have t: "inorder (em_tree st) = as @ p # q # bs'" and i: "einv st"
    using assms(2) bs by (simp_all add: eview_def)
  then have d: "distinct (as @ p # q # bs')" by (simp add: einv_def)
  have nx: "rb_next R p (em_tree st) = Some q"
    using em_neighbours(1) [OF assms(1) i, of "as @ [p]" "q # bs'"] t by simp
  let ?s = "em_merge_forward R p st" let ?a = "em_heap st p" let ?b = "em_heap st q"
  let ?c = "?a\<lparr>em_len := em_len ?a + em_len ?b, em_block_len := em_block_len ?a + em_len ?b\<rparr>"
  have tree: "em_tree ?s = rb_erase R q (em_tree st)"
    using nx m by (simp add: em_merge_forward_def Let_def)
  have heap: "em_heap ?s r = (if r = p then ?c else em_heap st r)" if "r \<noteq> q" for r
    using nx m that by (simp add: em_merge_forward_def Let_def)
  have t': "inorder (em_tree ?s) = as @ p # bs'"
    using rb_erase_inorder [OF assms(1), of "em_tree st" "as @ [p]" q bs'] t d tree by simp
  have z: "ems ?s = map (em_heap st) as @ ?c # map (em_heap st) bs'"
    using d unfolding ems_def t' by (simp add: heap, intro conjI ballI, (subst heap; auto)+)
  have wf: "ewf ?a" "ewf ?b" "em_in_tree ?a"
    using i t by (auto simp: einv_def esorted_def ems_def)
  show ?thesis
    using eview_join [OF i ems_pair(2) [OF assms(2) bs] z t' _ _ m] d t wf heap [of p]
    by (auto simp: ewf_def)
qed

lemma merge_both_view:
  assumes "rb_law R" and "eview st as p bs"
  defines "st' \<equiv> em_merge_forward R p (em_merge_back R p st)"
  shows "\<exists>as' bs'. eview st' as' p bs' \<and> emap st' = emap st \<and> em_refs (em_heap st' p) = em_refs (em_heap st p)"
proof -
  obtain as' where l: "eview (em_merge_back R p st) as' p bs" "emap (em_merge_back R p st) = emap st"
      "em_refs (em_heap (em_merge_back R p st) p) = em_refs (em_heap st p)"
    using merge_back_view [OF assms(1,2)] by blast
  then show ?thesis unfolding st'_def using merge_forward_view [OF assms(1) l(1)] by auto
qed

section \<open>Adding an extent\<close>

lemma get_free_id:
  assumes "p \<noteq> NULL" and "1 \<le> em_refs (em_heap st p)"
  shows "free_extent_map p (em_get p st) = st"
  using assms by (simp add: free_extent_map_def em_get_def upd_em_def Let_def)

lemma graph_dom: "fst ` em_graph e = {elo e ..< elo e + elen e}"
  by (force simp: em_graph_def)

lemma emap_dom: "fst ` emap st = (\<Union>e \<in> set (ems st). {elo e ..< elo e + elen e})"
  by (simp add: emap_def image_UN graph_dom)

lemma ivl_meet:
  fixes a b c d :: nat
  assumes "0 < b" "0 < d"
  shows "{a ..< a + b} \<inter> {c ..< c + d} \<noteq> {} \<longleftrightarrow> c < a + b \<and> a < c + d"
  using assms by (auto simp: disjoint_iff intro: exI [of _ "max a c"])

lemma range_end_map: "range_end (em_start e) (em_len e) = extent_map_end e"
  by (simp add: range_end_def extent_map_end_def)

lemma intersects_iff:
  assumes "einv st" and "q \<in> set (inorder (em_tree st))" and "ewf e"
  shows "em_intersects st (em_start e) (range_end (em_start e) (em_len e)) q \<longleftrightarrow>
         {elo e ..< elo e + elen e} \<inter> {elo (em_heap st q) ..< elo (em_heap st q) + elen (em_heap st q)} \<noteq> {}"
proof -
  have wq: "ewf (em_heap st q)" by (rule einv_wf [OF assms(1,2)])
  have "0 < elen e" "0 < elen (em_heap st q)" using wq assms(3) unfolding ewf_def by blast+
  then show ?thesis
    using unat_em_end [OF assms(3)] unat_em_end [OF wq]
    unfolding em_intersects_def range_end_map word_less_nat_alt ivl_meet by simp
qed

lemma lookup_hit_iff:
  assumes "einv st" and "ewf e"
  shows "find (em_intersects st (em_start e) (range_end (em_start e) (em_len e))) (inorder (em_tree st)) \<noteq> None
         \<longleftrightarrow> fst ` emap st \<inter> fst ` em_graph e \<noteq> {}"
proof -
  have "fst ` emap st \<inter> fst ` em_graph e \<noteq> {} \<longleftrightarrow>
        (\<exists>q \<in> set (inorder (em_tree st)). {elo e ..< elo e + elen e} \<inter>
           {elo (em_heap st q) ..< elo (em_heap st q) + elen (em_heap st q)} \<noteq> {})"
    unfolding emap_dom graph_dom ems_def set_map by blast
  also have "\<dots> \<longleftrightarrow> (\<exists>q \<in> set (inorder (em_tree st)).
      em_intersects st (em_start e) (range_end (em_start e) (em_len e)) q)"
    by (rule bex_cong [OF refl], rule intersects_iff [OF assms(1) _ assms(2), symmetric])
  also have "\<dots> \<longleftrightarrow> find (em_intersects st (em_start e) (range_end (em_start e) (em_len e))) (inorder (em_tree st)) \<noteq> None"
    unfolding find_None_iff by blast
  finally show ?thesis by (rule sym)
qed

lemma em_graph_cong:
  assumes "em_start a = em_start b" "em_len a = em_len b" "em_block_start a = em_block_start b"
    "em_flags a = em_flags b" "em_bdev a = em_bdev b"
  shows "em_graph a = em_graph b"
  using assms by (simp add: em_graph_def em_value_def em_real_def cong: if_cong)

lemma esorted_insert:
  assumes "ewf e" and "esorted (xs @ ys)" and "em_in_tree e"
    and "\<forall>x \<in> set xs. elo x + elen x \<le> elo e" and "\<forall>y \<in> set ys. elo e + elen e \<le> elo y"
  shows "esorted (xs @ e # ys)"
  using assms by (auto simp: esorted_def sorted_wrt_append)

lemma insert_view:
  assumes "rb_law R" and "einv st" and "ewf (em_heap st p)" and "p \<noteq> NULL" and "p \<notin> set (inorder (em_tree st))"
    and "fst ` emap st \<inter> fst ` em_graph (em_heap st p) = {}"
  obtains as bs st1 where "tree_insert R (em_start (em_heap st p)) p st = (None, st1)"
    and "eview (em_get p st1) as p bs" and "emap (em_get p st1) = emap st \<union> em_graph (em_heap st p)"
proof -
  let ?e = "em_heap st p" let ?s = "em_start ?e"
  let ?e' = "?e\<lparr>em_in_tree := True, em_refs := em_refs ?e + 1\<rparr>"
  obtain as m bs where sp: "splits_at (em_test st ?s) as m bs (inorder (em_tree st))"
    using em_test_splits [OF assms(2)] by blast
  have pos: "0 < elen ?e" using assms(3) by (simp add: ewf_def)
  have apart: "{elo (em_heap st q) ..< elo (em_heap st q) + elen (em_heap st q)} \<inter> {elo ?e ..< elo ?e + elen ?e} = {}"
    if "q \<in> set (inorder (em_tree st))" for q
  proof -
    have "{elo (em_heap st q) ..< elo (em_heap st q) + elen (em_heap st q)} \<subseteq> fst ` emap st"
      using that unfolding emap_dom ems_def set_map by blast
    then show ?thesis using assms(6) unfolding graph_dom by blast
  qed
  note test = em_test_nat [OF einv_wf [OF assms(2)], of _ ?s]
  have m: "m = None"
  proof (rule ccontr)
    assume "m \<noteq> None"
    then obtain q where q: "q \<in> set (inorder (em_tree st))" "em_test st ?s q = Here"
      using sp by (auto simp: splits_at_def)
    then have "elo ?e \<in> {elo (em_heap st q) ..< elo (em_heap st q) + elen (em_heap st q)}"
      using test [OF q(1)] by (auto split: if_splits)
    then show False using apart [OF q(1)] pos by auto
  qed
  note sp = sp [unfolded m]
  have t: "inorder (em_tree st) = as @ bs" using sp by (simp add: splits_at_def)
  define st1 where "st1 = (upd_em p (\<lambda>e. e\<lparr>em_in_tree := True\<rparr>) st)
      \<lparr>em_tree := rb_insert_color R (rb_link (em_test st ?s) p (em_tree st))\<rparr>"
  have ins: "tree_insert R ?s p st = (None, st1)"
    using rb_descend_split [OF sp] by (simp add: tree_insert_def st1_def)
  let ?g = "em_get p st1"
  have t1: "inorder (em_tree ?g) = as @ p # bs"
    using rb_link_split [OF sp, of p] rb_insert_inorder [OF assms(1)] by (simp add: st1_def em_get_def)
  have heap: "em_heap ?g q = (if q = p then ?e' else em_heap st q)" for q
    by (simp add: st1_def em_get_def upd_em_def)
  have z1: "ems ?g = map (em_heap st) as @ ?e' # map (em_heap st) bs"
    using assms(5) unfolding ems_def t1 t by (auto simp: heap)
  have z: "ems st = map (em_heap st) as @ map (em_heap st) bs" using t by (simp add: ems_def)
  have before: "elo (em_heap st a) + elen (em_heap st a) \<le> elo ?e" if "a \<in> set as" for a
    using sp that test [of a] t by (auto simp: splits_at_def split: if_splits)
  have after: "elo ?e + elen ?e \<le> elo (em_heap st b)" if "b \<in> set bs" for b
  proof -
    have "em_test st ?s b = Left" using sp that by (simp add: splits_at_def)
    then have "elo ?e < elo (em_heap st b)" using test [of b] t that by (auto split: if_splits)
    moreover have "0 < elen (em_heap st b)"
      using einv_wf [OF assms(2), of b] t that by (simp add: ewf_def)
    ultimately show ?thesis
      using apart [of b] ivl_meet [OF _ pos, of "elen (em_heap st b)" "elo (em_heap st b)" "elo ?e"] t that by auto
  qed
  have "ewf ?e'" using assms(3) by (simp add: ewf_def em_real_def)
  then have "esorted (ems ?g)"
    unfolding z1 by (rule esorted_insert) (use assms(2) before after z in \<open>auto simp: einv_def\<close>)
  then have v: "eview ?g as p bs"
    using assms(2,4,5) t t1 by (simp add: eview_def einv_def)
  have "em_graph ?e' = em_graph ?e" by (rule em_graph_cong) simp_all
  then have "emap ?g = emap st \<union> em_graph ?e" unfolding emap_def z z1 by auto
  then show thesis using that [OF ins v] by blast
qed

text \<open>Two extents that follow each other in the file and on disk.\<close>

definition ex_extent :: "u64 \<Rightarrow> u64 \<Rightarrow> bool \<Rightarrow> extent_map" where
  "ex_extent s b t = \<lparr>em_start = s, em_len = 4096, em_orig_start = s, em_block_start = b, em_block_len = 4096,
     em_flags = 0, em_bdev = 1, em_refs = 1, em_in_tree = t, em_compress_type = 0\<rparr>"

definition ex_extents :: extent_map_tree where
  "ex_extents = \<lparr>em_tree = \<langle>\<langle>\<rangle>, 8, \<langle>\<rangle>\<rangle>,
     em_heap = (\<lambda>p. if p = 8 then ex_extent 0 8192 True else ex_extent 4096 12288 False), em_freed = []\<rparr>"

text \<open>C32. What the btrfs extent map tree promises.  Against the function from file offsets to disk
  addresses that the tree stands for: adding an extent that meets a mapped offset is refused with
  \<open>-EEXIST\<close> and leaves everything, reference counts included, as it was; adding any other extent
  succeeds, keeps the extents sorted and disjoint, and adds exactly the offsets of the new extent
  with their disk addresses, whatever merging with the neighbours takes place.\<close>

theorem add_extent_refines:
  assumes "rb_law R" and "einv st" and "ewf (em_heap st p)" and "p \<noteq> NULL" and "p \<notin> set (inorder (em_tree st))"
  shows "if fst ` emap st \<inter> fst ` em_graph (em_heap st p) \<noteq> {}
         then add_extent_mapping R p st = Some (- EEXIST, st)
         else \<exists>st'. add_extent_mapping R p st = Some (0, st') \<and> einv st' \<and>
                emap st' = emap st \<union> em_graph (em_heap st p)"
proof (cases "fst ` emap st \<inter> fst ` em_graph (em_heap st p) = {}")
  case False
  let ?P = "em_intersects st (em_start (em_heap st p)) (range_end (em_start (em_heap st p)) (em_len (em_heap st p)))"
  obtain q where q: "find ?P (inorder (em_tree st)) = Some q"
    using False lookup_hit_iff [OF assms(2,3)] by auto
  then have "q \<in> set (inorder (em_tree st))" by (metis find_Some_iff nth_mem)
  then have "q \<noteq> NULL" "1 \<le> em_refs (em_heap st q)"
    using assms(2) einv_wf [OF assms(2)] by (auto simp: einv_def ewf_def)
  then show ?thesis
    using False q lookup_find [OF assms(1,2)] get_free_id by (simp add: add_extent_mapping_def)
next
  case True
  then have "lookup_extent_mapping R (em_start (em_heap st p)) (em_len (em_heap st p)) st = Some (None, st)"
    using lookup_find [OF assms(1,2)] lookup_hit_iff [OF assms(2,3)] by simp
  moreover obtain as bs st1 where "tree_insert R (em_start (em_heap st p)) p st = (None, st1)"
    and v: "eview (em_get p st1) as p bs" "emap (em_get p st1) = emap st \<union> em_graph (em_heap st p)"
    by (rule insert_view [OF assms True])
  ultimately show ?thesis
    using True merge_both_view [OF assms(1) v(1)] v(2)
    by (auto simp: add_extent_mapping_def eview_def)
qed

theorem add_extent_refines_witness:
  "rb_law plain_rb \<and> einv ex_extents \<and> fst ` emap ex_extents = {0 ..< 4096} \<and>
   (\<exists>st'. add_extent_mapping plain_rb 16 ex_extents = Some (0, st') \<and> einv st' \<and>
      emap st' = emap ex_extents \<union> em_graph (ex_extent 4096 12288 False))"
proof -
  have wf: "ewf (ex_extent s b t)" if "s \<in> {0, 4096}" for s b t
    using that by (auto simp: ewf_def ex_extent_def)
  have h: "em_heap ex_extents 16 = ex_extent 4096 12288 False" "ems ex_extents = [ex_extent 0 8192 True]"
    "inorder (em_tree ex_extents) = [8]"
    by (simp_all add: ex_extents_def ems_def)
  have inv: "einv ex_extents" using wf by (simp add: einv_def esorted_def h) (simp add: ex_extent_def)
  have d: "fst ` emap ex_extents = {0 ..< 4096}" "fst ` em_graph (ex_extent 4096 12288 False) = {4096 ..< 8192}"
    unfolding emap_dom graph_dom h by (simp_all add: ex_extent_def)
  show ?thesis
    using add_extent_refines [OF plain_rb_law inv, of 16] plain_rb_law inv wf d by (simp add: h)
qed

section \<open>Unpinning and removing\<close>

lemma eview_upd:
  assumes "eview st as p bs" and "em_start (f (em_heap st p)) = em_start (em_heap st p)"
    and "em_len (f (em_heap st p)) = em_len (em_heap st p)" and "ewf (f (em_heap st p))"
    and "em_in_tree (f (em_heap st p))"
  shows "eview (upd_em p f st) as p bs \<and> fst ` emap (upd_em p f st) = fst ` emap st"
proof -
  let ?s = "upd_em p f st"
  have t: "inorder (em_tree st) = as @ p # bs" and i: "einv st" using assms(1) by (simp_all add: eview_def)
  have d: "p \<notin> set as" "p \<notin> set bs" using i t by (auto simp: einv_def)
  have z: "ems st = map (em_heap st) as @ em_heap st p # map (em_heap st) bs" using t by (simp add: ems_def)
  have z': "ems ?s = map (em_heap st) as @ f (em_heap st p) # map (em_heap st) bs"
    using d by (auto simp: ems_def t)
  have "esorted (ems ?s)" using i assms(2-5) unfolding z' by (auto simp: einv_def esorted_def sorted_wrt_append z)
  moreover have "fst ` emap ?s = fst ` emap st" unfolding emap_dom z z' using assms(2,3) by simp
  ultimately show ?thesis using i t by (simp add: eview_def einv_def)
qed

text \<open>Unpinning keeps the extents sorted and disjoint, and the offsets that are mapped.\<close>

lemma unpin_keeps:
  assumes "rb_law R" and "einv st"
  shows "\<exists>st'. unpin_extent_cache R s l st = Some (0, st') \<and> einv st' \<and> fst ` emap st' = fst ` emap st"
proof (cases "find (em_intersects st s (range_end s l)) (inorder (em_tree st))")
  case None
  then show ?thesis using assms(2) lookup_find [OF assms] by (simp add: unpin_extent_cache_def)
next
  case (Some q)
  then have "q \<in> set (inorder (em_tree st))" by (metis find_Some_iff nth_mem)
  then obtain as bs where "inorder (em_tree st) = as @ q # bs" by (meson split_list)
  then have v: "eview st as q bs" using assms(2) by (simp add: eview_def)
  have wf: "ewf (em_heap st q)" "em_in_tree (em_heap st q)"
    using v by (auto simp: eview_def einv_def esorted_def ems_def)
  let ?f = "\<lambda>e. e\<lparr>em_refs := em_refs e + 1, em_flags := unset_bit EXTENT_FLAG_PINNED (em_flags e)\<rparr>"
  have s: "upd_em q (\<lambda>e. e\<lparr>em_flags := unset_bit EXTENT_FLAG_PINNED (em_flags e)\<rparr>) (em_get q st) = upd_em q ?f st"
    by (simp add: em_get_def upd_em_def)
  have "em_real (?f (em_heap st q)) = em_real (em_heap st q)"
    by (simp add: em_real_def EXTENT_FLAG_PINNED_def EXTENT_FLAG_COMPRESSED_def bit_unset_bit_iff)
  then have "ewf (?f (em_heap st q))" using wf by (simp add: ewf_def)
  then have v1: "eview (upd_em q ?f st) as q bs" and d1: "fst ` emap (upd_em q ?f st) = fst ` emap st"
    using eview_upd [OF v, of ?f] wf by simp_all
  let ?m = "em_merge_forward R q (em_merge_back R q (upd_em q ?f st))"
  obtain as' bs' where v2: "eview ?m as' q bs'" and d2: "emap ?m = emap (upd_em q ?f st)"
    and "em_refs (em_heap ?m q) = em_refs (em_heap (upd_em q ?f st) q)"
    using merge_both_view [OF assms(1) v1] by blast
  then have r: "2 \<le> em_refs (em_heap ?m q)" using wf by (simp add: ewf_def)
  let ?g = "\<lambda>e. e\<lparr>em_refs := em_refs e - 1\<rparr>"
  have "q \<noteq> NULL" using v by (auto simp: eview_def einv_def)
  then have free: "free_extent_map q ?m = upd_em q ?g ?m"
    using r by (simp add: free_extent_map_def Let_def)
  have "ewf (em_heap ?m q)" "em_in_tree (em_heap ?m q)"
    using v2 by (auto simp: eview_def einv_def esorted_def ems_def)
  then have "eview (upd_em q ?g ?m) as' q bs'" "fst ` emap (upd_em q ?g ?m) = fst ` emap ?m"
    using eview_upd [OF v2, of ?g] r by (simp_all add: ewf_def em_real_def)
  then show ?thesis
    using Some lookup_find [OF assms] s free d1 d2 by (simp add: unpin_extent_cache_def eview_def)
qed

text \<open>Removing an extent removes its offsets and no others.\<close>

lemma remove_refines:
  assumes "rb_law R" and "eview st as p bs"
  shows "\<exists>st'. remove_extent_mapping R p st = (0, st') \<and> einv st' \<and>
           emap st' = emap st - em_graph (em_heap st p)"
proof -
  let ?s = "snd (remove_extent_mapping R p st)"
  have t: "inorder (em_tree st) = as @ p # bs" and i: "einv st" using assms(2) by (simp_all add: eview_def)
  then have d: "distinct (as @ p # bs)" by (simp add: einv_def)
  have t': "inorder (em_tree ?s) = as @ bs"
    using rb_erase_inorder [OF assms(1) t] t d by (simp add: remove_extent_mapping_def)
  have z: "ems st = map (em_heap st) as @ em_heap st p # map (em_heap st) bs" using t by (simp add: ems_def)
  have z': "ems ?s = map (em_heap st) as @ map (em_heap st) bs"
    using d unfolding ems_def t' by (auto simp: remove_extent_mapping_def)
  have so: "esorted (ems st)" using i by (simp add: einv_def)
  then have "esorted (ems ?s)" unfolding z z' by (auto simp: esorted_def sorted_wrt_append)
  then have "einv ?s" using i t t' by (simp add: einv_def)
  moreover have "em_graph (em_heap st q) \<inter> em_graph (em_heap st p) = {}" if "q \<in> set as \<union> set bs" for q
  proof -
    have "elo (em_heap st q) + elen (em_heap st q) \<le> elo (em_heap st p) \<or>
          elo (em_heap st p) + elen (em_heap st p) \<le> elo (em_heap st q)"
      using so that unfolding z by (auto simp: esorted_def sorted_wrt_append)
    then show ?thesis by (auto simp: em_graph_def)
  qed
  then have "emap ?s = emap st - em_graph (em_heap st p)" unfolding emap_def z z' by auto
  ultimately show ?thesis by (simp add: remove_extent_mapping_def)
qed

end
