(* ===== verification/Trace_Analyser.thy ===== *)
theory Trace_Analyser
  imports Prelude
begin

text \<open>
  The trace analyser, \<^verbatim>\<open>trace/analyser.cpp\<close>: it reads a trace of writes, counts the random ones and
  merges the writes of each inode into disjoint ranges.  The ordered set of an inode is the list of
  its entries in the order of the set; offsets are integers (the overflow of \<open>long long\<close> is undefined in
  the source), and reading past the vector is a fault.  The lemmas show that the merged space is
  exactly the number of bytes written more than once.
\<close>

section \<open>Definitions\<close>

record trace_entry =
  tr_ino :: u64
  tr_begin :: int
  tr_end :: int

definition entry_less :: "trace_entry \<Rightarrow> trace_entry \<Rightarrow> bool" where
  "entry_less a b \<longleftrightarrow> tr_ino a < tr_ino b \<or> (tr_ino a = tr_ino b \<and> tr_begin a < tr_begin b)"

text \<open>The fields of the scanned lines: inode, offset and length.\<close>

fun read_trace :: "(u64 \<times> int \<times> int) list \<Rightarrow> trace_entry list \<Rightarrow> int \<Rightarrow> trace_entry list \<times> int" where
  "read_trace [] trace space = (trace, space)"
| "read_trace ((ino, b, len) # ls) trace space =
     read_trace ls (trace @ [\<lparr>tr_ino = ino, tr_begin = b, tr_end = b + len\<rparr>]) (space + len)"

definition is_random :: "trace_entry \<Rightarrow> trace_entry \<Rightarrow> bool" where
  "is_random pre cur \<longleftrightarrow> tr_ino cur \<noteq> tr_ino pre \<or> tr_begin cur > tr_end pre \<or> tr_end cur < tr_begin pre"

text \<open>The loop over the adjacent entries, from index \<open>i\<close>, while \<open>i <= cnt\<close>.\<close>

function count_random :: "trace_entry list \<Rightarrow> nat \<Rightarrow> nat \<Rightarrow> fault + nat" where
  "count_random trace i rand_cnt =
     (if i \<le> length trace then
        if i < length trace
        then count_random trace (i + 1)
               (if is_random (trace ! (i - 1)) (trace ! i) then rand_cnt + 1 else rand_cnt)
        else Inl BAD_POINTER
      else Inr rand_cnt)"
  by auto
termination
  by (relation "measure (\<lambda>(trace, i, _). length trace + 1 - i)") auto

text \<open>The inner loop: \<open>cur\<close> against the retained entries that begin after it.\<close>

function absorb :: "trace_entry \<Rightarrow> trace_entry list \<Rightarrow> nat \<Rightarrow> int \<Rightarrow> trace_entry \<times> trace_entry list \<times> nat \<times> int" where
  "absorb cur [] mc ov = (cur, [], mc, ov)"
| "absorb cur (n # ns) mc ov =
     (if tr_end n \<le> tr_end cur then absorb cur ns (mc + 1) (ov + (tr_end n - tr_begin n))
      else if tr_begin n < tr_end cur
      then absorb (cur\<lparr>tr_end := tr_begin n\<rparr>) (n # ns) mc (ov + (tr_end cur - tr_begin n))
      else (cur, n # ns, mc, ov))"
  by pat_completeness auto
termination
  by (relation "measures [\<lambda>(cur, ns, _). length ns, \<lambda>(cur, ns, _). if ns \<noteq> [] \<and> tr_begin (hd ns) < tr_end cur then 1 else 0]")
     auto

text \<open>Adding to an ordered set keeps an element with an equal key.\<close>

definition set_insert :: "trace_entry \<Rightarrow> trace_entry list \<Rightarrow> trace_entry list" where
  "set_insert e es =
     (if \<exists>x \<in> set es. \<not> entry_less x e \<and> \<not> entry_less e x then es
      else takeWhile (\<lambda>x. entry_less x e) es @ e # dropWhile (\<lambda>x. entry_less x e) es)"

text \<open>One entry of the trace against the set of its inode.\<close>

definition merge_entry :: "trace_entry \<Rightarrow> trace_entry list \<Rightarrow> nat \<Rightarrow> int \<Rightarrow> trace_entry list \<times> nat \<times> int" where
  "merge_entry icur es0 mc0 ov0 =
     (let before = takeWhile (\<lambda>x. \<not> entry_less icur x) es0;
          after = dropWhile (\<lambda>x. \<not> entry_less icur x) es0;
          (cur, rest, mc, ov) = absorb icur after mc0 ov0;
          put = (\<lambda>c es mc ov. (if tr_begin c \<noteq> tr_end c then set_insert c es else es, mc, ov))
      in if before \<noteq> [] \<and> tr_end (last before) > tr_begin cur then
           let iprev = last before
           in if tr_begin iprev = tr_begin cur then
                if tr_end iprev \<le> tr_end cur
                then put cur (butlast before @ rest) (mc + 1) (ov + (tr_end iprev - tr_begin iprev))
                else (before @ rest, mc + 1, ov + (tr_end cur - tr_begin cur))
              else if tr_end iprev < tr_end cur
              then put (cur\<lparr>tr_begin := tr_end iprev\<rparr>) (before @ rest) mc (ov + (tr_end iprev - tr_begin cur))
              else (before @ rest, mc + 1, ov + (tr_end cur - tr_begin cur))
         else put cur (before @ rest) mc ov)"

type_synonym retained = "u64 \<rightharpoonup> trace_entry list"

fun merge_trace :: "trace_entry list \<Rightarrow> retained \<Rightarrow> nat \<Rightarrow> int \<Rightarrow> retained \<times> nat \<times> int" where
  "merge_trace [] merged mc ov = (merged, mc, ov)"
| "merge_trace (e # es) merged mc ov =
     (case merged (tr_ino e) of
        None \<Rightarrow> merge_trace es (merged(tr_ino e \<mapsto> [e])) mc ov
      | Some es0 \<Rightarrow>
          let (es1, mc', ov') = merge_entry e es0 mc ov
          in merge_trace es (merged(tr_ino e \<mapsto> es1)) mc' ov')"

text \<open>What is printed: number, space, random writes, merged number, merged space.\<close>

definition analyser_main :: "(u64 \<times> int \<times> int) list \<Rightarrow> fault + int \<times> (nat \<times> int \<times> nat \<times> nat \<times> int) option" where
  "analyser_main ls =
     (let (trace, space) = read_trace ls [] 0; cnt = length trace
      in if cnt < 2 then Inr (- 2, None)
         else case count_random trace 1 0 of
                Inl f \<Rightarrow> Inl f
              | Inr rand_cnt \<Rightarrow>
                  let (merged, mc, ov) = merge_trace trace Map.empty 0 0
                  in Inr (0, Some (cnt, space, rand_cnt, mc, ov)))"

section \<open>Random writes\<close>

text \<open>The loop reads one entry past the end of every trace.\<close>

lemma count_random_faults: "i \<le> length trace \<Longrightarrow> count_random trace i r = Inl BAD_POINTER"
proof (induction "length trace - i" arbitrary: i r)
  case 0
  then show ?case by (subst count_random.simps) simp
next
  case (Suc k)
  then show ?case by (subst count_random.simps) simp
qed

section \<open>Merging\<close>

definition tlen :: "trace_entry \<Rightarrow> int" where "tlen e = tr_end e - tr_begin e"
definition tspan :: "trace_entry \<Rightarrow> int set" where "tspan e = {tr_begin e ..< tr_end e}"
definition tspans :: "trace_entry list \<Rightarrow> int set" where "tspans es = (\<Union>e \<in> set es. tspan e)"
definition tsum :: "trace_entry list \<Rightarrow> int" where "tsum es = sum_list (map tlen es)"

definition disjoint_runs :: "u64 \<Rightarrow> trace_entry list \<Rightarrow> bool" where
  "disjoint_runs i es \<longleftrightarrow> (\<forall>e \<in> set es. tr_ino e = i \<and> tr_begin e < tr_end e) \<and>
     sorted_wrt (\<lambda>a b. tr_end a \<le> tr_begin b) es"

lemma tspans_simps [simp]:
  "tspans [] = {}" "tspans (e # es) = tspan e \<union> tspans es" "tspans (es @ fs) = tspans es \<union> tspans fs"
  by (simp_all add: tspans_def)

lemma tsum_simps [simp]:
  "tsum [] = 0" "tsum (e # es) = tlen e + tsum es" "tsum (es @ fs) = tsum es + tsum fs"
  by (simp_all add: tsum_def)

lemma tspan_card: "tr_begin e \<le> tr_end e \<Longrightarrow> int (card (tspan e)) = tlen e"
  by (simp add: tspan_def tlen_def)

lemma runs_card:
  assumes "disjoint_runs i es"
  shows "finite (tspans es)" and "int (card (tspans es)) = tsum es"
proof -
  show "finite (tspans es)" by (simp add: tspans_def tspan_def)
  show "int (card (tspans es)) = tsum es" using assms
  proof (induction es)
    case (Cons e es)
    then have "tspan e \<inter> tspans es = {}" by (fastforce simp: disjoint_runs_def tspans_def tspan_def)
    moreover have "finite (tspan e)" "finite (tspans es)" by (simp_all add: tspan_def tspans_def)
    ultimately have "int (card (tspans (e # es))) = int (card (tspan e)) + int (card (tspans es))"
      by (simp add: card_Un_disjoint)
    then show ?case using Cons by (simp add: disjoint_runs_def tspan_card)
  qed simp
qed

text \<open>The inner loop: \<open>cur\<close> shrinks to end where the rest begins, and the overlap is what was lost.\<close>

lemma absorb_runs:
  assumes "absorb cur ns mc ov = (c, rest, mc', ov')" and "disjoint_runs i ns" and "tr_begin cur < tr_end cur"
    and "\<forall>n \<in> set ns. tr_begin cur < tr_begin n"
  shows "tr_ino c = tr_ino cur \<and> tr_begin c = tr_begin cur \<and> tr_begin c < tr_end c \<and>
         disjoint_runs i rest \<and> (\<forall>n \<in> set rest. tr_end c \<le> tr_begin n) \<and> set rest \<subseteq> set ns \<and>
         tspan c \<union> tspans rest = tspan cur \<union> tspans ns \<and>
         tlen c + tsum rest + ov' = tlen cur + tsum ns + ov \<and>
         length rest + mc' = length ns + mc"
  using assms
proof (induction cur ns mc ov rule: absorb.induct)
  case (1 cur mc ov)
  then show ?case by simp
next
  case (2 cur n ns mc ov)
  have n: "disjoint_runs i ns" "tr_begin cur < tr_begin n" "tr_begin n < tr_end n"
    "\<forall>m \<in> set ns. tr_end n \<le> tr_begin m"
    using 2(4,6) by (auto simp: disjoint_runs_def)
  consider (drop) "tr_end n \<le> tr_end cur" | (cut) "\<not> tr_end n \<le> tr_end cur" "tr_begin n < tr_end cur"
    | (stop) "\<not> tr_end n \<le> tr_end cur" "\<not> tr_begin n < tr_end cur" by blast
  then show ?case
  proof cases
    case drop
    have sp: "tspan n \<subseteq> tspan cur" using drop n by (auto simp: tspan_def)
    show ?thesis
      using 2(1) [OF drop _ n(1) 2(5)] 2(3,6) drop sp by (auto simp: tlen_def)
  next
    case cut
    let ?c = "cur\<lparr>tr_end := tr_begin n\<rparr>"
    have sp: "tspan ?c \<union> tspan n = tspan cur \<union> tspan n" using cut n by (auto simp: tspan_def)
    have "tr_begin ?c < tr_end ?c" "\<forall>m \<in> set (n # ns). tr_begin ?c < tr_begin m" using n 2(6) by simp_all
    then show ?thesis
      using 2(2) [OF cut _ 2(4)] 2(3) cut sp by (auto simp: tlen_def)
  next
    case stop
    then show ?thesis using 2(3-6) n by force
  qed
qed

lemma set_insert_between:
  assumes "\<forall>x \<in> set xs. entry_less x c" and "\<forall>y \<in> set ys. entry_less c y"
  shows "set_insert c (xs @ ys) = xs @ c # ys"
proof -
  have asym: "entry_less c y \<Longrightarrow> \<not> entry_less y c" for y by (auto simp: entry_less_def)
  have no: "\<not> (\<exists>x \<in> set (xs @ ys). \<not> entry_less x c \<and> \<not> entry_less c x)" using assms by auto
  have "takeWhile (\<lambda>x. entry_less x c) (xs @ ys) = xs" "dropWhile (\<lambda>x. entry_less x c) (xs @ ys) = ys"
    using assms asym by (auto simp: takeWhile_append2 dropWhile_append2 takeWhile_eq_Nil_iff dropWhile_eq_self_iff)
  then show ?thesis using no unfolding set_insert_def by presburger
qed

lemma runs_append:
  "disjoint_runs i (xs @ ys) \<longleftrightarrow> disjoint_runs i xs \<and> disjoint_runs i ys \<and>
     (\<forall>x \<in> set xs. \<forall>y \<in> set ys. tr_end x \<le> tr_begin y)"
  by (auto simp: disjoint_runs_def sorted_wrt_append)

lemma runs_Cons:
  "disjoint_runs i (x # ys) \<longleftrightarrow> tr_ino x = i \<and> tr_begin x < tr_end x \<and> disjoint_runs i ys \<and>
     (\<forall>y \<in> set ys. tr_end x \<le> tr_begin y)"
  by (auto simp: disjoint_runs_def)

lemma runs_member: "disjoint_runs i es \<Longrightarrow> e \<in> set es \<Longrightarrow> tr_ino e = i \<and> tr_begin e < tr_end e"
  by (auto simp: disjoint_runs_def)

text \<open>Putting an entry between the runs that end before it and the runs that begin after it.\<close>

lemma put_runs:
  assumes "disjoint_runs i (xs @ ys)" and "tr_ino c = i" and "tr_begin c < tr_end c"
    and "\<forall>x \<in> set xs. tr_end x \<le> tr_begin c" and "\<forall>y \<in> set ys. tr_end c \<le> tr_begin y"
  shows "set_insert c (xs @ ys) = xs @ c # ys" and "disjoint_runs i (xs @ c # ys)"
proof -
  have "entry_less x c" if "x \<in> set xs" for x
    using runs_member [OF assms(1), of x] assms(2,4) that by (fastforce simp: entry_less_def)
  moreover have "entry_less c y" if "y \<in> set ys" for y
    using runs_member [OF assms(1), of y] assms(2,3,5) that by (fastforce simp: entry_less_def)
  ultimately show "set_insert c (xs @ ys) = xs @ c # ys" by (simp add: set_insert_between)
  show "disjoint_runs i (xs @ c # ys)" using assms by (auto simp: runs_append runs_Cons)
qed

text \<open>The three ways to put an entry beside its predecessor \<open>q\<close>: behind it, in its place, or behind it
  after giving up the common part.\<close>

lemma beside_prev:
  assumes "disjoint_runs i ((bs @ [q]) @ rest)" and "tr_ino c = i" and "tr_begin c < tr_end c"
    and "\<forall>n \<in> set rest. tr_end c \<le> tr_begin n" and "tr_begin q \<le> tr_begin c"
  shows "tr_end q \<le> tr_begin c \<Longrightarrow> set_insert c ((bs @ [q]) @ rest) = (bs @ [q]) @ c # rest \<and>
           disjoint_runs i ((bs @ [q]) @ c # rest)"
    and "set_insert c (bs @ rest) = bs @ c # rest \<and> disjoint_runs i (bs @ c # rest)"
    and "tr_end q < tr_end c \<Longrightarrow>
           set_insert (c\<lparr>tr_begin := tr_end q\<rparr>) ((bs @ [q]) @ rest) = (bs @ [q]) @ c\<lparr>tr_begin := tr_end q\<rparr> # rest \<and>
           disjoint_runs i ((bs @ [q]) @ c\<lparr>tr_begin := tr_end q\<rparr> # rest)"
proof -
  have q: "\<forall>b \<in> set bs. tr_end b \<le> tr_begin q" "tr_begin q < tr_end q"
    using assms(1) by (auto simp: runs_append runs_Cons)
  then have early: "\<forall>b \<in> set bs. tr_end b \<le> tr_begin c" using assms(5) by fastforce
  have "disjoint_runs i (bs @ rest)" using assms(1) by (auto simp: runs_append runs_Cons)
  then show "set_insert c (bs @ rest) = bs @ c # rest \<and> disjoint_runs i (bs @ c # rest)"
    using put_runs [OF _ assms(2,3) early assms(4)] by blast
  show "set_insert c ((bs @ [q]) @ rest) = (bs @ [q]) @ c # rest \<and> disjoint_runs i ((bs @ [q]) @ c # rest)"
    if "tr_end q \<le> tr_begin c"
    using put_runs [OF assms(1-3) _ assms(4)] early that by auto
  have "\<forall>b \<in> set (bs @ [q]). tr_end b \<le> tr_end q" using q by fastforce
  then show "set_insert (c\<lparr>tr_begin := tr_end q\<rparr>) ((bs @ [q]) @ rest) = (bs @ [q]) @ c\<lparr>tr_begin := tr_end q\<rparr> # rest \<and>
           disjoint_runs i ((bs @ [q]) @ c\<lparr>tr_begin := tr_end q\<rparr> # rest)" if "tr_end q < tr_end c"
    using put_runs [OF assms(1), of "c\<lparr>tr_begin := tr_end q\<rparr>"] assms(2,4) that by simp
qed

lemma upper_bound_split:
  assumes "disjoint_runs (tr_ino e) es"
  obtains bs as where "takeWhile (\<lambda>x. \<not> entry_less e x) es = bs" "dropWhile (\<lambda>x. \<not> entry_less e x) es = as"
    "es = bs @ as" "\<forall>b \<in> set bs. tr_begin b \<le> tr_begin e" "\<forall>a \<in> set as. tr_begin e < tr_begin a"
proof -
  let ?P = "\<lambda>x. \<not> entry_less e x"
  have iff: "entry_less e x \<longleftrightarrow> tr_begin e < tr_begin x" if "x \<in> set es" for x
    using runs_member [OF assms that] by (simp add: entry_less_def)
  have s: "es = takeWhile ?P es @ dropWhile ?P es" by simp
  have b: "tr_begin b \<le> tr_begin e" if "b \<in> set (takeWhile ?P es)" for b
    using set_takeWhileD [OF that] iff by auto
  have a: "tr_begin e < tr_begin a" if "a \<in> set (dropWhile ?P es)" for a
  proof (cases "dropWhile ?P es")
    case (Cons h hs)
    have "disjoint_runs (tr_ino e) (dropWhile ?P es)" using assms s by (metis runs_append)
    then have r: "disjoint_runs (tr_ino e) (h # hs)" by (simp add: Cons)
    have "h \<in> set es" using Cons by (metis list.set_intros(1) set_dropWhileD)
    moreover have "entry_less e h" using hd_dropWhile [of ?P es] Cons by simp
    ultimately have "tr_begin e < tr_begin h" using iff by simp
    then show ?thesis using that r unfolding Cons by (fastforce simp: runs_Cons)
  next
    case Nil
    then show ?thesis using that unfolding Nil by simp
  qed
  show thesis using that [OF refl refl s] a b by blast
qed

lemma merge_entry_runs:
  assumes "disjoint_runs (tr_ino e) es" and "tr_begin e < tr_end e" and "merge_entry e es mc ov = (es', mc', ov')"
  shows "disjoint_runs (tr_ino e) es' \<and> tspans es' = tspans es \<union> tspan e \<and>
         tsum es' + ov' = tsum es + tlen e + ov \<and> length es' + mc' = length es + mc + 1"
proof -
  let ?i = "tr_ino e"
  obtain bs as where sp: "takeWhile (\<lambda>x. \<not> entry_less e x) es = bs" "dropWhile (\<lambda>x. \<not> entry_less e x) es = as"
    "es = bs @ as" "\<forall>b \<in> set bs. tr_begin b \<le> tr_begin e" "\<forall>a \<in> set as. tr_begin e < tr_begin a"
    by (rule upper_bound_split [OF assms(1)])
  obtain c rest mc1 ov1 where ab: "absorb e as mc ov = (c, rest, mc1, ov1)" by (metis prod_cases4)
  have runs: "disjoint_runs ?i bs" "disjoint_runs ?i as" "\<forall>b \<in> set bs. \<forall>a \<in> set as. tr_end b \<le> tr_begin a"
    using assms(1) by (simp_all add: sp(3) runs_append)
  have c: "tr_ino c = ?i" "tr_begin c = tr_begin e" "tr_begin c < tr_end c" "disjoint_runs ?i rest"
      "\<forall>n \<in> set rest. tr_end c \<le> tr_begin n" "set rest \<subseteq> set as"
      "tspan c \<union> tspans rest = tspan e \<union> tspans as" "tlen c + tsum rest + ov1 = tlen e + tsum as + ov"
      "length rest + mc1 = length as + mc"
    using absorb_runs [OF ab runs(2) assms(2) sp(5)] by simp_all
  have br: "disjoint_runs ?i (bs @ rest)" using runs c(4,6) by (auto simp: runs_append)
  note def = assms(3) [unfolded merge_entry_def sp(1,2) ab Let_def prod.case]
  show ?thesis
  proof (cases bs rule: rev_cases)
    case Nil
    note p = put_runs [of ?i "[]" rest, OF _ c(1,3)]
    have "es' = c # rest" "mc' = mc1" "ov' = ov1" using def p(1) c(3-5) by (simp_all add: Nil)
    then show ?thesis using p(2) c(4,5,7-9) by (auto simp: sp(3) Nil)
  next
    case (snoc bs' q)
    have q: "tr_begin q \<le> tr_begin c" "tr_begin q < tr_end q"
      using runs(1) sp(4) c(2) unfolding snoc by (auto simp: runs_append runs_Cons)
    note p = beside_prev [OF br [unfolded snoc] c(1,3,5) q(1)]
    consider (free) "tr_end q \<le> tr_begin c" | (same) "tr_begin c < tr_end q" "tr_begin q = tr_begin c" "tr_end q \<le> tr_end c"
      | (cut) "tr_begin c < tr_end q" "tr_begin q \<noteq> tr_begin c" "tr_end q < tr_end c"
      | (inside) "tr_begin c < tr_end q" "tr_begin q = tr_begin c \<and> tr_end c < tr_end q \<or> tr_begin q \<noteq> tr_begin c \<and> tr_end c \<le> tr_end q"
      by linarith
    then show ?thesis
    proof cases
      case free
      then show ?thesis using def c(3,7-9) p(1) by (auto simp: sp(3) snoc)
    next
      case same
      then have "tspan q \<subseteq> tspan c" by (auto simp: tspan_def)
      then show ?thesis using def same p(2) c(3,7-9) by (auto simp: sp(3) snoc tlen_def)
    next
      case cut
      then have "tspan q \<union> tspan (c\<lparr>tr_begin := tr_end q\<rparr>) = tspan q \<union> tspan c"
        using q by (auto simp: tspan_def)
      then show ?thesis using def cut p(3) c(7-9) by (auto simp: sp(3) snoc tlen_def)
    next
      case inside
      then have "tspan c \<subseteq> tspan q" using q by (auto simp: tspan_def)
      then have "tspans (bs' @ q # rest) = tspans (bs' @ q # as) \<union> tspan e" using c(7) by auto
      moreover have "es' = bs @ rest" "mc' = mc1 + 1" "ov' = ov1 + tlen c"
        using def inside by (auto simp: snoc tlen_def)
      ultimately show ?thesis using br c(8,9) by (simp add: sp(3) snoc)
    qed
  qed
qed

section \<open>The whole trace\<close>

definition cells :: "retained \<Rightarrow> (u64 \<times> int) set" where
  "cells m = (SIGMA i : dom m. tspans (the (m i)))"

definition trace_cells :: "trace_entry list \<Rightarrow> (u64 \<times> int) set" where
  "trace_cells es = (\<Union>e \<in> set es. {tr_ino e} \<times> tspan e)"

definition runs_ok :: "retained \<Rightarrow> bool" where
  "runs_ok m \<longleftrightarrow> finite (dom m) \<and> (\<forall>i \<in> dom m. disjoint_runs i (the (m i)))"

definition runs_len :: "retained \<Rightarrow> int" where
  "runs_len m = (\<Sum>i \<in> dom m. tsum (the (m i)))"

definition runs_num :: "retained \<Rightarrow> nat" where
  "runs_num m = (\<Sum>i \<in> dom m. length (the (m i)))"

lemma cells_card:
  assumes "runs_ok m"
  shows "int (card (cells m)) = runs_len m"
proof -
  have "card (cells m) = (\<Sum>i \<in> dom m. card (tspans (the (m i))))"
    using assms runs_card(1) unfolding cells_def runs_ok_def by (intro card_SigmaI) blast+
  then have "int (card (cells m)) = (\<Sum>i \<in> dom m. int (card (tspans (the (m i)))))" by simp
  also have "\<dots> = runs_len m" unfolding runs_len_def
    using assms runs_card(2) by (intro sum.cong) (auto simp: runs_ok_def)
  finally show ?thesis .
qed

lemma sum_dom_upd:
  fixes f :: "'a list \<Rightarrow> 'b :: comm_monoid_add"
  assumes "finite (dom m)" and "f [] = 0"
  shows "(\<Sum>j \<in> dom (m(i \<mapsto> es)). f (the ((m(i \<mapsto> es)) j))) + f (case m i of None \<Rightarrow> [] | Some xs \<Rightarrow> xs) =
         (\<Sum>j \<in> dom m. f (the (m j))) + f es"
proof -
  have "(\<Sum>j \<in> dom m. f (the (m j))) = (\<Sum>j \<in> dom m - {i}. f (the (m j))) + f (case m i of None \<Rightarrow> [] | Some xs \<Rightarrow> xs)"
  proof (cases "m i")
    case None
    then have "dom m - {i} = dom m" by auto
    then show ?thesis using assms(2) None by simp
  next
    case (Some xs)
    then show ?thesis using assms by (auto simp: sum.remove [of _ i] domI add.commute)
  qed
  moreover have "(\<Sum>j \<in> dom (m(i \<mapsto> es)). f (the ((m(i \<mapsto> es)) j))) = f es + (\<Sum>j \<in> dom m - {i}. f (the (m j)))"
    using assms(1) by (simp add: sum.insert_remove)
  ultimately show ?thesis by (simp add: add.commute add.left_commute)
qed

lemma cells_upd:
  assumes "tspans es = tspans (case m i of None \<Rightarrow> [] | Some xs \<Rightarrow> xs) \<union> S"
  shows "cells (m(i \<mapsto> es)) = cells m \<union> {i} \<times> S"
  using assms by (cases "m i") (auto simp: cells_def split: if_splits)

lemma merge_trace_runs:
  assumes "merge_trace es m mc ov = (m', mc', ov')" and "runs_ok m" and "\<forall>e \<in> set es. tr_begin e < tr_end e"
  shows "runs_ok m' \<and> cells m' = cells m \<union> trace_cells es \<and> runs_len m' + ov' = runs_len m + tsum es + ov \<and>
         runs_num m' + mc' = runs_num m + length es + mc"
  using assms
proof (induction es m mc ov rule: merge_trace.induct)
  case (1 m mc ov)
  then show ?case by (simp add: trace_cells_def)
next
  case (2 e es m mc ov)
  let ?i = "tr_ino e" let ?old = "case m ?i of None \<Rightarrow> [] | Some xs \<Rightarrow> xs"
  obtain fs mc1 ov1 where f: "merge_trace es (m(?i \<mapsto> fs)) mc1 ov1 = (m', mc', ov')"
    and r: "disjoint_runs ?i fs" "tspans fs = tspans ?old \<union> tspan e" "tsum fs + ov1 = tsum ?old + tlen e + ov"
      "length fs + mc1 = length ?old + mc + 1"
    and ih: "runs_ok (m(?i \<mapsto> fs)) \<Longrightarrow> runs_ok m' \<and> cells m' = cells (m(?i \<mapsto> fs)) \<union> trace_cells es \<and>
      runs_len m' + ov' = runs_len (m(?i \<mapsto> fs)) + tsum es + ov1 \<and> runs_num m' + mc' = runs_num (m(?i \<mapsto> fs)) + length es + mc1"
  proof (cases "m ?i")
    case None
    then have run: "merge_trace es (m(?i \<mapsto> [e])) mc ov = (m', mc', ov')" using 2(3) by simp
    show thesis
      by (rule that [OF run]) (use None 2(5) in \<open>simp_all add: disjoint_runs_def\<close>, rule 2(1) [OF None run], assumption, simp)
  next
    case (Some xs)
    obtain fs mc1 ov1 where me: "merge_entry e xs mc ov = (fs, mc1, ov1)" by (metis prod_cases3)
    have "disjoint_runs ?i xs" using 2(4) Some unfolding runs_ok_def by force
    note st = merge_entry_runs [OF this _ me]
    have run: "merge_trace es (m(?i \<mapsto> fs)) mc1 ov1 = (m', mc', ov')" using 2(3) Some me by simp
    show thesis
      by (rule that [OF run]) (use Some 2(5) st in simp_all, rule 2(2) [OF Some me [symmetric] refl refl run], assumption, simp)
  qed
  have fin: "finite (dom m)" using 2(4) by (simp add: runs_ok_def)
  have ok: "runs_ok (m(?i \<mapsto> fs))" using 2(4) r(1) by (auto simp: runs_ok_def)
  have "cells (m(?i \<mapsto> fs)) = cells m \<union> {?i} \<times> tspan e" using r(2) by (rule cells_upd)
  moreover have "runs_len (m(?i \<mapsto> fs)) + tsum ?old = runs_len m + tsum fs"
    unfolding runs_len_def by (rule sum_dom_upd [OF fin]) simp
  moreover have "runs_num (m(?i \<mapsto> fs)) + length ?old = runs_num m + length fs"
    unfolding runs_num_def by (rule sum_dom_upd [OF fin]) simp
  ultimately show ?case using ih [OF ok] r(3,4) by (auto simp: trace_cells_def)
qed

lemma read_trace_map:
  "read_trace ls es sp = (es @ map (\<lambda>(i, b, n). \<lparr>tr_ino = i, tr_begin = b, tr_end = b + n\<rparr>) ls,
     sp + (\<Sum>(i, b, n) \<leftarrow> ls. n))"
  by (induction ls es sp rule: read_trace.induct) simp_all

lemma read_trace_facts:
  "trace_cells (fst (read_trace ls [] 0)) = (\<Union>(i, b, n) \<in> set ls. {i} \<times> {b ..< b + n})"
  "snd (read_trace ls [] 0) = tsum (fst (read_trace ls [] 0))"
  "length (fst (read_trace ls [] 0)) = length ls"
  "\<forall>(i, b, n) \<in> set ls. 0 < n \<Longrightarrow> \<forall>e \<in> set (fst (read_trace ls [] 0)). tr_begin e < tr_end e"
  by (auto simp: read_trace_map trace_cells_def tspan_def tsum_def tlen_def split_beta comp_def
      intro!: arg_cong [where f = sum_list])

text \<open>C33. What the trace analyser computes.  For a trace of writes that are not empty, the ranges it
  retains are disjoint and cover exactly the bytes that were written; the merged space it reports is
  the space of all writes less the number of distinct bytes, and the merged number is the number of
  writes less the number of retained ranges.\<close>

theorem merged_space_exact:
  assumes "\<forall>(i, b, n) \<in> set ls. 0 < n"
  shows "case read_trace ls [] 0 of (trace, space) \<Rightarrow>
         case merge_trace trace Map.empty 0 0 of (merged, mc, ov) \<Rightarrow>
           (\<forall>i \<in> dom merged. disjoint_runs i (the (merged i))) \<and>
           cells merged = (\<Union>(i, b, n) \<in> set ls. {i} \<times> {b ..< b + n}) \<and>
           ov = space - int (card (\<Union>(i, b, n) \<in> set ls. {i} \<times> {b ..< b + n})) \<and>
           mc + runs_num merged = length ls"
proof -
  obtain tr sp where r: "read_trace ls [] 0 = (tr, sp)" by force
  obtain m mc ov where mt: "merge_trace tr Map.empty 0 0 = (m, mc, ov)" by (metis prod_cases3)
  note f = read_trace_facts [of ls, unfolded r fst_conv snd_conv]
  have "runs_ok m \<and> cells m = trace_cells tr \<and> runs_len m + ov = tsum tr \<and> runs_num m + mc = length tr"
    using merge_trace_runs [OF mt _ f(4) [OF assms]] by (simp add: runs_ok_def cells_def runs_len_def runs_num_def)
  then show ?thesis
    using cells_card [of m] f(1-3) by (simp add: r mt runs_ok_def)
qed

theorem merged_space_exact_witness:
  "case merge_trace (fst (read_trace [(1, 0, 10), (1, 5, 10), (2, 0, 4), (1, 2, 3)] [] 0)) Map.empty 0 0 of
     (merged, mc, ov) \<Rightarrow> ov = 8 \<and> mc + runs_num merged = 4"
proof -
  have c: "card (\<Union>(i, b, n) \<in> set [(1 :: u64, 0 :: int, 10 :: int), (1, 5, 10), (2, 0, 4), (1, 2, 3)]. {i} \<times> {b ..< b + n}) = 19"
    by code_simp
  show ?thesis
    using merged_space_exact [of "[(1, 0, 10), (1, 5, 10), (2, 0, 4), (1, 2, 3)]"] unfolding c
    by (simp split: prod.splits)
qed

text \<open>With two or more writes the count of random writes reads past the trace before any of this is
  printed.\<close>

lemma analyser_faults: "2 \<le> length ls \<Longrightarrow> analyser_main ls = Inl BAD_POINTER"
  using read_trace_facts(3) [of ls] count_random_faults [of 1 "fst (read_trace ls [] 0)" 0]
  by (simp add: analyser_main_def Let_def split_beta del: count_random.simps)

end
