(* ===== verification/Opt_Loc.thy ===== *)
theory Opt_Loc
  imports Policy_Util
begin

text \<open>
  The locator of the best staleness, \<^verbatim>\<open>utrace/test_opt_loc.c\<close>: it follows the fitted slope of a curve
  and checks the running fit of \<^verbatim>\<open>ada_policy_util.h\<close> against a routine of the GSL.  A \<open>double\<close> is that of
  \<^verbatim>\<open>Double\<close>, rounded after every operation.  The lemmas show which line the locator answers with, and that
  its running fit is the exact one on a grid, with the periodic refit or without it.
\<close>

section \<open>Definitions\<close>

definition LEN_BITS :: nat where "LEN_BITS = 4"
definition EPSILON :: double where "EPSILON = dbl 0.000002"
definition MIN_R :: double where "MIN_R = 10"

text \<open>The two arrays are functions of the index; \<open>c0\<close> and \<open>c1\<close> are the result.\<close>

definition gsl_fit_linear ::
  "(nat \<Rightarrow> double) \<Rightarrow> nat \<Rightarrow> (nat \<Rightarrow> double) \<Rightarrow> nat \<Rightarrow> nat \<Rightarrow> quot \<times> quot" where
  "gsl_fit_linear x xstride y ystride n =
     (let (m_x, m_y) = foldl (\<lambda>(m_x, m_y) i.
            (dadd m_x (ddiv (dsub (x (i * xstride)) m_x) (dadd (of_nat i) 1)),
             dadd m_y (ddiv (dsub (y (i * ystride)) m_y) (dadd (of_nat i) 1))))
            (0, 0) [0..<n];
          (m_dx2, m_dxdy) = foldl (\<lambda>(m_dx2, m_dxdy) i.
            let dx = dsub (x (i * xstride)) m_x; dy = dsub (y (i * ystride)) m_y
            in (dadd m_dx2 (ddiv (dsub (dmul dx dx) m_dx2) (dadd (of_nat i) 1)),
                dadd m_dxdy (ddiv (dsub (dmul dx dy) m_dxdy) (dadd (of_nat i) 1))))
            (0, 0) [0..<n];
          b = quotient m_dxdy m_dx2;
          a = (case b of
                 Fin v \<Rightarrow> Fin (dsub m_y (dmul m_x v))
               | Inf pos \<Rightarrow> if m_x = 0 then NaN else Inf (pos \<noteq> (m_x > 0))
               | NaN \<Rightarrow> NaN)
      in (a, b))"

text \<open>An array of points as the array of doubles it is cast to.\<close>

definition doubles :: "adafs_point list \<Rightarrow> nat \<Rightarrow> double" where
  "doubles ps k = (if even k then p_x (ps ! (k div 2)) else p_y (ps ! (k div 2)))"

record locator =
  ol_fh :: adafs_curve_history
  ol_loc :: double
  ol_opt :: double
  ol_thr_n :: int
  ol_last :: "(double \<times> double) option"
  ol_mismatches :: nat

text \<open>The difference of equal infinities is a NaN, that of others an infinity.\<close>

definition mismatch :: "quot \<Rightarrow> quot \<Rightarrow> bool" where
  "mismatch a b =
     (case (a, b) of
        (Fin v, Fin w) \<Rightarrow> \<bar>dsub v w\<bar> > EPSILON
      | (NaN, _) \<Rightarrow> False
      | (_, NaN) \<Rightarrow> False
      | _ \<Rightarrow> a \<noteq> b)"

text \<open>The state computed from scratch when the sequence number has grown.\<close>

definition refit :: "adafs_curve_history \<Rightarrow> adafs_curve_history" where
  "refit fh =
     (let stat = for_each_history (\<lambda>st p. st\<lparr>s_x := dadd (s_x st) (p_x p), s_y := dadd (s_y st) (p_y p),
                     s_x2 := dadd (s_x2 st) (dmul (p_x p) (p_x p)), s_xy := dadd (s_xy st) (dmul (p_x p) (p_y p))\<rparr>)
                   ADAFS_LINE_STATE_ZERO fh;
          n = dbl (of_nat (unat (fh_mask fh + 1)));
          stat' = stat\<lparr>slope := quotient (dsub (dmul n (s_xy stat)) (dmul (s_x stat) (s_y stat)))
                                         (dsub (dmul n (s_x2 stat)) (dmul (s_x stat) (s_x stat)))\<rparr>
      in fh_rewind (fh\<lparr>fh_stat := stat'\<rparr>))"

definition loc_history :: "adafs_curve_history \<Rightarrow> adafs_point \<Rightarrow> adafs_curve_history" where
  "loc_history fh p =
     (let fh1 = fh_update_curve fh p in if drop_bit 10 (fh_seq fh1) \<noteq> 0 then refit fh1 else fh1)"

definition loc_step :: "double \<Rightarrow> double \<Rightarrow> double \<Rightarrow> double \<times> double \<Rightarrow> locator \<Rightarrow> locator" where
  "loc_step min_stal max_stal thr_s line st =
     (let (stal, ratio) = line;
          pre_slope = slope (fh_state (ol_fh st));
          fh2 = loc_history (ol_fh st) \<lparr>p_x = stal, p_y = ratio\<rparr>;
          (c0, c1) = gsl_fit_linear (doubles (fh_array fh2)) 2 (\<lambda>k. doubles (fh_array fh2) (k + 1)) 2
                       (unat (fh_mask fh2 + 1));
          st1 = st\<lparr>ol_fh := fh2, ol_last := Some line,
                   ol_mismatches := ol_mismatches st + (if mismatch c1 (slope (fh_state fh2)) then 1 else 0)\<rparr>
      in if ol_loc st1 = 0 then
           if stal < min_stal \<or> ratio < MIN_R then st1
           else if stal > max_stal then st1\<lparr>ol_loc := stal, ol_opt := ratio\<rparr>
           else if (above pre_slope 0 \<and> below c1 0) \<or> (above c1 0 \<and> below c1 thr_s) then
             if ol_thr_n st1 \<noteq> 0 then st1\<lparr>ol_thr_n := ol_thr_n st1 - 1\<rparr>
             else st1\<lparr>ol_loc := stal, ol_opt := ratio\<rparr>
           else st1
         else st1)"

definition loc_init :: "int \<Rightarrow> locator" where
  "loc_init thr_n =
     \<lparr>ol_fh = ADAFS_HISTORY_INIT LEN_BITS ADAFS_POINT_ZERO ADAFS_LINE_STATE_ZERO, ol_loc = 0, ol_opt = 0,
      ol_thr_n = thr_n, ol_last = None, ol_mismatches = 0\<rparr>"

text \<open>The lines that \<open>scanf\<close> reads; the answer is undefined when there is none.\<close>

definition loc_loop :: "double \<Rightarrow> double \<Rightarrow> double \<Rightarrow> int \<Rightarrow> (double \<times> double) list \<Rightarrow> locator" where
  "loc_loop min_stal max_stal thr_s thr_n ls =
     foldl (\<lambda>st line. loc_step min_stal max_stal thr_s line st) (loc_init thr_n) ls"

definition loc_main ::
  "int \<Rightarrow> double \<Rightarrow> double \<Rightarrow> int \<Rightarrow> double \<Rightarrow> (double \<times> double) list \<Rightarrow> int + (double \<times> double) option" where
  "loc_main argc min_stal max_stal thr_n thr_s ls =
     (if argc \<noteq> 6 then Inl (- 1)
      else
        let st = loc_loop min_stal max_stal thr_s thr_n ls
        in Inr (if ol_loc st = 0 then ol_last st else Some (ol_loc st, ol_opt st)))"

section \<open>The history of the locator\<close>

lemma sum_list_perm:
  fixes f :: "'a \<Rightarrow> rat"
  assumes "mset ps = mset qs"
  shows "sum_list (map f ps) = sum_list (map f qs)"
proof -
  have "sum_mset (mset (map f ps)) = sum_mset (mset (map f qs))" using assms by simp
  then show ?thesis by (simp only: sum_mset_sum_list)
qed

lemma lsq_slope_perm:
  assumes "mset ps = mset qs"
  shows "lsq_slope ps = lsq_slope qs"
  unfolding lsq_slope_def mset_eq_length [OF assms] sum_list_perm [OF assms] by (rule refl)

lemma mset_window: "mset (fh_window fh) = mset (fh_array fh)"
  unfolding fh_window_def rotate_drop_take mset_append
  by (metis append_take_drop_id mset_append union_commute)

lemma take_whole:
  assumes "fh_wf bits fh"
  shows "take (unat (fh_mask fh) + 1) (fh_array fh) = fh_array fh"
proof -
  have "fh_mask fh + 1 \<noteq> 0" using mask_Suc_unat [OF assms] assms by (auto simp: fh_wf_def)
  then have "unat (fh_mask fh) + 1 = length (fh_array fh)"
    using mask_Suc_unat [OF assms] by (simp add: unatSuc add.commute)
  then show ?thesis by simp
qed

lemma rewind_end:
  assumes "fh_wf bits fh"
  shows "fh_wf bits (fh_rewind fh)" and "fh_window (fh_rewind fh) = fh_window fh"
    and "unat (fh_seq (fh_rewind fh)) < 2 * length (fh_array fh)"
proof -
  show wf: "fh_wf bits (fh_rewind fh)" using assms by (simp add: fh_wf_def fh_rewind_def)
  have b: "bits < 31" using assms by (simp add: fh_wf_def)
  have e: "fh_end fh < 2 ^ bits" using fh_end_less [OF assms] assms by (simp add: fh_wf_def)
  have "unat (fh_mask fh + 1) = 2 ^ bits" using mask_Suc_unat [OF assms] assms by (simp add: fh_wf_def)
  moreover have "(2::nat) ^ bits \<le> 2 ^ 31" using b by (intro power_increasing) simp_all
  ultimately have s: "unat (fh_seq (fh_rewind fh)) = fh_end fh + 2 ^ bits"
    using e by (simp add: fh_rewind_def fh_end_def add.assoc unat_word_ariths(1) del: add_2_eq_Suc')
  then show "unat (fh_seq (fh_rewind fh)) < 2 * length (fh_array fh)" using e assms by (simp add: fh_wf_def)
  have "fh_end (fh_rewind fh) = fh_end fh" using fh_end_mod [OF wf] s e by simp
  then show "fh_window (fh_rewind fh) = fh_window fh"
    by (simp add: fh_window_def) (simp add: fh_rewind_def)
qed

lemma refit_wf:
  assumes "fh_wf bits fh"
  shows "fh_wf bits (refit fh)" and "fh_window (refit fh) = fh_window fh"
    and "unat (fh_seq (refit fh)) < 2 * length (fh_array fh)"
proof -
  define st where "st = fh_stat (refit fh)"
  have r: "refit fh = fh_rewind (fh\<lparr>fh_stat := st\<rparr>)" by (simp add: st_def refit_def Let_def fh_rewind_def)
  have wf: "fh_wf bits (fh\<lparr>fh_stat := st\<rparr>)" using assms by simp
  show "fh_wf bits (refit fh)" "fh_window (refit fh) = fh_window fh" "unat (fh_seq (refit fh)) < 2 * length (fh_array fh)"
    using rewind_end [OF wf] by (simp_all add: r)
qed

text \<open>The window and the sequence number, whatever the rounding.\<close>

lemma loc_history_window:
  fixes v :: adafs_point
  assumes "fh_wf 4 fh" and "unat (fh_seq fh) < 1024"
  shows "fh_wf 4 (loc_history fh v)" and "fh_window (loc_history fh v) = tl (fh_window fh) @ [v]"
    and "unat (fh_seq (loc_history fh v)) < 1024"
proof -
  define fh1 where "fh1 = fh_update_curve fh v"
  have fh2: "loc_history fh v = (if drop_bit 10 (fh_seq fh1) \<noteq> 0 then refit fh1 else fh1)"
    by (simp add: loc_history_def fh1_def Let_def)
  note u = fh_update_curve_window [OF assms(1), of v, folded fh1_def]
  then have wf: "fh_wf 4 fh1" by simp
  note r = refit_wf [OF wf]
  show "fh_wf 4 (loc_history fh v)" "fh_window (loc_history fh v) = tl (fh_window fh) @ [v]"
    using u r(1,2) by (simp_all add: fh2)
  have "length (fh_array fh1) = 16" using wf by (simp add: fh_wf_def)
  moreover have "unat (fh_seq fh1) < 1024" if "drop_bit 10 (fh_seq fh1) = 0"
  proof -
    have "unat (drop_bit 10 (fh_seq fh1)) = unat (fh_seq fh1) div 2 ^ 10"
      by (simp add: drop_bit_eq_div unat_div)
    then show ?thesis using that by (simp add: div_eq_0_iff)
  qed
  ultimately show "unat (fh_seq (loc_history fh v)) < 1024" using r(3) by (simp add: fh2)
qed

text \<open>On a grid the refit computes the sums that are kept already.\<close>

lemma exact_bound_mono: "exact_bound n B \<Longrightarrow> m \<le> n \<Longrightarrow> exact_bound m B"
proof -
  assume b: "exact_bound n B" and m: "m \<le> n"
  have "(int m * B) ^ 2 \<le> (int n * B) ^ 2"
    using b m by (intro power_mono mult_right_mono) (auto simp: exact_bound_def)
  then show ?thesis using b unfolding exact_bound_def by linarith
qed

lemma refit_fold:
  assumes "\<forall>p \<in> set ps. point_on_grid k l B p" and "exact_bound (length ps) B"
  shows "foldl (\<lambda>st p. st\<lparr>s_x := dadd (s_x st) (p_x p), s_y := dadd (s_y st) (p_y p),
       s_x2 := dadd (s_x2 st) (dmul (p_x p) (p_x p)), s_xy := dadd (s_xy st) (dmul (p_x p) (p_y p))\<rparr>) ADAFS_LINE_STATE_ZERO ps =
   \<lparr>s_x = sum_list (map p_x ps), s_y = sum_list (map p_y ps),
    s_x2 = (\<Sum>p\<leftarrow>ps. p_x p * p_x p), s_xy = (\<Sum>p\<leftarrow>ps. p_x p * p_y p), slope = Fin 0\<rparr>"
  using assms
proof (induction ps rule: rev_induct)
  case Nil
  then show ?case by (simp add: ADAFS_LINE_STATE_ZERO_def)
next
  case (snoc p ps)
  let ?n = "length (ps @ [p])"
  have "0 < ?n" by simp
  note b = exact_bounds [OF snoc.prems(2) this]
  have B: "0 \<le> B" "0 \<le> B * B" "0 \<le> int ?n * B" "0 \<le> int ?n * (B * B)"
    using snoc.prems(2) by (simp_all add: exact_bound_def)
  have c: "int ?n * B \<le> 2 ^ 53" "int ?n * (B * B) \<le> 2 ^ 53" "B * B \<le> 2 ^ 53"
    using b(1,3,4) B by linarith+
  note g = grid_sums [OF snoc.prems(1)]
  have pg: "point_on_grid k l B p" using snoc.prems(1) by simp
  have sq: "dmul (p_x p) (p_x p) = p_x p * p_x p" "dmul (p_x p) (p_y p) = p_x p * p_y p"
    using grid_dbl point_grids(3,4) [OF pg] c(3) by blast+
  have "dbl (sum_list (map p_x (ps @ [p]))) = sum_list (map p_x (ps @ [p]))"
    "dbl (sum_list (map p_y (ps @ [p]))) = sum_list (map p_y (ps @ [p]))"
    "dbl (\<Sum>p\<leftarrow>ps @ [p]. p_x p * p_x p) = (\<Sum>p\<leftarrow>ps @ [p]. p_x p * p_x p)"
    "dbl (\<Sum>p\<leftarrow>ps @ [p]. p_x p * p_y p) = (\<Sum>p\<leftarrow>ps @ [p]. p_x p * p_y p)"
    using grid_dbl [OF g(1) c(1)] grid_dbl [OF g(2) c(1)] grid_dbl [OF g(3) c(2)] grid_dbl [OF g(4) c(2)] .
  moreover have "exact_bound (length ps) B" using exact_bound_mono [OF snoc.prems(2)] by simp
  ultimately show ?case using snoc.IH snoc.prems(1) sq by simp
qed

lemma refit_exact:
  assumes "fh_wf bits fh" and "\<forall>p \<in> set (fh_window fh). point_on_grid k l B p" and "exact_bound (2 ^ bits) B"
  shows "sums_exact bits (refit fh)" and "slope (fh_stat (refit fh)) = lsq_slope (fh_window fh)"
proof -
  let ?a = "rev (fh_array fh)"
  have m: "mset ?a = mset (fh_window fh)" by (simp add: mset_window)
  have g: "\<forall>p \<in> set ?a. point_on_grid k l B p" using assms(2) mset_eq_setD [OF m] by simp
  have len: "length ?a = 2 ^ bits" "?a \<noteq> []" using assms(1) by (auto simp: fh_wf_def)
  have eb: "exact_bound (length ?a) B" unfolding len(1) by (rule assms(3))
  have "(2 :: int) ^ bits \<le> 2 ^ 53" using assms(1) by (intro power_increasing) (simp_all add: fh_wf_def)
  then have "\<bar>int (2 ^ bits)\<bar> \<le> 2 ^ 53" by simp
  then have "dbl (of_int (int (2 ^ bits))) = of_int (int (2 ^ bits))" by (rule dbl_int)
  then have n: "dbl (of_nat (unat (fh_mask fh + 1))) = of_nat (length ?a)"
    using mask_Suc_unat [OF assms(1)] len(1) by simp
  let ?st = "\<lparr>s_x = sum_list (map p_x ?a), s_y = sum_list (map p_y ?a), s_x2 = (\<Sum>p\<leftarrow>?a. p_x p * p_x p),
      s_xy = (\<Sum>p\<leftarrow>?a. p_x p * p_y p), slope = lsq_slope ?a\<rparr>"
  have r: "refit fh = fh_rewind (fh\<lparr>fh_stat := ?st\<rparr>)"
    unfolding refit_def for_each_history_def take_whole [OF assms(1)] refit_fold [OF g eb] n Let_def
    using lsq_exact [OF g eb len(2)] by simp
  have f: "fh_stat (refit fh) = ?st" by (simp add: r fh_rewind_def)
  show "sums_exact bits (refit fh)"
    unfolding sums_exact_def f refit_wf(2) [OF assms(1)] adafs_line_state.select_convs
    using refit_wf(1) [OF assms(1)] sum_list_perm [OF m] by blast
  show "slope (fh_stat (refit fh)) = lsq_slope (fh_window fh)"
    unfolding f adafs_line_state.select_convs by (rule lsq_slope_perm [OF m])
qed

definition line_points :: "(double \<times> double) list \<Rightarrow> adafs_point list" where
  "line_points ls = map (\<lambda>(x, y). \<lparr>p_x = x, p_y = y\<rparr>) ls"

definition loc_hist :: "(double \<times> double) list \<Rightarrow> adafs_curve_history" where
  "loc_hist ls = foldl loc_history (ADAFS_HISTORY_INIT LEN_BITS ADAFS_POINT_ZERO ADAFS_LINE_STATE_ZERO) (line_points ls)"

lemma line_points_snoc: "line_points (ls @ [l]) = line_points ls @ [\<lparr>p_x = fst l, p_y = snd l\<rparr>]"
  by (simp add: line_points_def split_def)

lemma loc_hist_snoc: "loc_hist (ls @ [l]) = loc_history (loc_hist ls) \<lparr>p_x = fst l, p_y = snd l\<rparr>"
  by (simp add: loc_hist_def line_points_snoc)

lemma loc_hist_window:
  "fh_wf 4 (loc_hist ls) \<and> unat (fh_seq (loc_hist ls)) < 1024 \<and>
   fh_window (loc_hist ls) = latest 16 ADAFS_POINT_ZERO (line_points ls)"
proof (induction ls rule: rev_induct)
  case Nil
  then show ?case
    using window_init [of 4 ADAFS_POINT_ZERO ADAFS_LINE_STATE_ZERO] fh_init_wf [of 4 ADAFS_POINT_ZERO ADAFS_LINE_STATE_ZERO]
    by (simp add: loc_hist_def line_points_def LEN_BITS_def latest_def) (simp add: ADAFS_HISTORY_INIT_def)
next
  case (snoc l ls)
  then show ?case
    using loc_history_window [of "loc_hist ls" "\<lparr>p_x = fst l, p_y = snd l\<rparr>"]
    by (simp add: loc_hist_snoc line_points_snoc latest_snoc)
qed

lemma loc_hist_exact:
  assumes "\<forall>p \<in> set (line_points ls). point_on_grid k l B p" and "exact_bound 16 B"
  shows "sums_exact 4 (loc_hist ls) \<and>
    (ls \<noteq> [] \<longrightarrow> slope (fh_stat (loc_hist ls)) = lsq_slope (latest 16 ADAFS_POINT_ZERO (line_points ls)))"
  using assms(1)
proof (induction ls rule: rev_induct)
  case Nil
  then show ?case using sums_exact_init [of 4] by (simp add: loc_hist_def line_points_def LEN_BITS_def)
next
  case (snoc x ls)
  let ?v = "\<lparr>p_x = fst x, p_y = snd x\<rparr>" and ?fh = "loc_hist ls"
  have w: "fh_window ?fh = latest 16 ADAFS_POINT_ZERO (line_points ls)" "fh_wf 4 ?fh" using loc_hist_window by blast+
  have B: "0 \<le> B" "exact_bound (2 ^ 4) B" using assms(2) by (simp_all add: exact_bound_def)
  have g: "\<forall>p \<in> set (fh_window ?fh @ [?v]). point_on_grid k l B p"
    using snoc.prems grid_latest [of "line_points ls" k l B 16] B(1) unfolding w(1) line_points_snoc by auto
  have "sums_exact 4 ?fh" using snoc by (simp add: line_points_snoc)
  note u = fh_update_curve_step [OF this g B(2)]
  note uw = fh_update_curve_window [OF w(2), of ?v]
  have l: "latest 16 ADAFS_POINT_ZERO (line_points (ls @ [x])) = tl (fh_window ?fh) @ [?v]"
    by (simp add: line_points_snoc latest_snoc w(1))
  have "\<forall>p \<in> set (fh_window (fh_update_curve ?fh ?v)). point_on_grid k l B p"
    using g uw by (cases "fh_window ?fh") auto
  note r = refit_exact [OF conjunct1 [OF uw] this B(2)]
  show ?case unfolding loc_hist_snoc loc_history_def Let_def l using u r uw by simp
qed

section \<open>The line the locator answers with\<close>

text \<open>The slope of the ring by the GSL, a peak at a line, and the peaks that count.\<close>

definition ring_slope :: "adafs_curve_history \<Rightarrow> quot" where
  "ring_slope fh =
     snd (gsl_fit_linear (doubles (fh_array fh)) 2 (\<lambda>k. doubles (fh_array fh) (k + 1)) 2 (unat (fh_mask fh + 1)))"

definition peak_at :: "double \<Rightarrow> (double \<times> double) list \<Rightarrow> nat \<Rightarrow> bool" where
  "peak_at thr_s ls k \<longleftrightarrow>
     (let pre = slope (fh_state (loc_hist (take k ls))); c1 = ring_slope (loc_hist (take (Suc k) ls))
      in above pre 0 \<and> below c1 0 \<or> above c1 0 \<and> below c1 thr_s)"

definition eligible :: "double \<Rightarrow> (double \<times> double) list \<Rightarrow> nat \<Rightarrow> bool" where
  "eligible min_stal ls k \<longleftrightarrow> min_stal \<le> fst (ls ! k) \<and> MIN_R \<le> snd (ls ! k)"

definition peaks :: "double \<Rightarrow> double \<Rightarrow> double \<Rightarrow> (double \<times> double) list \<Rightarrow> nat \<Rightarrow> nat list" where
  "peaks min_stal max_stal thr_s ls k =
     filter (\<lambda>j. eligible min_stal ls j \<and> fst (ls ! j) \<le> max_stal \<and> peak_at thr_s ls j) [0..<k]"

text \<open>A line that ends the search: the staleness is past the maximum, or it is at a peak after the first
  \<open>thr_n\<close>.  A staleness of zero does not, since zero marks the search as open.\<close>

definition located :: "double \<Rightarrow> double \<Rightarrow> double \<Rightarrow> int \<Rightarrow> (double \<times> double) list \<Rightarrow> nat \<Rightarrow> bool" where
  "located min_stal max_stal thr_s thr_n ls k \<longleftrightarrow>
     fst (ls ! k) \<noteq> 0 \<and> eligible min_stal ls k \<and>
     (max_stal < fst (ls ! k) \<or>
      peak_at thr_s ls k \<and> 0 \<le> thr_n \<and> thr_n \<le> int (length (peaks min_stal max_stal thr_s ls k)))"

lemma spec_snoc:
  assumes "k < length ls"
  shows "peak_at thr_s (ls @ [l]) k = peak_at thr_s ls k" and "eligible lo (ls @ [l]) k = eligible lo ls k"
    and "peaks lo hi thr_s (ls @ [l]) k = peaks lo hi thr_s ls k"
    and "located lo hi thr_s n (ls @ [l]) k = located lo hi thr_s n ls k"
proof -
  have p: "peak_at thr_s (ls @ [l]) j = peak_at thr_s ls j" and e: "eligible lo (ls @ [l]) j = eligible lo ls j"
    if "j < length ls" for j
    using that by (simp_all add: peak_at_def eligible_def nth_append)
  show "peak_at thr_s (ls @ [l]) k = peak_at thr_s ls k" "eligible lo (ls @ [l]) k = eligible lo ls k"
    using p e assms by simp_all
  show q: "peaks lo hi thr_s (ls @ [l]) k = peaks lo hi thr_s ls k"
    unfolding peaks_def using assms by (intro filter_cong refl) (simp add: p e nth_append)
  show "located lo hi thr_s n (ls @ [l]) k = located lo hi thr_s n ls k"
    unfolding located_def q using assms by (simp add: p e nth_append)
qed

lemma peaks_snoc:
  "peaks lo hi thr_s (ls @ [l]) (length ls) = peaks lo hi thr_s ls (length ls)"
  unfolding peaks_def using spec_snoc(1,2) by (intro filter_cong refl) (simp add: nth_append)

lemma find_snoc:
  "List.find (located lo hi thr_s n (ls @ [l])) [0..<length (ls @ [l])] =
     (case List.find (located lo hi thr_s n ls) [0..<length ls] of
        Some k \<Rightarrow> Some k
      | None \<Rightarrow> if located lo hi thr_s n (ls @ [l]) (length ls) then Some (length ls) else None)"
proof -
  have "List.find (located lo hi thr_s n (ls @ [l])) [0..<length ls] = List.find (located lo hi thr_s n ls) [0..<length ls]"
    by (rule find_cong) (simp_all add: spec_snoc(4))
  moreover have "List.find P (xs @ [y]) = (case List.find P xs of Some k \<Rightarrow> Some k | None \<Rightarrow> if P y then Some y else None)" for P xs and y :: nat
    by (induction xs) simp_all
  ultimately show ?thesis by simp
qed

definition loc_state_ok :: "double \<Rightarrow> double \<Rightarrow> double \<Rightarrow> int \<Rightarrow> (double \<times> double) list \<Rightarrow> locator \<Rightarrow> bool" where
  "loc_state_ok lo hi thr_s n ls st \<longleftrightarrow>
     ol_fh st = loc_hist ls \<and> ol_last st = (if ls = [] then None else Some (last ls)) \<and>
     (case List.find (located lo hi thr_s n ls) [0..<length ls] of
        Some k \<Rightarrow> k < length ls \<and> (ol_loc st, ol_opt st) = ls ! k \<and> fst (ls ! k) \<noteq> 0
      | None \<Rightarrow> ol_loc st = 0 \<and>
          ol_thr_n st = (let m = n - int (length (peaks lo hi thr_s ls (length ls))) in if 0 \<le> n then max 0 m else m))"

lemma loc_step_ok:
  assumes "loc_state_ok lo hi thr_s n ls st"
  shows "loc_state_ok lo hi thr_s n (ls @ [l]) (loc_step lo hi thr_s l st)"
proof -
  let ?k = "length ls" and ?ls = "ls @ [l]"
  let ?found = "List.find (located lo hi thr_s n ls) [0..<?k]"
  define st1 where "st1 = st\<lparr>ol_fh := loc_hist ?ls, ol_last := Some l, ol_mismatches := ol_mismatches st +
      (if mismatch (ring_slope (loc_hist ?ls)) (slope (fh_state (loc_hist ?ls))) then 1 else 0)\<rparr>"
  have fh: "ol_fh st = loc_hist ls" using assms by (simp add: loc_state_ok_def)
  have step: "loc_step lo hi thr_s l st =
      (if ol_loc st = 0 then
         if \<not> eligible lo ?ls ?k then st1
         else if hi < fst l then st1\<lparr>ol_loc := fst l, ol_opt := snd l\<rparr>
         else if peak_at thr_s ?ls ?k then
           if ol_thr_n st \<noteq> 0 then st1\<lparr>ol_thr_n := ol_thr_n st - 1\<rparr> else st1\<lparr>ol_loc := fst l, ol_opt := snd l\<rparr>
         else st1
       else st1)"
    by (simp add: loc_step_def split_beta Let_def st1_def fh loc_hist_snoc ring_slope_def eligible_def peak_at_def not_le)
  have s1: "ol_fh st1 = loc_hist ?ls" "ol_last st1 = Some l" "ol_loc st1 = ol_loc st" "ol_opt st1 = ol_opt st"
    "ol_thr_n st1 = ol_thr_n st"
    by (simp_all add: st1_def)
  have pk: "peaks lo hi thr_s ?ls (length ?ls) =
      peaks lo hi thr_s ls ?k @ (if eligible lo ?ls ?k \<and> fst l \<le> hi \<and> peak_at thr_s ?ls ?k then [?k] else [])"
    using peaks_snoc [of lo hi thr_s ls l] by (simp add: peaks_def)
  show ?thesis
  proof (cases ?found)
    case (Some j)
    then have "j < ?k" "(ol_loc st, ol_opt st) = ls ! j" "fst (ls ! j) \<noteq> 0" using assms by (simp_all add: loc_state_ok_def)
    moreover from this have "ol_loc st \<noteq> 0" by (metis fst_conv)
    ultimately show ?thesis using step s1 Some unfolding loc_state_ok_def find_snoc by (simp add: nth_append)
  next
    case None
    then have l0: "ol_loc st = 0" and t: "ol_thr_n st = (let m = n - int (length (peaks lo hi thr_s ls ?k)) in if 0 \<le> n then max 0 m else m)"
      using assms by (simp_all add: loc_state_ok_def)
    have loc: "located lo hi thr_s n ?ls ?k \<longleftrightarrow> fst l \<noteq> 0 \<and> eligible lo ?ls ?k \<and>
        (hi < fst l \<or> peak_at thr_s ?ls ?k \<and> ol_thr_n st = 0)"
      using t peaks_snoc [of lo hi thr_s ls l] by (auto simp: located_def Let_def)
    have ok: "loc_state_ok lo hi thr_s n ?ls s \<longleftrightarrow> ol_fh s = loc_hist ?ls \<and> ol_last s = Some l \<and>
        (if located lo hi thr_s n ?ls ?k then ol_loc s = fst l \<and> ol_opt s = snd l \<and> fst l \<noteq> 0
         else ol_loc s = 0 \<and> ol_thr_n s = (let m = n - int (length (peaks lo hi thr_s ls ?k) +
           (if eligible lo ?ls ?k \<and> fst l \<le> hi \<and> peak_at thr_s ?ls ?k then 1 else 0)) in if 0 \<le> n then max 0 m else m))" for s
      unfolding loc_state_ok_def find_snoc pk None by (auto simp: prod_eq_iff)
    consider "\<not> eligible lo ?ls ?k" | "eligible lo ?ls ?k" "hi < fst l" | "eligible lo ?ls ?k" "\<not> hi < fst l" "\<not> peak_at thr_s ?ls ?k"
      | "eligible lo ?ls ?k" "\<not> hi < fst l" "peak_at thr_s ?ls ?k" "ol_thr_n st \<noteq> 0"
      | "eligible lo ?ls ?k" "\<not> hi < fst l" "peak_at thr_s ?ls ?k" "ol_thr_n st = 0" by blast
    then show ?thesis
      unfolding ok by cases (use step s1 l0 t loc in \<open>auto simp: Let_def split: if_splits\<close>)
  qed
qed

lemma loc_loop_ok: "loc_state_ok lo hi thr_s n ls (loc_loop lo hi thr_s n ls)"
proof (induction ls rule: rev_induct)
  case Nil
  then show ?case by (simp add: loc_state_ok_def loc_loop_def loc_init_def loc_hist_def line_points_def peaks_def)
next
  case (snoc l ls)
  then show ?case using loc_step_ok [OF snoc] by (simp add: loc_loop_def)
qed

text \<open>C22. The answer of \<open>test_opt_loc\<close>, with rounded doubles.  On a log that is not empty it is the first line that
  ends the search: one of a staleness other than zero that reaches the minimum, with a ratio of at least
  \<open>MIN_R\<close>, and past the maximum or at a peak that has \<open>thr_n\<close> eligible peaks before it; if there is none, it
  is the last line.  A peak is where the slope falls from above zero to below, or is positive and below
  the threshold.  At the end the ring holds the latest sixteen points and the sequence number is below
  1024; and if the coordinates lie on grids on which the sums of sixteen are exact, the slope is the
  least-squares slope of these points, rounded once, whether or not the state has been refitted.\<close>

theorem locator_answer:
  assumes "ls \<noteq> []"
  shows "loc_main 6 lo hi n thr_s ls =
           Inr (Some (case List.find (located lo hi thr_s n ls) [0..<length ls] of Some k \<Rightarrow> ls ! k | None \<Rightarrow> last ls)) \<and>
         (let fh = ol_fh (loc_loop lo hi thr_s n ls) in
            unat (fh_seq fh) < 1024 \<and> fh_window fh = latest 16 ADAFS_POINT_ZERO (line_points ls) \<and>
            (exact_bound 16 B \<and> (\<forall>p \<in> set (line_points ls). point_on_grid k l B p) \<longrightarrow>
               slope (fh_state fh) = lsq_slope (latest 16 ADAFS_POINT_ZERO (line_points ls))))"
proof -
  let ?st = "loc_loop lo hi thr_s n ls"
  have ok: "loc_state_ok lo hi thr_s n ls ?st" by (rule loc_loop_ok)
  then have fh: "ol_fh ?st = loc_hist ls" by (simp add: loc_state_ok_def)
  have "loc_main 6 lo hi n thr_s ls =
      Inr (Some (case List.find (located lo hi thr_s n ls) [0..<length ls] of Some k \<Rightarrow> ls ! k | None \<Rightarrow> last ls))"
    using ok assms by (auto simp: loc_main_def Let_def loc_state_ok_def prod_eq_iff split: option.splits)
  then show ?thesis
    unfolding fh Let_def fh_state_def using loc_hist_window [of ls] loc_hist_exact [of ls k l B] assms by blast
qed

theorem locator_answer_witness:
  "loc_main 6 0 1 1 5 [(1, 20), (2, 30), (3, 40)] = Inr (Some (2, 30)) \<and>
   slope (fh_state (ol_fh (loc_loop 0 1 5 1 [(1, 20), (2, 30), (3, 40)]))) = Fin (dbl (665 / 47))"
proof -
  let ?ls = "[(1, 20), (2, 30), (3, 40)] :: (double \<times> double) list"
  have l: "\<not> located 0 1 5 1 ?ls 0" "located 0 1 5 1 ?ls (Suc 0)"
    by (simp_all add: located_def peaks_def eligible_def MIN_R_def)
  then have f: "List.find (located 0 1 5 1 ?ls) [0..<length ?ls] = Some (Suc 0)" by (simp add: upt_rec)
  have g: "on_grid 0 40 (numeral n)" if "numeral n \<le> (40 :: int)" for n
    using that by (auto simp: on_grid_def intro!: exI [of _ "numeral n"])
  have g1: "on_grid 0 40 1" by (auto simp: on_grid_def intro!: exI [of _ 1])
  have "exact_bound 16 40 \<and> (\<forall>p \<in> set (line_points ?ls). point_on_grid 0 0 40 p)"
    by (simp add: exact_bound_def line_points_def point_on_grid_def g g1)
  moreover have "lsq_slope (latest 16 ADAFS_POINT_ZERO (line_points ?ls)) = Fin (dbl (665 / 47))"
    by (simp add: latest_def line_points_def lsq_slope_def quotient_def Let_def ADAFS_POINT_ZERO_def sum_list_replicate)
  ultimately show ?thesis
    using locator_answer [of ?ls 0 1 1 5 40 0 0] unfolding f Let_def by simp
qed
end
