(* ===== verification/Int_Pred.thy ===== *)
theory Int_Pred
  imports Policy_Util
begin

text \<open>
  The predictor of touch intervals, \<^verbatim>\<open>utrace/test_int_pred.c\<close>: a machine of four states driven by
  touches and timers.  A \<open>double\<close> is that of \<^verbatim>\<open>Double\<close>; the loop over the timers is a partial function, so
  that not returning is \<open>None\<close>.  The lemmas show when it returns, and that the counters are consistent.
\<close>

section \<open>Definitions\<close>

definition INT_LEN_BITS :: nat where "INT_LEN_BITS = 2"
definition INVAL_TIME :: double where "INVAL_TIME = 1024"

datatype pstate = ST_CON | ST_DIS | ST_DIS_DOWN | ST_DIS_UP
datatype pevent = EV_USER | EV_TIMER

text \<open>The two touch states, indexed by \<open>ST_CON\<close> and \<open>ST_DIS\<close>, the state of the machine, the global
  counters, and the number of events reported as invalid.\<close>

record predictor =
  ts_con :: adafs_touch_state
  ts_dis :: adafs_touch_state
  pstate :: pstate
  num_conflicts :: int
  num_preds :: int
  pred_len :: double
  invalid_events :: nat

record thresholds =
  THR_INT :: double
  THR_M :: double

definition update_hist_int :: "double \<Rightarrow> adafs_touch_state \<Rightarrow> adafs_touch_state" where
  "update_hist_int x ts = ts\<lparr>int_hist := fh_update_interval (int_hist ts) x\<rparr>"

definition update_timer :: "thresholds \<Rightarrow> adafs_touch_state \<Rightarrow> adafs_touch_state" where
  "update_timer thr ts =
     ts\<lparr>timer := if fh_seq (int_hist ts) \<noteq> 0
                then ddiv (fh_state (int_hist ts)) (dbl (of_nat (unat (fh_len (int_hist ts))))) else THR_INT thr\<rparr>"

definition predict_int :: "thresholds \<Rightarrow> predictor \<Rightarrow> double \<times> predictor" where
  "predict_int thr p = (let d = update_timer thr (ts_dis p) in (timer d, p\<lparr>ts_dis := d\<rparr>))"

definition threshold :: "thresholds \<Rightarrow> predictor \<Rightarrow> double" where
  "threshold thr p = (if fh_seq (int_hist (ts_con p)) \<noteq> 0 then dmul (timer (ts_con p)) (THR_M thr) else THR_INT thr)"

definition rec_result :: "double \<Rightarrow> predictor \<Rightarrow> predictor" where
  "rec_result x p =
     (let pred = timer (ts_dis p)
      in p\<lparr>num_preds := num_preds p + 1, pred_len := dadd (pred_len p) pred,
           num_conflicts := num_conflicts p + (if pred > x then 1 else 0)\<rparr>)"

text \<open>Recording an interval of continuous touches and setting the next threshold.\<close>

definition continue_touch :: "thresholds \<Rightarrow> double \<Rightarrow> predictor \<Rightarrow> double \<times> predictor" where
  "continue_touch thr x p =
     (let p' = p\<lparr>ts_con := update_timer thr (update_hist_int x (ts_con p))\<rparr> in (threshold thr p', p'))"

definition transfer :: "thresholds \<Rightarrow> pevent \<Rightarrow> double \<Rightarrow> predictor \<Rightarrow> double \<times> predictor" where
  "transfer thr ev x p =
     (case pstate p of
        ST_CON \<Rightarrow>
          (case ev of EV_USER \<Rightarrow> continue_touch thr x p
           | EV_TIMER \<Rightarrow> predict_int thr (p\<lparr>pstate := ST_DIS\<rparr>))
      | ST_DIS \<Rightarrow>
          let p1 = rec_result x p
          in (case ev of
                EV_USER \<Rightarrow>
                  if x \<le> threshold thr p1 then continue_touch thr x (p1\<lparr>pstate := ST_CON\<rparr>)
                  else
                    let p2 = p1\<lparr>pstate := ST_DIS_DOWN, ts_dis := update_hist_int x (ts_dis p1)\<rparr>
                    in (threshold thr p2, p2)
              | EV_TIMER \<Rightarrow> (INVAL_TIME, p1\<lparr>pstate := ST_DIS_UP\<rparr>))
      | ST_DIS_DOWN \<Rightarrow>
          (case ev of EV_USER \<Rightarrow> continue_touch thr x (p\<lparr>pstate := ST_CON\<rparr>)
           | EV_TIMER \<Rightarrow> predict_int thr (p\<lparr>pstate := ST_DIS\<rparr>))
      | ST_DIS_UP \<Rightarrow>
          (case ev of
             EV_USER \<Rightarrow>
               let p1 = p\<lparr>pstate := ST_CON, ts_dis := update_hist_int x (ts_dis p)\<rparr>
               in (threshold thr p1, p1)
           | EV_TIMER \<Rightarrow> (INVAL_TIME, p\<lparr>invalid_events := invalid_events p + 1\<rparr>)))"

text \<open>The inner loop: the timers that pass before the next touch.\<close>

partial_function (option) timer_loop ::
  "thresholds \<Rightarrow> double \<Rightarrow> double \<Rightarrow> predictor \<Rightarrow> (double \<times> double \<times> predictor) option" where
  "timer_loop thr log_int timeout p =
     (if log_int > timeout then
        let rest = dsub log_int timeout; (timeout', p') = transfer thr EV_TIMER (dadd rest timeout) p
        in timer_loop thr rest timeout' p'
      else Some (log_int, timeout, p))"

text \<open>The loop over the intervals that \<open>scanf\<close> reads.\<close>

fun touch_loop :: "thresholds \<Rightarrow> double list \<Rightarrow> double \<Rightarrow> predictor \<Rightarrow> (double \<times> predictor) option" where
  "touch_loop thr [] timeout p = Some (timeout, p)"
| "touch_loop thr (log_int # xs) timeout p =
     (case timer_loop thr log_int timeout p of
        None \<Rightarrow> None
      | Some (rest, _, p1) \<Rightarrow>
          let (timeout', p2) = transfer thr EV_USER rest p1 in touch_loop thr xs timeout' p2)"

definition predictor_init :: predictor where
  "predictor_init =
     \<lparr>ts_con = ADAFS_TOUCH_STATE_INIT INT_LEN_BITS, ts_dis = ADAFS_TOUCH_STATE_INIT INT_LEN_BITS,
      pstate = ST_CON, num_conflicts = 0, num_preds = 0, pred_len = 0, invalid_events = 0\<rparr>"

definition int_pred_main ::
  "int \<Rightarrow> thresholds \<Rightarrow> double list \<Rightarrow> (int + int \<times> int \<times> double \<times> quot) option" where
  "int_pred_main argc thr xs =
     (if argc \<noteq> 4 then Some (Inl (- 1))
      else case touch_loop thr xs (THR_INT thr) predictor_init of
             None \<Rightarrow> None
           | Some (_, p) \<Rightarrow>
               Some (Inr (num_conflicts p, num_preds p, pred_len p, quotient (pred_len p) (of_int (num_preds p)))))"

section \<open>The timers of one interval\<close>

lemma timer_loop_stop: "log_int \<le> timeout \<Longrightarrow> timer_loop thr log_int timeout p = Some (log_int, timeout, p)"
  by (subst timer_loop.simps) simp

lemma timer_loop_next:
  "timeout < log_int \<Longrightarrow> timer_loop thr log_int timeout p =
     (case transfer thr EV_TIMER (dadd (dsub log_int timeout) timeout) p of
        (t, p') \<Rightarrow> timer_loop thr (dsub log_int timeout) t p')"
  by (subst timer_loop.simps) (simp add: Let_def)

text \<open>What holds whenever an event is awaited: in \<open>ST_DIS\<close> the timeout is the prediction, and the
  counters are consistent.\<close>

definition waiting :: "double \<Rightarrow> predictor \<Rightarrow> bool" where
  "waiting timeout p \<longleftrightarrow> (pstate p = ST_DIS \<longrightarrow> timeout = timer (ts_dis p) \<and> representable timeout) \<and>
     (pstate p = ST_DIS_UP \<longrightarrow> timeout = INVAL_TIME) \<and>
     0 \<le> num_conflicts p \<and> num_conflicts p \<le> num_preds p"

lemma transfer_waiting:
  assumes "waiting timeout p" and "transfer thr ev x p = (t, p')" and "representable (THR_INT thr)"
  shows "waiting t p'"
  using assms
  by (auto simp: transfer_def waiting_def continue_touch_def predict_int_def update_timer_def rec_result_def Let_def
      split: pstate.splits pevent.splits if_splits)

text \<open>What is left of an interval and the timeout that has passed add up to no less than the timeout,
  rounded as they are; so a timer in \<open>ST_DIS\<close> is never a conflict.\<close>

lemma rest_ge:
  assumes "timeout < log_int" and "representable timeout"
  shows "timeout \<le> dadd (dsub log_int timeout) timeout"
proof -
  have "0 \<le> dsub log_int timeout" using assms(1) by (intro dbl_sign) simp
  then have "dbl timeout \<le> dadd (dsub log_int timeout) timeout" by (intro dbl_mono) simp
  then show ?thesis using assms(2) by (simp add: representable_def)
qed

lemma timer_no_conflict:
  assumes "waiting timeout p" and "timeout < log_int" and "transfer thr EV_TIMER (dadd (dsub log_int timeout) timeout) p = (t, p')"
  shows "num_conflicts p' = num_conflicts p"
  using assms rest_ge [OF assms(2)]
  by (auto simp: transfer_def waiting_def predict_int_def rec_result_def Let_def split: pstate.splits)

definition settles :: "thresholds \<Rightarrow> double \<Rightarrow> double \<Rightarrow> predictor \<Rightarrow> bool" where
  "settles thr log_int timeout p \<longleftrightarrow>
     (\<exists>r t p'. timer_loop thr log_int timeout p = Some (r, t, p') \<and> r \<le> t \<and> waiting t p' \<and>
        num_conflicts p' = num_conflicts p)"

lemma settles_stop: "waiting timeout p \<Longrightarrow> log_int \<le> timeout \<Longrightarrow> settles thr log_int timeout p"
  by (simp add: settles_def timer_loop_stop)

lemma settles_step:
  assumes "waiting timeout p" and "representable (THR_INT thr)"
    and "\<And>x t p'. timeout < log_int \<Longrightarrow> transfer thr EV_TIMER x p = (t, p') \<Longrightarrow> waiting t p' \<Longrightarrow>
      settles thr (dsub log_int timeout) t p'"
  shows "settles thr log_int timeout p"
proof (cases "log_int \<le> timeout")
  case True
  then show ?thesis by (rule settles_stop [OF assms(1)])
next
  case False
  then have lt: "timeout < log_int" by simp
  obtain t p' where t: "transfer thr EV_TIMER (dadd (dsub log_int timeout) timeout) p = (t, p')" by force
  then have "settles thr (dsub log_int timeout) t p'" "num_conflicts p' = num_conflicts p"
    using assms(3) [OF lt] transfer_waiting [OF assms(1) t assms(2)] timer_no_conflict [OF assms(1) lt t] by auto
  then show ?thesis using lt t by (simp add: settles_def timer_loop_next)
qed

text \<open>In \<open>ST_DIS_UP\<close> every timer takes 1024 from what is left, less the rounding.\<close>

lemma dsub_1024:
  assumes "1024 < x" and "x \<le> 2 ^ 53"
  shows "dsub x 1024 \<le> x - 1023" and "dsub x 1024 \<le> 2 ^ 53"
proof -
  have "\<bar>dsub x 1024 - (x - 1024)\<bar> \<le> \<bar>x - 1024\<bar> / 2 ^ 53" by (rule dbl_error)
  also have "\<dots> \<le> 1" using assms by (simp add: field_simps)
  finally show "dsub x 1024 \<le> x - 1023" unfolding abs_le_iff by linarith
  then show "dsub x 1024 \<le> 2 ^ 53" using assms by linarith
qed

lemma settles_up:
  assumes "waiting timeout p" and "pstate p = ST_DIS_UP" and "representable (THR_INT thr)"
    and "log_int \<le> 2 ^ 53" and "log_int \<le> 1023 * of_nat n"
  shows "settles thr log_int timeout p"
  using assms(1,2,4,5)
proof (induction n arbitrary: log_int p timeout)
  case 0
  then show ?case by (intro settles_stop) (simp_all add: waiting_def INVAL_TIME_def)
next
  case (Suc n)
  have to: "timeout = 1024" using Suc.prems(1,2) by (simp add: waiting_def INVAL_TIME_def)
  show ?case
  proof (rule settles_step [OF Suc.prems(1) assms(3)])
    fix x t p' assume lt: "timeout < log_int" and t: "transfer thr EV_TIMER x p = (t, p')" and w: "waiting t p'"
    have "pstate p' = ST_DIS_UP" using Suc.prems(2) t by (auto simp: transfer_def)
    moreover have "dsub log_int timeout \<le> log_int - 1023" "dsub log_int timeout \<le> 2 ^ 53"
      using dsub_1024 [of log_int] lt Suc.prems(3) unfolding to by simp_all
    ultimately show "settles thr (dsub log_int timeout) t p'"
      using Suc.IH [OF w] Suc.prems(4) by (simp add: algebra_simps)
  qed
qed

lemma settles_up_any:
  assumes "waiting timeout p" and "pstate p = ST_DIS_UP" and "representable (THR_INT thr)" and "log_int \<le> 2 ^ 53"
  shows "settles thr log_int timeout p"
proof -
  obtain n where "log_int / 1023 \<le> of_nat n" using real_arch_simple by blast
  then have "log_int \<le> 1023 * of_nat n" by (simp add: field_simps)
  then show ?thesis using settles_up [OF assms] by blast
qed

text \<open>The other states reach it with at most two timers.\<close>

lemma settles_dis:
  assumes "waiting timeout p" and "pstate p = ST_DIS" and "representable (THR_INT thr)" and "dsub log_int timeout \<le> 2 ^ 53"
  shows "settles thr log_int timeout p"
proof (rule settles_step [OF assms(1,3)])
  fix x t p' assume t: "transfer thr EV_TIMER x p = (t, p')" and w: "waiting t p'"
  have "pstate p' = ST_DIS_UP" using assms(2) t by (auto simp: transfer_def Let_def)
  then show "settles thr (dsub log_int timeout) t p'" using settles_up_any [OF w _ assms(3,4)] by blast
qed

definition predicted :: "thresholds \<Rightarrow> predictor \<Rightarrow> double" where
  "predicted thr p = timer (update_timer thr (ts_dis p))"

lemma settles_bounded:
  assumes "waiting timeout p" and "representable (THR_INT thr)" and "0 \<le> timeout" and "0 \<le> predicted thr p"
    and "log_int \<le> 2 ^ 53"
  shows "settles thr log_int timeout p"
proof -
  have "\<bar>(2 :: int) ^ 53\<bar> \<le> 2 ^ 53" by simp
  then have top: "dbl (2 ^ 53) = 2 ^ 53" using dbl_int by (metis of_int_numeral of_int_power)
  have le: "dsub x y \<le> 2 ^ 53" if "x \<le> 2 ^ 53" "0 \<le> y" for x y
  proof -
    have "x - y \<le> 2 ^ 53" using that by linarith
    then have "dsub x y \<le> dbl (2 ^ 53)" by (rule dbl_mono)
    then show ?thesis unfolding top .
  qed
  consider "pstate p = ST_DIS" | "pstate p = ST_DIS_UP" | "pstate p \<in> {ST_CON, ST_DIS_DOWN}" by (cases "pstate p") auto
  then show ?thesis
  proof cases
    case 1
    then show ?thesis using settles_dis [OF assms(1) _ assms(2)] le assms(3,5) by blast
  next
    case 2
    then show ?thesis using settles_up_any [OF assms(1) _ assms(2,5)] by blast
  next
    case 3
    show ?thesis
    proof (rule settles_step [OF assms(1,2)])
      fix x t p' assume t: "transfer thr EV_TIMER x p = (t, p')" and w: "waiting t p'"
      have "pstate p' = ST_DIS" "t = predicted thr p"
        using 3 t by (auto simp: transfer_def predict_int_def predicted_def Let_def split: pstate.splits)
      then show "settles thr (dsub log_int timeout) t p'"
        using settles_dis [OF w _ assms(2)] le assms(3-5) by blast
    qed
  qed
qed

section \<open>Where the timers end\<close>

text \<open>The loop over the timers of an interval ends: if the threshold, the timeout and the predicted
  time are not negative and the interval is at most \<open>2 ^ 53\<close>, two timers lead to the state without
  prediction, whose timeout is positive and large enough not to be lost in rounding.  No conflict is
  counted for a timer, so that the conflicts number at most the predictions.\<close>

theorem touch_timers_return:
  assumes "representable (THR_INT thr)" and "waiting timeout p" and "0 \<le> timeout" and "0 \<le> predicted thr p"
    and "log_int \<le> 2 ^ 53"
  shows "\<exists>r t p1 t' p2. timer_loop thr log_int timeout p = Some (r, t, p1) \<and> r \<le> t \<and> num_conflicts p1 = num_conflicts p \<and>
     transfer thr EV_USER r p1 = (t', p2) \<and> waiting t' p2 \<and> num_conflicts p2 \<le> num_preds p2"
proof -
  obtain r t p1 where l: "timer_loop thr log_int timeout p = Some (r, t, p1)" "r \<le> t" "waiting t p1" "num_conflicts p1 = num_conflicts p"
    using settles_bounded [OF assms(2,1,3-5)] by (auto simp: settles_def)
  obtain t' p2 where u: "transfer thr EV_USER r p1 = (t', p2)" by force
  have "waiting t' p2" by (rule transfer_waiting [OF l(3) u assms(1)])
  then show ?thesis using l u by (auto simp: waiting_def)
qed

lemma waiting_init: "waiting (THR_INT thr) predictor_init"
  by (simp add: waiting_def predictor_init_def)

text \<open>An interval so long that 1024 is less than half a unit in its last place is not shortened by a timer:
  the loop never ends.\<close>

lemma long_interval_hangs:
  assumes "pstate p = ST_DIS_UP"
  shows "timer_loop thr (2 ^ 64) 1024 p = None"
proof -
  have d: "dsub (2 ^ 64) 1024 = 2 ^ 64" by code_simp
  define stuck where "stuck = (\<lambda>(thr :: thresholds) (log_int :: double) timeout (p :: predictor) (r :: double \<times> double \<times> predictor).
      \<not> (log_int = 2 ^ 64 \<and> timeout = (1024 :: double) \<and> pstate p = ST_DIS_UP))"
  have "stuck thr log_int timeout p r" if "timer_loop thr log_int timeout p = Some r" for thr log_int timeout p r
  proof (rule timer_loop.raw_induct [where P = stuck, OF _ that])
    fix loop thr log_int timeout p r
    assume IH: "\<And>thr log_int timeout p r. loop thr log_int timeout p = Some r \<Longrightarrow> stuck thr log_int timeout p r"
      and l: "(if timeout < log_int then let rest = dsub log_int timeout; (t, p') = transfer thr EV_TIMER (dadd rest timeout) p
                 in loop thr rest t p' else Some (log_int, timeout, p)) = Some r"
    show "stuck thr log_int timeout p r"
      using l IH [of thr "2 ^ 64" 1024 "p\<lparr>invalid_events := invalid_events p + 1\<rparr>" r] d
      by (auto simp: stuck_def transfer_def Let_def INVAL_TIME_def)
  qed
  then show ?thesis using assms by (cases "timer_loop thr (2 ^ 64) 1024 p") (auto simp: stuck_def)
qed

end
