(* ===== verification/Baseline.thy ===== *)
theory Baseline
  imports Prelude
begin

text \<open>
  The baseline programs, \<^verbatim>\<open>baseline/\<close>: the snapshot request of \<^verbatim>\<open>btrfs_snap.h\<close> over the answers of the
  system calls, and the write loops of \<^verbatim>\<open>baseline-bench.c\<close> and \<^verbatim>\<open>baseline-simu.c\<close> with what survives the
  removal of the card.  The lemmas say when a snapshot was made and evaluate the runs that the
  comments describe.
\<close>

section \<open>Snapshots\<close>

definition BTRFS_VOL_NAME_MAX :: nat where "BTRFS_VOL_NAME_MAX = 255"

text \<open>The answers of the system calls: inode number and directory flag of \<open>stat\<close>, the descriptor under
  a directory stream, the result of \<open>open\<close>, and of the snapshot request.\<close>

record syscalls =
  sys_stat :: "string \<Rightarrow> (nat \<times> bool) option"
  sys_opendir :: "string \<Rightarrow> int option"
  sys_open :: "string \<Rightarrow> int"
  sys_snap :: "int \<Rightarrow> int \<Rightarrow> string \<Rightarrow> int"

definition open_file_or_dir :: "syscalls \<Rightarrow> string \<Rightarrow> int" where
  "open_file_or_dir S fname =
     (case sys_stat S fname of
        None \<Rightarrow> - 1
      | Some (_, isdir) \<Rightarrow>
          if isdir then
            (case sys_opendir S fname of None \<Rightarrow> - 2 | Some fd \<Rightarrow> if fd < 0 then - 3 else fd)
          else let fd = sys_open S fname in if fd < 0 then - 3 else fd)"

definition test_issubvolume :: "syscalls \<Rightarrow> string \<Rightarrow> int" where
  "test_issubvolume S path =
     (case sys_stat S path of None \<Rightarrow> - 1 | Some (ino, isdir) \<Rightarrow> if ino = 256 \<and> isdir then 1 else 0)"

definition test_isdir :: "syscalls \<Rightarrow> string \<Rightarrow> int" where
  "test_isdir S path = (case sys_stat S path of None \<Rightarrow> - 1 | Some (_, isdir) \<Rightarrow> if isdir then 1 else 0)"

text \<open>The functions of the C library: trailing slashes do not count.\<close>

definition no_slash :: "char \<Rightarrow> bool" where "no_slash c \<longleftrightarrow> c \<noteq> CHR ''/''"

definition strip_slashes :: "string \<Rightarrow> string" where
  "strip_slashes s = rev (dropWhile (\<lambda>c. \<not> no_slash c) (rev s))"

definition basename :: "string \<Rightarrow> string" where
  "basename s =
     (if s = [] then ''.'' else let t = strip_slashes s in
      if t = [] then ''/'' else rev (takeWhile no_slash (rev t)))"

definition dirname :: "string \<Rightarrow> string" where
  "dirname s =
     (let t = strip_slashes s; d = strip_slashes (rev (dropWhile no_slash (rev t)))
      in if d = [] then if s \<noteq> [] \<and> \<not> no_slash (hd s) then ''/'' else ''.'' else d)"

text \<open>The result, the descriptors closed and the snapshots made.\<close>

definition btrfs_snap :: "syscalls \<Rightarrow> string \<Rightarrow> string \<Rightarrow> int \<times> int list \<times> string list" where
  "btrfs_snap S subvol dst =
     (let out = (\<lambda>ret fd fddst snaps. (ret, filter (\<lambda>f. f \<noteq> - 1) [fd, fddst], snaps));
          ret0 = test_issubvolume S subvol
      in if ret0 < 0 then out 12 (- 1) (- 1) []
         else if ret0 = 0 then out 13 (- 1) (- 1) []
         else
           let fd = open_file_or_dir S subvol; ret = test_isdir S dst
           in if ret = 0 then out ret fd (- 1) []
              else
                let (newname, dstdir) =
                      (if ret > 0 then (basename subvol, dst) else (basename dst, dirname dst))
                in if newname = ''.'' \<or> newname = ''..'' \<or> CHR ''/'' \<in> set newname then out ret fd (- 1) []
                   else if length newname = 0 \<or> length newname \<ge> BTRFS_VOL_NAME_MAX then out ret fd (- 1) []
                   else
                     let fddst = open_file_or_dir S dstdir
                     in if fddst < 0 then out ret fd fddst []
                        else
                          let r = sys_snap S fddst fd newname
                          in if r < 0 then out r fd fddst [] else out 0 fd fddst [newname])"

lemma basename_plain:
  "CHR ''/'' \<in> set (basename s) \<longleftrightarrow> s \<noteq> [] \<and> strip_slashes s = []"
  by (auto simp: basename_def Let_def no_slash_def dest: set_takeWhileD)

text \<open>The result 0 means that a snapshot was made, or that the destination exists and is no directory.\<close>

lemma snap_zero:
  assumes "btrfs_snap S subvol dst = (0, cl, snaps)"
  shows "length snaps = 1 \<or> (\<exists>ino. sys_stat S dst = Some (ino, False))"
  using assms
  by (auto simp: btrfs_snap_def Let_def test_isdir_def test_issubvolume_def
      split: option.splits if_splits prod.splits)

lemma snap_name:
  assumes "btrfs_snap S subvol dst = (r, cl, snaps)" and "n \<in> set snaps"
  shows "r = 0 \<and> CHR ''/'' \<notin> set n \<and> 0 < length n \<and> length n < BTRFS_VOL_NAME_MAX"
  using assms by (auto simp: btrfs_snap_def Let_def split: option.splits if_splits prod.splits)

section \<open>The benchmark loops\<close>

text \<open>The file and what a removal would leave of it: the letter written in the current round and the
  letter at the last \<open>fsync\<close>.\<close>

record medium =
  md_data :: "char option"
  md_durable :: "char option"

definition write_round :: "nat \<Rightarrow> bool \<Rightarrow> medium \<Rightarrow> medium" where
  "write_round i sync m =
     (let m1 = m\<lparr>md_data := Some (char_of (i + of_char CHR ''a''))\<rparr>
      in if sync then m1\<lparr>md_durable := md_data m1\<rparr> else m1)"

definition bench_sync :: "nat \<Rightarrow> bool" where
  "bench_sync i \<longleftrightarrow> i mod 2 \<noteq> 0"

definition simu_sync :: "int \<Rightarrow> nat \<Rightarrow> bool" where
  "simu_sync mode i \<longleftrightarrow>
     (if mode = 0 \<and> i mod 2 = 1 then True
      else if mode = 1 \<and> i mod 4 = 3 then True
      else mode = 2 \<and> i mod 4 = 3)"

definition rounds :: "(nat \<Rightarrow> bool) \<Rightarrow> nat \<Rightarrow> medium" where
  "rounds sync k = foldl (\<lambda>m i. write_round i (sync i) m) \<lparr>md_data = None, md_durable = None\<rparr> [0..<k]"

lemma rounds_Suc: "rounds sync (Suc k) = write_round k (sync k) (rounds sync k)"
  by (simp add: rounds_def)

text \<open>What is durable after some lines of output is what the last synchronised round wrote.\<close>

lemma rounds_durable:
  "md_durable (rounds sync k) =
     (case filter sync [0..<k] of [] \<Rightarrow> None | is \<Rightarrow> Some (char_of (last is + 97)))"
proof (induction k)
  case 0
  then show ?case by (simp add: rounds_def)
next
  case (Suc k)
  then show ?case by (auto simp: rounds_Suc write_round_def Let_def split: list.splits)
qed

lemma documented_runs:
  "md_durable (rounds (simu_sync 1) 6) = Some CHR ''d''"
  "md_durable (rounds (simu_sync 0) 6) = Some CHR ''f''"
  "md_data (rounds (simu_sync 1) 16) = Some CHR ''p''"
  "md_data (rounds bench_sync 16) = Some CHR ''p''"
  by code_simp+

end
