(* ===== verification/Spec2Isabelle.thy ===== *)
theory Spec2Isabelle
  imports Log_Sort Ada_File_Correct Sysfs Uhlist Uatomic Policy_Util Ramfs Ext4_Correct Btr_Adafs Ext4_Hash Ext4_Tree_Grow Btrfs_Extent_Map Trace_Analyser Opt_Loc Int_Pred Baseline
begin

text \<open>
  Sestet: AdaFS, an adaptive RAM-flash file system layer for mobile devices, and the programs that
  come with it.

  \<^bold>\<open>The program.\<close>  AdaFS sits between the page cache and a disk file system.  The write path logs every
  page it changes in a circular log in memory; a policy seals the open transaction of the log; a
  kernel thread takes sealed transactions, sorts and merges their entries so that only the newest
  version of every page is left, and hands these to the disk file system inside one journal
  transaction per inode.  A reverse map from pages to log entries tells the hooks whether a page is
  new, still in the open transaction (the entry is updated in place) or already sealed (the page is
  copied first).

  \<^bold>\<open>Conventions.\<close>  Machine words keep their width (\<open>u8\<close>, \<open>u32\<close>, \<open>u64\<close>, \<open>ptr\<close>), the data model is LP64, kernel
  error codes are negative integers.  A failed assertion, the use of a pointer to nothing, and a loop
  that does not return inside code that is otherwise total are the values \<open>BUG\<close>, \<open>BAD_POINTER\<close> and \<open>HANG\<close> of
  \<open>fault\<close>, and a computation that can fault has type \<open>fault + 'a\<close>.  Loops that may run forever are partial
  functions with result \<open>None\<close>; every other loop has a termination proof, so no fuel is chosen
  anywhere.  A critical section is one step; locks are not part of the states.  Functions of the kernel, the
  block layer and the journal that are not in this repository are records of functions that the
  definitions take as arguments, and what the theorems rely on is a named predicate on the record
  with an instance that satisfies it.

  \<^bold>\<open>The core of AdaFS.\<close>
    \<^item> \<^verbatim>\<open>Prelude\<close>: word types, faults, \<open>and_then\<close>, shared lemmas.
    \<^item> \<^verbatim>\<open>Log_Entry\<close> (\<^verbatim>\<open>ada_log.h\<close>, \<^verbatim>\<open>ada_sys.h\<close>): the packed log entry, its bit fields and the sequence
      numbers; \<^verbatim>\<open>Log\<close>: the circular log, its transactions, append, seal and the first half of \<open>log_flush\<close>.
      The invariant (transactions tile the live window) holds in every state that any order of the
      critical sections reaches; append refines a bounded queue (locale \<open>bounded_fifo\<close>).
    \<^item> \<^verbatim>\<open>Log_Sort\<close> (\<^verbatim>\<open>ada_log.c\<close>, \<open>__log_sort\<close> and its helpers): the quicksort with an explicit stack.  It always
      returns, permutes its window and sorts it if it reports 0; where it does not.
    \<^item> \<^verbatim>\<open>Shashtable\<close> (\<^verbatim>\<open>shashtable.h\<close>) and \<^verbatim>\<open>Rlog\<close> (\<^verbatim>\<open>ada_rlog.h\<close>): the hash table and the reverse map, as a keyed
      index (locales \<open>keyed_index\<close> and \<open>growing_index\<close>).
    \<^item> \<^verbatim>\<open>Log_Flush\<close> (\<^verbatim>\<open>ada_log.c\<close>, \<open>__merge_flush\<close>, \<open>log_flush\<close>): the flusher over an arbitrary device.  \<^verbatim>\<open>Flush_Refine\<close>
      shows that it refines a flush of the list of entries; \<^verbatim>\<open>Flush_Correct\<close> that merging keeps the newest
      versions, that the calls of a flush follow a protocol (the step relation \<open>dev_step\<close> on the phases
      of a transaction) and stop it only where a call of the protocol fails (\<open>dev_faults\<close>), that it otherwise
      retires its window, and which errors get lost.  Nothing is assumed of the device or the kernel there.
    \<^item> \<^verbatim>\<open>Policy\<close> (\<^verbatim>\<open>ada_policy.h\<close>, \<^verbatim>\<open>ada_policy_stal_limit.h\<close>): the hooks of a policy (locale \<open>policy\<close>) and the staleness
      policy with its counters.
    \<^item> \<^verbatim>\<open>Hooks\<close> (\<^verbatim>\<open>ada_fs.h\<close>): the hooks that the host file system calls.  \<^verbatim>\<open>Hooks_Inv\<close> couples log and reverse
      map; \<^verbatim>\<open>Hooks_Write\<close>, \<^verbatim>\<open>Hooks_Truncate\<close> and \<^verbatim>\<open>Hooks_Errors\<close> show what writing, truncating, creating and
      evicting do to both, interrupted waits included.
    \<^item> \<^verbatim>\<open>Ada_File\<close> (\<^verbatim>\<open>ada_file.c\<close>): module set-up and tear-down, the write path; \<^verbatim>\<open>Flusher\<close>: the flusher thread and
      the wait for room; \<^verbatim>\<open>Ada_File_Correct\<close>: the theorems on them; \<^verbatim>\<open>Sysfs\<close> (\<^verbatim>\<open>ada_log.c\<close>): the attributes.
    \<^item> \<^verbatim>\<open>Ulist\<close>, \<^verbatim>\<open>Uhlist\<close> (\<^verbatim>\<open>ulist.h\<close>): circular lists and hash chains over an explicit heap, in which an access
      through null is a fault, refining sequences (locale \<open>intrusive_list\<close>); \<^verbatim>\<open>Uatomic\<close> (\<^verbatim>\<open>uatomic.h\<close>): the atomic counters.

  \<^bold>\<open>The host file systems.\<close>
    \<^item> \<^verbatim>\<open>Ramfs\<close> (\<^verbatim>\<open>inode.c\<close>, \<^verbatim>\<open>file.c\<close>): the memory file system, as calls to a kernel whose answers are an arbitrary
      function of the calls so far.  Creation is all or nothing; mounting unwinds.
    \<^item> \<^verbatim>\<open>Ext4_Journal\<close> (\<^verbatim>\<open>ext4/ext4_jbd2.h\<close>, \<^verbatim>\<open>ext4/ext4_jbd2.c\<close>, \<^verbatim>\<open>ext4/super.c\<close>), \<^verbatim>\<open>Ext4_Adafs\<close> (\<^verbatim>\<open>ext4/ext4-adafs.c\<close>
      and the paths of \<^verbatim>\<open>ext4/inode.c\<close>, \<^verbatim>\<open>page-io.c\<close> and \<^verbatim>\<open>fsync.c\<close> it uses): what AdaFS installs on ext4.
      \<^verbatim>\<open>Ext4_Correct\<close> shows that a flush needs a journal, which pages are refused, and when waiting returns, and
      runs a flush through these operations.
    \<^item> \<^verbatim>\<open>Btr_Adafs\<close> (\<^verbatim>\<open>btrfs/btr-adafs.c\<close>): the stub on btrfs.
    \<^item> \<^verbatim>\<open>Ext4_Hash\<close> (\<^verbatim>\<open>ext4/hash.c\<close>): the directory hashes, their range and the agreement of the signed and
      unsigned versions.
    \<^item> \<^verbatim>\<open>Ext4_Layout\<close> (\<^verbatim>\<open>ext4/inode.c\<close>, \<^verbatim>\<open>balloc.c\<close>, \<^verbatim>\<open>dir.c\<close>, \<^verbatim>\<open>ext4.h\<close>): paths of offsets to a block, block groups and
      their super block copies, record lengths and time stamps; which of these are read back as written.
    \<^item> \<^verbatim>\<open>Rb_Tree\<close>: the loops that walk down the kernel's red-black trees, over any balancing that keeps the
      order (\<open>rb_law\<close>); \<^verbatim>\<open>Ext4_Zones\<close> (\<^verbatim>\<open>ext4/block_validity.c\<close>): the zones of metadata blocks as a set of blocks,
      set up from the layout of the groups by an allocator that may fail, and offered to the rest as a guard
      (locale \<open>block_guard\<close>);
      \<^verbatim>\<open>Btrfs_Extent_Map\<close> (\<^verbatim>\<open>btrfs/extent_map.c\<close>): the extent cache as a function from offsets to disk addresses.
    \<^item> \<^verbatim>\<open>Ext4_Extents\<close> (\<^verbatim>\<open>ext4/extents.c\<close>, \<^verbatim>\<open>ext4_extents.h\<close>): extent trees as maps from the blocks of a file to blocks on
      disk.  Searching a tree of any depth looks a block up; cutting, inserting and merging in a leaf update the
      map; the cached extent stays true; a block of the tree that passes the check (locale
      \<open>entry_check\<close>) points to no zone of \<^verbatim>\<open>Ext4_Zones\<close>.
      \<^verbatim>\<open>Ext4_Tree_Grow\<close>: a tree that grows in depth keeps its map.

  \<^bold>\<open>The programs for traces and measurements.\<close>
    \<^item> \<^verbatim>\<open>Double\<close>: the \<open>double\<close> of C, rounded to 53 bits after every operation, with unbounded exponents.
    \<^item> \<^verbatim>\<open>Policy_Util\<close> (\<^verbatim>\<open>ada_policy_util.h\<close>, \<^verbatim>\<open>utrace/comp_int_pred.c\<close>): histories, running sums and the incremental
      line fit, exact as long as the data lie on a coarse enough grid, and their drift otherwise; \<^verbatim>\<open>Opt_Loc\<close>
      (\<^verbatim>\<open>utrace/test_opt_loc.c\<close>): the same fit beside the routine of the GSL, and the line the locator answers
      with; \<^verbatim>\<open>Int_Pred\<close> (\<^verbatim>\<open>utrace/test_int_pred.c\<close>): the touch predictor, and when the loop over its timers ends.
    \<^item> \<^verbatim>\<open>Trace_Analyser\<close> (\<^verbatim>\<open>trace/analyser.cpp\<close>): merging a trace into disjoint ranges; \<^verbatim>\<open>Baseline\<close> (\<^verbatim>\<open>baseline/\<close>): the
      snapshot request and the write loops.

  \<^bold>\<open>How the parts meet.\<close>  The flusher of \<^verbatim>\<open>Log_Flush\<close> is used by \<^verbatim>\<open>Flusher\<close> for the thread and by \<^verbatim>\<open>Ext4_Correct\<close>
  with the operations of ext4 installed; \<^verbatim>\<open>Hooks\<close> works on the states of \<^verbatim>\<open>Log\<close>, \<^verbatim>\<open>Rlog\<close> and \<^verbatim>\<open>Policy\<close>, and
  \<^verbatim>\<open>Ada_File\<close> calls the hooks from the write path.  \<^verbatim>\<open>Ext4_Zones\<close> takes the position of a group's metadata from
  \<^verbatim>\<open>Ext4_Layout\<close> and is what \<^verbatim>\<open>Ext4_Extents\<close> checks leaves against.

  \<^bold>\<open>Not modelled.\<close>  The locks, the memory order of the processors and preemption inside a critical section
  or inside a flush; overflow and underflow of doubles; the rest of ext4 and btrfs, which are the kernel's own file systems and reach AdaFS
  only through the functions listed above (splitting and shortening extent trees and converting their entries,
  block and inode allocation, directories, extended attributes, resizing, mount options, and for btrfs its trees, checksums, compression, snapshots and
  volumes); the tables of function pointers of \<^verbatim>\<open>file.c\<close>, which have no behaviour of their own; the part of
  \<^verbatim>\<open>baseline/monitor.h\<close> that only reads clocks and files of the kernel; scripts, plots and makefiles.
\<close>

end
